(* ===== verification/Prelude.thy ===== *)
theory Prelude
  imports Main "HOL-Library.Word" "HOL-Library.Sublist"
begin

text \<open>
  Shared vocabulary of the development: the machine integers, byte strings and I/O errors of the
  Rust sources, the parts of Rust's \<^verbatim>\<open>core\<close> and \<^verbatim>\<open>std\<close> that the crates
  under \<^verbatim>\<open>src/crates\<close> call on slices, strings and integers, and the generic lemmas
  about them that the component theories use.

  A Rust \<^verbatim>\<open>String\<close> or \<^verbatim>\<open>&str\<close> is the list of its UTF-8 bytes, so that
  \<^verbatim>\<open>len()\<close> is \<^const>\<open>length\<close> and byte offsets are list positions; that the bytes
  are well-formed UTF-8 is a predicate (theory \<^verbatim>\<open>Utf8\<close>), stated where a result depends on it.
  An \<^verbatim>\<open>io::Error\<close> is its kind and its message, the message being the unrendered pieces of the
  \<^verbatim>\<open>format!\<close> call.
\<close>

unbundle bit_operations_syntax

named_theorems byte_simps \<open>evaluation of byte literals and of ASCII predicates on them\<close>
named_theorems codec_simps \<open>definitions of the codec operations, for case analysis of their branches\<close>

subsection \<open>Types\<close>

type_synonym u8 = "8 word"
type_synonym u16 = "16 word"
type_synonym u32 = "32 word"
type_synonym u64 = "64 word"
type_synonym str = "8 word list"
type_synonym header = "8 word list \<times> 8 word list"

definition bs :: "string \<Rightarrow> str" where
  "bs s = map of_char s"

declare bs_def [byte_simps]

abbreviation CR :: u8 where "CR \<equiv> 13"
abbreviation LF :: u8 where "LF \<equiv> 10"
abbreviation CRLF :: str where "CRLF \<equiv> [13, 10]"

subsection \<open>I/O errors\<close>

datatype error_kind =
    InvalidData
  | InvalidInput
  | PermissionDenied
  | NetworkUnreachable
  | HostUnreachable
  | ConnectionRefused
  | ConnectionReset
  | ConnectionAborted
  | TimedOut
  | Unsupported
  | UnexpectedEof
  | BrokenPipe
  | WriteZero
  | WouldBlock
  | OtherKind

datatype io_error = IoError (err_kind: error_kind) (err_msg: "fmt list")
  and fmt =
    Lit string
  | Hex2 u8
  | Num nat
  | Disp str
  | Debug str
  | DispErr io_error

type_synonym 'a io_result = "io_error + 'a"

text \<open>A computation that may panic; \<^verbatim>\<open>panic = "abort"\<close> makes a panic end the module.\<close>

datatype 'a outcome = Panic | Return 'a

text \<open>The result of polling a future.\<close>

datatype 'a poll = Pending | Ready 'a

subsection \<open>ASCII\<close>

definition is_ascii_uppercase :: "u8 \<Rightarrow> bool" where
  "is_ascii_uppercase b \<longleftrightarrow> 65 \<le> b \<and> b \<le> 90"

definition is_ascii_lowercase :: "u8 \<Rightarrow> bool" where
  "is_ascii_lowercase b \<longleftrightarrow> 97 \<le> b \<and> b \<le> 122"

definition is_ascii_digit :: "u8 \<Rightarrow> bool" where
  "is_ascii_digit b \<longleftrightarrow> 48 \<le> b \<and> b \<le> 57"

definition is_ascii_alphabetic :: "u8 \<Rightarrow> bool" where
  "is_ascii_alphabetic b \<longleftrightarrow> is_ascii_uppercase b \<or> is_ascii_lowercase b"

definition is_ascii_alphanumeric :: "u8 \<Rightarrow> bool" where
  "is_ascii_alphanumeric b \<longleftrightarrow> is_ascii_alphabetic b \<or> is_ascii_digit b"

definition is_ascii_hexdigit :: "u8 \<Rightarrow> bool" where
  "is_ascii_hexdigit b \<longleftrightarrow> is_ascii_digit b \<or> (65 \<le> b \<and> b \<le> 70) \<or> (97 \<le> b \<and> b \<le> 102)"

definition to_lower :: "u8 \<Rightarrow> u8" where
  "to_lower b = (if is_ascii_uppercase b then b + 32 else b)"

definition to_ascii_lowercase :: "str \<Rightarrow> str" where
  "to_ascii_lowercase s = map to_lower s"

definition to_ascii_uppercase :: "str \<Rightarrow> str" where
  "to_ascii_uppercase s = map (\<lambda>b. if is_ascii_lowercase b then b - 32 else b) s"

definition eq_ignore_ascii_case :: "str \<Rightarrow> str \<Rightarrow> bool" where
  "eq_ignore_ascii_case a b \<longleftrightarrow> to_ascii_lowercase a = to_ascii_lowercase b"

declare is_ascii_uppercase_def [byte_simps] is_ascii_lowercase_def [byte_simps]
  is_ascii_digit_def [byte_simps] is_ascii_alphabetic_def [byte_simps]
  is_ascii_alphanumeric_def [byte_simps] is_ascii_hexdigit_def [byte_simps]
  to_lower_def [byte_simps] to_ascii_lowercase_def [byte_simps]
  eq_ignore_ascii_case_def [byte_simps]

subsection \<open>Searching, splitting and joining\<close>

definition starts_with :: "'a list \<Rightarrow> 'a list \<Rightarrow> bool" where
  "starts_with p xs \<longleftrightarrow> take (length p) xs = p"

definition ends_with :: "'a list \<Rightarrow> 'a list \<Rightarrow> bool" where
  "ends_with p xs \<longleftrightarrow> length p \<le> length xs \<and> drop (length xs - length p) xs = p"

fun position :: "('a \<Rightarrow> bool) \<Rightarrow> 'a list \<Rightarrow> nat option" where
  "position P [] = None"
| "position P (x # xs) = (if P x then Some 0 else map_option Suc (position P xs))"

fun find_sub :: "'a list \<Rightarrow> 'a list \<Rightarrow> nat option" where
  "find_sub p [] = None"
| "find_sub p (x # xs) =
     (if starts_with p (x # xs) then Some 0 else map_option Suc (find_sub p xs))"

fun split_on :: "'a \<Rightarrow> 'a list \<Rightarrow> 'a list list" where
  "split_on c [] = [[]]"
| "split_on c (x # xs) =
     (if x = c then [] # split_on c xs
      else (x # hd (split_on c xs)) # tl (split_on c xs))"

fun join :: "'a list \<Rightarrow> 'a list list \<Rightarrow> 'a list" where
  "join sep [] = []"
| "join sep [s] = s"
| "join sep (s # t # ts) = s @ sep @ join sep (t # ts)"

subsection \<open>Numbers as text and as big-endian bytes\<close>

definition digit_value :: "nat \<Rightarrow> u8 \<Rightarrow> nat option" where
  "digit_value radix b =
     (let v = (if is_ascii_digit b then unat b - 48
               else if 97 \<le> b \<and> b \<le> 122 then unat b - 87
               else if 65 \<le> b \<and> b \<le> 90 then unat b - 55
               else radix)
      in if v < radix then Some v else None)"

fun digits_value :: "nat \<Rightarrow> nat \<Rightarrow> str \<Rightarrow> nat option" where
  "digits_value radix acc [] = Some acc"
| "digits_value radix acc (b # s) =
     (case digit_value radix b of
        None \<Rightarrow> None
      | Some v \<Rightarrow> digits_value radix (acc * radix + v) s)"

text \<open>
  \<^verbatim>\<open>uN::from_str_radix\<close> (and \<^verbatim>\<open>str::parse\<close>, its radix 10 case): an optional \<open>+\<close>, at
  least one digit, and a value that fits the \<open>w\<close>-bit type.
\<close>

definition from_str_radix :: "nat \<Rightarrow> nat \<Rightarrow> str \<Rightarrow> nat option" where
  "from_str_radix w radix s =
     (let ds = (case s of b # t \<Rightarrow> (if b = 43 then t else s) | [] \<Rightarrow> [])
      in if ds = [] then None
         else case digits_value radix 0 ds of
                None \<Rightarrow> None
              | Some n \<Rightarrow> if n < 2 ^ w then Some n else None)"

fun to_string :: "nat \<Rightarrow> str" where
  "to_string n =
     (if n < 10 then [word_of_nat (48 + n)]
      else to_string (n div 10) @ [word_of_nat (48 + n mod 10)])"

declare to_string.simps [simp del]

definition u16_to_be_bytes :: "u16 \<Rightarrow> u8 list" where
  "u16_to_be_bytes w = [ucast (drop_bit 8 w), ucast w]"

definition u16_from_be_bytes :: "u8 \<Rightarrow> u8 \<Rightarrow> u16" where
  "u16_from_be_bytes a b = push_bit 8 (ucast a) OR ucast b"

definition u64_to_be_bytes :: "u64 \<Rightarrow> u8 list" where
  "u64_to_be_bytes w = map (\<lambda>i. ucast (drop_bit (8 * (7 - i)) w)) [0..<8]"

fun be_value :: "u8 list \<Rightarrow> nat" where
  "be_value [] = 0"
| "be_value (b # s) = unat b * 256 ^ length s + be_value s"

subsection \<open>Lemmas on searching and splitting\<close>

lemma starts_with_iff_prefix: "starts_with p xs \<longleftrightarrow> prefix p xs"
  unfolding starts_with_def prefix_def by (metis append_eq_conv_conj append_take_drop_id)

lemma starts_with_append [simp]: "starts_with p (p @ xs)"
  by (simp add: starts_with_def)

lemma starts_with_Nil [simp]: "starts_with [] xs"
  by (simp add: starts_with_def)

lemma starts_with_obtain:
  assumes "starts_with p xs"
  obtains ys where "xs = p @ ys"
  using assms by (auto simp: starts_with_iff_prefix prefix_def)

lemma starts_with_extend: "starts_with p xs \<Longrightarrow> starts_with p (xs @ ys)"
  by (simp add: starts_with_iff_prefix)

lemma starts_with_length: "starts_with p xs \<Longrightarrow> length p \<le> length xs"
  by (auto elim: starts_with_obtain)

lemma position_Some_iff:
  "position P xs = Some i \<longleftrightarrow> i < length xs \<and> P (xs ! i) \<and> (\<forall>j < i. \<not> P (xs ! j))"
proof (induction xs arbitrary: i)
  case Nil
  then show ?case by simp
next
  case (Cons x xs)
  show ?case
    by (cases i) (auto simp: Cons.IH less_Suc_eq_0_disj)
qed

lemma position_None_iff: "position P xs = None \<longleftrightarrow> (\<forall>x \<in> set xs. \<not> P x)"
  by (induction xs) auto

lemma position_less [dest]: "position P xs = Some i \<Longrightarrow> i < length xs"
  by (simp add: position_Some_iff)

lemma position_take: "position P xs = Some i \<Longrightarrow> \<forall>x \<in> set (take i xs). \<not> P x"
  by (auto simp: position_Some_iff in_set_conv_nth)

lemma position_append:
  "position P (xs @ ys) =
     (case position P xs of Some i \<Rightarrow> Some i | None \<Rightarrow> map_option (\<lambda>i. i + length xs) (position P ys))"
  by (induction xs) (auto simp: option.map_comp comp_def option.map_ident split: option.splits)

lemma find_sub_Some_iff:
  assumes "p \<noteq> []"
  shows "find_sub p xs = Some i \<longleftrightarrow>
    i < length xs \<and> starts_with p (drop i xs) \<and> (\<forall>j < i. \<not> starts_with p (drop j xs))"
proof (induction xs arbitrary: i)
  case Nil
  then show ?case by simp
next
  case (Cons x xs)
  show ?case
    by (cases i) (auto simp: Cons.IH less_Suc_eq_0_disj)
qed

lemma find_sub_None_iff:
  assumes "p \<noteq> []"
  shows "find_sub p xs = None \<longleftrightarrow> (\<forall>j. \<not> starts_with p (drop j xs))"
proof (induction xs)
  case Nil
  then show ?case using assms by (simp add: starts_with_def)
next
  case (Cons x xs)
  have "(\<forall>j. \<not> starts_with p (drop j (x # xs))) \<longleftrightarrow>
      \<not> starts_with p (x # xs) \<and> (\<forall>j. \<not> starts_with p (drop j xs))"
    by (metis drop0 drop_Suc_Cons not0_implies_Suc)
  then show ?case by (simp add: Cons.IH)
qed

lemma find_sub_bound:
  assumes "p \<noteq> []" and "find_sub p xs = Some i"
  shows "i + length p \<le> length xs"
proof -
  have "i < length xs" and "starts_with p (drop i xs)"
    using assms by (simp_all add: find_sub_Some_iff)
  then show ?thesis using starts_with_length [of p "drop i xs"] by simp
qed

lemma starts_with_drop_append:
  "j + length p \<le> length xs \<Longrightarrow> starts_with p (drop j (xs @ ys)) \<longleftrightarrow> starts_with p (drop j xs)"
  by (simp add: starts_with_def)

lemma find_sub_extend:
  assumes "p \<noteq> []" and "find_sub p xs = Some i"
  shows "find_sub p (xs @ ys) = Some i"
proof -
  have b: "i + length p \<le> length xs" using assms by (rule find_sub_bound)
  have "\<not> starts_with p (drop j (xs @ ys))" if "j < i" for j
    using assms that b starts_with_drop_append [of j p xs ys] by (simp add: find_sub_Some_iff)
  then show ?thesis
    using assms b starts_with_drop_append [of i p xs ys] by (simp add: find_sub_Some_iff)
qed

lemma split_on_not_Nil [simp]: "split_on c xs \<noteq> []"
  by (induction xs) auto

lemma split_on_no_sep: "\<forall>piece \<in> set (split_on c xs). c \<notin> set piece"
proof (induction xs)
  case Nil
  then show ?case by simp
next
  case (Cons x xs)
  then show ?case
    by (cases "split_on c xs") auto
qed

lemma join_split_on: "join [c] (split_on c xs) = xs"
proof (induction xs)
  case Nil
  then show ?case by simp
next
  case (Cons x xs)
  obtain y ys where s: "split_on c xs = y # ys"
    by (cases "split_on c xs") auto
  have "join [c] ((x # y) # ys) = x # join [c] (y # ys)"
    by (cases ys) simp_all
  then show ?case using Cons.IH s by (cases ys) auto
qed

lemma split_on_absent: "c \<notin> set xs \<Longrightarrow> split_on c xs = [xs]"
  by (induction xs) auto

lemma split_on_append_sep: "c \<notin> set xs \<Longrightarrow> split_on c (xs @ c # ys) = xs # split_on c ys"
  by (induction xs) auto

lemma split_on_join: "ts \<noteq> [] \<Longrightarrow> \<forall>t \<in> set ts. c \<notin> set t \<Longrightarrow> split_on c (join [c] ts) = ts"
  by (induction ts rule: induct_list012) (simp_all add: split_on_absent split_on_append_sep)

lemma set_join: "set (join sep xs) \<subseteq> set sep \<union> (\<Union>x \<in> set xs. set x)"
  by (induction sep xs rule: join.induct) auto

lemma hd_split_on: "hd (split_on c xs) = takeWhile (\<lambda>x. x \<noteq> c) xs"
  by (induction xs) auto

lemma set_hd_split_on: "set (hd (split_on c xs)) \<subseteq> set xs"
  by (auto simp: hd_split_on dest: set_takeWhileD)

subsection \<open>Lemmas on case folding\<close>

lemma to_lower_not_upper [simp]: "\<not> is_ascii_uppercase (to_lower b)"
proof -
  have "is_ascii_uppercase b \<Longrightarrow> \<not> is_ascii_uppercase (b + 32)"
  proof -
    assume "is_ascii_uppercase b"
    then have "65 \<le> unat b" and "unat b \<le> 90"
      by (simp_all add: is_ascii_uppercase_def word_le_nat_alt)
    then have "unat (b + 32) = unat b + 32"
      by (simp add: unat_word_ariths)
    then show ?thesis using \<open>65 \<le> unat b\<close>
      by (simp add: is_ascii_uppercase_def word_le_nat_alt)
  qed
  then show ?thesis by (simp add: to_lower_def)
qed

lemma to_lower_idem [simp]: "to_lower (to_lower b) = to_lower b"
  using to_lower_not_upper [of b] by (simp add: to_lower_def [of "to_lower b"])

lemma to_ascii_lowercase_idem [simp]:
  "to_ascii_lowercase (to_ascii_lowercase s) = to_ascii_lowercase s"
  by (simp add: to_ascii_lowercase_def comp_def)

lemma length_to_ascii_lowercase [simp]: "length (to_ascii_lowercase s) = length s"
  by (simp add: to_ascii_lowercase_def)

lemma eq_ignore_ascii_case_refl [simp]: "eq_ignore_ascii_case s s"
  by (simp add: eq_ignore_ascii_case_def)

subsection \<open>Lemmas on numbers\<close>

lemma digits_value_append:
  "digits_value r acc (s @ t) =
     (case digits_value r acc s of None \<Rightarrow> None | Some n \<Rightarrow> digits_value r n t)"
  by (induction s arbitrary: acc) (auto split: option.splits)

lemma unat_digit: "n < 10 \<Longrightarrow> unat (word_of_nat (48 + n) :: u8) = 48 + n"
  by (simp add: unat_of_nat del: of_nat_add)

lemma digit_value_digit: "n < 10 \<Longrightarrow> digit_value 10 (word_of_nat (48 + n)) = Some n"
  by (simp add: digit_value_def is_ascii_digit_def word_le_nat_alt unat_digit del: of_nat_add)

lemma is_ascii_digit_digit: "n < 10 \<Longrightarrow> is_ascii_digit (word_of_nat (48 + n))"
  by (simp add: is_ascii_digit_def word_le_nat_alt unat_digit del: of_nat_add)

lemma to_string_digits: "\<forall>b \<in> set (to_string n). is_ascii_digit b"
proof (induction n rule: to_string.induct)
  case (1 n)
  then show ?case
    by (cases "n < 10")
      (auto simp: to_string.simps [of n] is_ascii_digit_digit simp del: of_nat_add)
qed

lemma to_string_not_Nil [simp]: "to_string n \<noteq> []"
  by (subst to_string.simps) simp

lemma digits_value_to_string: "digits_value 10 0 (to_string n) = Some n"
proof (induction n rule: to_string.induct)
  case (1 n)
  show ?case
  proof (cases "n < 10")
    case True
    then show ?thesis
      by (simp add: to_string.simps [of n] digit_value_digit del: of_nat_add)
  next
    case False
    then have "digits_value 10 0 (to_string (n div 10)) = Some (n div 10)"
      by (rule "1.IH")
    with False show ?thesis
      by (simp add: to_string.simps [of n] digits_value_append digit_value_digit del: of_nat_add)
  qed
qed

lemma hd_to_string_not_plus: "to_string n = b # s \<Longrightarrow> b \<noteq> 43"
  using to_string_digits [of n] by (auto simp: is_ascii_digit_def word_le_nat_alt)

lemma parse_to_string: "n < 2 ^ w \<Longrightarrow> from_str_radix w 10 (to_string n) = Some n"
proof -
  assume n: "n < 2 ^ w"
  obtain b s where bs: "to_string n = b # s" by (cases "to_string n") auto
  then have "b \<noteq> 43" by (rule hd_to_string_not_plus)
  with n bs show ?thesis
    using digits_value_to_string [of n] by (simp add: from_str_radix_def)
qed

lemma from_str_radix_bound: "from_str_radix w r s = Some n \<Longrightarrow> n < 2 ^ w"
  by (auto simp: from_str_radix_def Let_def split: if_splits option.splits)

lemma be_value_append: "be_value (xs @ ys) = be_value xs * 256 ^ length ys + be_value ys"
  by (induction xs) (simp_all add: power_add algebra_simps)

lemma be_value_bound: "be_value xs < 256 ^ length xs"
proof (induction xs)
  case Nil
  then show ?case by simp
next
  case (Cons x xs)
  have "unat x < 256" using unsigned_less [of x] by simp
  then have "unat x * 256 ^ length xs + be_value xs < (unat x + 1) * 256 ^ length xs"
    using Cons.IH by simp
  also have "\<dots> \<le> 256 * 256 ^ length xs"
    using \<open>unat x < 256\<close> by (intro mult_right_mono) simp_all
  finally show ?case by simp
qed

lemma u16_be_roundtrip [simp]: "u16_from_be_bytes (ucast (drop_bit 8 w)) (ucast w) = w"
proof (rule bit_word_eqI)
  fix n assume "n < LENGTH(16)"
  then consider "n < 8" | "8 \<le> n" "n < 16"
    by fastforce
  then show "bit (u16_from_be_bytes (ucast (drop_bit 8 w)) (ucast w)) n = bit w n"
    by cases (auto simp: u16_from_be_bytes_def bit_simps)
qed

end
