(* ===== verification/Url_Pool.thy ===== *)
theory Url_Pool
  imports Prelude
begin

text \<open>
  The URL classifier and intern pool of \<^verbatim>\<open>crates/zp-page-rt/src/pool.rs\<close>, the hot path of the
  page membrane: scheme classification of untrusted attribute values, the FxHash-style hash, and the
  append-only pool in which a handle is an entry's index plus one. Entries with the same 64-bit hash are
  chained through \<^verbatim>\<open>next_same_hash\<close>, newest first.

  Slice indexing panics out of range, and the crate forbids panics, so the pool operations return an
  \<^typ>\<open>'a outcome\<close>; the chain walk is a loop with no bound in the code, so it is a
  \<^theory_text>\<open>partial_function\<close> and \<^const>\<open>None\<close> is divergence. The main results are that on
  every pool the operations can build they terminate without panicking and implement an interning table
  of distinct byte strings, whatever hash collisions occur.
\<close>

subsection \<open>Classification\<close>

datatype url_class =
    Invalid | Http | Ws | Blob | Data | JavaScript | VbScript | AboutBlank | AboutOther | Relative | Other

fun class_code :: "url_class \<Rightarrow> u32" where
  "class_code Invalid = 0"
| "class_code Http = 1"
| "class_code Ws = 2"
| "class_code Blob = 3"
| "class_code Data = 4"
| "class_code JavaScript = 5"
| "class_code VbScript = 6"
| "class_code AboutBlank = 7"
| "class_code AboutOther = 8"
| "class_code Relative = 9"
| "class_code Other = 10"

definition MAX_URL_LEN :: nat where
  "MAX_URL_LEN = 8192"

definition trim_byte :: "u8 \<Rightarrow> bool" where
  "trim_byte b \<longleftrightarrow> b = 32 \<or> b = 9 \<or> b = 10 \<or> b = 13 \<or> b = 12"

function trim_from :: "u8 list \<Rightarrow> nat \<Rightarrow> nat \<Rightarrow> nat" where
  "trim_from input start end =
     (if start < end \<and> trim_byte (input ! start) then trim_from input (Suc start) end else start)"
  by pat_completeness auto
termination
  by (relation "measure (\<lambda>(input, start, end). end - start)") auto

fun trim_to :: "u8 list \<Rightarrow> nat \<Rightarrow> nat \<Rightarrow> nat" where
  "trim_to input start 0 = 0"
| "trim_to input start (Suc e) =
     (if start < Suc e \<and> trim_byte (input ! e) then trim_to input start e else Suc e)"

declare trim_from.simps [simp del]

definition ascii_trim :: "u8 list \<Rightarrow> u8 list" where
  "ascii_trim input =
     (let start = trim_from input 0 (length input);
          end = trim_to input start (length input)
      in take (end - start) (drop start input))"

definition ascii_lower :: "u8 \<Rightarrow> u8" where
  "ascii_lower b = (if is_ascii_uppercase b then b + 32 else b)"

definition eq_ci :: "u8 list \<Rightarrow> u8 list \<Rightarrow> bool" where
  "eq_ci a b_lower \<longleftrightarrow>
     length a = length b_lower \<and> list_all (\<lambda>(x, y). ascii_lower x = y) (zip a b_lower)"

definition scheme_byte :: "nat \<Rightarrow> u8 \<Rightarrow> bool" where
  "scheme_byte i b \<longleftrightarrow>
     (if i = 0 then is_ascii_alphabetic b
      else is_ascii_alphanumeric b \<or> b = 43 \<or> b = 45 \<or> b = 46)"

text \<open>
  The scan for the scheme's colon: \<^term>\<open>Some i\<close> when byte \<open>i\<close> is the first colon and only scheme
  bytes precede it; \<^const>\<open>None\<close> when the loop returns \<^const>\<open>Relative\<close> or runs off the end.
\<close>

fun scan_colon :: "nat \<Rightarrow> u8 list \<Rightarrow> nat option" where
  "scan_colon i [] = None"
| "scan_colon i (b # s) =
     (if b = 58 then Some i
      else if \<not> scheme_byte i b then None
      else scan_colon (Suc i) s)"

definition scheme_class :: "u8 list \<Rightarrow> u8 list \<Rightarrow> url_class" where
  "scheme_class scheme rest =
     (if length scheme = 2 \<and> eq_ci scheme (bs ''ws'') then Ws
      else if length scheme = 3 \<and> eq_ci scheme (bs ''wss'') then Ws
      else if length scheme = 4 \<and> eq_ci scheme (bs ''http'') then Http
      else if length scheme = 4 \<and> eq_ci scheme (bs ''blob'') then Blob
      else if length scheme = 4 \<and> eq_ci scheme (bs ''data'') then Data
      else if length scheme = 5 \<and> eq_ci scheme (bs ''https'') then Http
      else if length scheme = 5 \<and> eq_ci scheme (bs ''about'')
        then (if eq_ci rest (bs ''blank'') then AboutBlank else AboutOther)
      else if length scheme = 8 \<and> eq_ci scheme (bs ''vbscript'') then VbScript
      else if length scheme = 10 \<and> eq_ci scheme (bs ''javascript'') then JavaScript
      else Other)"

definition classify_scheme :: "u8 list \<Rightarrow> url_class" where
  "classify_scheme input =
     (let trimmed = ascii_trim input
      in if trimmed = [] \<or> length trimmed > MAX_URL_LEN then Invalid
         else case scan_colon 0 trimmed of
                None \<Rightarrow> Relative
              | Some colon \<Rightarrow> scheme_class (take colon trimmed) (drop (colon + 1) trimmed))"

subsection \<open>Packed bulk results\<close>

definition MAX_HANDLE :: u32 where
  "MAX_HANDLE = 0x0FFFFFFF"

definition pack_bulk_result :: "u32 \<Rightarrow> u32 \<Rightarrow> u32" where
  "pack_bulk_result cls handle = push_bit 28 (cls AND 0xF) OR (handle AND MAX_HANDLE)"

subsection \<open>The pool\<close>

record url_entry =
  offset :: u32
  len :: u32
  next_same_hash :: u32

record url_pool =
  bytes :: "u8 list"
  entries :: "url_entry list"
  class_cache :: "u8 list"
  by_hash :: "u64 \<Rightarrow> u32 option"

definition pool_new :: url_pool where
  "pool_new = \<lparr>bytes = [], entries = [], class_cache = [], by_hash = (\<lambda>_. None)\<rparr>"

definition reset :: "url_pool \<Rightarrow> url_pool" where
  "reset p = p\<lparr>bytes := [], entries := [], class_cache := [], by_hash := (\<lambda>_. None)\<rparr>"

definition fxhash_step :: "u64 \<Rightarrow> u8 \<Rightarrow> u64" where
  "fxhash_step h b = (word_rotl 5 h XOR ucast b) * 0x517cc1b727220a95"

definition fxhash :: "u8 list \<Rightarrow> u64" where
  "fxhash input = fold (\<lambda>b h. fxhash_step h b) input 0"

partial_function (option) chain_walk :: "url_pool \<Rightarrow> u8 list \<Rightarrow> u32 \<Rightarrow> u32 outcome option" where
  "chain_walk p trimmed cur =
     (if cur = 0 then Some (Return 0)
      else if length (entries p) \<le> unat (cur - 1) then Some Panic
      else let e = entries p ! unat (cur - 1) in
           if length (bytes p) < unat (offset e) + unat (len e) then Some Panic
           else if take (unat (len e)) (drop (unat (offset e)) (bytes p)) = trimmed then Some (Return cur)
           else chain_walk p trimmed (next_same_hash e))"

definition append_entry :: "url_pool \<Rightarrow> u8 list \<Rightarrow> u64 \<Rightarrow> u32 \<Rightarrow> url_pool \<times> u32" where
  "append_entry p trimmed h head =
     (let e = \<lparr>offset = word_of_nat (length (bytes p)), len = word_of_nat (length trimmed),
               next_same_hash = head\<rparr>;
          handle = word_of_nat (length (entries p @ [e]))
      in (\<lparr>bytes = bytes p @ trimmed,
           entries = entries p @ [e],
           class_cache = class_cache p @ [ucast (class_code (classify_scheme trimmed))],
           by_hash = (by_hash p)(h := Some handle)\<rparr>,
          handle))"

definition intern_with_hash ::
    "url_pool \<Rightarrow> u8 list \<Rightarrow> u64 \<Rightarrow> (url_pool \<times> u32) outcome option" where
  "intern_with_hash p input h =
     (let trimmed = ascii_trim input in
      if trimmed = [] \<or> length trimmed > MAX_URL_LEN then Some (Return (p, 0))
      else let head = (case by_hash p h of Some c \<Rightarrow> c | None \<Rightarrow> 0) in
           case chain_walk p trimmed head of
             None \<Rightarrow> None
           | Some Panic \<Rightarrow> Some Panic
           | Some (Return cur) \<Rightarrow>
               (if cur \<noteq> 0 then Some (Return (p, cur))
                else if length (entries p) \<ge> unat MAX_HANDLE
                        \<or> length (bytes p) + length trimmed > 2 ^ 32 - 1
                  then Some (Return (p, 0))
                else Some (Return (append_entry p trimmed h head))))"

definition intern :: "url_pool \<Rightarrow> u8 list \<Rightarrow> (url_pool \<times> u32) outcome option" where
  "intern p input = intern_with_hash p input (fxhash (ascii_trim input))"

definition class_of :: "url_pool \<Rightarrow> u32 \<Rightarrow> u32" where
  "class_of p handle =
     (if handle = 0 \<or> unat handle > length (class_cache p) then class_code Invalid
      else ucast (class_cache p ! unat (handle - 1)))"

definition bytes_of :: "url_pool \<Rightarrow> u32 \<Rightarrow> (u8 list option) outcome" where
  "bytes_of p handle =
     (if handle = 0 \<or> unat handle > length (entries p) then Return None
      else let e = entries p ! unat (handle - 1) in
           if length (bytes p) < unat (offset e) + unat (len e) then Panic
           else Return (Some (take (unat (len e)) (drop (unat (offset e)) (bytes p)))))"

definition pool_len :: "url_pool \<Rightarrow> nat" where
  "pool_len p = length (entries p)"

definition bytes_used :: "url_pool \<Rightarrow> nat" where
  "bytes_used p = length (bytes p)"

subsection \<open>Abstraction and invariant\<close>

text \<open>The URL of entry \<open>i\<close>, the abstract table, and the handles a chain visits.\<close>

definition url_at :: "url_pool \<Rightarrow> nat \<Rightarrow> u8 list" where
  "url_at p i = take (unat (len (entries p ! i))) (drop (unat (offset (entries p ! i))) (bytes p))"

definition urls :: "url_pool \<Rightarrow> u8 list list" where
  "urls p = map (url_at p) [0..<length (entries p)]"

inductive reaches :: "url_pool \<Rightarrow> u32 \<Rightarrow> nat \<Rightarrow> bool" for p where
  here: "cur \<noteq> 0 \<Longrightarrow> reaches p cur (unat cur)"
| along: "cur \<noteq> 0 \<Longrightarrow> reaches p (next_same_hash (entries p ! (unat cur - 1))) k \<Longrightarrow> reaches p cur k"

definition entry_ok :: "url_pool \<Rightarrow> nat \<Rightarrow> bool" where
  "entry_ok p i \<longleftrightarrow>
     unat (offset (entries p ! i)) + unat (len (entries p ! i)) \<le> length (bytes p)
     \<and> url_at p i \<noteq> [] \<and> length (url_at p i) \<le> MAX_URL_LEN \<and> ascii_trim (url_at p i) = url_at p i
     \<and> unat (next_same_hash (entries p ! i)) \<le> i
     \<and> class_cache p ! i = ucast (class_code (classify_scheme (url_at p i)))"

text \<open>The invariant is stated for an arbitrary hash function, so that nothing rests on \<open>fxhash\<close> having no collisions.\<close>

definition pool_inv :: "(u8 list \<Rightarrow> u64) \<Rightarrow> url_pool \<Rightarrow> bool" where
  "pool_inv H p \<longleftrightarrow>
     length (class_cache p) = length (entries p)
     \<and> length (entries p) \<le> unat MAX_HANDLE \<and> length (bytes p) \<le> 2 ^ 32 - 1
     \<and> bytes p = concat (urls p)
     \<and> (\<forall>i < length (entries p). entry_ok p i)
     \<and> (\<forall>h c. by_hash p h = Some c \<longrightarrow> c \<noteq> 0 \<and> unat c \<le> length (entries p))
     \<and> (\<forall>i < length (entries p). \<exists>c. by_hash p (H (url_at p i)) = Some c \<and> reaches p c (Suc i))
     \<and> distinct (urls p)"

text \<open>The contract: a table of distinct URLs, the handle of a URL being its position plus one.\<close>

definition intern_spec :: "u8 list list \<Rightarrow> u8 list \<Rightarrow> u8 list list \<times> nat" where
  "intern_spec us input =
     (let t = ascii_trim input in
      if t = [] \<or> length t > MAX_URL_LEN then (us, 0)
      else case position (\<lambda>u. u = t) us of
             Some i \<Rightarrow> (us, Suc i)
           | None \<Rightarrow>
               if length us \<ge> unat MAX_HANDLE \<or> length (concat us) + length t > 2 ^ 32 - 1 then (us, 0)
               else (us @ [t], Suc (length us)))"

subsection \<open>Trimming\<close>

text \<open>The two index loops compute the usual trim of a list.\<close>

lemma trim_from_le: "start \<le> end \<Longrightarrow> trim_from input start end \<le> end"
  by (induction input start "end" rule: trim_from.induct) (simp add: trim_from.simps)

lemma trim_from_end [simp]: "trim_from input e e = e"
  by (simp add: trim_from.simps)

lemma trim_from_drop:
  "start \<le> length input \<Longrightarrow>
     drop (trim_from input start (length input)) input = dropWhile trim_byte (drop start input)"
proof (induction input start "length input" rule: trim_from.induct)
  case (1 input start)
  show ?case
  proof (cases "start < length input")
    case True
    then show ?thesis
      using 1 by (auto simp: trim_from.simps [of input start] Cons_nth_drop_Suc [symmetric])
  next
    case False
    with 1 show ?thesis
      by simp
  qed
qed

lemma trim_to_le: "trim_to input start e \<le> e"
  by (induction e) auto

lemma trim_to_ge: "start \<le> e \<Longrightarrow> start \<le> trim_to input start e"
  by (induction e) auto

lemma trim_to_take:
  "\<lbrakk>start \<le> e; e \<le> length input\<rbrakk> \<Longrightarrow>
     take (trim_to input start e - start) (drop start input)
       = rev (dropWhile trim_byte (rev (take (e - start) (drop start input))))"
proof (induction e)
  case (Suc e)
  show ?case
  proof (cases "start < Suc e")
    case True
    then have "take (Suc e - start) (drop start input) = take (e - start) (drop start input) @ [input ! e]"
      using Suc.prems by (simp add: Suc_diff_le take_Suc_conv_app_nth)
    with Suc True show ?thesis by simp
  next
    case False
    with Suc.prems show ?thesis by simp
  qed
qed simp

lemma ascii_trim_eq:
  "ascii_trim input = rev (dropWhile trim_byte (rev (dropWhile trim_byte input)))"
proof -
  let ?s = "trim_from input 0 (length input)"
  have le: "?s \<le> length input"
    by (rule trim_from_le) simp
  have "ascii_trim input
          = rev (dropWhile trim_byte (rev (take (length input - ?s) (drop ?s input))))"
    using trim_to_take [OF le order.refl] by (simp add: ascii_trim_def Let_def)
  also have "take (length input - ?s) (drop ?s input) = drop ?s input"
    by simp
  also have "\<dots> = dropWhile trim_byte input"
    by (simp add: trim_from_drop [of 0])
  finally show ?thesis .
qed

lemma hd_ascii_trim: "ascii_trim xs \<noteq> [] \<Longrightarrow> \<not> trim_byte (hd (ascii_trim xs))"
proof -
  assume ne: "ascii_trim xs \<noteq> []"
  let ?d = "dropWhile trim_byte xs"
  have "prefix (ascii_trim xs) ?d"
    unfolding ascii_trim_eq using suffix_dropWhile [of trim_byte "rev ?d"]
    by (simp add: suffix_to_prefix)
  then obtain zs where "?d = ascii_trim xs @ zs"
    by (auto simp: prefix_def)
  with ne have "hd (ascii_trim xs) = hd ?d" "?d \<noteq> []"
    by (simp_all only: hd_append append_is_Nil_conv if_False simp_thms)
  then show ?thesis
    using hd_dropWhile by metis
qed

lemma ascii_trim_idem [simp]: "ascii_trim (ascii_trim xs) = ascii_trim xs"
proof (cases "ascii_trim xs = []")
  case False
  then have "dropWhile trim_byte (ascii_trim xs) = ascii_trim xs"
    using hd_ascii_trim [OF False] by (cases "ascii_trim xs") auto
  then have "ascii_trim (ascii_trim xs) = rev (dropWhile trim_byte (rev (ascii_trim xs)))"
    by (simp add: ascii_trim_eq)
  then show ?thesis
    by (simp add: ascii_trim_eq)
qed (simp add: ascii_trim_eq [of "[]"])

lemma length_ascii_trim: "length (ascii_trim xs) \<le> length xs"
  by (simp add: ascii_trim_def Let_def)

lemma classify_scheme_trim [simp]: "classify_scheme (ascii_trim xs) = classify_scheme xs"
  by (simp add: classify_scheme_def)

subsection \<open>Scheme classification\<close>

text \<open>A reference reading of ``the URL starts with this scheme'', case-insensitively.\<close>

definition has_scheme :: "u8 list \<Rightarrow> u8 list \<Rightarrow> bool" where
  "has_scheme w t \<longleftrightarrow> length w < length t \<and> map ascii_lower (take (length w) t) = w \<and> t ! length w = 58"

lemma eq_ci_iff: "eq_ci a b \<longleftrightarrow> map ascii_lower a = b"
proof -
  have "eq_ci a b \<longleftrightarrow> list_all2 (\<lambda>x y. ascii_lower x = y) a b"
    by (simp add: eq_ci_def list_all2_iff list_all_iff)
  also have "\<dots> \<longleftrightarrow> map ascii_lower a = b"
    by (simp add: list_all2_map1 [symmetric] list.rel_eq flip: list_all2_map1)
  finally show ?thesis .
qed

lemma scan_colon_Some_iff:
  "scan_colon k t = Some c \<longleftrightarrow>
     k \<le> c \<and> c - k < length t \<and> t ! (c - k) = 58
     \<and> (\<forall>i < c - k. t ! i \<noteq> 58 \<and> scheme_byte (k + i) (t ! i))"
proof (induction k t rule: scan_colon.induct)
  case (2 k b t)
  show ?case
  proof (cases "b = 58 \<or> \<not> scheme_byte k b")
    case True
    then show ?thesis
      by (cases "c = k") (auto intro!: exI [of _ 0])
  next
    case False
    show ?thesis
    proof (cases "k < c")
      case True
      then obtain d where d: "c = Suc (k + d)"
        using less_imp_Suc_add by blast
      show ?thesis
        using False 2 by (auto simp: d less_Suc_eq_0_disj)
    qed (use False 2 in auto)
  qed
qed simp

lemma is_ascii_lowercase_ascii_lower:
  "is_ascii_lowercase (ascii_lower b) \<Longrightarrow> is_ascii_alphabetic b \<and> b \<noteq> 58"
  by (auto simp: ascii_lower_def byte_simps split: if_splits)

lemma has_scheme_iff:
  assumes "w \<noteq> []" "list_all is_ascii_lowercase w"
  shows "has_scheme w t \<longleftrightarrow> scan_colon 0 t = Some (length w) \<and> eq_ci (take (length w) t) w"
proof -
  have "t ! i \<noteq> 58 \<and> scheme_byte i (t ! i)"
    if "map ascii_lower (take (length w) t) = w" "i < length w" "length w < length t" for i
  proof -
    have "ascii_lower (t ! i) = w ! i"
      using that by (metis length_map nth_map nth_take)
    with assms(2) that(2) have "is_ascii_lowercase (ascii_lower (t ! i))"
      by (simp add: list_all_length)
    then show ?thesis
      using is_ascii_lowercase_ascii_lower [of "t ! i"]
      by (auto simp: scheme_byte_def is_ascii_alphanumeric_def)
  qed
  then show ?thesis
    by (auto simp: has_scheme_def eq_ci_iff scan_colon_Some_iff)
qed

lemma scheme_class_lower:
  "scheme_class s r =
     (let m = map ascii_lower s in
      if m = bs ''ws'' \<or> m = bs ''wss'' then Ws
      else if m = bs ''http'' then Http else if m = bs ''blob'' then Blob else if m = bs ''data'' then Data
      else if m = bs ''https'' then Http
      else if m = bs ''about'' then (if map ascii_lower r = bs ''blank'' then AboutBlank else AboutOther)
      else if m = bs ''vbscript'' then VbScript else if m = bs ''javascript'' then JavaScript else Other)"
proof -
  have len: "(length s = n \<and> map ascii_lower s = w) = (map ascii_lower s = w)" if "length w = n" for n w
    using that by (metis length_map)
  have lits: "length (bs ''ws'') = 2" "length (bs ''wss'') = 3" "length (bs ''http'') = 4"
    "length (bs ''blob'') = 4" "length (bs ''data'') = 4" "length (bs ''https'') = 5"
    "length (bs ''about'') = 5" "length (bs ''vbscript'') = 8" "length (bs ''javascript'') = 10"
    by (simp_all add: bs_def)
  show ?thesis
    unfolding scheme_class_def eq_ci_iff Let_def lits [THEN len] by simp
qed

lemma scheme_names_distinct:
  "distinct [bs ''ws'', bs ''wss'', bs ''http'', bs ''blob'', bs ''data'', bs ''https'', bs ''about'',
     bs ''vbscript'', bs ''javascript'']"
  by (simp add: bs_def)

lemma scheme_class_eq:
  "scheme_class s r = Data \<longleftrightarrow> eq_ci s (bs ''data'')"
  "scheme_class s r = JavaScript \<longleftrightarrow> eq_ci s (bs ''javascript'')"
  "scheme_class s r = VbScript \<longleftrightarrow> eq_ci s (bs ''vbscript'')"
  "scheme_class s r = Http \<longleftrightarrow> eq_ci s (bs ''http'') \<or> eq_ci s (bs ''https'')"
  "scheme_class s r = Ws \<longleftrightarrow> eq_ci s (bs ''ws'') \<or> eq_ci s (bs ''wss'')"
  "scheme_class s r = Blob \<longleftrightarrow> eq_ci s (bs ''blob'')"
  "scheme_class s r = AboutBlank \<longleftrightarrow> eq_ci s (bs ''about'') \<and> eq_ci r (bs ''blank'')"
  unfolding scheme_class_lower Let_def eq_ci_iff
  using scheme_names_distinct by (simp_all split: if_splits)

lemma scheme_class_not_Relative: "scheme_class s r \<noteq> Relative" "scheme_class s r \<noteq> Invalid"
  by (simp_all add: scheme_class_def)

lemma classify_scheme_class:
  assumes "\<And>s r. scheme_class s r = c \<longleftrightarrow> eq_ci s w" "c \<noteq> Invalid" "c \<noteq> Relative"
    and "w \<noteq> []" "list_all is_ascii_lowercase w"
  shows "classify_scheme input = c \<longleftrightarrow>
           length (ascii_trim input) \<le> MAX_URL_LEN \<and> has_scheme w (ascii_trim input)"
proof -
  let ?t = "ascii_trim input"
  have ne: "has_scheme w ?t \<Longrightarrow> ?t \<noteq> []"
    by (auto simp: has_scheme_def)
  show ?thesis
  proof (cases "scan_colon 0 ?t")
    case None
    with assms(2,3) show ?thesis
      by (auto simp: classify_scheme_def Let_def has_scheme_iff [OF assms(4,5)])
  next
    case (Some k)
    have "eq_ci (take k ?t) w \<longleftrightarrow> k = length w \<and> eq_ci (take (length w) ?t) w"
      using Some by (auto simp: scan_colon_Some_iff eq_ci_iff)
    then have "eq_ci (take k ?t) w \<longleftrightarrow> has_scheme w ?t"
      using Some by (simp add: has_scheme_iff [OF assms(4,5)])
    with ne assms(1,2) show ?thesis
      by (auto simp: classify_scheme_def Let_def Some not_less)
  qed
qed

subsection \<open>Packed results\<close>

lemma pack_bulk_result_unpack:
  assumes "cls < 16" "handle \<le> MAX_HANDLE"
  shows "drop_bit 28 (pack_bulk_result cls handle) = cls"
    and "pack_bulk_result cls handle AND MAX_HANDLE = handle"
proof -
  have M: "MAX_HANDLE = mask 28"
    by (simp add: MAX_HANDLE_def mask_eq_exp_minus_1)
  have F: "(0xF :: u32) = mask 4"
    by (simp add: mask_eq_exp_minus_1)
  have h: "take_bit 28 handle = handle"
    using assms(2) by (intro unsigned_word_eqI [where 'a = nat])
      (simp add: MAX_HANDLE_def word_le_nat_alt unsigned_take_bit_eq take_bit_nat_eq_self)
  have c: "take_bit 4 cls = cls"
    using assms(1) by (intro unsigned_word_eqI [where 'a = nat])
      (simp add: word_less_nat_alt unsigned_take_bit_eq take_bit_nat_eq_self)
  have hb: "n < 28" if "bit handle n" for n
    using h that by (metis bit_take_bit_iff)
  have cb: "n < 4" if "bit cls n" for n
    using c that by (metis bit_take_bit_iff)
  show "drop_bit 28 (pack_bulk_result cls handle) = cls"
    unfolding pack_bulk_result_def M F
    by (rule bit_word_eqI) (use cb in \<open>auto simp: bit_simps\<close>)
  show "pack_bulk_result cls handle AND MAX_HANDLE = handle"
    unfolding pack_bulk_result_def M F
    by (rule bit_word_eqI) (use hb in \<open>auto simp: bit_simps\<close>)
qed

subsection \<open>The chain walk\<close>

inductive_simps reaches_iff: "reaches p cur k"

lemma length_urls [simp]: "length (urls p) = length (entries p)"
  by (simp add: urls_def)

lemma nth_urls [simp]: "i < length (entries p) \<Longrightarrow> urls p ! i = url_at p i"
  by (simp add: urls_def)

lemma pool_invD:
  assumes "pool_inv H p"
  shows "length (class_cache p) = length (entries p)"
    and "length (entries p) \<le> unat MAX_HANDLE"
    and "length (bytes p) \<le> 2 ^ 32 - 1"
    and "bytes p = concat (urls p)"
    and "\<And>i. i < length (entries p) \<Longrightarrow> entry_ok p i"
    and "\<And>h c. by_hash p h = Some c \<Longrightarrow> c \<noteq> 0 \<and> unat c \<le> length (entries p)"
    and "\<And>i. i < length (entries p) \<Longrightarrow>
           \<exists>c. by_hash p (H (url_at p i)) = Some c \<and> reaches p c (Suc i)"
    and "distinct (urls p)"
  using assms unfolding pool_inv_def by blast+

lemma pool_inv_new: "pool_inv H pool_new" and pool_inv_reset: "pool_inv H (reset p)"
  by (simp_all add: pool_inv_def pool_new_def reset_def urls_def)

lemma chain_walk_ok:
  assumes inv: "pool_inv H p" and "unat cur \<le> length (entries p)"
  shows "\<exists>r. chain_walk p t cur = Some (Return r) \<and> unat r \<le> length (entries p)
           \<and> (if r = 0 then \<forall>k. reaches p cur k \<longrightarrow> url_at p (k - 1) \<noteq> t else url_at p (unat r - 1) = t)"
  using assms(2)
proof (induction "unat cur" arbitrary: cur rule: less_induct)
  case less
  show ?case
  proof (cases "cur = 0")
    case True
    then show ?thesis
      by (simp add: chain_walk.simps reaches_iff [of p 0])
  next
    case False
    let ?i = "unat cur - 1" and ?nx = "next_same_hash (entries p ! (unat cur - 1))"
    have pos: "0 < unat cur"
      using False by (simp add: unat_gt_0)
    then have i: "unat (cur - 1) = ?i" "?i < length (entries p)"
      using False less.prems by (simp_all add: unat_minus_one)
    have ok: "entry_ok p ?i"
      using pool_invD(5) [OF inv i(2)] .
    have step: "chain_walk p t cur = (if url_at p ?i = t then Some (Return cur) else chain_walk p t ?nx)"
      using False i ok by (subst chain_walk.simps) (simp add: Let_def url_at_def entry_ok_def)
    show ?thesis
    proof (cases "url_at p ?i = t")
      case True
      then show ?thesis
        using False less.prems step by simp
    next
      case neq: False
      have "unat ?nx < unat cur" "unat ?nx \<le> length (entries p)"
        using ok i pos by (auto simp: entry_ok_def)
      from less.hyps [OF this] obtain r where r: "chain_walk p t ?nx = Some (Return r)"
        "unat r \<le> length (entries p)"
        "if r = 0 then \<forall>k. reaches p ?nx k \<longrightarrow> url_at p (k - 1) \<noteq> t else url_at p (unat r - 1) = t"
        by blast
      then show ?thesis
        using neq step by (auto simp: reaches_iff [of p cur] split: if_splits)
    qed
  qed
qed

text \<open>Started at the head of the hash bucket, the walk decides membership in the table.\<close>

lemma chain_walk_position:
  assumes inv: "pool_inv H p" and hd: "head = (case by_hash p (H t) of Some c \<Rightarrow> c | None \<Rightarrow> 0)"
  shows "\<exists>r. chain_walk p t head = Some (Return r) \<and>
           (case position (\<lambda>u. u = t) (urls p) of
              None \<Rightarrow> r = 0
            | Some i \<Rightarrow> unat r = Suc i)"
proof -
  have "unat head \<le> length (entries p)"
    using hd pool_invD(6) [OF inv] by (auto split: option.splits)
  from chain_walk_ok [OF inv this, of t] obtain r where
    r: "chain_walk p t head = Some (Return r)" "unat r \<le> length (entries p)"
      "if r = 0 then \<forall>k. reaches p head k \<longrightarrow> url_at p (k - 1) \<noteq> t else url_at p (unat r - 1) = t"
    by blast
  show ?thesis
  proof (cases "position (\<lambda>u. u = t) (urls p)")
    case None
    then have "t \<notin> set (urls p)"
      by (auto simp: position_None_iff)
    have "r = 0"
    proof (rule ccontr)
      assume "r \<noteq> 0"
      then have "unat r - 1 < length (entries p)" "url_at p (unat r - 1) = t"
        using r(2,3) unat_gt_0 [of r] by simp_all
      with \<open>t \<notin> set (urls p)\<close> show False
        by (auto simp: urls_def)
    qed
    with None r(1) show ?thesis by simp
  next
    case (Some i)
    then have i: "i < length (entries p)" "url_at p i = t"
      by (auto simp: position_Some_iff)
    obtain c where "by_hash p (H t) = Some c" "reaches p c (Suc i)"
      using pool_invD(7) [OF inv i(1)] i(2) by auto
    then have "r \<noteq> 0"
      using r(3) hd i(2) by fastforce
    then have "0 < unat r" "unat r - 1 < length (entries p)" "url_at p (unat r - 1) = t"
      using r(2,3) unat_gt_0 [of r] by simp_all
    then have "unat r - 1 = i"
      using pool_invD(8) [OF inv] i by (metis length_urls nth_eq_iff_index_eq nth_urls)
    with \<open>0 < unat r\<close> Some r(1) show ?thesis by auto
  qed
qed

subsection \<open>Appending an entry\<close>

lemma unat_word_of_nat_u32: "n \<le> 2 ^ 32 - 1 \<Longrightarrow> unat (word_of_nat n :: u32) = n"
  by (simp add: unat_of_nat)

lemma unat_MAX_HANDLE: "unat MAX_HANDLE = 2 ^ 28 - 1"
  by (simp add: MAX_HANDLE_def)

text \<open>The side conditions under which \<^const>\<open>intern_with_hash\<close> appends.\<close>

definition appendable :: "url_pool \<Rightarrow> u8 list \<Rightarrow> bool" where
  "appendable p t \<longleftrightarrow>
     t \<noteq> [] \<and> length t \<le> MAX_URL_LEN \<and> ascii_trim t = t \<and> t \<notin> set (urls p)
     \<and> length (entries p) < unat MAX_HANDLE \<and> length (bytes p) + length t \<le> 2 ^ 32 - 1"

lemma append_entry_urls:
  assumes inv: "pool_inv H p" and t: "appendable p t" and p': "append_entry p t h head = (p', hdl)"
  shows "\<And>i. i < length (entries p) \<Longrightarrow> entries p' ! i = entries p ! i"
    and "\<And>i. i < length (entries p) \<Longrightarrow> url_at p' i = url_at p i"
    and "url_at p' (length (entries p)) = t"
    and "urls p' = urls p @ [t]"
    and "unat hdl = Suc (length (entries p))"
proof -
  let ?n = "length (entries p)"
  have len: "length (entries p') = Suc ?n" and bytes: "bytes p' = bytes p @ t"
    using p' by (auto simp: append_entry_def Let_def)
  show old: "entries p' ! i = entries p ! i" if "i < ?n" for i
    using that p' by (auto simp: append_entry_def Let_def nth_append)
  show url: "url_at p' i = url_at p i" if "i < ?n" for i
    using pool_invD(5) [OF inv that] by (simp add: url_at_def entry_ok_def old [OF that] bytes)
  have "length t \<le> 2 ^ 32 - 1" "length (bytes p) \<le> 2 ^ 32 - 1"
    using t by (auto simp: appendable_def)
  then show new: "url_at p' ?n = t"
    using p' by (auto simp: url_at_def append_entry_def Let_def unat_word_of_nat_u32)
  show "urls p' = urls p @ [t]"
    using url new by (simp add: urls_def len)
  have "unat hdl = unat (word_of_nat (Suc ?n) :: u32)"
    using p' by (auto simp: append_entry_def Let_def)
  also have "\<dots> = Suc ?n"
    using t by (intro unat_word_of_nat_u32) (simp add: appendable_def unat_MAX_HANDLE)
  finally show "unat hdl = Suc ?n" .
qed

lemma reaches_mono:
  assumes "reaches p c k" "pool_inv H p" "unat c \<le> length (entries p)"
    and same: "\<And>i. i < length (entries p) \<Longrightarrow> entries p' ! i = entries p ! i"
  shows "reaches p' c k"
  using assms(1,3)
proof induction
  case (here cur)
  then show ?case by (simp add: reaches.here)
next
  case (along cur k)
  have i: "unat cur - 1 < length (entries p)"
    using along.hyps(1) along.prems unat_gt_0 [of cur] by simp
  then have "unat (next_same_hash (entries p ! (unat cur - 1))) \<le> unat cur - 1"
    using pool_invD(5) [OF assms(2)] by (simp add: entry_ok_def)
  then show ?case
    using along i by - (rule reaches.along, simp_all add: same)
qed

lemma append_entry_inv:
  assumes inv: "pool_inv H p" and t: "appendable p t"
    and head: "head = (case by_hash p (H t) of Some c \<Rightarrow> c | None \<Rightarrow> 0)"
    and p': "append_entry p t (H t) head = (p', hdl)"
  shows "pool_inv H p'"
proof -
  let ?n = "length (entries p)"
  note I = pool_invD [OF inv] and U = append_entry_urls [OF inv t p']
  have E: "length (entries p') = Suc ?n" "bytes p' = bytes p @ t"
      "class_cache p' = class_cache p @ [ucast (class_code (classify_scheme t))]"
      "by_hash p' = (by_hash p)(H t := Some hdl)"
      "entries p' ! ?n = \<lparr>offset = word_of_nat (length (bytes p)), len = word_of_nat (length t),
                          next_same_hash = head\<rparr>"
    using p' by (auto simp: append_entry_def Let_def)
  have hd_le: "unat head \<le> ?n"
    using head I(6) by (auto split: option.splits)
  have hdl: "hdl \<noteq> 0"
    using U(5) by auto
  have ok: "entry_ok p' i" if "i < Suc ?n" for i
  proof (cases "i < ?n")
    case True
    with I(5) [OF True] show ?thesis
      by (auto simp: entry_ok_def U(1,2) E(2,3) nth_append I(1))
  next
    case False
    with that have "i = ?n" by simp
    then show ?thesis
      using t hd_le by (simp add: entry_ok_def U(3) E(2,3,5) I(1) nth_append appendable_def
          unat_word_of_nat_u32)
  qed
  have old: "reaches p' c k" if reach: "reaches p c k" and c: "unat c \<le> ?n" for c k
    by (rule reaches_mono [OF reach inv c U(1)])
  have new: "reaches p' hdl (Suc ?n)"
    using reaches.here [OF hdl] by (simp add: U(5))
  have bucket: "reaches p' hdl (Suc i)" if i: "i < ?n" and eq: "H (url_at p i) = H t" for i
  proof -
    obtain c where c: "by_hash p (H t) = Some c" "reaches p c (Suc i)"
      using I(7) [OF i] eq by auto
    then have "reaches p' head (Suc i)"
      using old [OF c(2)] I(6) [OF c(1)] head by simp
    then show ?thesis
      using hdl by - (rule reaches.along, simp_all add: U(5) E(5))
  qed
  have idx: "\<exists>c. by_hash p' (H (url_at p' i)) = Some c \<and> reaches p' c (Suc i)" if "i < Suc ?n" for i
  proof (cases "i < ?n")
    case True
    show ?thesis
    proof (cases "H (url_at p i) = H t")
      case eq: True
      with bucket [OF True eq] show ?thesis
        by (simp add: U(2) [OF True] E(4))
    next
      case False
      with I(7) [OF True] I(6) old show ?thesis
        by (auto simp: U(2) [OF True] E(4))
    qed
  next
    case False
    with that have "i = ?n" by simp
    with new show ?thesis by (simp add: U(3) E(4))
  qed
  have heads: "c \<noteq> 0 \<and> unat c \<le> Suc ?n" if "by_hash p' h = Some c" for h c
    using that I(6) [of h c] hdl U(5) by (auto simp: E(4) split: if_splits)
  have "bytes p' = concat (urls p')" "distinct (urls p')" "length (bytes p') \<le> 2 ^ 32 - 1"
    using t I(4,8) by (simp_all add: U(4) E(2) appendable_def)
  then show ?thesis
    unfolding pool_inv_def E(1) using ok idx heads t by (simp add: E(3) I(1) appendable_def)
qed

lemma intern_with_hash_refines:
  assumes inv: "pool_inv H p"
  shows "\<exists>p' h. intern_with_hash p input (H (ascii_trim input)) = Some (Return (p', h))
           \<and> pool_inv H p' \<and> (urls p', unat h) = intern_spec (urls p) input"
proof -
  define t where "t = ascii_trim input"
  define head where "head = (case by_hash p (H t) of Some c \<Rightarrow> c | None \<Rightarrow> 0)"
  obtain r where r: "chain_walk p t head = Some (Return r)"
      "case position (\<lambda>u. u = t) (urls p) of None \<Rightarrow> r = 0 | Some i \<Rightarrow> unat r = Suc i"
    using chain_walk_position [OF inv head_def] by blast
  have run: "intern_with_hash p input (H (ascii_trim input)) =
      (if t = [] \<or> length t > MAX_URL_LEN then Some (Return (p, 0))
       else if r \<noteq> 0 then Some (Return (p, r))
       else if length (entries p) \<ge> unat MAX_HANDLE \<or> length (bytes p) + length t > 2 ^ 32 - 1
         then Some (Return (p, 0))
       else Some (Return (append_entry p t (H t) head)))"
    using r(1) by (simp add: intern_with_hash_def Let_def t_def head_def)
  show ?thesis
  proof (cases "position (\<lambda>u. u = t) (urls p)")
    case None
    then have nin: "t \<notin> set (urls p)"
      by (auto simp: position_None_iff)
    have r0: "r = 0"
      using r(2) None by simp
    obtain p' hdl where ap: "append_entry p t (H t) head = (p', hdl)"
      by fastforce
    show ?thesis
    proof (cases "appendable p t")
      case True
      then have "intern_with_hash p input (H (ascii_trim input)) = Some (Return (p', hdl))"
        using run r0 ap by (simp add: appendable_def)
      moreover have "intern_spec (urls p) input = (urls p', unat hdl)"
        using True None append_entry_urls(4,5) [OF inv True ap] pool_invD(4) [OF inv]
        by (simp add: intern_spec_def t_def [symmetric] appendable_def)
      ultimately show ?thesis
        using append_entry_inv [OF inv True head_def ap] by auto
    next
      case False
      have "ascii_trim t = t"
        by (simp add: t_def)
      with False nin have no: "t = [] \<or> length t > MAX_URL_LEN
          \<or> length (entries p) \<ge> unat MAX_HANDLE \<or> length (bytes p) + length t > 2 ^ 32 - 1"
        by (auto simp: appendable_def not_less not_le)
      then have "intern_with_hash p input (H (ascii_trim input)) = Some (Return (p, 0))"
        using run r0 by presburger
      moreover have "intern_spec (urls p) input = (urls p, 0)"
        using no None unfolding intern_spec_def t_def [symmetric] pool_invD(4) [OF inv] Let_def
        by simp blast
      ultimately show ?thesis
        using inv by auto
    qed
  next
    case (Some i)
    then have "r \<noteq> 0" "unat r = Suc i"
      using r(2) by auto
    then show ?thesis
      using run Some inv unfolding intern_spec_def t_def [symmetric] Let_def
      by (cases "t = [] \<or> length t > MAX_URL_LEN") simp_all
  qed
qed

subsection \<open>The interner contract\<close>

text \<open>A sequence of operations on a state, stopping at a panic or at divergence.\<close>

fun run_all :: "('s \<Rightarrow> 'i \<Rightarrow> ('s \<times> 'h) outcome option) \<Rightarrow> 's \<Rightarrow> 'i list \<Rightarrow> ('s \<times> 'h list) outcome option" where
  "run_all f s [] = Some (Return (s, []))"
| "run_all f s (x # xs) =
     (case f s x of
        None \<Rightarrow> None
      | Some Panic \<Rightarrow> Some Panic
      | Some (Return (s', h)) \<Rightarrow>
          (case run_all f s' xs of
             None \<Rightarrow> None
           | Some Panic \<Rightarrow> Some Panic
           | Some (Return (s'', hs)) \<Rightarrow> Some (Return (s'', h # hs))))"

locale interner =
  fixes inv :: "'s \<Rightarrow> bool"
    and table :: "'s \<Rightarrow> u8 list list"
    and intern_op :: "'s \<Rightarrow> u8 list \<Rightarrow> ('s \<times> u32) outcome option"
    and lookup :: "'s \<Rightarrow> u32 \<Rightarrow> (u8 list option) outcome"
    and class_op :: "'s \<Rightarrow> u32 \<Rightarrow> u32"
  assumes intern_op_refines:
      "inv s \<Longrightarrow> \<exists>s' h. intern_op s x = Some (Return (s', h)) \<and> inv s'
                        \<and> (table s', unat h) = intern_spec (table s) x"
    and table_distinct: "inv s \<Longrightarrow> distinct (table s)"
    and lookup_table:
      "inv s \<Longrightarrow> lookup s h =
         Return (if h = 0 \<or> length (table s) < unat h then None else Some (table s ! (unat h - 1)))"
    and class_table:
      "inv s \<Longrightarrow> class_op s h =
         class_code (if h = 0 \<or> length (table s) < unat h then Invalid
                     else classify_scheme (table s ! (unat h - 1)))"
begin

lemma intern_spec_cases:
  assumes "distinct us" "intern_spec us x = (us', n)"
  shows "prefix us us' \<and> (n \<noteq> 0 \<longrightarrow> n \<le> length us' \<and> us' ! (n - 1) = ascii_trim x)"
  using assms
  by (auto simp: intern_spec_def Let_def position_Some_iff nth_append split: if_splits option.splits)

lemma intern_all:
  "inv s \<Longrightarrow> \<exists>s' hs. run_all intern_op s xs = Some (Return (s', hs)) \<and> inv s'
       \<and> prefix (table s) (table s') \<and> length hs = length xs
       \<and> (\<forall>i < length xs. hs ! i \<noteq> 0 \<longrightarrow>
            unat (hs ! i) \<le> length (table s') \<and> table s' ! (unat (hs ! i) - 1) = ascii_trim (xs ! i))"
proof (induction xs arbitrary: s)
  case (Cons x xs)
  obtain s1 h where 1: "intern_op s x = Some (Return (s1, h))" "inv s1"
      "intern_spec (table s) x = (table s1, unat h)"
    using intern_op_refines [OF Cons.prems] by metis
  obtain s' hs where 2: "run_all intern_op s1 xs = Some (Return (s', hs))" "inv s'"
      "prefix (table s1) (table s')" "length hs = length xs"
      "\<forall>i < length xs. hs ! i \<noteq> 0 \<longrightarrow>
         unat (hs ! i) \<le> length (table s') \<and> table s' ! (unat (hs ! i) - 1) = ascii_trim (xs ! i)"
    using Cons.IH [OF 1(2)] by blast
  note step = intern_spec_cases [OF table_distinct [OF Cons.prems] 1(3)]
  have new: "unat h \<le> length (table s') \<and> table s' ! (unat h - 1) = ascii_trim x" if "h \<noteq> 0"
  proof -
    have "0 < unat h" "unat h \<le> length (table s1)" "table s1 ! (unat h - 1) = ascii_trim x"
      using that step by (simp_all add: unat_gt_0)
    with 2(3) show ?thesis
      by (auto simp: prefix_def nth_append)
  qed
  show ?case
    using 1 2 step new by (auto simp: nth_Cons' less_Suc_eq_0_disj intro: prefix_order.trans)
qed simp

lemma intern_all_handles:
  assumes "inv s" "run_all intern_op s xs = Some (Return (s', hs))" "i < length xs" "hs ! i \<noteq> 0"
  shows "lookup s' (hs ! i) = Return (Some (ascii_trim (xs ! i)))"
    and "class_op s' (hs ! i) = class_code (classify_scheme (xs ! i))"
    and "\<lbrakk>j < length xs; hs ! j \<noteq> 0\<rbrakk> \<Longrightarrow> hs ! i = hs ! j \<longleftrightarrow> ascii_trim (xs ! i) = ascii_trim (xs ! j)"
proof -
  have s': "inv s'" and hs: "\<And>k. \<lbrakk>k < length xs; hs ! k \<noteq> 0\<rbrakk> \<Longrightarrow> 0 < unat (hs ! k)
      \<and> unat (hs ! k) \<le> length (table s') \<and> table s' ! (unat (hs ! k) - 1) = ascii_trim (xs ! k)"
    using intern_all [OF assms(1), of xs] assms(2) by (auto simp: unat_gt_0)
  show "lookup s' (hs ! i) = Return (Some (ascii_trim (xs ! i)))"
    and "class_op s' (hs ! i) = class_code (classify_scheme (xs ! i))"
    using hs [OF assms(3,4)] assms(4) by (simp_all add: lookup_table [OF s'] class_table [OF s'])
  assume j: "j < length xs" "hs ! j \<noteq> 0"
  note i = hs [OF assms(3,4)] and j = hs [OF j]
  have "unat (hs ! i) = unat (hs ! j)" if "ascii_trim (xs ! i) = ascii_trim (xs ! j)"
  proof -
    have "unat (hs ! i) - 1 = unat (hs ! j) - 1"
      using i j that table_distinct [OF s'] nth_eq_iff_index_eq
      by (metis Suc_diff_1 Suc_le_lessD)
    with i j show ?thesis by linarith
  qed
  then show "hs ! i = hs ! j \<longleftrightarrow> ascii_trim (xs ! i) = ascii_trim (xs ! j)"
    using i j by (metis unsigned_word_eqI)
qed

end

lemma intern_refines:
  "pool_inv fxhash p \<Longrightarrow>
     \<exists>p' h. intern p x = Some (Return (p', h)) \<and> pool_inv fxhash p'
       \<and> (urls p', unat h) = intern_spec (urls p) x"
  unfolding intern_def by (rule intern_with_hash_refines)

lemma bytes_of_urls:
  assumes inv: "pool_inv H p"
  shows "bytes_of p h =
     Return (if h = 0 \<or> length (urls p) < unat h then None else Some (urls p ! (unat h - 1)))"
proof (cases "h = 0 \<or> length (entries p) < unat h")
  case False
  then have i: "unat h - 1 < length (entries p)" "unat (h - 1) = unat h - 1"
    using unat_gt_0 [of h] by (auto simp: unat_minus_one)
  with False pool_invD(5) [OF inv i(1)] show ?thesis
    by (simp add: bytes_of_def Let_def entry_ok_def url_at_def)
qed (auto simp: bytes_of_def)

lemma ucast_class_code: "ucast (ucast (class_code c) :: u8) = class_code c"
  by (cases c) simp_all

lemma class_code_less: "class_code c < 16"
  by (cases c) simp_all

lemma class_of_urls:
  assumes inv: "pool_inv H p"
  shows "class_of p h =
     class_code (if h = 0 \<or> length (urls p) < unat h then Invalid
                 else classify_scheme (urls p ! (unat h - 1)))"
proof (cases "h = 0 \<or> length (entries p) < unat h")
  case False
  then have i: "unat h - 1 < length (entries p)" "unat (h - 1) = unat h - 1"
    using unat_gt_0 [of h] by (auto simp: unat_minus_one)
  with False pool_invD(1) [OF inv] pool_invD(5) [OF inv i(1)] show ?thesis
    by (simp add: class_of_def entry_ok_def ucast_class_code)
qed (use pool_invD(1) [OF inv] in \<open>auto simp: class_of_def\<close>)

interpretation page_pool: interner "pool_inv fxhash" urls intern bytes_of class_of
  by unfold_locales (use intern_refines pool_invD(8) bytes_of_urls class_of_urls in auto)

subsection \<open>Properties\<close>

text \<open>
  C1. Whatever the hash function, hence whatever collisions occur, interning on a pool that satisfies
  the invariant terminates without a panic, keeps the invariant, and returns exactly the table and the
  handle of the abstract interning table.
\<close>

theorem intern_with_hash_correct:
  "pool_inv H p \<Longrightarrow>
     \<exists>p' h. intern_with_hash p input (H (ascii_trim input)) = Some (Return (p', h))
       \<and> pool_inv H p' \<and> (urls p', unat h) = intern_spec (urls p) input"
  by (rule intern_with_hash_refines)

text \<open>Two different URLs forced into one bucket.\<close>

theorem intern_with_hash_correct_witness:
  "\<exists>p h q k. intern_with_hash pool_new (bs '' https://a '') 7 = Some (Return (p, h))
     \<and> intern_with_hash p (bs ''https://b'') 7 = Some (Return (q, k))
     \<and> urls q = [bs ''https://a'', bs ''https://b''] \<and> unat h = 1 \<and> unat k = 2"
proof -
  let ?H = "\<lambda>_. 7"
  have spec: "intern_spec [] (bs '' https://a '') = ([bs ''https://a''], 1)"
    "intern_spec [bs ''https://a''] (bs ''https://b'') = ([bs ''https://a'', bs ''https://b''], 2)"
    by (simp_all add: intern_spec_def ascii_trim_eq trim_byte_def bs_def MAX_URL_LEN_def MAX_HANDLE_def)
  have "urls pool_new = []"
    by (simp add: urls_def pool_new_def)
  then obtain p h where p: "intern_with_hash pool_new (bs '' https://a '') 7 = Some (Return (p, h))"
      "pool_inv ?H p" "urls p = [bs ''https://a'']" "unat h = 1"
    using intern_with_hash_correct [OF pool_inv_new, of "bs '' https://a ''" ?H] by (auto simp: spec)
  then show ?thesis
    using intern_with_hash_correct [OF p(2), of "bs ''https://b''"] by (auto simp: spec)
qed

text \<open>
  C5. From an empty pool any sequence of interns returns one handle per URL, and at the end every handle
  other than zero still resolves to its own trimmed URL and to the class of that URL, and two handles
  are equal exactly when the trimmed URLs are.
\<close>

theorem intern_sequence_handles:
  "\<exists>p hs. run_all intern pool_new xs = Some (Return (p, hs)) \<and> length hs = length xs
     \<and> (\<forall>i < length xs. hs ! i \<noteq> 0 \<longrightarrow>
          bytes_of p (hs ! i) = Return (Some (ascii_trim (xs ! i)))
          \<and> class_of p (hs ! i) = class_code (classify_scheme (xs ! i))
          \<and> (\<forall>j < length xs. hs ! j \<noteq> 0 \<longrightarrow>
               (hs ! i = hs ! j \<longleftrightarrow> ascii_trim (xs ! i) = ascii_trim (xs ! j))))"
proof -
  note new = pool_inv_new [of fxhash]
  obtain p hs where run: "run_all intern pool_new xs = Some (Return (p, hs))" "length hs = length xs"
    using page_pool.intern_all [OF new] by blast
  then show ?thesis
    using page_pool.intern_all_handles [OF new run(1)] by blast
qed

theorem intern_sequence_handles_witness:
  "\<exists>p hs. run_all intern pool_new [bs ''data:x'', bs ''data:x''] = Some (Return (p, hs))
     \<and> length hs = 2 \<and> (hs ! 0 \<noteq> 0 \<and> hs ! 1 \<noteq> 0 \<longrightarrow> hs ! 0 = hs ! 1)"
  using intern_sequence_handles [of "[bs ''data:x'', bs ''data:x'']"]
  by (fastforce simp: numeral_2_eq_2)

text \<open>
  The classifier reports a script-capable class exactly for the URLs whose trimmed text is at most
  8192 bytes long and starts with that scheme and a colon, in any letter case.
\<close>

theorem classify_script_schemes:
  "(classify_scheme input = JavaScript \<longleftrightarrow>
      length (ascii_trim input) \<le> MAX_URL_LEN \<and> has_scheme (bs ''javascript'') (ascii_trim input))
   \<and> (classify_scheme input = VbScript \<longleftrightarrow>
      length (ascii_trim input) \<le> MAX_URL_LEN \<and> has_scheme (bs ''vbscript'') (ascii_trim input))
   \<and> (classify_scheme input = Data \<longleftrightarrow>
      length (ascii_trim input) \<le> MAX_URL_LEN \<and> has_scheme (bs ''data'') (ascii_trim input))"
  by (intro conjI; rule classify_scheme_class; simp add: scheme_class_eq byte_simps)

end
