(* ===== verification/Page_Abi.thy ===== *)
theory Page_Abi
  imports Url_Pool
begin

text \<open>
  The exports of \<^verbatim>\<open>crates/zp-page-rt/src/abi.rs\<close>: the calls the page membrane makes into the
  WASM module. The state is the module's linear memory and the thread-local pool. A pointer and a length
  name a region of memory; touching a byte outside memory traps, which is \<^const>\<open>Panic\<close> (so is a
  region that wraps past the end of the address space, which is undefined behaviour in the source). The
  addresses of the scratch buffer and of the pool's byte vector are chosen by the linker and the
  allocator, so they are arguments.
\<close>

subsection \<open>Linear memory\<close>

definition load :: "u8 list \<Rightarrow> nat \<Rightarrow> nat \<Rightarrow> u8 list outcome" where
  "load m a n = (if n = 0 then Return [] else if a + n \<le> length m then Return (take n (drop a m)) else Panic)"

definition store :: "u8 list \<Rightarrow> nat \<Rightarrow> u8 list \<Rightarrow> u8 list outcome" where
  "store m a xs =
     (if a + length xs \<le> length m then Return (take a m @ xs @ drop (a + length xs) m) else Panic)"

definition u32_to_le_bytes :: "u32 \<Rightarrow> u8 list" where
  "u32_to_le_bytes w = [ucast w, ucast (drop_bit 8 w), ucast (drop_bit 16 w), ucast (drop_bit 24 w)]"

fun u32_from_le_bytes :: "u8 list \<Rightarrow> u32" where
  "u32_from_le_bytes (a # b # c # d # _) =
     ucast a OR push_bit 8 (ucast b) OR push_bit 16 (ucast c) OR push_bit 24 (ucast d)"
| "u32_from_le_bytes _ = 0"

definition load_u32 :: "u8 list \<Rightarrow> nat \<Rightarrow> u32 outcome" where
  "load_u32 m a = (case load m a 4 of Panic \<Rightarrow> Panic | Return xs \<Rightarrow> Return (u32_from_le_bytes xs))"

subsection \<open>The exports\<close>

record page =
  mem :: "u8 list"
  pool :: url_pool

definition SCRATCH_CAP :: nat where
  "SCRATCH_CAP = 64 * 1024"

definition version :: u32 where
  "version = push_bit 16 0 OR push_bit 8 1 OR 0"

definition scratch_ptr :: "u32 \<Rightarrow> u32" where
  "scratch_ptr scratch_base = scratch_base"

definition scratch_cap :: u32 where
  "scratch_cap = word_of_nat SCRATCH_CAP"

definition url_intern :: "u32 \<Rightarrow> u32 \<Rightarrow> page \<Rightarrow> (page \<times> u32) outcome option" where
  "url_intern ptr n st =
     (if unat n > SCRATCH_CAP * 4 then Some (Return (st, 0))
      else case load (mem st) (unat ptr) (unat n) of
             Panic \<Rightarrow> Some Panic
           | Return input \<Rightarrow>
               (case intern (pool st) input of
                  None \<Rightarrow> None
                | Some Panic \<Rightarrow> Some Panic
                | Some (Return (p, h)) \<Rightarrow> Some (Return (st\<lparr>pool := p\<rparr>, h))))"

definition url_classify :: "u32 \<Rightarrow> page \<Rightarrow> u32" where
  "url_classify handle st = class_of (pool st) handle"

definition url_view :: "u32 \<Rightarrow> u32 \<Rightarrow> page \<Rightarrow> u64 outcome" where
  "url_view vec_base handle st =
     (case bytes_of (pool st) handle of
        Panic \<Rightarrow> Panic
      | Return None \<Rightarrow> Return 0
      | Return (Some xs) \<Rightarrow>
          Return (push_bit 32 (ucast (vec_base + offset (entries (pool st) ! unat (handle - 1))))
                  OR word_of_nat (length xs)))"

definition pool_reset :: "page \<Rightarrow> page" where
  "pool_reset st = st\<lparr>pool := reset (pool st)\<rparr>"

definition pool_stats :: "page \<Rightarrow> u64" where
  "pool_stats st =
     push_bit 32 (word_of_nat (pool_len (pool st))) OR word_of_nat (bytes_used (pool st))"

definition url_intern_and_classify :: "u32 \<Rightarrow> u32 \<Rightarrow> page \<Rightarrow> (page \<times> u64) outcome option" where
  "url_intern_and_classify ptr n st =
     (case url_intern ptr n st of
        None \<Rightarrow> None
      | Some Panic \<Rightarrow> Some Panic
      | Some (Return (st', h)) \<Rightarrow>
          Some (Return (st', push_bit 32 (ucast h) OR ucast (url_classify h st'))))"

definition url_classify_scheme_only :: "u32 \<Rightarrow> u32 \<Rightarrow> page \<Rightarrow> u32 outcome" where
  "url_classify_scheme_only ptr n st =
     (if n = 0 \<or> n > 256 then Return (class_code Invalid)
      else case load (mem st) (unat ptr) (unat n) of
             Panic \<Rightarrow> Panic
           | Return input \<Rightarrow> Return (class_code (classify_scheme input)))"

text \<open>One turn of the loop per length; the lengths are read from memory as the loop reaches them.\<close>

fun bulk_loop :: "nat \<Rightarrow> nat \<Rightarrow> nat \<Rightarrow> nat \<Rightarrow> page \<Rightarrow> page outcome option" where
  "bulk_loop 0 lens_cur byte_cur out_cur st = Some (Return st)"
| "bulk_loop (Suc k) lens_cur byte_cur out_cur st =
     (case load_u32 (mem st) lens_cur of
        Panic \<Rightarrow> Some Panic
      | Return n \<Rightarrow>
          (case load (mem st) byte_cur (unat n) of
             Panic \<Rightarrow> Some Panic
           | Return input \<Rightarrow>
               (case intern (pool st) input of
                  None \<Rightarrow> None
                | Some Panic \<Rightarrow> Some Panic
                | Some (Return (p, handle)) \<Rightarrow>
                    (case store (mem st) out_cur
                            (u32_to_le_bytes (pack_bulk_result (class_of p handle) handle)) of
                       Panic \<Rightarrow> Some Panic
                     | Return m \<Rightarrow>
                         bulk_loop k (lens_cur + 4) (byte_cur + unat n) (out_cur + 4)
                           \<lparr>mem = m, pool = p\<rparr>))))"

definition bulk_intern_and_classify ::
    "u32 \<Rightarrow> u32 \<Rightarrow> u32 \<Rightarrow> u32 \<Rightarrow> page \<Rightarrow> (page \<times> u32) outcome option" where
  "bulk_intern_and_classify lens_ptr count bytes_ptr out_ptr st =
     (if count = 0 then Some (Return (st, 0))
      else case bulk_loop (unat count) (unat lens_ptr) (unat bytes_ptr) (unat out_ptr) st of
             None \<Rightarrow> None
           | Some Panic \<Rightarrow> Some Panic
           | Some (Return st') \<Rightarrow> Some (Return (st', count)))"

subsection \<open>Memory lemmas\<close>

lemma u32_le_roundtrip [simp]: "u32_from_le_bytes (u32_to_le_bytes w) = w"
proof (rule bit_word_eqI)
  fix n assume "n < LENGTH(32)"
  then consider "n < 8" | "8 \<le> n" "n < 16" | "16 \<le> n" "n < 24" | "24 \<le> n" "n < 32"
    by fastforce
  then show "bit (u32_from_le_bytes (u32_to_le_bytes w)) n = bit w n"
    by cases (auto simp: u32_to_le_bytes_def bit_simps)
qed

lemma length_u32_to_le_bytes [simp]: "length (u32_to_le_bytes w) = 4"
  by (simp add: u32_to_le_bytes_def)

lemma store_length: "store m a xs = Return m' \<Longrightarrow> length m' = length m"
  by (auto simp: store_def split: if_splits)

lemma load_store_same: "store m a xs = Return m' \<Longrightarrow> load m' a (length xs) = Return xs"
  by (auto simp: store_def load_def split: if_splits)

lemma load_store_other:
  assumes "store m a xs = Return m'" "b + n \<le> a \<or> a + length xs \<le> b"
  shows "load m' b n = load m b n"
proof -
  have le: "a + length xs \<le> length m" and m': "m' = take a m @ xs @ drop (a + length xs) m"
    using assms(1) by (auto simp: store_def split: if_splits)
  have "take n (drop b m') = take n (drop b m)" if "b + n \<le> length m"
  proof (rule nth_equalityI)
    show "length (take n (drop b m')) = length (take n (drop b m))"
      using store_length [OF assms(1)] by simp
    fix i assume "i < length (take n (drop b m'))"
    then have "i < n" by simp
    then show "take n (drop b m') ! i = take n (drop b m) ! i"
      using that assms(2) le by (auto simp: m' nth_append)
  qed
  then show ?thesis
    using store_length [OF assms(1)] by (simp add: load_def)
qed

lemma store_total: "a + length xs \<le> length m \<Longrightarrow> \<exists>m'. store m a xs = Return m'"
  by (simp add: store_def)

subsection \<open>The bulk call\<close>

text \<open>The URLs named by a list of lengths, laid end to end from an address.\<close>

fun cut :: "u8 list \<Rightarrow> nat \<Rightarrow> u32 list \<Rightarrow> u8 list list" where
  "cut m a [] = []"
| "cut m a (n # ns) = take (unat n) (drop a m) # cut m (a + unat n) ns"

definition lens_at :: "u8 list \<Rightarrow> nat \<Rightarrow> u32 list \<Rightarrow> bool" where
  "lens_at m a ns \<longleftrightarrow> (\<forall>i < length ns. load_u32 m (a + 4 * i) = Return (ns ! i))"

definition separate :: "nat \<Rightarrow> nat \<Rightarrow> nat \<Rightarrow> nat \<Rightarrow> bool" where
  "separate a n b k \<longleftrightarrow> a + n \<le> b \<or> b + k \<le> a"

definition total :: "u32 list \<Rightarrow> nat" where
  "total ns = sum_list (map unat ns)"

lemma load_u32_store_other:
  "\<lbrakk>store m a xs = Return m'; b + 4 \<le> a \<or> a + length xs \<le> b\<rbrakk> \<Longrightarrow> load_u32 m' b = load_u32 m b"
  by (simp add: load_u32_def load_store_other)

lemma load_u32_store_same: "store m a (u32_to_le_bytes w) = Return m' \<Longrightarrow> load_u32 m' a = Return w"
  using load_store_same [of m a "u32_to_le_bytes w" m'] by (simp add: load_u32_def)

lemma cut_store_other:
  "\<lbrakk>store m a xs = Return m'; separate a (length xs) b (total ns); b + total ns \<le> length m\<rbrakk>
     \<Longrightarrow> cut m' b ns = cut m b ns"
proof (induction ns arbitrary: b)
  case (Cons n ns)
  have "load m' b (unat n) = load m b (unat n)"
    using Cons.prems by (intro load_store_other) (auto simp: separate_def total_def)
  then have "take (unat n) (drop b m') = take (unat n) (drop b m)"
    using Cons.prems store_length [OF Cons.prems(1)]
    by (auto simp: load_def total_def split: if_splits)
  moreover have "cut m' (b + unat n) ns = cut m (b + unat n) ns"
    using Cons.prems by (intro Cons.IH) (auto simp: separate_def total_def)
  ultimately show ?case by simp
qed simp

lemma lens_at_store_other:
  assumes m: "store m a xs = Return m'" and "lens_at m b (n # ns)" "separate a (length xs) (b + 4) (4 * length ns)"
  shows "lens_at m' (b + 4) ns"
  unfolding lens_at_def
proof (intro allI impI)
  fix i assume i: "i < length ns"
  have "load_u32 m' (b + 4 * Suc i) = load_u32 m (b + 4 * Suc i)"
    using assms(3) i by (intro load_u32_store_other [OF m]) (auto simp: separate_def)
  also have "\<dots> = Return (ns ! i)"
    using assms(2) i unfolding lens_at_def by (metis Suc_less_eq length_Cons nth_Cons_Suc)
  finally show "load_u32 m' (b + 4 + 4 * i) = Return (ns ! i)"
    by (simp add: algebra_simps)
qed

lemma class_of_less: "pool_inv H p \<Longrightarrow> class_of p h < 16"
  by (subst class_of_urls, assumption) (simp_all add: class_code_less)

lemma bulk_loop_correct:
  assumes "pool_inv fxhash (pool st)" "lens_at (mem st) la ns"
    and "ba + total ns \<le> length (mem st)" "oa + 4 * length ns \<le> length (mem st)"
    and "separate oa (4 * length ns) la (4 * length ns)" "separate oa (4 * length ns) ba (total ns)"
  shows "\<exists>st' hs. bulk_loop (length ns) la ba oa st = Some (Return st')
           \<and> run_all intern (pool st) (cut (mem st) ba ns) = Some (Return (pool st', hs))
           \<and> (\<forall>i < length ns. \<exists>p. pool_inv fxhash p \<and> prefix (urls p) (urls (pool st'))
                 \<and> unat (hs ! i) \<le> length (urls p)
                 \<and> load_u32 (mem st') (oa + 4 * i) = Return (pack_bulk_result (class_of p (hs ! i)) (hs ! i)))
           \<and> length hs = length ns \<and> pool_inv fxhash (pool st') \<and> prefix (urls (pool st)) (urls (pool st'))
           \<and> (\<forall>a n. separate oa (4 * length ns) a n \<longrightarrow> load (mem st') a n = load (mem st) a n)"
  using assms
proof (induction ns arbitrary: la ba oa st)
  case (Cons n ns)
  note prems = Cons.prems
  have len: "load_u32 (mem st) la = Return n"
    using prems(2) by (auto simp: lens_at_def)
  have inp: "load (mem st) ba (unat n) = Return (take (unat n) (drop ba (mem st)))"
    using prems(3) by (auto simp: load_def total_def)
  obtain p h where ih: "intern (pool st) (take (unat n) (drop ba (mem st))) = Some (Return (p, h))"
      "pool_inv fxhash p" "intern_spec (urls (pool st)) (take (unat n) (drop ba (mem st))) = (urls p, unat h)"
    using intern_refines [OF prems(1)] by metis
  have grow: "prefix (urls (pool st)) (urls p)" "unat h \<le> length (urls p)"
    using page_pool.intern_spec_cases [OF pool_invD(8) [OF prems(1)] ih(3)] by (auto simp: unat_gt_0)
  let ?w = "pack_bulk_result (class_of p h) h"
  obtain m where m: "store (mem st) oa (u32_to_le_bytes ?w) = Return m"
    using prems(4) store_total [of oa "u32_to_le_bytes ?w" "mem st"] by auto
  have lm: "length m = length (mem st)"
    by (rule store_length [OF m])
  have lens': "lens_at m (la + 4) ns"
    using prems(5) by (intro lens_at_store_other [OF m prems(2)]) (auto simp: separate_def)
  have cut': "cut m (ba + unat n) ns = cut (mem st) (ba + unat n) ns"
    using prems(3,6) by (intro cut_store_other [OF m]) (auto simp: separate_def total_def)
  obtain st' hs where IH: "bulk_loop (length ns) (la + 4) (ba + unat n) (oa + 4) \<lparr>mem = m, pool = p\<rparr> = Some (Return st')"
      "run_all intern p (cut m (ba + unat n) ns) = Some (Return (pool st', hs))"
      "\<forall>i < length ns. \<exists>p. pool_inv fxhash p \<and> prefix (urls p) (urls (pool st'))
         \<and> unat (hs ! i) \<le> length (urls p)
         \<and> load_u32 (mem st') (oa + 4 + 4 * i) = Return (pack_bulk_result (class_of p (hs ! i)) (hs ! i))"
      "length hs = length ns" "pool_inv fxhash (pool st')" "prefix (urls p) (urls (pool st'))"
      "\<forall>a k. separate (oa + 4) (4 * length ns) a k \<longrightarrow> load (mem st') a k = load m a k"
    using Cons.IH [of "\<lparr>mem = m, pool = p\<rparr>" "la + 4" "ba + unat n" "oa + 4"] prems ih(2) lens' lm
    by (auto simp: separate_def total_def)
  have first: "load_u32 (mem st') oa = Return ?w"
  proof -
    have "load (mem st') oa 4 = load m oa 4"
      using IH(7) by (auto simp: separate_def)
    then show ?thesis
      using load_u32_store_same [OF m] by (simp add: load_u32_def)
  qed
  have entries': "\<exists>q. pool_inv fxhash q \<and> prefix (urls q) (urls (pool st'))
         \<and> unat ((h # hs) ! i) \<le> length (urls q)
         \<and> load_u32 (mem st') (oa + 4 * i) = Return (pack_bulk_result (class_of q ((h # hs) ! i)) ((h # hs) ! i))"
    if "i < length (n # ns)" for i
  proof (cases i)
    case 0
    then show ?thesis
      using first ih(2) IH(6) grow(2) by auto
  next
    case (Suc k)
    then show ?thesis
      using IH(3) that by (auto simp: algebra_simps)
  qed
  have frame: "load (mem st') a k = load (mem st) a k" if "separate oa (4 * length (n # ns)) a k" for a k
  proof -
    have "load (mem st') a k = load m a k"
      using IH(7) that by (auto simp: separate_def)
    also have "\<dots> = load (mem st) a k"
      using that by (intro load_store_other [OF m]) (auto simp: separate_def)
    finally show ?thesis .
  qed
  show ?case
    using len inp ih(1) m IH(1,2,4,5) entries' frame grow(1) IH(6) cut'
    by (intro exI [of _ st'] exI [of _ "h # hs"]) (auto intro: prefix_order.trans)
qed (auto simp: page_pool.intern_all)

text \<open>A handle keeps its class as the table grows.\<close>

lemma class_of_prefix:
  assumes "pool_inv H p" "pool_inv H q" "prefix (urls p) (urls q)" "unat h \<le> length (urls p)"
  shows "class_of q h = class_of p h"
proof (cases "h = 0")
  case False
  then have "unat h - 1 < length (urls p)"
    using assms(4) unat_gt_0 [of h] by auto
  with assms show ?thesis
    by (auto simp: class_of_urls [OF assms(1)] class_of_urls [OF assms(2)] prefix_def nth_append
        simp del: length_urls)
qed (simp add: class_of_def)

subsection \<open>Properties\<close>

text \<open>
  C15. When the lengths, the bytes and the results lie in memory and the results overlap neither input,
  the bulk call returns its count, interns the URLs in order, and leaves in result \<open>i\<close> a word whose low
  28 bits are exactly the handle of URL \<open>i\<close> and whose top 4 bits are exactly its class. No other byte
  of memory changes.
\<close>

theorem bulk_intern_and_classify_correct:
  assumes "pool_inv fxhash (pool st)" "lens_at (mem st) (unat lens_ptr) ns" "length ns = unat count"
    and "unat bytes_ptr + total ns \<le> length (mem st)" "unat out_ptr + 4 * length ns \<le> length (mem st)"
    and "separate (unat out_ptr) (4 * length ns) (unat lens_ptr) (4 * length ns)"
    and "separate (unat out_ptr) (4 * length ns) (unat bytes_ptr) (total ns)"
  shows "\<exists>st' hs. bulk_intern_and_classify lens_ptr count bytes_ptr out_ptr st = Some (Return (st', count))
           \<and> run_all intern (pool st) (cut (mem st) (unat bytes_ptr) ns) = Some (Return (pool st', hs))
           \<and> (\<forall>i < length ns. \<exists>w. load_u32 (mem st') (unat out_ptr + 4 * i) = Return w
                 \<and> w AND MAX_HANDLE = hs ! i \<and> drop_bit 28 w = class_of (pool st') (hs ! i))
           \<and> (\<forall>a n. separate (unat out_ptr) (4 * length ns) a n \<longrightarrow> load (mem st') a n = load (mem st) a n)"
proof -
  obtain st' hs where B: "bulk_loop (length ns) (unat lens_ptr) (unat bytes_ptr) (unat out_ptr) st = Some (Return st')"
      "run_all intern (pool st) (cut (mem st) (unat bytes_ptr) ns) = Some (Return (pool st', hs))"
      "\<forall>i < length ns. \<exists>p. pool_inv fxhash p \<and> prefix (urls p) (urls (pool st'))
         \<and> unat (hs ! i) \<le> length (urls p)
         \<and> load_u32 (mem st') (unat out_ptr + 4 * i) = Return (pack_bulk_result (class_of p (hs ! i)) (hs ! i))"
      "pool_inv fxhash (pool st')"
      "\<forall>a n. separate (unat out_ptr) (4 * length ns) a n \<longrightarrow> load (mem st') a n = load (mem st) a n"
    using bulk_loop_correct [OF assms(1,2,4-7)] by blast
  have words: "\<exists>w. load_u32 (mem st') (unat out_ptr + 4 * i) = Return w
      \<and> w AND MAX_HANDLE = hs ! i \<and> drop_bit 28 w = class_of (pool st') (hs ! i)" if i: "i < length ns" for i
  proof -
    obtain p where p: "pool_inv fxhash p" "prefix (urls p) (urls (pool st'))"
        "unat (hs ! i) \<le> length (urls p)"
        "load_u32 (mem st') (unat out_ptr + 4 * i) = Return (pack_bulk_result (class_of p (hs ! i)) (hs ! i))"
      using B(3) i by blast
    have "hs ! i \<le> MAX_HANDLE"
      using p(3) pool_invD(2) [OF p(1)] by (simp add: word_le_nat_alt)
    then show ?thesis
      using p pack_bulk_result_unpack [OF class_of_less [OF p(1)]] class_of_prefix [OF p(1) B(4) p(2,3)]
      by simp
  qed
  have "bulk_intern_and_classify lens_ptr count bytes_ptr out_ptr st = Some (Return (st', count))"
    using B(1) assms(3) by (auto simp: bulk_intern_and_classify_def unat_eq_0)
  with B(2,5) words show ?thesis by blast
qed

text \<open>Two URLs, \<open>ws:\<close> and \<open>a\<close>, with their lengths at 0, bytes at 8 and results at 12.\<close>

theorem bulk_intern_and_classify_correct_witness:
  "\<exists>st' hs. bulk_intern_and_classify 0 2 8 12
       \<lparr>mem = [3,0,0,0, 1,0,0,0, 119,115,58, 97, 0,0,0,0, 0,0,0,0], pool = pool_new\<rparr> = Some (Return (st', 2))
     \<and> run_all intern pool_new [bs ''ws:'', bs ''a''] = Some (Return (pool st', hs))
     \<and> (\<exists>w. load_u32 (mem st') 16 = Return w \<and> w AND MAX_HANDLE = hs ! 1)"
proof -
  define st where
    "st = \<lparr>mem = [3,0,0,0, 1,0,0,0, 119,115,58, 97, 0,0,0,0, 0,0,0,0], pool = pool_new\<rparr>"
  have "pool_inv fxhash (pool st)"
    by (simp add: st_def pool_inv_new)
  moreover have "lens_at (mem st) (unat (0 :: u32)) [3, 1]"
    by (auto simp: st_def lens_at_def less_Suc_eq load_u32_def load_def)
  moreover have "cut (mem st) (unat (8 :: u32)) [3, 1] = [bs ''ws:'', bs ''a'']"
    by (simp add: st_def bs_def)
  ultimately show ?thesis
    using bulk_intern_and_classify_correct [of st 0 "[3, 1]" 2 8 12]
    unfolding st_def by (fastforce simp: separate_def total_def)
qed

end
