(* ===== verification/Utf8.thy ===== *)
theory Utf8
  imports Prelude
begin

text \<open>
  UTF-8 as Rust's standard library handles it: well-formedness (\<^verbatim>\<open>str::from_utf8\<close>), lossy
  decoding (\<^verbatim>\<open>String::from_utf8_lossy\<close>, which replaces each maximal ill-formed prefix by
  U+FFFD) and the Unicode white space that \<^verbatim>\<open>str::trim\<close> and
  \<^verbatim>\<open>str::split_whitespace\<close> recognise. Strings are byte lists; on well-formed input matching the
  encoding of a character at a byte offset is matching the character, as a lead byte never occurs inside one.
\<close>

subsection \<open>One decoding step\<close>

definition is_cont :: "u8 \<Rightarrow> bool" where
  "is_cont b \<longleftrightarrow> 128 \<le> b \<and> b \<le> 191"

definition second_ok :: "u8 \<Rightarrow> u8 \<Rightarrow> bool" where
  "second_ok b c \<longleftrightarrow>
     (if b = 0xE0 then 0xA0 \<le> c \<and> c \<le> 0xBF
      else if b = 0xED then 0x80 \<le> c \<and> c \<le> 0x9F
      else if b = 0xF0 then 0x90 \<le> c \<and> c \<le> 0xBF
      else if b = 0xF4 then 0x80 \<le> c \<and> c \<le> 0x8F
      else is_cont c)"

text \<open>
  The number of continuation bytes a lead byte asks for; \<^const>\<open>None\<close> for a byte that starts no
  character. \<open>utf8_step\<close> is \<^term>\<open>Inr n\<close> when the input starts with an \<open>n\<close>-byte character
  and \<^term>\<open>Inl n\<close> when its first \<open>n\<close> bytes are a maximal ill-formed prefix.
\<close>

definition lead_extra :: "u8 \<Rightarrow> nat option" where
  "lead_extra b =
     (if b < 0x80 then Some 0
      else if 0xC2 \<le> b \<and> b \<le> 0xDF then Some 1
      else if 0xE0 \<le> b \<and> b \<le> 0xEF then Some 2
      else if 0xF0 \<le> b \<and> b \<le> 0xF4 then Some 3
      else None)"

fun conts :: "nat \<Rightarrow> u8 list \<Rightarrow> nat" where
  "conts 0 s = 0"
| "conts (Suc k) [] = 0"
| "conts (Suc k) (c # s) = (if is_cont c then Suc (conts k s) else 0)"

fun utf8_step :: "u8 list \<Rightarrow> nat + nat" where
  "utf8_step [] = Inl 0"
| "utf8_step (b # s) =
     (case lead_extra b of
        None \<Rightarrow> Inl 1
      | Some 0 \<Rightarrow> Inr 1
      | Some (Suc k) \<Rightarrow>
          (case s of
             [] \<Rightarrow> Inl 1
           | c # t \<Rightarrow>
               (if \<not> second_ok b c then Inl 1
                else if conts k t = k then Inr (Suc (Suc k))
                else Inl (Suc (Suc (conts k t))))))"

lemma conts_le: "conts k s \<le> k \<and> conts k s \<le> length s"
  by (induction k s rule: conts.induct) auto

lemma conts_full_le: "conts k s = k \<Longrightarrow> k \<le> length s"
  using conts_le [of k s] by simp

lemma utf8_step_Inr: "utf8_step s = Inr n \<Longrightarrow> 0 < n \<and> n \<le> length s"
  by (cases s) (auto dest: conts_full_le split: option.splits nat.splits list.splits if_splits)

lemma utf8_step_Inl: "utf8_step s = Inl n \<Longrightarrow> s \<noteq> [] \<Longrightarrow> 0 < n"
  by (cases s) (auto split: option.splits nat.splits list.splits if_splits)

subsection \<open>Validation and lossy decoding\<close>

function utf8_valid :: "u8 list \<Rightarrow> bool" where
  "utf8_valid s =
     (if s = [] then True
      else case utf8_step s of Inl _ \<Rightarrow> False | Inr n \<Rightarrow> utf8_valid (drop n s))"
  by pat_completeness auto
termination
  by (relation "measure length") (auto dest: utf8_step_Inr)

declare utf8_valid.simps [simp del]

definition from_utf8 :: "u8 list \<Rightarrow> str option" where
  "from_utf8 s = (if utf8_valid s then Some s else None)"

definition replacement_character :: str where
  "replacement_character = [0xEF, 0xBF, 0xBD]"

function from_utf8_lossy :: "u8 list \<Rightarrow> str" where
  "from_utf8_lossy s =
     (if s = [] then []
      else case utf8_step s of
             Inr n \<Rightarrow> take n s @ from_utf8_lossy (drop n s)
           | Inl n \<Rightarrow> replacement_character @ from_utf8_lossy (drop n s))"
  by pat_completeness auto
termination
  by (relation "measure length") (auto dest: utf8_step_Inr utf8_step_Inl)

declare from_utf8_lossy.simps [simp del]

subsection \<open>White space\<close>

definition white_space :: "u8 list list" where
  "white_space =
     [[9], [10], [11], [12], [13], [32], [0xC2, 0x85], [0xC2, 0xA0], [0xE1, 0x9A, 0x80],
      [0xE2, 0x80, 0x80], [0xE2, 0x80, 0x81], [0xE2, 0x80, 0x82], [0xE2, 0x80, 0x83],
      [0xE2, 0x80, 0x84], [0xE2, 0x80, 0x85], [0xE2, 0x80, 0x86], [0xE2, 0x80, 0x87],
      [0xE2, 0x80, 0x88], [0xE2, 0x80, 0x89], [0xE2, 0x80, 0x8A], [0xE2, 0x80, 0xA8],
      [0xE2, 0x80, 0xA9], [0xE2, 0x80, 0xAF], [0xE2, 0x81, 0x9F], [0xE3, 0x80, 0x80]]"

definition ws_at :: "u8 list \<Rightarrow> nat" where
  "ws_at s = (case find (\<lambda>w. starts_with w s) white_space of Some w \<Rightarrow> length w | None \<Rightarrow> 0)"

definition ws_before :: "u8 list \<Rightarrow> nat" where
  "ws_before s = (case find (\<lambda>w. ends_with w s) white_space of Some w \<Rightarrow> length w | None \<Rightarrow> 0)"

lemma ws_at_le: "ws_at s \<le> length s"
  by (auto simp: ws_at_def find_Some_iff starts_with_length split: option.splits)

lemma ws_before_le: "ws_before s \<le> length s"
  by (auto simp: ws_before_def find_Some_iff ends_with_def split: option.splits)

function trim_start :: "str \<Rightarrow> str" where
  "trim_start s = (if ws_at s = 0 then s else trim_start (drop (ws_at s) s))"
  by pat_completeness auto
termination
proof (relation "measure length")
  fix s
  assume "ws_at s \<noteq> 0"
  then show "(drop (ws_at s) s, s) \<in> measure length"
    using ws_at_le [of s] by (simp add: diff_less)
qed simp

function trim_end :: "str \<Rightarrow> str" where
  "trim_end s = (if ws_before s = 0 then s else trim_end (take (length s - ws_before s) s))"
  by pat_completeness auto
termination
proof (relation "measure length")
  fix s
  assume "ws_before s \<noteq> 0"
  then show "(take (length s - ws_before s) s, s) \<in> measure length"
    using ws_before_le [of s] by (simp add: diff_less)
qed simp

declare trim_start.simps [simp del] trim_end.simps [simp del]

definition trim :: "str \<Rightarrow> str" where
  "trim s = trim_end (trim_start s)"

fun first_ws :: "str \<Rightarrow> nat option" where
  "first_ws [] = None"
| "first_ws (b # s) = (if ws_at (b # s) \<noteq> 0 then Some 0 else map_option Suc (first_ws s))"

lemma trim_start_no_ws: "ws_at (trim_start s) = 0"
  by (induction s rule: trim_start.induct) (metis trim_start.simps)

lemma length_trim_start: "length (trim_start s) \<le> length s"
proof (induction s rule: trim_start.induct)
  case (1 s)
  then show ?case
    by (cases "ws_at s = 0") (auto simp: trim_start.simps [of s])
qed

lemma first_ws_trim_start: "first_ws (trim_start s) = Some i \<Longrightarrow> 0 < i"
  using trim_start_no_ws [of s] by (cases "trim_start s") (auto split: if_splits)

function split_whitespace :: "str \<Rightarrow> str list" where
  "split_whitespace s =
     (if trim_start s = [] then []
      else case first_ws (trim_start s) of
             None \<Rightarrow> [trim_start s]
           | Some i \<Rightarrow> take i (trim_start s) # split_whitespace (drop i (trim_start s)))"
  by pat_completeness auto
termination
proof (relation "measure length")
  fix s i
  assume "trim_start s \<noteq> []" and "first_ws (trim_start s) = Some i"
  then have "length (trim_start s) - i < length (trim_start s)"
    by (auto dest: first_ws_trim_start)
  then show "(drop i (trim_start s), s) \<in> measure length"
    using length_trim_start [of s] by (simp del: length_greater_0_conv)
qed simp

declare split_whitespace.simps [simp del]

subsection \<open>Facts about decoding\<close>

lemma conts_append: "conts k s = k \<Longrightarrow> conts k (s @ t) = k"
  by (induction k s rule: conts.induct) (auto split: if_splits)

lemma conts_take: "conts k s = k \<Longrightarrow> conts k (take k s) = k"
  by (induction k s rule: conts.induct) (auto split: if_splits)

lemma utf8_step_append: "utf8_step s = Inr n \<Longrightarrow> utf8_step (s @ t) = Inr n"
  by (cases s) (auto simp: conts_append split: option.splits nat.splits list.splits if_splits)

lemma utf8_step_take: "utf8_step s = Inr n \<Longrightarrow> utf8_step (take n s) = Inr n"
  by (cases s) (auto simp: conts_take split: option.splits nat.splits list.splits if_splits)

lemma utf8_valid_Nil [simp]: "utf8_valid []"
  by (simp add: utf8_valid.simps)

lemma utf8_valid_step:
  "utf8_step s = Inr n \<Longrightarrow> utf8_valid s \<longleftrightarrow> utf8_valid (drop n s)"
  by (cases "s = []") (auto simp: utf8_valid.simps [of s])

lemma utf8_valid_char: "utf8_step s = Inr n \<Longrightarrow> utf8_valid (take n s)"
  using utf8_valid_step [OF utf8_step_take, of s n] by simp

lemma utf8_valid_append: "utf8_valid s \<Longrightarrow> utf8_valid t \<Longrightarrow> utf8_valid (s @ t)"
proof (induction s rule: utf8_valid.induct)
  case (1 s)
  show ?case
  proof (cases "s = []")
    case True
    with "1.prems" show ?thesis by simp
  next
    case False
    with "1.prems" obtain n where n: "utf8_step s = Inr n"
      by (auto simp: utf8_valid.simps [of s] split: sum.splits)
    then have le: "n \<le> length s" by (auto dest: utf8_step_Inr)
    from n "1.prems" have "utf8_valid (drop n s)" by (simp add: utf8_valid_step)
    with "1.IH" False n "1.prems" have "utf8_valid (drop n s @ t)" by simp
    then have "utf8_valid (drop n (s @ t))" using le by simp
    with n show ?thesis by (simp add: utf8_valid_step [OF utf8_step_append])
  qed
qed

lemma utf8_valid_replacement [simp]: "utf8_valid replacement_character"
  by (simp add: replacement_character_def utf8_valid.simps lead_extra_def second_ok_def is_cont_def)

lemma utf8_valid_lossy: "utf8_valid (from_utf8_lossy s)"
proof (induction s rule: from_utf8_lossy.induct)
  case (1 s)
  then show ?case
    by (subst from_utf8_lossy.simps)
      (auto intro!: utf8_valid_append utf8_valid_char split: sum.splits)
qed

lemma from_utf8_lossy_valid: "utf8_valid s \<Longrightarrow> from_utf8_lossy s = s"
proof (induction s rule: utf8_valid.induct)
  case (1 s)
  show ?case
  proof (cases "s = []")
    case True
    then show ?thesis by (simp add: from_utf8_lossy.simps)
  next
    case False
    with "1.prems" obtain n where n: "utf8_step s = Inr n"
      by (auto simp: utf8_valid.simps [of s] split: sum.splits)
    with "1.prems" have "utf8_valid (drop n s)" by (simp add: utf8_valid_step)
    with "1.IH" False n have "from_utf8_lossy (drop n s) = drop n s" by simp
    with False n show ?thesis by (simp add: from_utf8_lossy.simps [of s])
  qed
qed

lemma utf8_valid_ascii: "\<forall>b \<in> set s. b < 0x80 \<Longrightarrow> utf8_valid s"
proof (induction s)
  case Nil
  then show ?case by simp
next
  case (Cons b s)
  then have "utf8_step (b # s) = Inr 1" by (simp add: lead_extra_def)
  from utf8_valid_step [OF this] Cons show ?case by simp
qed

lemma from_utf8_lossy_ascii: "\<forall>b \<in> set s. b < 0x80 \<Longrightarrow> from_utf8_lossy s = s"
  by (simp add: from_utf8_lossy_valid utf8_valid_ascii)

lemma from_utf8_lossy_Nil [simp]: "from_utf8_lossy [] = []"
  by (simp add: from_utf8_lossy.simps)

lemma from_utf8_lossy_eq_Nil [simp]: "from_utf8_lossy s = [] \<longleftrightarrow> s = []"
proof
  assume "from_utf8_lossy s = []"
  then show "s = []"
    by (subst (asm) from_utf8_lossy.simps)
      (auto simp: replacement_character_def dest: utf8_step_Inr split: if_splits sum.splits)
qed simp

subsection \<open>Facts about white space\<close>

definition graphic :: "u8 \<Rightarrow> bool" where
  "graphic b \<longleftrightarrow> 33 \<le> b \<and> b \<le> 126"

lemma white_space_not_graphic:
  "w \<in> set white_space \<Longrightarrow> w \<noteq> [] \<and> \<not> graphic (hd w) \<and> \<not> graphic (last w)"
  by (auto simp: white_space_def graphic_def)

lemma starts_with_hd: "w \<noteq> [] \<Longrightarrow> starts_with w (b # s) \<Longrightarrow> hd w = b"
  by (cases w) (simp_all add: starts_with_def)

lemma ws_at_graphic: "graphic b \<Longrightarrow> ws_at (b # s) = 0"
proof -
  assume b: "graphic b"
  have "\<not> starts_with w (b # s)" if "w \<in> set white_space" for w
    using white_space_not_graphic [OF that] b starts_with_hd [of w b s] by auto
  then have "find (\<lambda>w. starts_with w (b # s)) white_space = None"
    by (simp add: find_None_iff)
  then show ?thesis by (simp add: ws_at_def)
qed

lemma ws_at_Nil [simp]: "ws_at [] = 0"
  by (simp add: ws_at_def white_space_def starts_with_def)

lemma ws_before_Nil [simp]: "ws_before [] = 0"
  by (simp add: ws_before_def white_space_def ends_with_def)

lemma ends_with_snoc:
  "ends_with (w @ [c]) (s @ [b]) \<longleftrightarrow> c = b \<and> ends_with w s"
  by (auto simp: ends_with_def)

lemma ends_with_last: "w \<noteq> [] \<Longrightarrow> ends_with w (s @ [b]) \<Longrightarrow> last w = b"
  by (metis append_butlast_last_id ends_with_snoc)

lemma ws_before_graphic: "graphic b \<Longrightarrow> ws_before (s @ [b]) = 0"
proof -
  assume b: "graphic b"
  have "\<not> ends_with w (s @ [b])" if "w \<in> set white_space" for w
    using white_space_not_graphic [OF that] b ends_with_last [of w s b] by auto
  then have "find (\<lambda>w. ends_with w (s @ [b])) white_space = None"
    by (simp add: find_None_iff)
  then show ?thesis by (simp add: ws_before_def)
qed

lemma trim_start_graphic: "graphic b \<Longrightarrow> trim_start (b # s) = b # s"
  by (simp add: trim_start.simps [of "b # s"] ws_at_graphic)

lemma trim_end_graphic: "graphic b \<Longrightarrow> trim_end (s @ [b]) = s @ [b]"
  by (simp add: trim_end.simps [of "s @ [b]"] ws_before_graphic)

lemma trim_Nil [simp]: "trim [] = []"
  by (simp add: trim_def trim_start.simps trim_end.simps)

lemma trim_graphic:
  assumes "s \<noteq> []" and "graphic (hd s)" and "graphic (last s)"
  shows "trim s = s"
proof -
  have "trim_start s = s"
    using assms trim_start_graphic [of "hd s" "tl s"] by simp
  moreover have "trim_end s = s"
    using assms trim_end_graphic [of "last s" "butlast s"] by simp
  ultimately show ?thesis by (simp add: trim_def)
qed

lemma trim_all_graphic: "\<forall>b \<in> set s. graphic b \<Longrightarrow> trim s = s"
  by (cases "s = []") (simp_all add: trim_graphic)

lemma trim_end_take: "\<exists>n. trim_end s = take n s"
proof (induction s rule: trim_end.induct)
  case (1 s)
  show ?case
  proof (cases "ws_before s = 0")
    case True
    then have "trim_end s = take (length s) s"
      by (simp add: trim_end.simps [of s])
    then show ?thesis by blast
  next
    case False
    with "1.IH" obtain n where "trim_end (take (length s - ws_before s) s) = take n (take (length s - ws_before s) s)"
      by blast
    with False show ?thesis
      by (auto simp: trim_end.simps [of s])
  qed
qed

lemma trim_start_drop: "\<exists>n. trim_start s = drop n s"
proof (induction s rule: trim_start.induct)
  case (1 s)
  show ?case
  proof (cases "ws_at s = 0")
    case True
    then have "trim_start s = drop 0 s"
      by (simp add: trim_start.simps [of s])
    then show ?thesis by blast
  next
    case False
    with "1.IH" obtain n where "trim_start (drop (ws_at s) s) = drop n (drop (ws_at s) s)"
      by blast
    with False show ?thesis
      by (auto simp: trim_start.simps [of s])
  qed
qed

lemma set_trim: "set (trim s) \<subseteq> set s"
proof -
  obtain n where "trim_start s = drop n s" using trim_start_drop by blast
  moreover obtain m where "trim_end (trim_start s) = take m (trim_start s)"
    using trim_end_take by blast
  ultimately show ?thesis
    by (metis order_trans set_drop_subset set_take_subset trim_def)
qed

end
