(* ===== verification/Csp.thy ===== *)
theory Csp
  imports Utf8
begin

text \<open>
  The Content-Security-Policy builders and the filter for a target's own policy,
  \<^verbatim>\<open>crates/zp-shared/src/csp.rs\<close>. A policy is the string that goes into the header. The properties
  read the built strings back with a reference parser (policies separated by commas, directives by
  semicolons, sources by white space) and say what each directive admits.
\<close>

subsection \<open>Definitions\<close>

text \<open>A quoted source expression such as \<open>self\<close> or \<open>none\<close>.\<close>

definition quoted :: "string \<Rightarrow> str" where
  "quoted s = [39] @ bs s @ [39]"

definition words :: "str list \<Rightarrow> str" where
  "words ws = join [32] ws"

record csp_options =
  challenge_compat :: bool

definition CF :: str where
  "CF = bs ''https://challenges.cloudflare.com''"

definition cf_suffix :: "csp_options \<Rightarrow> str" where
  "cf_suffix opts = (if challenge_compat opts then [32] @ CF else [])"

definition script_words :: str where
  "script_words = words [quoted ''self'', quoted ''unsafe-inline'', quoted ''unsafe-eval'', quoted ''wasm-unsafe-eval'']"

definition build_csp_with :: "str \<Rightarrow> csp_options \<Rightarrow> str" where
  "build_csp_with ws_origin opts =
     (let ws = trim ws_origin; cf = cf_suffix opts in
      join (bs ''; '')
        [words [bs ''default-src'', quoted ''none''],
         words [bs ''script-src'', script_words] @ cf,
         words [bs ''style-src'', quoted ''self'', quoted ''unsafe-inline''],
         words [bs ''img-src'', quoted ''self'', bs ''blob:'', bs ''data:''],
         words [bs ''font-src'', quoted ''self'', bs ''data:''],
         words [bs ''media-src'', quoted ''self'', bs ''blob:''],
         words [bs ''connect-src'', quoted ''self'', ws] @ cf,
         words [bs ''frame-src'', quoted ''self'', bs ''blob:''] @ cf,
         words [bs ''child-src'', quoted ''self'', bs ''blob:''] @ cf,
         words [bs ''worker-src'', quoted ''self'', bs ''blob:''],
         words [bs ''manifest-src'', quoted ''self''],
         words [bs ''object-src'', quoted ''none''],
         words [bs ''base-uri'', quoted ''self''],
         words [bs ''form-action'', quoted ''self''],
         words [bs ''frame-ancestors'', quoted ''none'']])"

definition build_csp :: "str \<Rightarrow> str" where
  "build_csp ws_origin = build_csp_with ws_origin \<lparr>challenge_compat = False\<rparr>"

fun connect_list :: "str list \<Rightarrow> str list \<Rightarrow> str list" where
  "connect_list connect [] = connect"
| "connect_list connect (origin # rest) =
     (let ori = trim origin in
      if ori \<noteq> [] \<and> ori \<notin> set connect then connect_list (connect @ [ori]) rest
      else connect_list connect rest)"

definition build_proxied_csp_with :: "str \<Rightarrow> str list \<Rightarrow> csp_options \<Rightarrow> str" where
  "build_proxied_csp_with ws_origin extra_connect opts =
     (let cf = cf_suffix opts;
          connect = connect_list [quoted ''self'', trim ws_origin] extra_connect;
          connect = (if challenge_compat opts \<and> CF \<notin> set connect then connect @ [CF] else connect)
      in join (bs ''; '')
        [words [bs ''default-src'', quoted ''none''],
         words [bs ''script-src'', script_words, bs ''blob:''] @ cf,
         words [bs ''style-src'', quoted ''self'', quoted ''unsafe-inline'', bs ''blob:'', bs ''data:''],
         words [bs ''img-src'', quoted ''self'', bs ''blob:'', bs ''data:''],
         words [bs ''font-src'', quoted ''self'', bs ''blob:'', bs ''data:''],
         words [bs ''media-src'', quoted ''self'', bs ''blob:'', bs ''data:''],
         words [bs ''connect-src'', words connect, bs ''blob:'', bs ''data:''],
         words [bs ''frame-src'', quoted ''self'', bs ''blob:'', bs ''data:''] @ cf,
         words [bs ''child-src'', quoted ''self'', bs ''blob:'', bs ''data:''] @ cf,
         words [bs ''worker-src'', quoted ''self'', bs ''blob:''],
         words [bs ''object-src'', quoted ''none''],
         words [bs ''base-uri'', quoted ''none''],
         words [bs ''form-action'', quoted ''self''],
         words [bs ''manifest-src'', quoted ''self''],
         words [bs ''report-uri'', bs ''/zp/api/csp-report'']])"

definition build_proxied_csp :: "str \<Rightarrow> str" where
  "build_proxied_csp ws_origin = build_proxied_csp_with ws_origin [] \<lparr>challenge_compat = False\<rparr>"

definition TT_POLICY_NAME :: str where
  "TT_POLICY_NAME = bs ''zp-internal''"

definition tt_directive :: "str \<Rightarrow> str option" where
  "tt_directive segment =
     (case split_whitespace segment of
        [] \<Rightarrow> None
      | n # tokens \<Rightarrow>
          let name = to_ascii_lowercase n in
          if name = bs ''require-trusted-types-for'' then Some (trim (words [name, words tokens]))
          else if name = bs ''trusted-types'' then
            if tokens = [] \<or> list_ex (\<lambda>t. eq_ignore_ascii_case t (quoted ''none'')) tokens
            then Some (words [name, TT_POLICY_NAME])
            else let tokens = (if list_ex (\<lambda>t. t = bs ''*'' \<or> t = TT_POLICY_NAME) tokens then tokens
                               else tokens @ [TT_POLICY_NAME])
                 in Some (words [name, words tokens])
          else None)"

definition trusted_types_directives :: "str \<Rightarrow> str list" where
  "trusted_types_directives policy = List.map_filter tt_directive (split_on 59 policy)"

definition trusted_types_policies :: "str \<Rightarrow> str list" where
  "trusted_types_policies hdr =
     map (join (bs ''; '')) (filter (\<lambda>d. d \<noteq> []) (map trusted_types_directives (split_on 44 hdr)))"

definition rsplit_colon :: "str \<Rightarrow> (str \<times> str) option" where
  "rsplit_colon s =
     (case position (\<lambda>c. c = 58) (rev s) of
        None \<Rightarrow> None
      | Some i \<Rightarrow> Some (take (length s - i - 1) s, drop (length s - i) s))"

definition site_frame_source :: "str \<Rightarrow> str" where
  "site_frame_source proxy_origin =
     (case find_sub (bs ''://'') proxy_origin of
        None \<Rightarrow> []
      | Some k \<Rightarrow>
          let sch = take k proxy_origin;
              rest = drop (k + 3) proxy_origin;
              authority = hd (split_on 47 rest);
              (h, port) = (case rsplit_colon authority of
                             Some (h, p) \<Rightarrow>
                               if list_all is_ascii_digit p \<and> 93 \<notin> set h then (h, p) else (authority, [])
                           | None \<Rightarrow> (authority, []));
              h = to_ascii_lowercase h
          in if h \<noteq> bs ''localhost'' \<and> \<not> ends_with (bs ''.localhost'') h then []
             else if port = [] then sch @ bs ''://*.localhost''
             else sch @ bs ''://*.localhost:'' @ port)"

definition infra_sources :: "str \<Rightarrow> str list" where
  "infra_sources name =
     (if name = bs ''script-src'' \<or> name = bs ''script-src-elem'' \<or> name = bs ''script-src-attr'' then
        [quoted ''self'', quoted ''unsafe-inline'', quoted ''unsafe-eval'', quoted ''wasm-unsafe-eval'', bs ''blob:'']
      else if name = bs ''connect-src'' then [quoted ''self'']
      else if name = bs ''worker-src'' then [quoted ''self'', bs ''blob:'']
      else if name = bs ''child-src'' then [quoted ''self'', bs ''blob:'', bs ''data:'']
      else if name = bs ''frame-src'' then [quoted ''self'', bs ''blob:'', bs ''data:'']
      else if name = bs ''style-src'' \<or> name = bs ''style-src-elem'' \<or> name = bs ''style-src-attr'' then
        [quoted ''self'', quoted ''unsafe-inline'', bs ''blob:'', bs ''data:'']
      else if name = bs ''default-src'' then
        [quoted ''self'', quoted ''unsafe-inline'', quoted ''unsafe-eval'', quoted ''wasm-unsafe-eval'',
         bs ''blob:'', bs ''data:'']
      else [])"

definition is_infra :: "str \<Rightarrow> bool" where
  "is_infra name \<longleftrightarrow> infra_sources name \<noteq> []"

definition RESOURCE :: "str list" where
  "RESOURCE = map bs [''img-src'', ''media-src'', ''font-src'', ''object-src'', ''manifest-src'',
     ''prefetch-src'', ''form-action'', ''base-uri'']"

fun add_sources :: "str list \<Rightarrow> str list \<Rightarrow> str list" where
  "add_sources sources [] = sources"
| "add_sources sources (extra # rest) =
     add_sources (if extra \<in> set sources then sources else sources @ [extra]) rest"

text \<open>What one segment of the target's policy becomes: a directive name and its sources.\<close>

definition meta_directive :: "str \<Rightarrow> str \<Rightarrow> (str \<times> str list) option" where
  "meta_directive sfs segment =
     (let seg = trim segment in
      if seg = [] then None
      else case split_whitespace seg of
             [] \<Rightarrow> None
           | n # sources \<Rightarrow>
               let name = to_ascii_lowercase n in
               if sources = [] then None
               else if is_infra name then
                 let sources = filter (\<lambda>s. s \<noteq> quoted ''none'') sources;
                     sources = add_sources sources (infra_sources name);
                     sources = (if sfs \<noteq> [] \<and> (name = bs ''frame-src'' \<or> name = bs ''child-src'')
                                   \<and> sfs \<notin> set sources
                                then sources @ [sfs] else sources)
                 in Some (name, sources)
               else if name \<in> set RESOURCE then
                 if quoted ''none'' \<in> set sources then Some (name, [quoted ''none''])
                 else Some (name, if quoted ''self'' \<in> set sources then sources else sources @ [quoted ''self''])
               else None)"

definition filter_meta_csp_with :: "str \<Rightarrow> str \<Rightarrow> str" where
  "filter_meta_csp_with content sfs =
     join (bs ''; '')
       (trusted_types_directives content
        @ map (\<lambda>(name, sources). words [name, words sources])
            (List.map_filter (meta_directive sfs) (split_on 59 content)))"

definition filter_meta_csp :: "str \<Rightarrow> str" where
  "filter_meta_csp content = filter_meta_csp_with content []"

subsection \<open>Reading a policy unsplit\<close>

text \<open>
  How a header is read (Content Security Policy, sections 2.2.1 and 2.2.2): a list of policies between commas, a
  policy a list of directives between semicolons, a directive its words between white space.
\<close>

definition csp_space :: "u8 \<Rightarrow> bool" where
  "csp_space b \<longleftrightarrow> b \<in> {0x09, 0x0A, 0x0C, 0x0D, 0x20}"

fun csp_tokens :: "str \<Rightarrow> str \<Rightarrow> str list" where
  "csp_tokens cur [] = (if cur = [] then [] else [rev cur])"
| "csp_tokens cur (b # s) =
     (if csp_space b then (if cur = [] then csp_tokens [] s else rev cur # csp_tokens [] s)
      else csp_tokens (b # cur) s)"

definition parse_policy :: "str \<Rightarrow> str list list" where
  "parse_policy s = filter (\<lambda>d. d \<noteq> []) (map (csp_tokens []) (split_on 59 s))"

definition parse_csp :: "str \<Rightarrow> str list list list" where
  "parse_csp s = filter (\<lambda>p. p \<noteq> []) (map parse_policy (split_on 44 s))"

definition clean :: "str \<Rightarrow> bool" where
  "clean w \<longleftrightarrow> w \<noteq> [] \<and> list_all (\<lambda>b. \<not> csp_space b \<and> b \<noteq> 59 \<and> b \<noteq> 44) w"

definition policy_text :: "str list list \<Rightarrow> str" where
  "policy_text ds = join (bs ''; '') (map words ds)"

lemma words_append: "xs \<noteq> [] \<Longrightarrow> ys \<noteq> [] \<Longrightarrow> words (xs @ ys) = words xs @ [32] @ words ys"
proof (induction xs rule: induct_list012)
  case (2 x)
  then show ?case
    by (cases ys) (simp_all add: words_def)
qed (simp_all add: words_def)

lemma words_nest: "ws \<noteq> [] \<Longrightarrow> words (xs @ words ws # ys) = words (xs @ ws @ ys)"
proof -
  assume ws: "ws \<noteq> []"
  have "words (words ws # ys) = words (ws @ ys)"
    using ws by (cases "ys = []") (simp add: words_def, simp add: words_append [of "[words ws]" ys, simplified] words_append words_def [of "[_]"])
  then show ?thesis
    using ws by (cases "xs = []") (simp_all add: words_append)
qed

lemma csp_tokens_word: "list_all (\<lambda>b. \<not> csp_space b) w \<Longrightarrow> csp_tokens cur (w @ s) = csp_tokens (rev w @ cur) s"
  by (induction w arbitrary: cur) simp_all

lemma csp_tokens_words: "list_all clean ws \<Longrightarrow> csp_tokens [] (words ws) = ws"
proof (induction ws rule: induct_list012)
  case (2 w)
  then show ?case using csp_tokens_word [of w "[]" "[]"] by (simp add: words_def clean_def list_all_iff)
next
  case (3 x y zs)
  then have "csp_tokens [] (words (x # y # zs)) = csp_tokens (rev x) (32 # words (y # zs))"
    using csp_tokens_word [of x "[]"] by (simp add: words_def clean_def list_all_iff)
  with 3 show ?case by (simp add: csp_space_def clean_def)
qed (simp add: words_def)

lemma words_no_semicolon: "list_all clean ws \<Longrightarrow> 59 \<notin> set (words ws) \<and> 44 \<notin> set (words ws)"
  using set_join [of "[32]" ws] by (fastforce simp: words_def clean_def list_all_iff)

lemma split_policy:
  "list_all (list_all clean) ds \<Longrightarrow> ds \<noteq> [] \<Longrightarrow>
     split_on 59 (policy_text ds) = words (hd ds) # map (\<lambda>d. 32 # words d) (tl ds)"
proof (induction ds rule: induct_list012)
  case (2 d)
  then show ?case
    by (simp add: policy_text_def split_on_absent words_no_semicolon)
next
  case (3 d e ds)
  have "split_on 59 (policy_text (d # e # ds)) = words d # split_on 59 (32 # policy_text (e # ds))"
    using 3 by (simp add: policy_text_def bs_def split_on_append_sep words_no_semicolon)
  also have "split_on 59 (32 # policy_text (e # ds)) = (32 # words e) # map (\<lambda>d. 32 # words d) ds"
    using 3 by simp
  finally show ?case by simp
qed simp

lemma parse_csp_text:
  assumes "list_all (\<lambda>d. d \<noteq> [] \<and> list_all clean d) ds" "ds \<noteq> []"
  shows "parse_csp (policy_text ds) = [ds]"
proof -
  have split: "split_on 59 (policy_text ds) = words (hd ds) # map (\<lambda>d. 32 # words d) (tl ds)"
    using assms by (intro split_policy) (simp_all add: list_all_iff)
  have "csp_tokens [] (32 # words d) = d" "csp_tokens [] (words d) = d" if "d \<in> set ds" for d
    using that assms(1) by (simp_all add: list_all_iff csp_tokens_words csp_space_def)
  moreover obtain e es where ds: "ds = e # es"
    using assms(2) by (cases ds) auto
  ultimately have "map (csp_tokens []) (split_on 59 (policy_text ds)) = ds"
    unfolding split by (auto simp: ds intro!: map_idI)
  moreover have "filter (\<lambda>d. d \<noteq> []) ds = ds"
    using assms(1) by (simp add: list_all_iff filter_id_conv)
  moreover have "44 \<notin> set (policy_text ds)"
  proof -
    have "44 \<notin> set (words d)" if "d \<in> set ds" for d
      using words_no_semicolon [of d] that assms(1) by (simp add: list_all_iff)
    moreover have "44 \<notin> set (bs ''; '')" by (simp add: bs_def)
    ultimately show ?thesis using set_join [of "bs ''; ''" "map words ds"] by (auto simp: policy_text_def)
  qed
  ultimately show ?thesis
    using assms(2) by (simp add: parse_csp_def parse_policy_def split_on_absent)
qed

text \<open>The directives of the proxied policy, as lists of words.\<close>

definition cf_words :: "csp_options \<Rightarrow> str list" where
  "cf_words opts = (if challenge_compat opts then [CF] else [])"

text \<open>The sources of \<open>connect-src\<close>: each at its first occurrence.\<close>

definition connect_sources :: "str \<Rightarrow> str list \<Rightarrow> csp_options \<Rightarrow> str list" where
  "connect_sources ws_origin extra opts =
     rev (remdups (rev ([quoted ''self'', trim ws_origin] @ filter (\<lambda>w. w \<noteq> []) (map trim extra) @ cf_words opts)))"

definition proxied_directives :: "str \<Rightarrow> str list \<Rightarrow> csp_options \<Rightarrow> str list list" where
  "proxied_directives ws_origin extra opts =
     [[bs ''default-src'', quoted ''none''],
      [bs ''script-src'', quoted ''self'', quoted ''unsafe-inline'', quoted ''unsafe-eval'', quoted ''wasm-unsafe-eval'', bs ''blob:''] @ cf_words opts,
      [bs ''style-src'', quoted ''self'', quoted ''unsafe-inline'', bs ''blob:'', bs ''data:''],
      [bs ''img-src'', quoted ''self'', bs ''blob:'', bs ''data:''],
      [bs ''font-src'', quoted ''self'', bs ''blob:'', bs ''data:''],
      [bs ''media-src'', quoted ''self'', bs ''blob:'', bs ''data:''],
      [bs ''connect-src''] @ connect_sources ws_origin extra opts @ [bs ''blob:'', bs ''data:''],
      [bs ''frame-src'', quoted ''self'', bs ''blob:'', bs ''data:''] @ cf_words opts,
      [bs ''child-src'', quoted ''self'', bs ''blob:'', bs ''data:''] @ cf_words opts,
      [bs ''worker-src'', quoted ''self'', bs ''blob:''],
      [bs ''object-src'', quoted ''none''],
      [bs ''base-uri'', quoted ''none''],
      [bs ''form-action'', quoted ''self''],
      [bs ''manifest-src'', quoted ''self''],
      [bs ''report-uri'', bs ''/zp/api/csp-report'']]"

definition connect_words :: "str \<Rightarrow> str list \<Rightarrow> csp_options \<Rightarrow> str list" where
  "connect_words ws_origin extra opts =
     (let c = connect_list [quoted ''self'', trim ws_origin] extra
      in if challenge_compat opts \<and> CF \<notin> set c then c @ [CF] else c)"

lemma rev_remdups_snoc: "rev (remdups (rev (xs @ [y]))) = (if y \<in> set xs then rev (remdups (rev xs)) else rev (remdups (rev xs)) @ [y])"
  by simp

lemma connect_list_first:
  assumes "c = rev (remdups (rev xs))"
  shows "connect_list c ys = rev (remdups (rev (xs @ filter (\<lambda>w. w \<noteq> []) (map trim ys))))"
  using assms
proof (induction c ys arbitrary: xs rule: connect_list.induct)
  case (2 connect origin rest)
  show ?case
  proof (cases "trim origin \<noteq> [] \<and> trim origin \<notin> set connect")
    case True
    then have "connect @ [trim origin] = rev (remdups (rev (xs @ [trim origin])))"
      using "2.prems" by simp
    from "2.IH"(1) [OF refl True this] True show ?thesis by (simp add: Let_def)
  next
    case False
    then have "connect = rev (remdups (rev (if trim origin = [] then xs else xs @ [trim origin])))"
      using "2.prems" by (cases "trim origin = []") simp_all
    from "2.IH"(2) [OF refl False this] False show ?thesis by (auto simp: Let_def)
  qed
qed simp

lemma connect_words_sources:
  assumes "trim ws_origin \<noteq> quoted ''self''"
  shows "connect_words ws_origin extra opts = connect_sources ws_origin extra opts"
proof -
  have "connect_list [quoted ''self'', trim ws_origin] extra
      = rev (remdups (rev ([quoted ''self'', trim ws_origin] @ filter (\<lambda>w. w \<noteq> []) (map trim extra))))"
    using assms by (intro connect_list_first) auto
  then show ?thesis
    by (simp add: connect_words_def connect_sources_def cf_words_def Let_def)
qed

lemma set_connect_sources:
  "set (connect_sources ws extra opts) =
     {quoted ''self'', trim ws} \<union> (trim ` set extra - {[]}) \<union> (if challenge_compat opts then {CF} else {})"
  by (auto simp: connect_sources_def cf_words_def)

lemma words_cf: "ws \<noteq> [] \<Longrightarrow> words ws @ cf_suffix opts = words (ws @ cf_words opts)"
  by (simp add: cf_suffix_def cf_words_def words_append) (simp add: words_def)

lemma script_words_nest: "words (x # script_words # ys)
    = words (x # [quoted ''self'', quoted ''unsafe-inline'', quoted ''unsafe-eval'', quoted ''wasm-unsafe-eval''] @ ys)"
  using words_nest [of "[quoted ''self'', quoted ''unsafe-inline'', quoted ''unsafe-eval'', quoted ''wasm-unsafe-eval'']" "[x]" ys]
  by (simp add: script_words_def)

lemma build_proxied_csp_with_text:
  assumes "trim ws_origin \<noteq> quoted ''self''"
  shows "build_proxied_csp_with ws_origin extra opts = policy_text (proxied_directives ws_origin extra opts)"
proof -
  have "connect_sources ws_origin extra opts \<noteq> []"
    using set_connect_sources [of ws_origin extra opts] by auto
  then have "words [bs ''connect-src'', words (connect_sources ws_origin extra opts), bs ''blob:'', bs ''data:'']
      = words ([bs ''connect-src''] @ connect_sources ws_origin extra opts @ [bs ''blob:'', bs ''data:''])"
    using words_nest [of "connect_sources ws_origin extra opts" "[bs ''connect-src'']" "[bs ''blob:'', bs ''data:'']"] by simp
  then show ?thesis
    unfolding build_proxied_csp_with_def policy_text_def proxied_directives_def list.map Let_def
      connect_words_def [unfolded Let_def, symmetric] connect_words_sources [OF assms]
    by (simp only: words_cf script_words_nest list.distinct not_False_eq_True append_Cons append_Nil)
qed

subsection \<open>Properties\<close>

definition csp_keywords :: "str list" where
  "csp_keywords =
     [quoted ''self'', quoted ''none'', quoted ''unsafe-inline'', quoted ''unsafe-eval'', quoted ''wasm-unsafe-eval'',
      bs ''blob:'', bs ''data:'', bs ''/zp/api/csp-report'']"

definition origin_ok :: "str \<Rightarrow> bool" where
  "origin_ok s \<longleftrightarrow> trim s = [] \<or> clean (trim s)"

definition directive_names :: "str list" where
  "directive_names = map bs [''default-src'', ''script-src'', ''style-src'', ''img-src'', ''font-src'', ''media-src'',
     ''connect-src'', ''frame-src'', ''child-src'', ''worker-src'', ''object-src'', ''base-uri'', ''form-action'',
     ''manifest-src'', ''report-uri'']"

lemma keywords_clean: "list_all clean csp_keywords" and names_clean: "list_all clean directive_names"
  and CF_clean: "clean CF"
  by (simp_all add: csp_keywords_def directive_names_def clean_def csp_space_def quoted_def CF_def bs_def)

lemma proxied_directives_words:
  assumes "d \<in> set (proxied_directives ws extra opts)"
  shows "d \<noteq> [] \<and> hd d \<in> set directive_names
    \<and> (\<forall>w \<in> set (tl d). w \<in> set csp_keywords
          \<or> hd d = bs ''connect-src'' \<and> (w = trim ws \<or> w \<in> trim ` set extra - {[]})
          \<or> challenge_compat opts \<and> w = CF
            \<and> hd d \<in> set (map bs [''script-src'', ''frame-src'', ''child-src'', ''connect-src'']))"
proof -
  have cf: "w = CF \<and> challenge_compat opts" if "w \<in> set (cf_words opts)" for w
    using that by (simp add: cf_words_def split: if_splits)
  have con: "w = quoted ''self'' \<or> w = trim ws \<or> w \<in> trim ` set extra - {[]} \<or> w = CF \<and> challenge_compat opts"
    if "w \<in> set (connect_sources ws extra opts)" for w
    using that set_connect_sources [of ws extra opts] by (auto split: if_splits)
  show ?thesis
    using assms unfolding proxied_directives_def directive_names_def csp_keywords_def
    by (simp only: set_simps insert_iff empty_iff list.map) (elim disjE FalseE; use cf con in auto)
qed

text \<open>
  C34. For origins without white space, semicolon or comma, a browser reads the header of a proxied document as
  one policy of exactly the fifteen directives written down in \<^const>\<open>proxied_directives\<close>. Beyond the
  fixed keywords the only sources are the given origins, in \<open>connect-src\<close> alone, each once and in the order given, and
  the challenge host when it is armed, in four directives.
\<close>

theorem proxied_csp_reads_back:
  assumes "clean (trim ws_origin)" "trim ws_origin \<noteq> quoted ''self''" "list_all origin_ok extra"
  shows "parse_csp (build_proxied_csp_with ws_origin extra opts) = [proxied_directives ws_origin extra opts]
    \<and> (\<forall>d \<in> set (proxied_directives ws_origin extra opts). hd d \<in> set directive_names
        \<and> (\<forall>w \<in> set (tl d). w \<in> set csp_keywords
              \<or> hd d = bs ''connect-src'' \<and> (w = trim ws_origin \<or> w \<in> trim ` set extra - {[]})
              \<or> challenge_compat opts \<and> w = CF
                \<and> hd d \<in> set (map bs [''script-src'', ''frame-src'', ''child-src'', ''connect-src''])))"
proof -
  have "d \<noteq> [] \<and> list_all clean d" if "d \<in> set (proxied_directives ws_origin extra opts)" for d
  proof -
    note w = proxied_directives_words [OF that]
    have "clean v" if "v \<in> set (tl d)" for v
      using w that assms(1,3) keywords_clean CF_clean by (auto simp: list_all_iff origin_ok_def)
    moreover have "clean (hd d)"
      using w names_clean by (auto simp: list_all_iff)
    ultimately show ?thesis
      using w by (cases d) (auto simp: list_all_iff)
  qed
  then have "parse_csp (build_proxied_csp_with ws_origin extra opts) = [proxied_directives ws_origin extra opts]"
    unfolding build_proxied_csp_with_text [OF assms(2)]
    by (intro parse_csp_text) (auto simp: list_all_iff, simp add: proxied_directives_def)
  then show ?thesis
    using proxied_directives_words by blast
qed

theorem proxied_csp_reads_back_witness:
  "\<exists>ds. parse_csp (build_proxied_csp_with (bs ''wss://p'') [bs ''wss://q'', bs ''wss://p''] \<lparr>challenge_compat = True\<rparr>) = [ds]
     \<and> [bs ''connect-src'', quoted ''self'', bs ''wss://p'', bs ''wss://q'', CF, bs ''blob:'', bs ''data:''] \<in> set ds"
proof -
  have t: "trim (bs ''wss://p'') = bs ''wss://p''" "trim (bs ''wss://q'') = bs ''wss://q''"
    by (rule trim_all_graphic; simp add: bs_def graphic_def)+
  have ok: "clean (trim (bs ''wss://p''))" "trim (bs ''wss://p'') \<noteq> quoted ''self''" "list_all origin_ok [bs ''wss://q'', bs ''wss://p'']"
    by (simp_all add: t origin_ok_def) (simp_all add: clean_def csp_space_def quoted_def bs_def)
  have "connect_sources (bs ''wss://p'') [bs ''wss://q'', bs ''wss://p''] \<lparr>challenge_compat = True\<rparr>
      = [quoted ''self'', bs ''wss://p'', bs ''wss://q'', CF]"
    by (simp add: connect_sources_def t cf_words_def) (simp add: quoted_def CF_def bs_def)
  then have "[bs ''connect-src'', quoted ''self'', bs ''wss://p'', bs ''wss://q'', CF, bs ''blob:'', bs ''data:'']
      \<in> set (proxied_directives (bs ''wss://p'') [bs ''wss://q'', bs ''wss://p''] \<lparr>challenge_compat = True\<rparr>)"
    by (simp add: proxied_directives_def)
  with proxied_csp_reads_back [OF ok, of "\<lparr>challenge_compat = True\<rparr>"] show ?thesis by blast
qed

lemma set_add_sources: "set (add_sources ss xs) = set ss \<union> set xs"
  by (induction ss xs rule: add_sources.induct) auto

text \<open>
  A directive of the target's own policy that the proxy depends on keeps exactly the target's
  sources except \<open>none\<close> and gains exactly the plumbing sources (and the frame source for frames); a
  resource directive that says \<open>none\<close> stays so, and any other gains exactly \<open>self\<close>; nothing else
  survives.
\<close>

theorem meta_directive_spec:
  assumes "meta_directive sfs segment = Some (name, srcs)"
  shows "\<exists>n given. split_whitespace (trim segment) = n # given \<and> given \<noteq> [] \<and> name = to_ascii_lowercase n
     \<and> (if is_infra name then
          set srcs = set given - {quoted ''none''} \<union> set (infra_sources name)
            \<union> (if sfs \<noteq> [] \<and> (name = bs ''frame-src'' \<or> name = bs ''child-src'') then {sfs} else {})
        else name \<in> set RESOURCE
          \<and> (if quoted ''none'' \<in> set given then srcs = [quoted ''none'']
             else set srcs = insert (quoted ''self'') (set given)))"
proof -
  obtain n given where sp: "split_whitespace (trim segment) = n # given" "trim segment \<noteq> []"
    using assms by (cases "split_whitespace (trim segment)") (auto simp: meta_directive_def Let_def split: if_splits)
  let ?name = "to_ascii_lowercase n"
  let ?inf = "add_sources (filter (\<lambda>s. s \<noteq> quoted ''none'') given) (infra_sources ?name)"
  have run: "meta_directive sfs segment =
      (if given = [] then None
       else if is_infra ?name then
         Some (?name, if sfs \<noteq> [] \<and> (?name = bs ''frame-src'' \<or> ?name = bs ''child-src'') \<and> sfs \<notin> set ?inf
                      then ?inf @ [sfs] else ?inf)
       else if ?name \<in> set RESOURCE then
         if quoted ''none'' \<in> set given then Some (?name, [quoted ''none''])
         else Some (?name, if quoted ''self'' \<in> set given then given else given @ [quoted ''self''])
       else None)"
    using sp by (simp add: meta_directive_def Let_def)
  have ne: "given \<noteq> []" and name: "name = ?name"
    using assms run by (simp_all split: if_splits)
  show ?thesis
  proof (cases "is_infra ?name")
    case True
    have "set srcs = set ?inf \<union> (if sfs \<noteq> [] \<and> (name = bs ''frame-src'' \<or> name = bs ''child-src'') then {sfs} else {})"
      using assms run True ne name by (simp split: if_splits) auto
    then show ?thesis
      using sp(1) ne name True by (auto simp: set_add_sources)
  next
    case False
    then show ?thesis
      using assms run sp(1) ne name by (simp split: if_splits) auto
  qed
qed

theorem meta_directive_spec_witness:
  "\<exists>n given. split_whitespace (trim (bs ''script-src x'')) = n # given \<and> given \<noteq> []
     \<and> to_ascii_lowercase n = bs ''script-src''"
proof -
  have "meta_directive [] (bs ''script-src x'') = Some (bs ''script-src'',
      [bs ''x'', quoted ''self'', quoted ''unsafe-inline'', quoted ''unsafe-eval'', quoted ''wasm-unsafe-eval'', bs ''blob:''])"
    by code_simp
  from meta_directive_spec [OF this] show ?thesis
    by metis
qed

text \<open>
  The comparison with \<open>none\<close> is case-sensitive although source keywords are not: a target policy
  that forbids all images by writing the keyword in capitals comes out admitting the proxy origin.
\<close>

theorem meta_directive_capital_none:
  "meta_directive [] (bs ''img-src '' @ quoted ''NONE'') = Some (bs ''img-src'', [quoted ''NONE'', quoted ''self''])
   \<and> meta_directive [] (bs ''img-src '' @ quoted ''none'') = Some (bs ''img-src'', [quoted ''none''])"
  by (rule conjI) code_simp+

end
