(* ===== verification/Ws_Stream.thy ===== *)
theory Ws_Stream
  imports Prelude
begin

text \<open>
  The WebSocket byte stream of \<^verbatim>\<open>crates/zp-kernel-bundle/src/kernel/transport/ws_stream.rs\<close>: the
  shared state, the four callbacks that the browser runs and the polls that the executor runs. The two
  never interleave within one operation, so an execution is a sequence of them. A waker is its presence:
  a task is parked exactly when its waker is stored, and waking removes it. The browser's socket is a
  parameter (the error of a refused send).

  The results are about arbitrary sequences: bytes are read in the order in which they arrived, the
  buffer stays below its cap, and a reader is never left parked while there is something to read.
\<close>

subsection \<open>Definitions\<close>

definition MAX_WS_BUFFER_BYTES :: nat where
  "MAX_WS_BUFFER_BYTES = 32 * 1024 * 1024"

record ws_inner =
  rx_buf :: "u8 list list"
  rx_bytes :: nat
  read_cursor :: nat
  ws_closed :: bool
  ws_error :: "io_error option"
  opened :: bool
  read_waker :: bool
  open_waker :: bool

definition inner_new :: ws_inner where
  "inner_new = \<lparr>rx_buf = [], rx_bytes = 0, read_cursor = 0, ws_closed = False, ws_error = None,
     opened = False, read_waker = False, open_waker = False\<rparr>"

definition wake_read :: "ws_inner \<Rightarrow> ws_inner" where
  "wake_read g = g\<lparr>read_waker := False\<rparr>"

definition wake_open :: "ws_inner \<Rightarrow> ws_inner" where
  "wake_open g = g\<lparr>open_waker := False\<rparr>"

definition has_buffered :: "ws_inner \<Rightarrow> bool" where
  "has_buffered g \<longleftrightarrow> rx_buf g \<noteq> []"

definition on_open :: "ws_inner \<Rightarrow> ws_inner" where
  "on_open g = wake_open (g\<lparr>opened := True\<rparr>)"

datatype ws_payload = ArrayBuffer "u8 list" | Text nat | OtherPayload

definition on_message :: "ws_payload \<Rightarrow> ws_inner \<Rightarrow> ws_inner" where
  "on_message payload g =
     (case payload of
        ArrayBuffer bytes \<Rightarrow>
          if bytes = [] then g
          else if ws_closed g then g
          else if length bytes > MAX_WS_BUFFER_BYTES - rx_bytes g then
            wake_open (wake_read (g\<lparr>rx_buf := [], rx_bytes := 0, read_cursor := 0, ws_closed := True,
              ws_error := Some (IoError InvalidData [Lit ''ws_stream: receive buffer exceeded 32 MiB cap''])\<rparr>))
          else wake_read (g\<lparr>rx_bytes := rx_bytes g + length bytes, rx_buf := rx_buf g @ [bytes]\<rparr>)
      | Text n \<Rightarrow>
          wake_read (g\<lparr>ws_error := Some (IoError InvalidData
            [Lit ''ws_stream: unexpected text frame ('', Num n, Lit '' chars)''])\<rparr>)
      | OtherPayload \<Rightarrow>
          wake_read (g\<lparr>ws_error := Some (IoError InvalidData
            [Lit ''ws_stream: onmessage payload is neither ArrayBuffer nor string''])\<rparr>))"

definition record_error :: "io_error \<Rightarrow> ws_inner \<Rightarrow> ws_inner" where
  "record_error e g = (if ws_error g = None then g\<lparr>ws_error := Some e\<rparr> else g)"

definition on_error :: "ws_inner \<Rightarrow> ws_inner" where
  "on_error g =
     wake_open (wake_read ((record_error (IoError ConnectionAborted [Lit ''ws_stream: WebSocket onerror'']) g)
       \<lparr>ws_closed := True\<rparr>))"

definition on_close :: "u16 \<Rightarrow> bool \<Rightarrow> ws_inner \<Rightarrow> ws_inner" where
  "on_close code was_clean g =
     (let g = g\<lparr>ws_closed := True\<rparr>;
          g = (if \<not> was_clean \<or> (code \<noteq> 1000 \<and> code \<noteq> 1005)
               then record_error (IoError ConnectionReset
                      [Lit ''ws_stream: WebSocket closed code='', Num (unat code), Lit '' clean='',
                       Lit (if was_clean then ''true'' else ''false'')]) g
               else g)
      in wake_open (wake_read g))"

definition poll_open :: "ws_inner \<Rightarrow> unit io_result poll \<times> ws_inner" where
  "poll_open g =
     (case ws_error g of
        Some e \<Rightarrow> (Ready (Inl e), g\<lparr>ws_error := None\<rparr>)
      | None \<Rightarrow>
          if opened g then (Ready (Inr ()), g)
          else (Pending, g\<lparr>open_waker := True\<rparr>))"

definition poll_read :: "nat \<Rightarrow> ws_inner \<Rightarrow> u8 list io_result poll \<times> ws_inner" where
  "poll_read cap g =
     (let (taken, drained) =
        (case rx_buf g of
           front # _ \<Rightarrow>
             let cursor = read_cursor g;
                 avail = length front - cursor;
                 n = min avail cap
             in (take n (drop cursor front), cursor + n \<ge> length front)
         | [] \<Rightarrow> ([], False))
      in if taken \<noteq> [] then
           (Ready (Inr taken),
            if drained
            then g\<lparr>rx_buf := tl (rx_buf g), rx_bytes := rx_bytes g - length (hd (rx_buf g)), read_cursor := 0\<rparr>
            else g\<lparr>read_cursor := read_cursor g + length taken\<rparr>)
         else
           case ws_error g of
             Some e \<Rightarrow> (Ready (Inl e), g\<lparr>ws_error := None\<rparr>)
           | None \<Rightarrow>
               if ws_closed g then (Ready (Inr []), g)
               else (Pending, g\<lparr>read_waker := True\<rparr>))"

text \<open>The third component is what has been handed to the browser's socket.\<close>

definition poll_write ::
    "(u8 list \<Rightarrow> str option) \<Rightarrow> u8 list \<Rightarrow> ws_inner \<Rightarrow> nat io_result poll \<times> ws_inner \<times> u8 list" where
  "poll_write send buf g =
     (case ws_error g of
        Some e \<Rightarrow> (Ready (Inl e), g\<lparr>ws_error := None\<rparr>, [])
      | None \<Rightarrow>
          if ws_closed g then
            (Ready (Inl (IoError BrokenPipe [Lit ''ws_stream: write after close''])), g, [])
          else if buf = [] then (Ready (Inr 0), g, [])
          else case send buf of
                 None \<Rightarrow> (Ready (Inr (length buf)), g, buf)
               | Some e \<Rightarrow> (Ready (Inl (IoError OtherKind [Disp e])), g, []))"

definition poll_flush :: "ws_inner \<Rightarrow> unit io_result poll \<times> ws_inner" where
  "poll_flush g = (Ready (Inr ()), g)"

definition poll_close :: "ws_inner \<Rightarrow> unit io_result poll \<times> ws_inner" where
  "poll_close g = (Ready (Inr ()), g\<lparr>ws_closed := True\<rparr>)"

subsection \<open>Executions\<close>

text \<open>
  Events with what they deliver: \<open>w\<close> is the bytes accepted from the socket so far, \<open>out\<close> the bytes
  returned to readers so far.
\<close>

definition accepted :: "ws_payload \<Rightarrow> ws_inner \<Rightarrow> u8 list" where
  "accepted payload g =
     (case payload of
        ArrayBuffer bytes \<Rightarrow>
          if ws_closed g \<or> length bytes > MAX_WS_BUFFER_BYTES - rx_bytes g then [] else bytes
      | _ \<Rightarrow> [])"

definition ready_bytes :: "u8 list io_result poll \<Rightarrow> u8 list" where
  "ready_bytes r = (case r of Ready (Inr xs) \<Rightarrow> xs | _ \<Rightarrow> [])"

inductive ws_reach :: "u8 list \<Rightarrow> u8 list \<Rightarrow> ws_inner \<Rightarrow> bool" where
  init: "ws_reach [] [] inner_new"
| open_event: "ws_reach w out g \<Longrightarrow> ws_reach w out (on_open g)"
| message_event: "ws_reach w out g \<Longrightarrow> ws_reach (w @ accepted p g) out (on_message p g)"
| error_event: "ws_reach w out g \<Longrightarrow> ws_reach w out (on_error g)"
| close_event: "ws_reach w out g \<Longrightarrow> ws_reach w out (on_close code clean g)"
| polled_open: "ws_reach w out g \<Longrightarrow> ws_reach w out (snd (poll_open g))"
| polled_read: "ws_reach w out g \<Longrightarrow> 0 < n \<Longrightarrow> poll_read n g = (r, g') \<Longrightarrow> ws_reach w (out @ ready_bytes r) g'"
| polled_write: "ws_reach w out g \<Longrightarrow> ws_reach w out (fst (snd (poll_write send buf g)))"
| polled_close: "ws_reach w out g \<Longrightarrow> ws_reach w out (snd (poll_close g))"

subsection \<open>Invariant\<close>

definition unread :: "ws_inner \<Rightarrow> u8 list" where
  "unread g = drop (read_cursor g) (concat (rx_buf g))"

definition ws_inv :: "u8 list \<Rightarrow> u8 list \<Rightarrow> ws_inner \<Rightarrow> bool" where
  "ws_inv w out g \<longleftrightarrow>
     rx_bytes g = length (concat (rx_buf g)) \<and> rx_bytes g \<le> MAX_WS_BUFFER_BYTES
     \<and> list_all (\<lambda>f. f \<noteq> []) (rx_buf g)
     \<and> (case rx_buf g of [] \<Rightarrow> read_cursor g = 0 | f # _ \<Rightarrow> read_cursor g < length f)
     \<and> (w = out @ unread g \<or> ws_closed g \<and> rx_buf g = [] \<and> (\<exists>lost. w = out @ lost))
     \<and> (read_waker g \<longrightarrow> rx_buf g = [] \<and> ws_error g = None)"

lemmas ws_defs = on_open_def on_message_def on_error_def on_close_def record_error_def wake_read_def wake_open_def
  poll_open_def poll_write_def poll_close_def

lemma ws_inv_message: "ws_inv w out g \<Longrightarrow> ws_inv (w @ accepted p g) out (on_message p g)"
proof (cases p)
  case (ArrayBuffer bytes)
  assume inv: "ws_inv w out g"
  consider "bytes = []" | "bytes \<noteq> []" "ws_closed g" | "\<not> ws_closed g" "length bytes > MAX_WS_BUFFER_BYTES - rx_bytes g"
    | "bytes \<noteq> []" "\<not> ws_closed g" "length bytes \<le> MAX_WS_BUFFER_BYTES - rx_bytes g"
    by linarith
  then show ?thesis
  proof cases
    case 4
    then have "read_cursor g \<le> length (concat (rx_buf g))"
      using inv by (auto simp: ws_inv_def split: list.splits)
    then show ?thesis
      using inv ArrayBuffer 4
      by (auto simp: ws_inv_def on_message_def accepted_def wake_read_def unread_def split: list.splits)
  qed (use inv ArrayBuffer in \<open>auto simp: ws_inv_def on_message_def accepted_def wake_read_def wake_open_def unread_def\<close>)
qed (auto simp: ws_inv_def on_message_def accepted_def wake_read_def unread_def split: list.splits)

lemma ws_inv_read:
  assumes inv: "ws_inv w out g" and n: "0 < n" and r: "poll_read n g = (r, g')"
  shows "ws_inv w (out @ ready_bytes r) g'"
proof (cases "rx_buf g")
  case Nil
  with assms show ?thesis
    by (auto simp: poll_read_def ws_inv_def ready_bytes_def unread_def split: option.splits if_splits)
next
  case (Cons f fs)
  let ?taken = "take n (drop (read_cursor g) f)"
  have c: "read_cursor g < length f"
    using inv Cons by (simp add: ws_inv_def)
  then have taken: "?taken \<noteq> []"
    using n by simp
  have unread: "unread g = drop (read_cursor g) f @ concat fs"
    using c Cons by (simp add: unread_def)
  show ?thesis
  proof (cases "length f \<le> read_cursor g + n")
    case True
    then have "r = Ready (Inr (drop (read_cursor g) f))"
        "g' = g\<lparr>rx_buf := fs, rx_bytes := rx_bytes g - length f, read_cursor := 0\<rparr>"
      using r Cons c n by (auto simp: poll_read_def min_def Let_def)
    then show ?thesis
      using inv Cons unread by (auto simp: ws_inv_def ready_bytes_def unread_def split: list.splits)
  next
    case False
    then have "min (length f - read_cursor g) n = n"
      by simp
    then have "r = Ready (Inr ?taken)" "g' = g\<lparr>read_cursor := read_cursor g + n\<rparr>"
      using r Cons n False by (auto simp: poll_read_def Let_def)
    moreover have "drop (read_cursor g) f = ?taken @ drop (read_cursor g + n) f"
      by (metis add.commute append_take_drop_id drop_drop)
    ultimately show ?thesis
      using inv Cons unread False by (auto simp: ws_inv_def ready_bytes_def unread_def)
  qed
qed

lemma ws_inv_reach: "ws_reach w out g \<Longrightarrow> ws_inv w out g"
proof (induction rule: ws_reach.induct)
  case init
  then show ?case
    by (simp add: ws_inv_def inner_new_def unread_def)
next
  case (message_event w out g p)
  then show ?case
    by (simp add: ws_inv_message)
next
  case (polled_read w out g n r g')
  then show ?case
    by (simp add: ws_inv_read)
qed (auto simp: ws_inv_def ws_defs unread_def Let_def split: list.splits option.splits)

lemma poll_read_unread:
  assumes "ws_inv w out g" "unread g \<noteq> []" "0 < n"
  shows "\<exists>xs g'. poll_read n g = (Ready (Inr xs), g') \<and> xs \<noteq> []"
  using assms by (auto simp: ws_inv_def unread_def poll_read_def min_def Let_def split: list.splits)

subsection \<open>Properties\<close>

text \<open>
  C29. Whatever the browser delivers and whenever the stream is polled, the bytes read are a prefix of
  the bytes received, in order and without gap; while the stream is open nothing is lost; and the
  buffered bytes are counted exactly and stay within the cap.
\<close>

theorem ws_read_in_order:
  assumes "ws_reach w out g"
  shows "(\<exists>rest. w = out @ rest) \<and> (if ws_closed g then True else w = out @ unread g)
    \<and> rx_bytes g = length (concat (rx_buf g)) \<and> rx_bytes g \<le> MAX_WS_BUFFER_BYTES"
  using ws_inv_reach [OF assms] by (auto simp: ws_inv_def)

lemma sample_ws_reach:
  "ws_reach ([] @ accepted (ArrayBuffer [1, 2, 3]) (on_open inner_new)) ([] @ ready_bytes (Ready (Inr [1, 2])))
     ((on_message (ArrayBuffer [1, 2, 3]) (on_open inner_new))\<lparr>read_cursor := 2\<rparr>)"
  by (rule ws_reach.polled_read [where n = 2], rule ws_reach.message_event, rule ws_reach.open_event, rule ws_reach.init)
     (simp_all add: poll_read_def on_message_def on_open_def inner_new_def wake_open_def wake_read_def MAX_WS_BUFFER_BYTES_def)

theorem ws_read_in_order_witness:
  "\<exists>g. ws_reach [1, 2, 3] [1, 2] g \<and> \<not> ws_closed g \<and> [1, 2, 3] = [1, 2] @ unread g"
proof -
  let ?g = "(on_message (ArrayBuffer [1, 2, 3]) (on_open inner_new))\<lparr>read_cursor := 2\<rparr>"
  have r: "ws_reach [1, 2, 3] [1, 2] ?g"
    using sample_ws_reach
    by (simp add: accepted_def ready_bytes_def on_open_def inner_new_def wake_open_def MAX_WS_BUFFER_BYTES_def)
  moreover have "\<not> ws_closed ?g"
    by (simp add: on_message_def on_open_def inner_new_def wake_open_def wake_read_def MAX_WS_BUFFER_BYTES_def)
  ultimately show ?thesis
    using ws_read_in_order [OF r] by auto
qed

text \<open>
  C32. No wakeup is lost: a reader is parked only while nothing is buffered and no error is waiting,
  every event that gives it something has unparked it, and a poll with buffered bytes returns some of
  them, even after the socket has been closed.
\<close>

theorem ws_no_lost_wakeup:
  assumes "ws_reach w out g" "0 < n"
  shows "(if read_waker g then unread g = [] \<and> ws_error g = None else True)
    \<and> (if unread g \<noteq> [] then \<exists>xs g'. poll_read n g = (Ready (Inr xs), g') \<and> xs \<noteq> [] else True)
    \<and> \<not> read_waker (on_close code clean g) \<and> \<not> read_waker (on_error g)"
  using ws_inv_reach [OF assms(1)] poll_read_unread [OF ws_inv_reach [OF assms(1)] _ assms(2)]
  by (auto simp: ws_inv_def unread_def on_close_def on_error_def wake_read_def wake_open_def Let_def)

theorem ws_no_lost_wakeup_witness:
  "\<exists>g xs g'. ws_reach [1, 2, 3] [1, 2] g \<and> poll_read 5 g = (Ready (Inr xs), g') \<and> xs \<noteq> []"
proof -
  let ?g = "(on_message (ArrayBuffer [1, 2, 3]) (on_open inner_new))\<lparr>read_cursor := 2\<rparr>"
  have r: "ws_reach [1, 2, 3] [1, 2] ?g"
    using sample_ws_reach
    by (simp add: accepted_def ready_bytes_def on_open_def inner_new_def wake_open_def MAX_WS_BUFFER_BYTES_def)
  moreover have "unread ?g \<noteq> []"
    by (simp add: unread_def on_message_def on_open_def inner_new_def wake_open_def wake_read_def MAX_WS_BUFFER_BYTES_def)
  ultimately show ?thesis
    using ws_no_lost_wakeup [OF r, of 5] by auto
qed

text \<open>
  A clean close before the socket has opened leaves the opening task parked for good, and after a text
  frame has been reported the stream is not closed: the next read parks and writes are still sent.
\<close>

theorem ws_open_clean_close:
  "fst (poll_open (on_close 1000 True inner_new)) = Pending"
  by (simp add: poll_open_def on_close_def inner_new_def wake_open_def wake_read_def)

theorem ws_text_frame_not_closed:
  "let g = snd (poll_read 1 (on_message (Text 1) (on_open inner_new)))
   in fst (poll_read 1 g) = Pending \<and> poll_write (\<lambda>_. None) [7] g = (Ready (Inr 1), g, [7])"
  by (simp add: poll_read_def poll_write_def on_message_def on_open_def inner_new_def wake_open_def wake_read_def)

end
