(* ===== verification/Byte_Stream.thy ===== *)
theory Byte_Stream
  imports Prelude
begin

text \<open>
  Asynchronous byte streams as the transport layer uses them (\<^verbatim>\<open>AsyncRead + AsyncWrite\<close> of
  \<^verbatim>\<open>futures-io\<close>). A stream is what the peer will deliver (\<open>rx\<close>, one item per completed
  \<^verbatim>\<open>poll_read\<close>; the empty list is end of file), what has been accepted for sending (\<open>tx\<close>), and
  the outcomes of the coming write and flush calls (\<open>wr\<close>, success once the list is used up; a failing
  write has accepted some prefix of its bytes). A pending poll is not observable: an \<^verbatim>\<open>.await\<close>
  resumes with the next item.

  The code that runs over a stream is in the error-and-state monad \<open>'a io\<close>; \<^verbatim>\<open>?\<close> is \<open>bind_io\<close>.
\<close>

datatype rd = Data "u8 list" | RdErr io_error

record stream =
  rx :: "rd list"
  tx :: "u8 list"
  wr :: "(nat \<times> io_error) option list"

type_synonym 'a io = "stream \<Rightarrow> 'a io_result \<times> stream"

definition return_io :: "'a \<Rightarrow> 'a io" where
  "return_io x = (\<lambda>s. (Inr x, s))"

definition throw :: "io_error \<Rightarrow> 'a io" where
  "throw e = (\<lambda>s. (Inl e, s))"

definition lift_io :: "'a io_result \<Rightarrow> 'a io" where
  "lift_io r = (\<lambda>s. (r, s))"

definition bind_io :: "'a io \<Rightarrow> ('a \<Rightarrow> 'b io) \<Rightarrow> 'b io" where
  "bind_io m f = (\<lambda>s. case m s of (Inl e, s') \<Rightarrow> (Inl e, s') | (Inr x, s') \<Rightarrow> f x s')"

definition then_io :: "'a io \<Rightarrow> 'b io \<Rightarrow> 'b io" where
  "then_io m k = bind_io m (\<lambda>_. k)"

definition read :: "nat \<Rightarrow> u8 list io" where
  "read n s =
     (case rx s of
        [] \<Rightarrow> (Inr [], s)
      | RdErr e # r \<Rightarrow> (Inl e, s\<lparr>rx := r\<rparr>)
      | Data d # r \<Rightarrow>
          (Inr (take n d), s\<lparr>rx := (if length d \<le> n then r else Data (drop n d) # r)\<rparr>))"

definition unexpected_eof :: io_error where
  "unexpected_eof = IoError UnexpectedEof []"

lemma read_length: "read n s = (Inr xs, s') \<Longrightarrow> length xs \<le> n"
  by (auto simp: read_def split: list.splits rd.splits)

function read_exact :: "nat \<Rightarrow> u8 list io" where
  "read_exact n s =
     (if n = 0 then (Inr [], s)
      else case read n s of
             (Inl e, s') \<Rightarrow> (Inl e, s')
           | (Inr xs, s') \<Rightarrow>
               if xs = [] then (Inl unexpected_eof, s')
               else (case read_exact (n - length xs) s' of
                       (Inl e, s'') \<Rightarrow> (Inl e, s'')
                     | (Inr ys, s'') \<Rightarrow> (Inr (xs @ ys), s'')))"
  by pat_completeness auto
termination
  by (relation "measure fst") auto

declare read_exact.simps [simp del]

definition write_all :: "u8 list \<Rightarrow> unit io" where
  "write_all xs s =
     (case wr s of
        [] \<Rightarrow> (Inr (), s\<lparr>tx := tx s @ xs\<rparr>)
      | None # w \<Rightarrow> (Inr (), s\<lparr>tx := tx s @ xs, wr := w\<rparr>)
      | Some (k, e) # w \<Rightarrow> (Inl e, s\<lparr>tx := tx s @ take k xs, wr := w\<rparr>))"

definition flush :: "unit io" where
  "flush s =
     (case wr s of
        [] \<Rightarrow> (Inr (), s)
      | None # w \<Rightarrow> (Inr (), s\<lparr>wr := w\<rparr>)
      | Some (k, e) # w \<Rightarrow> (Inl e, s\<lparr>wr := w\<rparr>))"

subsection \<open>Lemmas\<close>

named_theorems io_simps \<open>unfolding of the I/O monad\<close>

declare return_io_def [io_simps] throw_def [io_simps] lift_io_def [io_simps] bind_io_def [io_simps]
  then_io_def [io_simps]

text \<open>The bytes still to come, and streams that will deliver only data, in any segmentation.\<close>

fun rd_bytes :: "rd \<Rightarrow> u8 list" where
  "rd_bytes (Data d) = d"
| "rd_bytes (RdErr _) = []"

fun rd_data :: "rd \<Rightarrow> bool" where
  "rd_data (Data d) = (d \<noteq> [])"
| "rd_data (RdErr _) = False"

definition incoming :: "stream \<Rightarrow> u8 list" where
  "incoming s = concat (map rd_bytes (rx s))"

definition flowing :: "stream \<Rightarrow> bool" where
  "flowing s \<longleftrightarrow> list_all rd_data (rx s)"

lemma incoming_simps [simp]:
  "incoming (s\<lparr>tx := x\<rparr>) = incoming s" "incoming (s\<lparr>wr := w\<rparr>) = incoming s"
  "flowing (s\<lparr>tx := x\<rparr>) = flowing s" "flowing (s\<lparr>wr := w\<rparr>) = flowing s"
  by (simp_all add: incoming_def flowing_def)

lemma read_flowing:
  assumes "flowing s" "0 < n"
  shows "\<exists>xs r. read n s = (Inr xs, s\<lparr>rx := r\<rparr>) \<and> flowing (s\<lparr>rx := r\<rparr>)
           \<and> incoming s = xs @ incoming (s\<lparr>rx := r\<rparr>) \<and> length xs \<le> n \<and> (xs = [] \<longleftrightarrow> rx s = [])"
proof (cases "rx s")
  case Nil
  then have "s\<lparr>rx := []\<rparr> = s" by simp
  with Nil show ?thesis
    using assms by (intro exI [of _ "[]"] exI [of _ "[]"]) (simp add: read_def flowing_def incoming_def)
next
  case (Cons x r)
  with assms show ?thesis
    by (cases x) (auto simp: read_def flowing_def incoming_def)
qed

lemma incoming_eq_Nil: "flowing s \<Longrightarrow> incoming s = [] \<longleftrightarrow> rx s = []"
  by (cases "rx s"; cases "hd (rx s)") (auto simp: flowing_def incoming_def)

text \<open>
  On a flowing stream \<^const>\<open>read_exact\<close> depends only on the bytes, not on how they are segmented.
\<close>

lemma read_exact_flowing:
  "flowing s \<Longrightarrow>
     \<exists>r. flowing (s\<lparr>rx := r\<rparr>)
       \<and> (if n \<le> length (incoming s)
          then read_exact n s = (Inr (take n (incoming s)), s\<lparr>rx := r\<rparr>)
               \<and> incoming (s\<lparr>rx := r\<rparr>) = drop n (incoming s)
          else read_exact n s = (Inl unexpected_eof, s\<lparr>rx := []\<rparr>) \<and> r = [])"
proof (induction n s rule: read_exact.induct)
  case (1 n s)
  show ?case
  proof (cases "n = 0")
    case True
    then show ?thesis
      using 1(2) by (intro exI [of _ "rx s"]) (simp add: read_exact.simps)
  next
    case n: False
    then obtain xs r where r: "read n s = (Inr xs, s\<lparr>rx := r\<rparr>)" "flowing (s\<lparr>rx := r\<rparr>)"
      "incoming s = xs @ incoming (s\<lparr>rx := r\<rparr>)" "length xs \<le> n" "xs = [] \<longleftrightarrow> rx s = []"
      using read_flowing [OF 1(2), of n] by auto
    show ?thesis
    proof (cases "xs = []")
      case True
      then have "rx s = []"
        using r(5) by simp
      moreover from this have "s\<lparr>rx := r\<rparr> = s"
        using r(1) by (simp add: read_def)
      then have "r = rx s"
        by (metis stream.select_convs(1) stream.surjective stream.update_convs(1))
      ultimately have "incoming s = []" "r = []"
        by (simp_all add: incoming_def)
      with True n r(1,2) show ?thesis
        by (auto simp: read_exact.simps)
    next
      case False
      obtain r' where "flowing (s\<lparr>rx := r'\<rparr>)"
        "if n - length xs \<le> length (incoming (s\<lparr>rx := r\<rparr>))
         then read_exact (n - length xs) (s\<lparr>rx := r\<rparr>)
                = (Inr (take (n - length xs) (incoming (s\<lparr>rx := r\<rparr>))), s\<lparr>rx := r'\<rparr>)
              \<and> incoming (s\<lparr>rx := r'\<rparr>) = drop (n - length xs) (incoming (s\<lparr>rx := r\<rparr>))
         else read_exact (n - length xs) (s\<lparr>rx := r\<rparr>) = (Inl unexpected_eof, s\<lparr>rx := []\<rparr>) \<and> r' = []"
        using 1(1) [OF n r(1) [symmetric] refl False r(2)] by (simp cong: if_cong) blast
      then show ?thesis
        using r n False
        by (intro exI [of _ r']) (auto simp: read_exact.simps [of n s] split: if_splits)
    qed
  qed
qed

text \<open>
  An exchange: the bytes written and the bytes read between two states of a stream.
\<close>

definition exchange :: "stream \<Rightarrow> u8 list \<Rightarrow> u8 list \<Rightarrow> stream \<Rightarrow> bool" where
  "exchange s out inp s' \<longleftrightarrow>
     flowing s' \<and> wr s' = wr s \<and> tx s' = tx s @ out \<and> incoming s = inp @ incoming s'"

lemma exchange_trans:
  "exchange s o1 i1 s1 \<Longrightarrow> exchange s1 o2 i2 s2 \<Longrightarrow> exchange s (o1 @ o2) (i1 @ i2) s2"
  by (simp add: exchange_def)

lemma exchange_refl: "flowing s \<Longrightarrow> exchange s [] [] s"
  by (simp add: exchange_def)

lemma exchange_write: "flowing s \<Longrightarrow> wr s = [] \<Longrightarrow> exchange s xs [] (s\<lparr>tx := tx s @ xs\<rparr>)"
  by (simp add: exchange_def)

lemma read_exact_exchange:
  assumes "flowing s"
  shows "if n \<le> length (incoming s)
         then \<exists>s'. read_exact n s = (Inr (take n (incoming s)), s') \<and> exchange s [] (take n (incoming s)) s'
         else \<exists>s'. read_exact n s = (Inl unexpected_eof, s')"
  using read_exact_flowing [OF assms, of n]
  by (fastforce simp: exchange_def split: if_splits)

text \<open>
  A protocol phase over a stream: it succeeds exactly when the peer's bytes start with an acceptable
  reply, and then it has written the prescribed bytes and read that reply and nothing more. Two phases
  run one after the other are again a phase.
\<close>

locale phase =
  fixes m :: "unit io" and ok :: "u8 list \<Rightarrow> u8 list \<Rightarrow> bool"
  assumes sound: "\<lbrakk>flowing s; wr s = []; m s = (Inr (), s')\<rbrakk> \<Longrightarrow>
      \<exists>out inp. ok out inp \<and> exchange s out inp s'"
    and complete: "\<lbrakk>flowing s; wr s = []; ok out inp; incoming s = inp @ rest\<rbrakk> \<Longrightarrow>
      \<exists>s'. m s = (Inr (), s') \<and> exchange s out inp s'"
begin

lemma accepts_iff:
  assumes "flowing s" "wr s = []"
  shows "(\<exists>s'. m s = (Inr (), s')) \<longleftrightarrow> (\<exists>out inp rest. ok out inp \<and> incoming s = inp @ rest)"
  using sound [OF assms] complete [OF assms] by (meson exchange_def)

end

definition seq_ok :: "(u8 list \<Rightarrow> u8 list \<Rightarrow> bool) \<Rightarrow> (u8 list \<Rightarrow> u8 list \<Rightarrow> bool) \<Rightarrow> u8 list \<Rightarrow> u8 list \<Rightarrow> bool" where
  "seq_ok ok1 ok2 out inp \<longleftrightarrow>
     (\<exists>o1 i1 o2 i2. ok1 o1 i1 \<and> ok2 o2 i2 \<and> out = o1 @ o2 \<and> inp = i1 @ i2)"

locale two_phases = first: phase m1 ok1 + second: phase m2 ok2
  for m1 :: "unit io" and ok1 and m2 :: "unit io" and ok2

sublocale two_phases \<subseteq> both: phase "then_io m1 m2" "seq_ok ok1 ok2"
proof
  fix s s'
  assume s: "flowing s" "wr s = []" "then_io m1 m2 s = (Inr (), s')"
  then obtain s1 where s1: "m1 s = (Inr (), s1)" "m2 s1 = (Inr (), s')"
    by (auto simp: io_simps split: sum.splits prod.splits)
  obtain o1 i1 where 1: "ok1 o1 i1" "exchange s o1 i1 s1"
    using first.sound [OF s(1,2) s1(1)] by blast
  then have "flowing s1" "wr s1 = []"
    using s(2) by (auto simp: exchange_def)
  from second.sound [OF this s1(2)] obtain o2 i2 where "ok2 o2 i2" "exchange s1 o2 i2 s'"
    by blast
  with 1 show "\<exists>out inp. seq_ok ok1 ok2 out inp \<and> exchange s out inp s'"
    using exchange_trans unfolding seq_ok_def by blast
next
  fix s out inp rest
  assume s: "flowing s" "wr s = []" "seq_ok ok1 ok2 out inp" "incoming s = inp @ rest"
  then obtain o1 i1 o2 i2 where ok: "ok1 o1 i1" "ok2 o2 i2" "out = o1 @ o2" "inp = i1 @ i2"
    unfolding seq_ok_def by blast
  obtain s1 where s1: "m1 s = (Inr (), s1)" "exchange s o1 i1 s1"
    using first.complete [OF s(1,2) ok(1)] s(4) ok(4) by auto
  then have "flowing s1" "wr s1 = []" "incoming s1 = i2 @ rest"
    using s(2,4) ok(4) by (auto simp: exchange_def)
  from second.complete [OF this(1,2) ok(2) this(3)] obtain s'
    where "m2 s1 = (Inr (), s')" "exchange s1 o2 i2 s'"
    by blast
  with s1 ok(3,4) show "\<exists>s'. then_io m1 m2 s = (Inr (), s') \<and> exchange s out inp s'"
    using exchange_trans by (auto simp: io_simps)
qed

end
