(* ===== verification/Http1_Codec.thy ===== *)
theory Http1_Codec
  imports Utf8
begin

text \<open>
  The HTTP/1.1 helpers of \<^verbatim>\<open>crates/zp-transport-codec/src/http1.rs\<close>: building a request head,
  reading a response head, and choosing the framing of a response body (the chunked decoder is in theory
  \<^verbatim>\<open>Chunked\<close>). The \<^verbatim>\<open>httparse\<close> crate is not part of the sources, so the parsed head is an
  argument of \<open>parse_response_head\<close>.

  The main result is a round trip: what a server reads from a built head, line by line up to the empty
  line, is the method, the path, the caller's headers and the headers the builder adds, and the body
  starts exactly where the head ends, so no header value or path can add a line.
\<close>

subsection \<open>Definitions\<close>

definition is_null_body_status :: "u16 \<Rightarrow> bool" where
  "is_null_body_status status \<longleftrightarrow> status \<in> {101, 103, 204, 205, 304}"

definition MAX_HEAD_BYTES :: nat where
  "MAX_HEAD_BYTES = 64 * 1024"

definition MAX_HEADERS :: nat where
  "MAX_HEADERS = 128"

record response_head =
  status :: u16
  reason :: str
  headers :: "header list"
  head_len :: nat

definition wants_content_length :: "str \<Rightarrow> nat \<Rightarrow> bool" where
  "wants_content_length method body_len \<longleftrightarrow>
     body_len > 0 \<or> eq_ignore_ascii_case method (bs ''POST'') \<or> eq_ignore_ascii_case method (bs ''PUT'')"

definition token_byte :: "u8 \<Rightarrow> bool" where
  "token_byte b \<longleftrightarrow>
     b \<in> set (bs [CHR ''!'', CHR 0x23, CHR ''$'', CHR ''%'', CHR 0x26, CHR 0x27, CHR ''*'', CHR ''+'',
       CHR ''-'', CHR ''.'', CHR 0x5E, CHR ''_'', CHR 0x60, CHR ''|'', CHR 0x7E])
     \<or> is_ascii_alphanumeric b"

definition is_token :: "str \<Rightarrow> bool" where
  "is_token s \<longleftrightarrow> s \<noteq> [] \<and> list_all token_byte s"

record head_builder =
  buf :: "u8 list"
  have_host :: bool
  have_content_length :: bool
  have_connection :: bool
  have_transfer_encoding :: bool

text \<open>One turn of the loop over the caller's headers, and the loop.\<close>

definition emit_header :: "header \<Rightarrow> head_builder \<Rightarrow> head_builder io_result" where
  "emit_header kv b =
     (case kv of (k, v) \<Rightarrow>
      if \<not> is_token k then
        Inl (IoError InvalidInput [Lit ''http1: header name '', Debug k, Lit '' is not a valid HTTP token''])
      else if list_ex (\<lambda>c. c = CR \<or> c = LF) v then
        Inl (IoError InvalidInput [Lit ''http1: header value for '', Debug k, Lit '' contains CR/LF''])
      else
        let kl = to_ascii_lowercase k;
            b = (if kl = bs ''host'' then b\<lparr>have_host := True\<rparr>
                 else if kl = bs ''content-length'' then b\<lparr>have_content_length := True\<rparr>
                 else if kl = bs ''connection'' then b\<lparr>have_connection := True\<rparr>
                 else if kl = bs ''transfer-encoding'' then b\<lparr>have_transfer_encoding := True\<rparr>
                 else b)
        in Inr (b\<lparr>buf := buf b @ k @ bs '': '' @ v @ CRLF\<rparr>))"

fun emit_headers :: "header list \<Rightarrow> head_builder \<Rightarrow> head_builder io_result" where
  "emit_headers [] b = Inr b"
| "emit_headers (kv # hs) b =
     (case emit_header kv b of Inl e \<Rightarrow> Inl e | Inr b' \<Rightarrow> emit_headers hs b')"

definition build_request_head :: "str \<Rightarrow> str \<Rightarrow> str \<Rightarrow> header list \<Rightarrow> nat \<Rightarrow> u8 list io_result" where
  "build_request_head method host_header path hs body_len =
     (if \<not> is_token method then
        Inl (IoError InvalidInput [Lit ''http1: method contains invalid token bytes''])
      else if path = [] \<or> list_ex (\<lambda>b. b = 32 \<or> b = CR \<or> b = LF) path then
        Inl (IoError InvalidInput [Lit ''http1: request-URI must be non-empty and whitespace-free''])
      else
        let line = method @ [32] @ path @ bs '' HTTP/1.1'' @ CRLF
        in case emit_headers hs \<lparr>buf = line, have_host = False, have_content_length = False,
                                  have_connection = False, have_transfer_encoding = False\<rparr> of
             Inl e \<Rightarrow> Inl e
           | Inr b \<Rightarrow>
               if \<not> have_host b \<and> host_header = [] then
                 Inl (IoError InvalidInput [Lit ''http1: Host header missing and no host provided''])
               else
                 let out = buf b;
                     out = (if have_host b then out else out @ bs ''Host: '' @ host_header @ CRLF);
                     out = (if wants_content_length method body_len \<and> \<not> have_content_length b
                               \<and> \<not> have_transfer_encoding b
                            then out @ bs ''Content-Length: '' @ to_string body_len @ CRLF else out);
                     out = (if have_connection b then out else out @ bs ''Connection: keep-alive'' @ CRLF)
                 in Inr (out @ CRLF))"

definition find_crlf2 :: "u8 list \<Rightarrow> nat option" where
  "find_crlf2 b = map_option (\<lambda>p. p + 4) (find_sub [CR, LF, CR, LF] b)"

text \<open>What \<^verbatim>\<open>httparse::Response::parse\<close> gives: an error message, or its status and fields.\<close>

datatype parse_status = Complete nat | Partial

record parsed_response =
  parse_status :: parse_status
  code :: "u16 option"
  reason_phrase :: "str option"
  raw_headers :: "(str \<times> u8 list) list"

definition parse_response_head ::
    "(u8 list \<Rightarrow> nat \<Rightarrow> string + parsed_response) \<Rightarrow> u8 list \<Rightarrow> response_head io_result" where
  "parse_response_head httparse input =
     (case httparse input MAX_HEADERS of
        Inl e \<Rightarrow> Inl (IoError InvalidData [Lit ''http1: parse: '', Lit e])
      | Inr resp \<Rightarrow>
          (case parse_status resp of
             Partial \<Rightarrow> Inl (IoError InvalidData [Lit ''http1: parse: incomplete after CRLFCRLF''])
           | Complete n \<Rightarrow>
               (case code resp of
                  None \<Rightarrow> Inl (IoError InvalidData [Lit ''http1: missing status code''])
                | Some st \<Rightarrow>
                    Inr \<lparr>status = st,
                         reason = (case reason_phrase resp of Some r \<Rightarrow> r | None \<Rightarrow> []),
                         headers = map (\<lambda>(name, v).
                           (name, case from_utf8 v of Some s \<Rightarrow> s | None \<Rightarrow> from_utf8_lossy v)) (raw_headers resp),
                         head_len = n\<rparr>)))"

fun header_terminal_chunked :: "header list \<Rightarrow> bool" where
  "header_terminal_chunked [] = False"
| "header_terminal_chunked ((k, v) # hs) =
     (if eq_ignore_ascii_case k (bs ''transfer-encoding'')
      then eq_ignore_ascii_case (trim (last (split_on 44 v))) (bs ''chunked'')
      else header_terminal_chunked hs)"

fun content_length_loop :: "nat option \<Rightarrow> header list \<Rightarrow> (nat option) io_result" where
  "content_length_loop found [] = Inr found"
| "content_length_loop found ((k, v) # hs) =
     (if \<not> eq_ignore_ascii_case k (bs ''content-length'') then content_length_loop found hs
      else case from_str_radix 64 10 (trim v) of
             None \<Rightarrow> Inl (IoError InvalidData [Lit ''http1: bad Content-Length '', Debug v])
           | Some parsed \<Rightarrow>
               (case found of
                  Some prev \<Rightarrow>
                    if prev \<noteq> parsed
                    then Inl (IoError InvalidData [Lit ''http1: conflicting Content-Length''])
                    else content_length_loop (Some parsed) hs
                | None \<Rightarrow> content_length_loop (Some parsed) hs))"

definition header_content_length :: "header list \<Rightarrow> (nat option) io_result" where
  "header_content_length hs = content_length_loop None hs"

definition no_body_status :: "u16 \<Rightarrow> bool" where
  "no_body_status st \<longleftrightarrow> (100 \<le> st \<and> st \<le> 199) \<or> st = 204 \<or> st = 304"

definition connection_close :: "header list \<Rightarrow> bool" where
  "connection_close hs \<longleftrightarrow>
     list_ex (\<lambda>(k, v). eq_ignore_ascii_case k (bs ''connection'')
       \<and> list_ex (\<lambda>token. eq_ignore_ascii_case (trim token) (bs ''close'')) (split_on 44 v)) hs"

definition response_keepalive :: "u16 \<Rightarrow> header list \<Rightarrow> bool" where
  "response_keepalive st hs \<longleftrightarrow>
     (if connection_close hs then False
      else header_terminal_chunked hs
           \<or> list_ex (\<lambda>(k, _). eq_ignore_ascii_case k (bs ''content-length'')) hs
           \<or> no_body_status st)"

subsection \<open>A server's reading of a request head\<close>

function head_lines :: "u8 list \<Rightarrow> (u8 list list \<times> u8 list) option" where
  "head_lines xs =
     (case find_sub CRLF xs of
        None \<Rightarrow> None
      | Some k \<Rightarrow>
          if k = 0 then Some ([], drop 2 xs)
          else case head_lines (drop (k + 2) xs) of
                 None \<Rightarrow> None
               | Some (ls, body) \<Rightarrow> Some (take k xs # ls, body))"
  by pat_completeness auto
termination
proof (relation "measure length")
  fix xs :: "u8 list" and k
  assume "find_sub CRLF xs = Some k"
  then have "k + length CRLF \<le> length xs"
    by (intro find_sub_bound) simp_all
  then show "(drop (k + 2) xs, xs) \<in> measure length"
    by simp
qed simp

declare head_lines.simps [simp del]

definition parse_field :: "u8 list \<Rightarrow> header option" where
  "parse_field l =
     (case position (\<lambda>b. b = 58) l of
        None \<Rightarrow> None
      | Some k \<Rightarrow> if starts_with [58, 32] (drop k l) then Some (take k l, drop (k + 2) l) else None)"

definition parse_request_line :: "u8 list \<Rightarrow> (str \<times> str) option" where
  "parse_request_line l =
     (case split_on 32 l of
        [m, p, v] \<Rightarrow> if v = bs ''HTTP/1.1'' then Some (m, p) else None
      | _ \<Rightarrow> None)"

definition parse_request_head :: "u8 list \<Rightarrow> (str \<times> str \<times> header option list \<times> u8 list) option" where
  "parse_request_head xs =
     (case head_lines xs of
        Some (l # ls, body) \<Rightarrow>
          (case parse_request_line l of
             Some (m, p) \<Rightarrow> Some (m, p, map parse_field ls, body)
           | None \<Rightarrow> None)
      | _ \<Rightarrow> None)"

text \<open>The headers the builder adds.\<close>

definition has_header :: "string \<Rightarrow> header list \<Rightarrow> bool" where
  "has_header name hs \<longleftrightarrow> (\<exists>(k, v) \<in> set hs. to_ascii_lowercase k = bs name)"

definition added_headers :: "str \<Rightarrow> str \<Rightarrow> header list \<Rightarrow> nat \<Rightarrow> header list" where
  "added_headers method host_header hs body_len =
     (if has_header ''host'' hs then [] else [(bs ''Host'', host_header)])
     @ (if wants_content_length method body_len \<and> \<not> has_header ''content-length'' hs
           \<and> \<not> has_header ''transfer-encoding'' hs
        then [(bs ''Content-Length'', to_string body_len)] else [])
     @ (if has_header ''connection'' hs then [] else [(bs ''Connection'', bs ''keep-alive'')])"

definition field_line :: "header \<Rightarrow> u8 list" where
  "field_line kv = fst kv @ bs '': '' @ snd kv"

definition field_ok :: "header \<Rightarrow> bool" where
  "field_ok kv \<longleftrightarrow> is_token (fst kv) \<and> CR \<notin> set (snd kv) \<and> LF \<notin> set (snd kv)"

lemma find_crlf_line:
  assumes "CR \<notin> set l"
  shows "find_sub CRLF (l @ CRLF @ r) = Some (length l)"
proof -
  have "\<not> starts_with CRLF (drop j (l @ CRLF @ r))" if "j < length l" for j
  proof -
    have "drop j (l @ CRLF @ r) = l ! j # drop (Suc j) l @ CRLF @ r"
      using that by (simp add: Cons_nth_drop_Suc [symmetric])
    moreover have "l ! j \<noteq> CR"
      using assms that nth_mem by fastforce
    ultimately show ?thesis
      by (simp add: starts_with_def)
  qed
  then show ?thesis
    by (simp add: find_sub_Some_iff) (simp add: starts_with_def)
qed

lemma head_lines_line:
  assumes "CR \<notin> set l" "l \<noteq> []"
  shows "head_lines (l @ CRLF @ r) = (case head_lines r of None \<Rightarrow> None | Some (ls, b) \<Rightarrow> Some (l # ls, b))"
  by (subst head_lines.simps) (use find_crlf_line [OF assms(1), of r] assms(2) in \<open>simp split: option.splits\<close>)

lemma head_lines_end: "head_lines (CRLF @ r) = Some ([], r)"
  by (subst head_lines.simps) (use find_crlf_line [of "[]" r] in simp)

definition lines :: "u8 list list \<Rightarrow> u8 list" where
  "lines ls = concat (map (\<lambda>l. l @ CRLF) ls)"

lemma head_lines_lines:
  "\<forall>l \<in> set ls. CR \<notin> set l \<and> l \<noteq> [] \<Longrightarrow> head_lines (lines ls @ CRLF @ r) = Some (ls, r)"
proof (induction ls)
  case Nil
  then show ?case
    using head_lines_end [of r] by (simp add: lines_def)
next
  case (Cons l ls)
  then show ?case
    using head_lines_line [of l "lines ls @ CRLF @ r"] by (simp add: lines_def)
qed

lemma token_byte_not: "token_byte b \<Longrightarrow> b \<noteq> CR \<and> b \<noteq> LF \<and> b \<noteq> 32 \<and> b \<noteq> 58"
  by (auto simp: token_byte_def byte_simps)

lemma is_token_not: "is_token s \<Longrightarrow> CR \<notin> set s \<and> LF \<notin> set s \<and> 32 \<notin> set s \<and> 58 \<notin> set s"
  using token_byte_not by (auto simp: is_token_def list_all_iff)

lemma parse_field_line:
  assumes "is_token (fst kv)"
  shows "parse_field (field_line kv) = Some kv"
proof -
  have p: "position (\<lambda>b. b = 58) (field_line kv) = Some (length (fst kv))"
    using is_token_not [OF assms]
    by (auto simp: field_line_def bs_def position_Some_iff nth_append dest: nth_mem)
  then show ?thesis
    by (simp add: parse_field_def field_line_def bs_def starts_with_def)
qed

subsection \<open>What the builder emits\<close>

lemma emit_header_Inr:
  assumes "emit_header kv b = Inr b'"
  shows "field_ok kv \<and> buf b' = buf b @ field_line kv @ CRLF
     \<and> have_host b' = (have_host b \<or> to_ascii_lowercase (fst kv) = bs ''host'')
     \<and> have_content_length b' = (have_content_length b \<or> to_ascii_lowercase (fst kv) = bs ''content-length'')
     \<and> have_connection b' = (have_connection b \<or> to_ascii_lowercase (fst kv) = bs ''connection'')
     \<and> have_transfer_encoding b' =
         (have_transfer_encoding b \<or> to_ascii_lowercase (fst kv) = bs ''transfer-encoding'')"
proof -
  have d: "distinct [bs ''host'', bs ''content-length'', bs ''connection'', bs ''transfer-encoding'']"
    by (simp add: bs_def)
  obtain k v where kv: "kv = (k, v)"
    by (cases kv)
  have "is_token k" "CR \<notin> set v" "LF \<notin> set v"
    using assms by (auto simp: kv emit_header_def list_ex_iff split: if_splits)
  then have "field_ok kv" and v: "\<not> list_ex (\<lambda>c. c = CR \<or> c = LF) v"
    by (auto simp: kv field_ok_def list_ex_iff)
  then show ?thesis
    using assms d \<open>is_token k\<close>
    by (auto simp: kv emit_header_def Let_def field_line_def split: if_splits)
qed

lemma emit_headers_Inr:
  "emit_headers hs b = Inr b' \<Longrightarrow>
     list_all field_ok hs \<and> buf b' = buf b @ lines (map field_line hs)
     \<and> have_host b' = (have_host b \<or> has_header ''host'' hs)
     \<and> have_content_length b' = (have_content_length b \<or> has_header ''content-length'' hs)
     \<and> have_connection b' = (have_connection b \<or> has_header ''connection'' hs)
     \<and> have_transfer_encoding b' = (have_transfer_encoding b \<or> has_header ''transfer-encoding'' hs)"
proof (induction hs arbitrary: b)
  case Nil
  then show ?case
    by (simp add: lines_def has_header_def)
next
  case (Cons kv hs)
  then obtain b1 where b1: "emit_header kv b = Inr b1" "emit_headers hs b1 = Inr b'"
    by (auto split: sum.splits)
  have has: "has_header n (kv # hs) \<longleftrightarrow> to_ascii_lowercase (fst kv) = bs n \<or> has_header n hs" for n
    by (auto simp: has_header_def)
  show ?case
    using Cons.IH [OF b1(2)] emit_header_Inr [OF b1(1)] by (simp add: lines_def has)
qed

lemma build_request_head_Inr:
  assumes "build_request_head method host_header path hs body_len = Inr out"
  shows "is_token method" "path \<noteq> []" "\<forall>b \<in> set path. b \<noteq> 32 \<and> b \<noteq> CR \<and> b \<noteq> LF" "list_all field_ok hs"
    and "out = lines ((method @ [32] @ path @ bs '' HTTP/1.1'')
           # map field_line (hs @ added_headers method host_header hs body_len)) @ CRLF"
proof -
  show "is_token method" "path \<noteq> []" and path: "\<forall>b \<in> set path. b \<noteq> 32 \<and> b \<noteq> CR \<and> b \<noteq> LF"
    using assms by (auto simp: build_request_head_def list_ex_iff split: if_splits)
  define line where "line = method @ [32] @ path @ bs '' HTTP/1.1''"
  obtain b where b: "emit_headers hs \<lparr>buf = line @ CRLF, have_host = False, have_content_length = False,
        have_connection = False, have_transfer_encoding = False\<rparr> = Inr b"
    using assms by (auto simp: build_request_head_def Let_def line_def split: if_splits sum.splits)
  note E = emit_headers_Inr [OF b]
  show "list_all field_ok hs"
    using E by simp
  have "out = (let out = buf b;
                   out = (if have_host b then out else out @ bs ''Host: '' @ host_header @ CRLF);
                   out = (if wants_content_length method body_len \<and> \<not> have_content_length b
                             \<and> \<not> have_transfer_encoding b
                          then out @ bs ''Content-Length: '' @ to_string body_len @ CRLF else out);
                   out = (if have_connection b then out else out @ bs ''Connection: keep-alive'' @ CRLF)
               in out @ CRLF)"
    using assms b unfolding line_def build_request_head_def Let_def
    by (auto split: if_splits)
  then show "out = lines ((method @ [32] @ path @ bs '' HTTP/1.1'')
           # map field_line (hs @ added_headers method host_header hs body_len)) @ CRLF"
    using E unfolding line_def [symmetric]
    by (simp add: Let_def lines_def added_headers_def field_line_def bs_def)
qed

lemma emit_headers_total: "list_all field_ok hs \<Longrightarrow> \<exists>b'. emit_headers hs b = Inr b'"
proof (induction hs arbitrary: b)
  case (Cons kv hs)
  have "\<not> list_ex (\<lambda>c. c = CR \<or> c = LF) (snd kv)"
    using Cons.prems by (auto simp: field_ok_def list_ex_iff)
  then obtain b1 where "emit_header kv b = Inr b1"
    using Cons.prems by (cases kv) (auto simp: emit_header_def Let_def field_ok_def)
  with Cons show ?case by auto
qed simp

lemma build_request_head_total:
  "(\<exists>out. build_request_head method host_header path hs body_len = Inr out) \<longleftrightarrow>
     is_token method \<and> path \<noteq> [] \<and> (\<forall>b \<in> set path. b \<noteq> 32 \<and> b \<noteq> CR \<and> b \<noteq> LF)
     \<and> list_all field_ok hs \<and> (has_header ''host'' hs \<or> host_header \<noteq> [])"
  (is "?l \<longleftrightarrow> ?r")
proof
  assume ?l
  then obtain out where out: "build_request_head method host_header path hs body_len = Inr out"
    by blast
  then have "has_header ''host'' hs \<or> host_header \<noteq> []"
    by (auto simp: build_request_head_def Let_def dest!: emit_headers_Inr split: if_splits sum.splits)
  with build_request_head_Inr [OF out] show ?r by blast
next
  assume r: ?r
  then have "\<not> list_ex (\<lambda>b. b = 32 \<or> b = CR \<or> b = LF) path"
    by (auto simp: list_ex_iff)
  moreover obtain b where "emit_headers hs \<lparr>buf = method @ [32] @ path @ bs '' HTTP/1.1'' @ CRLF, have_host = False,
      have_content_length = False, have_connection = False, have_transfer_encoding = False\<rparr> = Inr b"
    using emit_headers_total r by blast
  ultimately show ?l
    using r emit_headers_Inr by (simp add: build_request_head_def Let_def)
qed

lemma head_line_ok:
  assumes "is_token method" "\<forall>b \<in> set path. b \<noteq> 32 \<and> b \<noteq> CR \<and> b \<noteq> LF"
  shows "CR \<notin> set (method @ [32] @ path @ bs '' HTTP/1.1'')"
    and "parse_request_line (method @ [32] @ path @ bs '' HTTP/1.1'') = Some (method, path)"
proof -
  show "CR \<notin> set (method @ [32] @ path @ bs '' HTTP/1.1'')"
    using is_token_not [OF assms(1)] assms(2) by (auto simp: bs_def)
  have v: "bs '' HTTP/1.1'' = 32 # bs ''HTTP/1.1''" "32 \<notin> set (bs ''HTTP/1.1'')"
    by (simp_all add: bs_def)
  have "32 \<notin> set method" "32 \<notin> set path"
    using is_token_not [OF assms(1)] assms(2) by auto
  then have "split_on 32 (method @ [32] @ path @ bs '' HTTP/1.1'') = [method, path, bs ''HTTP/1.1'']"
    using v(2) by (simp add: v(1) split_on_append_sep split_on_absent)
  then show "parse_request_line (method @ [32] @ path @ bs '' HTTP/1.1'') = Some (method, path)"
    by (simp add: parse_request_line_def)
qed

lemma added_headers_ok:
  assumes "CR \<notin> set host_header" "kv \<in> set (added_headers method host_header hs n)"
  shows "is_token (fst kv) \<and> CR \<notin> set (snd kv)"
proof -
  have "CR \<notin> set (to_string n)"
    using to_string_digits [of n] by (auto simp: byte_simps)
  moreover have "is_token (bs ''Host'')" "is_token (bs ''Content-Length'')" "is_token (bs ''Connection'')"
      "CR \<notin> set (bs ''keep-alive'')"
    by (simp_all add: is_token_def token_byte_def byte_simps)
  ultimately show ?thesis
    using assms by (auto simp: added_headers_def split: if_splits)
qed

lemma field_line_ok: "is_token (fst kv) \<Longrightarrow> CR \<notin> set (snd kv) \<Longrightarrow> CR \<notin> set (field_line kv) \<and> field_line kv \<noteq> []"
  using is_token_not by (auto simp: field_line_def bs_def)

subsection \<open>Properties\<close>

text \<open>
  C8. A request head is built exactly when the method and the header names are tokens, the path is
  non-empty and without spaces or line breaks, no header value has a line break, and a host is known.
  What is built, followed by any body, is read by a server as exactly the method, the path, the caller's
  headers in order followed by the added ones, and then the body: no input can inject a header, a
  request line or body bytes (the host passed separately must itself be free of carriage returns).
\<close>

theorem request_head_roundtrip:
  "((\<exists>out. build_request_head method host_header path hs body_len = Inr out) \<longleftrightarrow>
      is_token method \<and> path \<noteq> [] \<and> (\<forall>b \<in> set path. b \<noteq> 32 \<and> b \<noteq> CR \<and> b \<noteq> LF)
      \<and> list_all field_ok hs \<and> (has_header ''host'' hs \<or> host_header \<noteq> []))
   \<and> (\<forall>out. build_request_head method host_header path hs body_len = Inr out \<and> CR \<notin> set host_header \<longrightarrow>
        parse_request_head (out @ body) =
          Some (method, path, map Some (hs @ added_headers method host_header hs body_len), body))"
proof (intro conjI allI impI)
  fix out
  assume "build_request_head method host_header path hs body_len = Inr out \<and> CR \<notin> set host_header"
  then have out: "build_request_head method host_header path hs body_len = Inr out" and cr: "CR \<notin> set host_header"
    by auto
  note B = build_request_head_Inr [OF out]
  let ?l = "method @ [32] @ path @ bs '' HTTP/1.1''" and ?hs = "hs @ added_headers method host_header hs body_len"
  have ok: "is_token (fst kv) \<and> CR \<notin> set (snd kv)" if "kv \<in> set ?hs" for kv
    using that B(4) added_headers_ok [OF cr, of kv "method" hs body_len] by (auto simp: list_all_iff field_ok_def)
  have "head_lines (lines (?l # map field_line ?hs) @ CRLF @ body) = Some (?l # map field_line ?hs, body)"
    using head_line_ok(1) [OF B(1,3)] field_line_ok ok by (intro head_lines_lines) auto
  moreover have "map parse_field (map field_line ?hs) = map Some ?hs"
    using ok parse_field_line by (auto simp del: map_append)
  ultimately show "parse_request_head (out @ body) = Some (method, path, map Some ?hs, body)"
    using head_line_ok(2) [OF B(1,3)] by (simp add: parse_request_head_def B(5))
qed (rule build_request_head_total)

theorem request_head_roundtrip_witness:
  "\<exists>out. build_request_head (bs ''POST'') (bs ''h'') (bs ''/p'') [(bs ''X-A'', bs ''b'')] 2 = Inr out
     \<and> parse_request_head (out @ bs ''ok'') =
         Some (bs ''POST'', bs ''/p'',
           map Some ([(bs ''X-A'', bs ''b'')] @ added_headers (bs ''POST'') (bs ''h'') [(bs ''X-A'', bs ''b'')] 2),
           bs ''ok'')"
proof -
  have "is_token (bs ''POST'') \<and> bs ''/p'' \<noteq> [] \<and> (\<forall>b \<in> set (bs ''/p''). b \<noteq> 32 \<and> b \<noteq> CR \<and> b \<noteq> LF)
      \<and> list_all field_ok [(bs ''X-A'', bs ''b'')] \<and> (has_header ''host'' [(bs ''X-A'', bs ''b'')] \<or> bs ''h'' \<noteq> [])"
    by (simp add: is_token_def token_byte_def field_ok_def byte_simps)
  moreover have "CR \<notin> set (bs ''h'')"
    by (simp add: bs_def)
  ultimately show ?thesis
    using request_head_roundtrip [of "bs ''POST''" "bs ''h''" "bs ''/p''" "[(bs ''X-A'', bs ''b'')]" 2 "bs ''ok''"]
    by blast
qed

text \<open>The values of the Content-Length fields, as numbers.\<close>

definition content_lengths :: "header list \<Rightarrow> nat option list" where
  "content_lengths hs =
     map (\<lambda>(k, v). from_str_radix 64 10 (trim v))
       (filter (\<lambda>(k, v). eq_ignore_ascii_case k (bs ''content-length'')) hs)"

lemma content_length_loop_Inr:
  "content_length_loop found hs = Inr r \<longleftrightarrow>
     (if content_lengths hs = [] then r = found
      else \<exists>n. r = Some n \<and> set (content_lengths hs) = {Some n} \<and> found \<in> {None, Some n})"
proof (induction found hs rule: content_length_loop.induct)
  case (2 found k v hs)
  show ?case
  proof (cases "eq_ignore_ascii_case k (bs ''content-length'')")
    case False
    then have "content_lengths ((k, v) # hs) = content_lengths hs"
      by (simp add: content_lengths_def)
    with False 2(1) show ?thesis by simp
  next
    case True
    then have cl: "content_lengths ((k, v) # hs) = from_str_radix 64 10 (trim v) # content_lengths hs"
      by (simp add: content_lengths_def)
    show ?thesis
    proof (cases "from_str_radix 64 10 (trim v)")
      case None
      with True show ?thesis by (auto simp: cl)
    next
      case (Some m)
      note IH = 2(2) [of m] 2(3) [of m]
      show ?thesis
        using True Some IH by (cases found) (auto simp: cl split: if_splits dest!: subset_singletonD)
    qed
  qed
qed (auto simp: content_lengths_def)

text \<open>
  The Content-Length of a response is absent exactly when no such field is present, is \<open>n\<close> exactly
  when there is one and every such field reads as the number \<open>n\<close>, and in every other case is an error:
  disagreeing or malformed lengths are never used for framing.
\<close>

theorem header_content_length_spec:
  "(header_content_length hs = Inr None \<longleftrightarrow> content_lengths hs = [])
   \<and> (header_content_length hs = Inr (Some n) \<longleftrightarrow> set (content_lengths hs) = {Some n})"
  by (auto simp: header_content_length_def content_length_loop_Inr)

text \<open>
  The body is taken as chunked exactly when the last coding of the first Transfer-Encoding field is
  \<open>chunked\<close>; later fields of that name are not looked at. So two fields \<open>gzip\<close> and \<open>chunked\<close> are not
  chunked, although the one field \<open>gzip, chunked\<close>, which means the same, is.
\<close>

theorem header_terminal_chunked_first_field:
  "(header_terminal_chunked hs \<longleftrightarrow>
      (case find (\<lambda>(k, v). eq_ignore_ascii_case k (bs ''transfer-encoding'')) hs of
         None \<Rightarrow> False
       | Some (k, v) \<Rightarrow> eq_ignore_ascii_case (trim (last (split_on 44 v))) (bs ''chunked'')))
   \<and> \<not> header_terminal_chunked [(bs ''Transfer-Encoding'', bs ''gzip''), (bs ''Transfer-Encoding'', bs ''chunked'')]
   \<and> header_terminal_chunked [(bs ''Transfer-Encoding'', bs ''gzip, chunked'')]"
proof (intro conjI)
  show "header_terminal_chunked hs \<longleftrightarrow>
      (case find (\<lambda>(k, v). eq_ignore_ascii_case k (bs ''transfer-encoding'')) hs of
         None \<Rightarrow> False
       | Some (k, v) \<Rightarrow> eq_ignore_ascii_case (trim (last (split_on 44 v))) (bs ''chunked''))"
    by (induction hs rule: header_terminal_chunked.induct) auto
qed code_simp+

end
