(* ===== verification/Chunked.thy ===== *)
theory Chunked
  imports Http1_Codec
begin

text \<open>
  The streaming chunked-body decoder of \<^verbatim>\<open>crates/zp-transport-codec/src/http1.rs\<close>, as the state
  machine it is: \<open>push\<close> appends raw bytes, \<open>step\<close> makes one transition, \<open>step_until_blocked\<close> runs
  transitions until more input is needed or the body is complete.

  The grammar of RFC 9112 section 7.1 is a separate definition. Whatever the segmentation of the input,
  the decoder completes exactly on bodies of that grammar, delivers exactly the chunk data, consumes
  exactly the body, and never delivers more than its cap, on any input at all.
\<close>

subsection \<open>Definitions\<close>

record chunk_size =
  size_of :: nat
  is_terminal :: bool

definition parse_chunk_size_line :: "str \<Rightarrow> chunk_size io_result" where
  "parse_chunk_size_line line =
     (let head = trim (hd (split_on 59 line)) in
      if head = [] then
        Inl (IoError InvalidData [Lit ''http1: invalid chunk-size line '', Debug line])
      else if \<not> list_all is_ascii_hexdigit head then
        Inl (IoError InvalidData [Lit ''http1: invalid chunk-size line '', Debug line])
      else case from_str_radix 64 16 head of
             None \<Rightarrow> Inl (IoError InvalidData
                       [Lit ''http1: chunk size: '', Lit ''number too large to fit in target type''])
           | Some n \<Rightarrow> Inr \<lparr>size_of = n, is_terminal = (n = 0)\<rparr>)"

definition CHUNK_TERMINATOR :: "u8 list" where
  "CHUNK_TERMINATOR = CRLF"

definition MAX_CHUNK_LINE :: nat where
  "MAX_CHUNK_LINE = MAX_HEAD_BYTES"

datatype chunked_state =
    WaitingForSize
  | ReadingBody nat
  | WaitingForCrlfAfterBody
  | DrainingTrailers
  | DoneState

record chunked_decoder =
  dstate :: chunked_state
  input :: "u8 list"
  body :: "u8 list"
  body_cap :: nat
  received :: nat

datatype chunked_step = NeedMore | Progress | Done

definition decoder_new :: "nat \<Rightarrow> chunked_decoder" where
  "decoder_new cap = \<lparr>dstate = WaitingForSize, input = [], body = [], body_cap = cap, received = 0\<rparr>"

definition push :: "u8 list \<Rightarrow> chunked_decoder \<Rightarrow> chunked_decoder" where
  "push xs d = d\<lparr>input := input d @ xs\<rparr>"

definition consume_line :: "chunked_decoder \<Rightarrow> (str \<times> chunked_decoder) option" where
  "consume_line d =
     (case find_sub CRLF (input d) of
        None \<Rightarrow> None
      | Some pos \<Rightarrow> Some (from_utf8_lossy (take pos (input d)), d\<lparr>input := drop (pos + 2) (input d)\<rparr>))"

definition line_too_long :: "chunked_decoder \<Rightarrow> bool" where
  "line_too_long d \<longleftrightarrow>
     (dstate d = WaitingForSize \<or> dstate d = DrainingTrailers)
     \<and> (case find_sub CRLF (input d) of Some i \<Rightarrow> i | None \<Rightarrow> length (input d)) > MAX_CHUNK_LINE"

definition step :: "chunked_decoder \<Rightarrow> chunked_step io_result \<times> chunked_decoder" where
  "step d =
     (if line_too_long d then (Inl (IoError InvalidData [Lit ''http1: chunk line exceeded cap'']), d)
      else case dstate d of
        WaitingForSize \<Rightarrow>
          (case consume_line d of
             None \<Rightarrow> (Inr NeedMore, d)
           | Some (line, d) \<Rightarrow>
               (case parse_chunk_size_line line of
                  Inl e \<Rightarrow> (Inl e, d)
                | Inr cs \<Rightarrow>
                    if is_terminal cs then (Inr Progress, d\<lparr>dstate := DrainingTrailers\<rparr>)
                    else if size_of cs > body_cap d - received d then
                      (Inl (IoError InvalidData [Lit ''http1: chunked body exceeded cap'']), d)
                    else
                      (Inr Progress,
                       d\<lparr>received := received d + size_of cs, dstate := ReadingBody (size_of cs)\<rparr>)))
      | ReadingBody remaining \<Rightarrow>
          if remaining = 0 then (Inr Progress, d\<lparr>dstate := WaitingForCrlfAfterBody\<rparr>)
          else if length (input d) = 0 then (Inr NeedMore, d)
          else
            let n = min remaining (length (input d));
                left = remaining - n
            in (Inr Progress,
                d\<lparr>body := body d @ take n (input d), input := drop n (input d),
                  dstate := (if left = 0 then WaitingForCrlfAfterBody else ReadingBody left)\<rparr>)
      | WaitingForCrlfAfterBody \<Rightarrow>
          if length (input d) < length CHUNK_TERMINATOR then (Inr NeedMore, d)
          else if take (length CHUNK_TERMINATOR) (input d) \<noteq> CHUNK_TERMINATOR then
            (Inl (IoError InvalidData [Lit ''http1: missing CRLF after chunk data'']), d)
          else (Inr Progress,
                d\<lparr>input := drop (length CHUNK_TERMINATOR) (input d), dstate := WaitingForSize\<rparr>)
      | DrainingTrailers \<Rightarrow>
          (case consume_line d of
             None \<Rightarrow> (Inr NeedMore, d)
           | Some (line, d) \<Rightarrow>
               if line = [] then (Inr Done, d\<lparr>dstate := DoneState\<rparr>) else (Inr Progress, d))
      | DoneState \<Rightarrow> (Inr Done, d))"

text \<open>Every transition that makes progress lowers this measure, so the driver loop ends.\<close>

definition work :: "chunked_decoder \<Rightarrow> nat" where
  "work d = 2 * length (input d) + (case dstate d of ReadingBody _ \<Rightarrow> 1 | _ \<Rightarrow> 0)"

lemma consume_line_Some:
  assumes "consume_line d = Some (line, d')"
  shows "\<exists>pos. find_sub CRLF (input d) = Some pos \<and> line = from_utf8_lossy (take pos (input d))
           \<and> d' = d\<lparr>input := drop (pos + 2) (input d)\<rparr> \<and> pos + 2 \<le> length (input d)"
proof -
  obtain pos where pos: "find_sub CRLF (input d) = Some pos"
    using assms by (auto simp: consume_line_def split: option.splits)
  have "pos + 2 \<le> length (input d)"
    using find_sub_bound [OF _ pos] by simp
  with pos assms show ?thesis
    by (auto simp: consume_line_def)
qed

lemma step_Progress_work: "step d = (Inr Progress, d') \<Longrightarrow> work d' < work d"
  by (auto simp: step_def work_def Let_def CHUNK_TERMINATOR_def min_def dest!: consume_line_Some
      split: if_splits chunked_state.splits option.splits sum.splits)

function step_until_blocked :: "chunked_decoder \<Rightarrow> chunked_step io_result \<times> chunked_decoder" where
  "step_until_blocked d =
     (case step d of
        (Inr Progress, d') \<Rightarrow> step_until_blocked d'
      | (r, d') \<Rightarrow> (r, d'))"
  by pat_completeness auto
termination
  by (relation "measure work") (auto dest: sym [THEN step_Progress_work])

declare step_until_blocked.simps [simp del]

definition is_done :: "chunked_decoder \<Rightarrow> bool" where
  "is_done d \<longleftrightarrow> dstate d = DoneState"

definition into_body :: "chunked_decoder \<Rightarrow> u8 list" where
  "into_body d = body d"

definition peek_body :: "chunked_decoder \<Rightarrow> u8 list" where
  "peek_body d = body d"

definition take_body :: "chunked_decoder \<Rightarrow> u8 list \<times> chunked_decoder" where
  "take_body d = (body d, d\<lparr>body := []\<rparr>)"

definition has_remaining_input :: "chunked_decoder \<Rightarrow> bool" where
  "has_remaining_input d \<longleftrightarrow> input d \<noteq> []"

subsection \<open>The grammar\<close>

text \<open>A chunk is its size line, as sent, and its data.\<close>

type_synonym chunk = "u8 list \<times> u8 list"

definition line_ok :: "u8 list \<Rightarrow> bool" where
  "line_ok l \<longleftrightarrow> find_sub CRLF (l @ CRLF) = Some (length l)"

definition size_line :: "nat \<Rightarrow> u8 list \<Rightarrow> bool" where
  "size_line n l \<longleftrightarrow>
     line_ok l \<and> parse_chunk_size_line (from_utf8_lossy l) = Inr \<lparr>size_of = n, is_terminal = (n = 0)\<rparr>"

definition chunk_ok :: "chunk \<Rightarrow> bool" where
  "chunk_ok c \<longleftrightarrow> snd c \<noteq> [] \<and> size_line (length (snd c)) (fst c)"

definition chunks_enc :: "chunk list \<Rightarrow> u8 list" where
  "chunks_enc cs = concat (map (\<lambda>(l, dat). l @ CRLF @ dat @ CRLF) cs)"

definition chunks_data :: "chunk list \<Rightarrow> u8 list" where
  "chunks_data cs = concat (map snd cs)"

definition trailer_ok :: "u8 list \<Rightarrow> bool" where
  "trailer_ok t \<longleftrightarrow> line_ok t \<and> t \<noteq> []"

definition body_ok :: "chunk list \<Rightarrow> u8 list \<Rightarrow> u8 list list \<Rightarrow> bool" where
  "body_ok cs z ts \<longleftrightarrow> list_all chunk_ok cs \<and> size_line 0 z \<and> list_all trailer_ok ts"

definition body_enc :: "chunk list \<Rightarrow> u8 list \<Rightarrow> u8 list list \<Rightarrow> u8 list" where
  "body_enc cs z ts = chunks_enc cs @ z @ CRLF @ lines ts @ CRLF"

lemma chunks_simps [simp]:
  "chunks_enc [] = []" "chunks_data [] = []"
  "chunks_enc ((l, dat) # cs) = l @ CRLF @ dat @ CRLF @ chunks_enc cs"
  "chunks_data ((l, dat) # cs) = dat @ chunks_data cs"
  "chunks_enc (cs @ [(l, dat)]) = chunks_enc cs @ l @ CRLF @ dat @ CRLF"
  "chunks_data (cs @ [(l, dat)]) = chunks_data cs @ dat"
  by (simp_all add: chunks_enc_def chunks_data_def)

lemma lines_simps [simp]:
  "lines [] = []" "lines (l # ls) = l @ CRLF @ lines ls" "lines (ls @ [l]) = lines ls @ l @ CRLF"
  by (simp_all add: lines_def)

lemma size_line_parse:
  "parse_chunk_size_line s = Inr cs \<Longrightarrow> cs = \<lparr>size_of = size_of cs, is_terminal = (size_of cs = 0)\<rparr>"
  by (auto simp: parse_chunk_size_line_def Let_def split: if_splits option.splits)

lemma find_sub_take_line_ok:
  assumes "find_sub CRLF xs = Some pos"
  shows "line_ok (take pos xs) \<and> xs = take pos xs @ CRLF @ drop (pos + 2) xs"
proof -
  have b: "pos + 2 \<le> length xs" and p: "pos < length xs" "starts_with CRLF (drop pos xs)"
      "\<And>j. j < pos \<Longrightarrow> \<not> starts_with CRLF (drop j xs)"
    using assms find_sub_bound [OF _ assms] by (auto simp: find_sub_Some_iff)
  have xs: "xs = take pos xs @ CRLF @ drop (pos + 2) xs"
    using p(2) by (metis append_assoc append_take_drop_id drop_drop add.commute length_Cons list.size(3)
        numeral_2_eq_2 starts_with_def)
  have "\<not> starts_with CRLF (drop j (take pos xs @ CRLF))" if "j < pos" for j
  proof -
    have "starts_with CRLF (drop j (take pos xs @ CRLF)) \<longleftrightarrow>
        starts_with CRLF (drop j ((take pos xs @ CRLF) @ drop (pos + 2) xs))"
      using that b by (intro starts_with_drop_append [symmetric]) simp
    with p(3) [OF that] xs show ?thesis by simp
  qed
  moreover have "starts_with CRLF (drop pos (take pos xs @ CRLF))"
    using b by (simp add: starts_with_def)
  ultimately have "line_ok (take pos xs)"
    using b by (simp add: line_ok_def find_sub_Some_iff min_def)
  with xs show ?thesis by simp
qed

lemma line_ok_find: "line_ok l \<Longrightarrow> find_sub CRLF (l @ CRLF @ r) = Some (length l)"
  using find_sub_extend [of CRLF "l @ CRLF" "length l" r] by (simp add: line_ok_def)

subsection \<open>Soundness\<close>

text \<open>
  Everything a caller can do with a decoder until an error: the bytes pushed in total, the bytes drained
  in total, and the decoder.
\<close>

inductive dec_reach :: "nat \<Rightarrow> u8 list \<Rightarrow> u8 list \<Rightarrow> chunked_decoder \<Rightarrow> bool" for cap where
  start: "dec_reach cap [] [] (decoder_new cap)"
| pushed: "dec_reach cap t out d \<Longrightarrow> dec_reach cap (t @ xs) out (push xs d)"
| stepped: "dec_reach cap t out d \<Longrightarrow> step d = (Inr r, d') \<Longrightarrow> dec_reach cap t out d'"
| taken: "dec_reach cap t out d \<Longrightarrow> take_body d = (xs, d') \<Longrightarrow> dec_reach cap t (out @ xs) d'"

fun consumed_by :: "chunked_state \<Rightarrow> u8 list \<Rightarrow> u8 list \<Rightarrow> bool" where
  "consumed_by WaitingForSize x dat \<longleftrightarrow>
     (\<exists>cs. list_all chunk_ok cs \<and> x = chunks_enc cs \<and> dat = chunks_data cs)"
| "consumed_by (ReadingBody r) x dat \<longleftrightarrow>
     (\<exists>cs l b. list_all chunk_ok cs \<and> 0 < length b + r \<and> size_line (length b + r) l
        \<and> x = chunks_enc cs @ l @ CRLF @ b \<and> dat = chunks_data cs @ b)"
| "consumed_by WaitingForCrlfAfterBody x dat \<longleftrightarrow>
     (\<exists>cs l b. list_all chunk_ok cs \<and> b \<noteq> [] \<and> size_line (length b) l
        \<and> x = chunks_enc cs @ l @ CRLF @ b \<and> dat = chunks_data cs @ b)"
| "consumed_by DrainingTrailers x dat \<longleftrightarrow>
     (\<exists>cs z ts. body_ok cs z ts \<and> x = chunks_enc cs @ z @ CRLF @ lines ts \<and> dat = chunks_data cs)"
| "consumed_by DoneState x dat \<longleftrightarrow>
     (\<exists>cs z ts. body_ok cs z ts \<and> x = body_enc cs z ts \<and> dat = chunks_data cs)"

fun pending :: "chunked_state \<Rightarrow> nat" where
  "pending (ReadingBody r) = r"
| "pending _ = 0"

definition dec_inv :: "nat \<Rightarrow> u8 list \<Rightarrow> u8 list \<Rightarrow> chunked_decoder \<Rightarrow> bool" where
  "dec_inv cap t out d \<longleftrightarrow>
     (\<exists>x. t = x @ input d \<and> consumed_by (dstate d) x (out @ body d))
     \<and> received d = length (out @ body d) + pending (dstate d) \<and> received d \<le> cap \<and> body_cap d = cap"

lemma consumed_byI:
  "list_all chunk_ok cs \<Longrightarrow> consumed_by WaitingForSize (chunks_enc cs) (chunks_data cs)"
  "\<lbrakk>list_all chunk_ok cs; 0 < length b + r; size_line (length b + r) l\<rbrakk> \<Longrightarrow>
     consumed_by (ReadingBody r) (chunks_enc cs @ l @ CRLF @ b) (chunks_data cs @ b)"
  "\<lbrakk>list_all chunk_ok cs; b \<noteq> []; size_line (length b) l\<rbrakk> \<Longrightarrow>
     consumed_by WaitingForCrlfAfterBody (chunks_enc cs @ l @ CRLF @ b) (chunks_data cs @ b)"
  unfolding consumed_by.simps by blast+

lemma dec_invI:
  "\<lbrakk>t = x @ input d; consumed_by (dstate d) x (out @ body d);
    received d = length (out @ body d) + pending (dstate d); received d \<le> cap; body_cap d = cap\<rbrakk>
     \<Longrightarrow> dec_inv cap t out d"
  unfolding dec_inv_def by blast

lemma dec_inv_size:
  assumes inv: "dec_inv cap t out d" and st: "dstate d = WaitingForSize"
    and s: "step d = (Inr r, d')"
  shows "dec_inv cap t out d'"
proof (cases "find_sub CRLF (input d)")
  case None
  with s st inv show ?thesis
    by (auto simp: step_def consume_line_def split: if_splits)
next
  case (Some pos)
  let ?l = "take pos (input d)" and ?i = "drop (pos + 2) (input d)"
  have l: "line_ok ?l" "input d = ?l @ CRLF @ ?i"
    using find_sub_take_line_ok [OF Some] by auto
  obtain cs where cs: "t = chunks_enc cs @ input d" "list_all chunk_ok cs" "out @ body d = chunks_data cs"
    using inv st by (auto simp: dec_inv_def)
  obtain n where n: "parse_chunk_size_line (from_utf8_lossy ?l) = Inr \<lparr>size_of = n, is_terminal = (n = 0)\<rparr>"
    using s st Some size_line_parse
    by (auto simp: step_def consume_line_def split: if_splits sum.splits)
  have d': "d' = (if n = 0 then d\<lparr>input := ?i, dstate := DrainingTrailers\<rparr>
             else d\<lparr>input := ?i, received := received d + n, dstate := ReadingBody n\<rparr>)"
    and cap: "n \<le> body_cap d - received d \<or> n = 0"
    using s st Some n by (auto simp: step_def consume_line_def split: if_splits)
  have sl: "size_line n ?l"
    using l(1) n by (simp add: size_line_def)
  show ?thesis
  proof (cases "n = 0")
    case True
    have "consumed_by DrainingTrailers (chunks_enc cs @ ?l @ CRLF) (out @ body d)"
      using cs sl True unfolding consumed_by.simps
      by (intro exI [of _ cs] exI [of _ ?l] exI [of _ "[]"]) (simp add: body_ok_def)
    with True inv st d' cs(1) l(2) show ?thesis
      unfolding dec_inv_def by (intro conjI exI [of _ "chunks_enc cs @ ?l @ CRLF"]) auto
  next
    case False
    have "consumed_by (ReadingBody n) (chunks_enc cs @ ?l @ CRLF) (out @ body d)"
      using cs sl False unfolding consumed_by.simps
      by (intro exI [of _ cs] exI [of _ ?l] exI [of _ "[]"]) simp
    with False inv st d' cs(1) l(2) cap show ?thesis
      unfolding dec_inv_def by (intro conjI exI [of _ "chunks_enc cs @ ?l @ CRLF"]) auto
  qed
qed

lemma dec_inv_trailers:
  assumes inv: "dec_inv cap t out d" and st: "dstate d = DrainingTrailers" and s: "step d = (Inr r, d')"
  shows "dec_inv cap t out d'"
proof (cases "find_sub CRLF (input d)")
  case None
  with s st inv show ?thesis
    by (auto simp: step_def consume_line_def split: if_splits)
next
  case (Some pos)
  let ?l = "take pos (input d)" and ?i = "drop (pos + 2) (input d)"
  have l: "line_ok ?l" "input d = ?l @ CRLF @ ?i"
    using find_sub_take_line_ok [OF Some] by auto
  obtain cs z ts where cs: "t = (chunks_enc cs @ z @ CRLF @ lines ts) @ input d" "body_ok cs z ts"
      "out @ body d = chunks_data cs"
    using inv st by (auto simp: dec_inv_def)
  have d': "d' = (if ?l = [] then d\<lparr>input := ?i, dstate := DoneState\<rparr> else d\<lparr>input := ?i\<rparr>)"
    using s st Some by (auto simp: step_def consume_line_def split: if_splits)
  show ?thesis
  proof (cases "?l = []")
    case True
    then have "input d = CRLF @ ?i"
      using l(2) by (metis append_Nil)
    then have "t = body_enc cs z ts @ ?i"
      using cs(1) by (metis append_assoc body_enc_def)
    with True inv st d' cs(2,3) show ?thesis
      by (auto simp: dec_inv_def)
  next
    case False
    then have "body_ok cs z (ts @ [?l])" "t = (chunks_enc cs @ z @ CRLF @ lines (ts @ [?l])) @ ?i"
      using cs l by (simp_all add: body_ok_def trailer_ok_def)
    with False inv st d' cs(3) show ?thesis
      unfolding dec_inv_def by (auto simp del: lines_simps)
  qed
qed

lemma dec_inv_body:
  assumes inv: "dec_inv cap t out d" and st: "dstate d = ReadingBody m" and s: "step d = (Inr r, d')"
  shows "dec_inv cap t out d'"
proof -
  obtain x where "t = x @ input d" "consumed_by (ReadingBody m) x (out @ body d)"
    using inv st unfolding dec_inv_def by metis
  then obtain cs l b where c: "list_all chunk_ok cs" "0 < length b + m" "size_line (length b + m) l"
      "t = (chunks_enc cs @ l @ CRLF @ b) @ input d" "out @ body d = chunks_data cs @ b"
    unfolding consumed_by.simps by blast
  define n where "n = min m (length (input d))"
  let ?b = "b @ take n (input d)"
  have len: "length ?b + (m - n) = length b + m"
    by (simp add: n_def)
  consider (same) "d' = d" | (zero) "m = 0" "d' = d\<lparr>dstate := WaitingForCrlfAfterBody\<rparr>"
    | (moved) "d' = d\<lparr>body := body d @ take n (input d), input := drop n (input d),
                  dstate := (if m - n = 0 then WaitingForCrlfAfterBody else ReadingBody (m - n))\<rparr>"
    using s st by (auto simp: step_def line_too_long_def Let_def n_def split: if_splits)
  then show ?thesis
  proof cases
    case zero
    then have "consumed_by (dstate d') (chunks_enc cs @ l @ CRLF @ b) (out @ body d')"
      using c(2,3) consumed_byI(3) [OF c(1), of b l] c(5) by simp
    with zero inv st c(4) show ?thesis
      by (intro dec_invI) (auto simp: dec_inv_def)
  next
    case moved
    have dat: "out @ body d' = chunks_data cs @ ?b"
      using c(5) unfolding moved by (simp flip: append_assoc)
    have "consumed_by (dstate d') (chunks_enc cs @ l @ CRLF @ ?b) (out @ body d')"
    proof (cases "m - n = 0")
      case True
      then have "m = n" by (simp add: n_def)
      with len c(2,3) have "?b \<noteq> []" "size_line (length ?b) l"
        by auto
      from consumed_byI(3) [OF c(1) this] show ?thesis
        unfolding dat using True moved by simp
    next
      case False
      have "0 < length ?b + (m - n)" "size_line (length ?b + (m - n)) l"
        using c(2,3) by (simp_all only: len)
      from consumed_byI(2) [OF c(1) this] show ?thesis
        unfolding dat using False moved by simp
    qed
    moreover have "t = (chunks_enc cs @ l @ CRLF @ ?b) @ input d'"
      using c(4) moved by simp
    moreover have "received d' = length (out @ body d') + pending (dstate d')"
      using inv st moved len by (auto simp: dec_inv_def n_def)
    moreover have "received d' \<le> cap" "body_cap d' = cap"
      using inv moved by (simp_all add: dec_inv_def)
    ultimately show ?thesis
      using dec_invI by blast
  qed (use inv in simp)
qed

lemma dec_inv_crlf:
  assumes inv: "dec_inv cap t out d" and st: "dstate d = WaitingForCrlfAfterBody" and s: "step d = (Inr r, d')"
  shows "dec_inv cap t out d'"
proof -
  obtain x where "t = x @ input d" "consumed_by WaitingForCrlfAfterBody x (out @ body d)"
    using inv st unfolding dec_inv_def by metis
  then obtain cs l b where c: "list_all chunk_ok cs" "b \<noteq> []" "size_line (length b) l"
      "t = (chunks_enc cs @ l @ CRLF @ b) @ input d" "out @ body d = chunks_data cs @ b"
    unfolding consumed_by.simps by blast
  show ?thesis
  proof (cases "d' = d")
    case False
    with s st have d': "d' = d\<lparr>input := drop 2 (input d), dstate := WaitingForSize\<rparr>" "take 2 (input d) = CRLF"
      by (auto simp: step_def line_too_long_def CHUNK_TERMINATOR_def numeral_2_eq_2 split: if_splits)
    then have "input d = CRLF @ drop 2 (input d)"
      by (metis append_take_drop_id)
    then have "t = chunks_enc (cs @ [(l, b)]) @ drop 2 (input d)" "list_all chunk_ok (cs @ [(l, b)])"
        "out @ body d = chunks_data (cs @ [(l, b)])"
      using c by (simp_all add: chunk_ok_def)
    with consumed_byI(1) [OF this(2)] d'(1) inv st show ?thesis
      by (intro dec_invI [of t "chunks_enc (cs @ [(l, b)])"])
         (simp_all add: dec_inv_def del: chunks_simps consumed_by.simps)
  qed (use inv in simp)
qed

lemma dec_inv_reach: "dec_reach cap t out d \<Longrightarrow> dec_inv cap t out d"
proof (induction rule: dec_reach.induct)
  case start
  then show ?case
    by (simp add: dec_inv_def decoder_new_def) (auto intro: exI [of _ "[]"])
next
  case (pushed t out d xs)
  then show ?case
    by (auto simp: dec_inv_def push_def)
next
  case (stepped t out d r d')
  show ?case
  proof (cases "dstate d")
    case DoneState
    with stepped show ?thesis
      by (auto simp: step_def split: if_splits)
  qed (use stepped in \<open>auto intro: dec_inv_size dec_inv_trailers dec_inv_body dec_inv_crlf\<close>)
next
  case (taken t out d xs d')
  then show ?case
    by (auto simp: dec_inv_def take_body_def)
qed

subsection \<open>Completeness\<close>

text \<open>
  The bytes still to come, buffered or not, finish the body: their chunk data is \<open>dat\<close> and \<open>rest\<close>
  follows the body. Lines are below the line cap and the data fits the body cap.
\<close>

definition short :: "u8 list \<Rightarrow> bool" where
  "short l \<longleftrightarrow> length l < MAX_CHUNK_LINE"

definition tail_ok :: "nat \<Rightarrow> chunk list \<Rightarrow> u8 list \<Rightarrow> u8 list list \<Rightarrow> bool" where
  "tail_ok room cs z ts \<longleftrightarrow>
     body_ok cs z ts \<and> list_all (\<lambda>c. short (fst c)) cs \<and> short z \<and> list_all short ts
     \<and> length (chunks_data cs) \<le> room"

fun awaits :: "chunked_state \<Rightarrow> nat \<Rightarrow> u8 list \<Rightarrow> u8 list \<Rightarrow> u8 list \<Rightarrow> bool" where
  "awaits WaitingForSize room w dat rest \<longleftrightarrow>
     (\<exists>cs z ts. tail_ok room cs z ts \<and> w = body_enc cs z ts @ rest \<and> dat = chunks_data cs)"
| "awaits (ReadingBody r) room w dat rest \<longleftrightarrow>
     (\<exists>b cs z ts. length b = r \<and> tail_ok room cs z ts \<and> w = b @ CRLF @ body_enc cs z ts @ rest
        \<and> dat = b @ chunks_data cs)"
| "awaits WaitingForCrlfAfterBody room w dat rest \<longleftrightarrow>
     (\<exists>cs z ts. tail_ok room cs z ts \<and> w = CRLF @ body_enc cs z ts @ rest \<and> dat = chunks_data cs)"
| "awaits DrainingTrailers room w dat rest \<longleftrightarrow>
     (\<exists>ts. list_all trailer_ok ts \<and> list_all short ts \<and> w = lines ts @ CRLF @ rest \<and> dat = [])"
| "awaits DoneState room w dat rest \<longleftrightarrow> w = rest \<and> dat = []"

definition dec_awaits :: "chunked_decoder \<Rightarrow> u8 list \<Rightarrow> u8 list \<Rightarrow> u8 list \<Rightarrow> bool" where
  "dec_awaits d fut dat rest \<longleftrightarrow> awaits (dstate d) (body_cap d - received d) (input d @ fut) dat rest"

text \<open>What one transition does to a decoder that awaits the rest of a body.\<close>

definition step_fine :: "chunked_decoder \<Rightarrow> u8 list \<Rightarrow> u8 list \<Rightarrow> u8 list \<Rightarrow> bool" where
  "step_fine d fut dat rest \<longleftrightarrow>
     (\<exists>r d' moved aft. step d = (Inr r, d') \<and> dat = moved @ aft \<and> body d' = body d @ moved
        \<and> dec_awaits d' fut aft rest \<and> body_cap d' = body_cap d
        \<and> (r = NeedMore \<longrightarrow> d' = d \<and> fut \<noteq> []) \<and> (r = Done \<longrightarrow> dstate d' = DoneState))"

lemma buffered_line:
  assumes "line_ok l" "short l" "input d @ fut = l @ CRLF @ aft"
  obtains (line) "find_sub CRLF (input d) = Some (length l)" "input d = l @ CRLF @ drop (length l + 2) (input d)"
      "drop (length l + 2) (input d) @ fut = aft" "\<not> line_too_long d"
  | (partial) "find_sub CRLF (input d) = None" "fut \<noteq> []" "\<not> line_too_long d"
proof (cases "find_sub CRLF (input d)")
  case (Some pos)
  have "find_sub CRLF (input d @ fut) = Some pos"
    using find_sub_extend [OF _ Some] by simp
  with assms(1,3) have pos: "pos = length l"
    using line_ok_find [of l aft] by simp
  have i: "input d = take (length l) (input d) @ CRLF @ drop (length l + 2) (input d)"
    using find_sub_take_line_ok [OF Some] pos by simp
  then have "take (length l) (input d) @ CRLF @ drop (length l + 2) (input d) @ fut = l @ CRLF @ aft"
    using assms(3) by (metis append_assoc)
  moreover have "length (take (length l) (input d)) = length l"
    using find_sub_bound [OF _ Some] pos by simp
  ultimately have "take (length l) (input d) = l" "drop (length l + 2) (input d) @ fut = aft"
    by auto
  with i Some pos assms(2) show ?thesis
    by (intro line) (auto simp: line_too_long_def short_def)
next
  case None
  have "length (input d) < length l + 2"
  proof (rule ccontr)
    assume "\<not> ?thesis"
    moreover have "take (length l + 2) (input d @ fut) = l @ CRLF"
      by (simp add: assms(3))
    ultimately have "take (length l + 2) (input d) = l @ CRLF"
      by simp
    then have "input d = l @ CRLF @ drop (length l + 2) (input d)"
      by (metis append_assoc append_take_drop_id)
    then show False
      using None line_ok_find [OF assms(1)] by (metis option.distinct(1))
  qed
  moreover from this assms(3) have "fut \<noteq> []"
    by auto
  ultimately show ?thesis
    using None assms(2) by (intro partial) (auto simp: line_too_long_def short_def)
qed

lemma step_fine_size:
  assumes st: "dstate d = WaitingForSize" and aw: "dec_awaits d fut dat rest"
  shows "step_fine d fut dat rest"
proof -
  obtain cs z ts where t: "tail_ok (body_cap d - received d) cs z ts"
      "input d @ fut = body_enc cs z ts @ rest" "dat = chunks_data cs"
    using aw st by (auto simp: dec_awaits_def)
  obtain l aft n where l: "line_ok l" "short l" "input d @ fut = l @ CRLF @ aft"
      "parse_chunk_size_line (from_utf8_lossy l) = Inr \<lparr>size_of = n, is_terminal = (n = 0)\<rparr>"
      "n \<le> body_cap d - received d"
      "awaits (if n = 0 then DrainingTrailers else ReadingBody n) (body_cap d - received d - n) aft dat rest"
  proof (cases cs)
    case Nil
    with t that [of z "lines ts @ CRLF @ rest" 0] show ?thesis
      by (simp add: tail_ok_def body_ok_def size_line_def body_enc_def) blast
  next
    case (Cons c cs')
    obtain l b where c: "c = (l, b)"
      by (cases c)
    have "awaits (ReadingBody (length b)) (body_cap d - received d - length b)
        (b @ CRLF @ body_enc cs' z ts @ rest) dat rest"
      using t Cons c unfolding awaits.simps
      by (intro exI [of _ b] exI [of _ cs'] exI [of _ z] exI [of _ ts]) (auto simp: tail_ok_def body_ok_def)
    with t Cons c that [of l "b @ CRLF @ body_enc cs' z ts @ rest" "length b"] show ?thesis
      by (simp add: tail_ok_def body_ok_def chunk_ok_def size_line_def body_enc_def)
  qed
  from l(1-3) show ?thesis
  proof (cases rule: buffered_line)
    case line
    let ?d = "d\<lparr>input := drop (length l + 2) (input d)\<rparr>"
    have take: "take (length l) (input d) = l"
      using line(2) by (metis append_eq_conv_conj)
    show ?thesis
      unfolding step_fine_def
      using st line l(4-6) take aw
      by (intro exI [of _ Progress] exI [of _ "if n = 0 then ?d\<lparr>dstate := DrainingTrailers\<rparr>
              else ?d\<lparr>received := received d + n, dstate := ReadingBody n\<rparr>"] exI [of _ "[]"] exI [of _ dat])
         (auto simp: step_def consume_line_def dec_awaits_def simp del: awaits.simps)
  next
    case partial
    then show ?thesis
      unfolding step_fine_def using st aw
      by (intro exI [of _ NeedMore] exI [of _ d] exI [of _ "[]"] exI [of _ dat])
         (simp add: step_def consume_line_def)
  qed
qed

lemma step_fineI:
  "\<lbrakk>step d = (Inr r, d'); dat = moved @ aft; body d' = body d @ moved; dec_awaits d' fut aft rest;
    body_cap d' = body_cap d; r = NeedMore \<Longrightarrow> d' = d \<and> fut \<noteq> []; r = Done \<Longrightarrow> dstate d' = DoneState\<rbrakk>
     \<Longrightarrow> step_fine d fut dat rest"
  unfolding step_fine_def by blast

lemma step_fine_trailers:
  assumes st: "dstate d = DrainingTrailers" and aw: "dec_awaits d fut dat rest"
  shows "step_fine d fut dat rest"
proof -
  obtain ts where t: "list_all trailer_ok ts" "list_all short ts" "input d @ fut = lines ts @ CRLF @ rest" "dat = []"
    using aw st by (auto simp: dec_awaits_def)
  obtain l aft where l: "line_ok l" "short l" "input d @ fut = l @ CRLF @ aft"
      "awaits (if l = [] then DoneState else DrainingTrailers) (body_cap d - received d) aft [] rest"
  proof (cases ts)
    case Nil
    have "line_ok []" "short []"
      by (simp_all add: line_ok_def starts_with_def short_def MAX_CHUNK_LINE_def MAX_HEAD_BYTES_def)
    with Nil t that [of "[]" rest] show ?thesis
      by simp
  next
    case (Cons l ts')
    with t that [of l "lines ts' @ CRLF @ rest"] show ?thesis
      by (auto simp: trailer_ok_def)
  qed
  from l(1-3) show ?thesis
  proof (cases rule: buffered_line)
    case line
    let ?d = "d\<lparr>input := drop (length l + 2) (input d), dstate := (if l = [] then DoneState else DrainingTrailers)\<rparr>"
    have take: "take (length l) (input d) = l"
      using line(2) by (metis append_eq_conv_conj)
    have s: "step d = (Inr (if l = [] then Done else Progress), ?d)"
      using st line take by (simp add: step_def consume_line_def)
    show ?thesis
      by (rule step_fineI [OF s, where moved = "[]" and aft = "[]"])
         (use line(3) l(4) t(4) in \<open>auto simp: dec_awaits_def split: if_splits\<close>)
  next
    case partial
    then have "step d = (Inr NeedMore, d)"
      using st by (simp add: step_def consume_line_def)
    then show ?thesis
      using aw partial by (intro step_fineI [where moved = "[]" and aft = dat]) auto
  qed
qed

lemma step_fine_body:
  assumes st: "dstate d = ReadingBody m" and aw: "dec_awaits d fut dat rest"
  shows "step_fine d fut dat rest"
proof -
  obtain b cs z ts where t: "length b = m" "tail_ok (body_cap d - received d) cs z ts"
      "input d @ fut = b @ CRLF @ body_enc cs z ts @ rest" "dat = b @ chunks_data cs"
    using aw st by (auto simp: dec_awaits_def)
  consider "m = 0" | "m \<noteq> 0" "input d = []" | "m \<noteq> 0" "input d \<noteq> []"
    by blast
  then show ?thesis
  proof cases
    case 1
    then have s: "step d = (Inr Progress, d\<lparr>dstate := WaitingForCrlfAfterBody\<rparr>)"
      using st by (simp add: step_def line_too_long_def)
    show ?thesis
      by (rule step_fineI [OF s, where moved = "[]" and aft = dat])
         (use t 1 in \<open>auto simp: dec_awaits_def\<close>)
  next
    case 2
    then have "step d = (Inr NeedMore, d)" "fut \<noteq> []"
      using st t by (auto simp: step_def line_too_long_def)
    then show ?thesis
      using aw by (intro step_fineI [where moved = "[]" and aft = dat]) auto
  next
    case 3
    define n where "n = min m (length (input d))"
    let ?d = "d\<lparr>body := body d @ take n (input d), input := drop n (input d),
                dstate := (if m - n = 0 then WaitingForCrlfAfterBody else ReadingBody (m - n))\<rparr>"
    have s: "step d = (Inr Progress, ?d)"
      using 3 st by (simp add: step_def line_too_long_def Let_def n_def)
    have "take n (input d) = take n (input d @ fut)" "drop n (input d @ fut) = drop n (input d) @ fut"
      by (simp_all add: n_def)
    then have tk: "take n (input d) = take n b"
      and dr: "drop n (input d) @ fut = drop n b @ CRLF @ body_enc cs z ts @ rest"
      using t(1,3) by (simp_all add: n_def)
    have "awaits (if m - n = 0 then WaitingForCrlfAfterBody else ReadingBody (m - n)) (body_cap d - received d)
        (drop n (input d) @ fut) (drop n b @ chunks_data cs) rest"
    proof (cases "m - n = 0")
      case True
      with t(1) have "drop n b = []"
        by simp
      with True t(2) dr show ?thesis
        by auto
    next
      case False
      have "length (drop n b) = m - n"
        using t(1) by simp
      with False t(2) dr show ?thesis
        by (simp only: if_False awaits.simps) blast
    qed
    then have "dec_awaits ?d fut (drop n b @ chunks_data cs) rest"
      by (simp add: dec_awaits_def)
    then show ?thesis
      by (intro step_fineI [OF s, where moved = "take n b" and aft = "drop n b @ chunks_data cs"])
         (use t(4) tk in simp_all)
  qed
qed

lemma step_fine_crlf:
  assumes st: "dstate d = WaitingForCrlfAfterBody" and aw: "dec_awaits d fut dat rest"
  shows "step_fine d fut dat rest"
proof -
  obtain cs z ts where t: "tail_ok (body_cap d - received d) cs z ts"
      "input d @ fut = CRLF @ body_enc cs z ts @ rest" "dat = chunks_data cs"
    using aw st by (auto simp: dec_awaits_def)
  show ?thesis
  proof (cases "length (input d) < 2")
    case True
    then have "step d = (Inr NeedMore, d)" "fut \<noteq> []"
      using st t(2) by (auto simp: step_def line_too_long_def CHUNK_TERMINATOR_def)
    then show ?thesis
      using aw by (intro step_fineI [where moved = "[]" and aft = dat]) auto
  next
    case False
    have "take 2 (input d @ fut) = CRLF" "drop 2 (input d @ fut) = body_enc cs z ts @ rest"
      by (simp_all add: t(2))
    with False have tk: "take 2 (input d) = CRLF" and dr: "drop 2 (input d) @ fut = body_enc cs z ts @ rest"
      by simp_all
    have s: "step d = (Inr Progress, d\<lparr>input := drop 2 (input d), dstate := WaitingForSize\<rparr>)"
      using st False tk by (simp add: step_def line_too_long_def CHUNK_TERMINATOR_def numeral_2_eq_2)
    show ?thesis
      by (rule step_fineI [OF s, where moved = "[]" and aft = dat])
         (use t(1,3) dr in \<open>auto simp: dec_awaits_def\<close>)
  qed
qed

lemma step_fine_all: "dec_awaits d fut dat rest \<Longrightarrow> step_fine d fut dat rest"
proof (cases "dstate d")
  case DoneState
  assume aw: "dec_awaits d fut dat rest"
  have "step d = (Inr Done, d)"
    using DoneState by (simp add: step_def line_too_long_def)
  then show ?thesis
    using aw DoneState by (intro step_fineI [where moved = "[]" and aft = dat]) auto
qed (auto intro: step_fine_size step_fine_trailers step_fine_body step_fine_crlf)

lemma step_until_blocked_fine:
  "dec_awaits d fut dat rest \<Longrightarrow>
     \<exists>r d' moved aft. step_until_blocked d = (Inr r, d') \<and> dat = moved @ aft \<and> body d' = body d @ moved
       \<and> dec_awaits d' fut aft rest \<and> body_cap d' = body_cap d
       \<and> (r = NeedMore \<and> fut \<noteq> [] \<or> r = Done \<and> dstate d' = DoneState)"
proof (induction d arbitrary: dat rule: step_until_blocked.induct)
  case (1 d)
  obtain r d' moved aft where s: "step d = (Inr r, d')" "dat = moved @ aft" "body d' = body d @ moved"
      "dec_awaits d' fut aft rest" "body_cap d' = body_cap d"
      "r = NeedMore \<longrightarrow> d' = d \<and> fut \<noteq> []" "r = Done \<longrightarrow> dstate d' = DoneState"
    using step_fine_all [OF 1(2)] unfolding step_fine_def by blast
  show ?case
  proof (cases "r = Progress")
    case True
    from 1(1) [OF s(1) [symmetric] refl True s(4)] obtain r1 d1 m1 a1 where
      "step_until_blocked d' = (Inr r1, d1)" "aft = m1 @ a1" "body d1 = body d' @ m1"
      "dec_awaits d1 fut a1 rest" "body_cap d1 = body_cap d'"
      "r1 = NeedMore \<and> fut \<noteq> [] \<or> r1 = Done \<and> dstate d1 = DoneState"
      by blast
    with s True show ?thesis
      by (intro exI [of _ r1] exI [of _ d1] exI [of _ "moved @ m1"] exI [of _ a1])
         (simp add: step_until_blocked.simps [of d])
  next
    case False
    then have "step_until_blocked d = (Inr r, d')"
      using s(1) by (cases r) (simp_all add: step_until_blocked.simps [of d])
    with s False show ?thesis
      by (cases r) auto
  qed
qed

text \<open>A caller's read loop: push a segment, run, and so on until there is no more input.\<close>

fun feed :: "chunked_decoder \<Rightarrow> u8 list list \<Rightarrow> chunked_step io_result \<times> chunked_decoder" where
  "feed d [] = step_until_blocked d"
| "feed d (xs # segs) =
     (case step_until_blocked (push xs d) of
        (Inl e, d') \<Rightarrow> (Inl e, d')
      | (Inr _, d') \<Rightarrow> feed d' segs)"

lemma feed_fine:
  "dec_awaits d (concat segs) dat rest \<Longrightarrow>
     \<exists>d'. feed d segs = (Inr Done, d') \<and> body d' = body d @ dat \<and> dstate d' = DoneState \<and> input d' = rest"
proof (induction segs arbitrary: d dat)
  case Nil
  then show ?case
    using step_until_blocked_fine [of d "[]" dat rest] by (auto simp: dec_awaits_def)
next
  case (Cons xs segs)
  have "dec_awaits (push xs d) (concat segs) dat rest"
    using Cons.prems by (simp add: dec_awaits_def push_def)
  from step_until_blocked_fine [OF this] obtain r d' moved aft where
    s: "step_until_blocked (push xs d) = (Inr r, d')" "dat = moved @ aft" "body d' = body (push xs d) @ moved"
      "dec_awaits d' (concat segs) aft rest"
    by blast
  from Cons.IH [OF s(4)] s(1-3) show ?case
    by (auto simp: push_def)
qed

subsection \<open>Properties\<close>

text \<open>
  C12. Soundness: however pushes, transitions and drains are interleaved, once the decoder reports the
  body complete the bytes it consumed are a body of the grammar of RFC 9112, the bytes it delivered are
  exactly the chunk data, and the bytes it did not consume are exactly what followed.
\<close>

theorem chunked_decoder_sound:
  assumes "dec_reach cap t out d" "is_done d"
  shows "\<exists>cs z ts. body_ok cs z ts \<and> t = body_enc cs z ts @ input d \<and> out @ body d = chunks_data cs"
  using dec_inv_reach [OF assms(1)] assms(2) by (auto simp: dec_inv_def is_done_def)

text \<open>The body \<open>3;x abc 0\<close> with a byte after it, pushed in two parts.\<close>

definition sample_chunks :: "chunk list" where
  "sample_chunks = [(bs ''3;x'', bs ''abc'')]"

definition sample_body :: "u8 list" where
  "sample_body = bs ''3;x'' @ CRLF @ bs ''abc'' @ CRLF @ bs ''0'' @ CRLF @ CRLF"

lemma sample_tail_ok: "tail_ok 3 sample_chunks (bs ''0'') []" and sample_enc: "body_enc sample_chunks (bs ''0'') [] = sample_body"
proof -
  have lossy: "from_utf8_lossy [51, 59, 120] = [51, 59, 120]" "from_utf8_lossy [48] = [48]"
    by (rule from_utf8_lossy_ascii; simp)+
  have trim: "trim [51] = [51]" "trim [48] = [48]"
    by (simp_all add: trim_all_graphic graphic_def)
  have "size_line 3 (bs ''3;x'')" "size_line 0 (bs ''0'')"
    by (simp_all add: size_line_def lossy line_ok_def starts_with_def parse_chunk_size_line_def trim byte_simps Let_def
        from_str_radix_def digit_value_def)
  then show "tail_ok 3 sample_chunks (bs ''0'') []"
    by (simp add: tail_ok_def body_ok_def sample_chunks_def chunk_ok_def short_def MAX_CHUNK_LINE_def
        MAX_HEAD_BYTES_def bs_def numeral_3_eq_3)
  show "body_enc sample_chunks (bs ''0'') [] = sample_body"
    by (simp add: body_enc_def sample_chunks_def sample_body_def)
qed

text \<open>
  C18. Completeness: a body of the grammar with lines below the line cap and data within the body cap is
  decoded without error in every segmentation, delivers exactly its data, and leaves exactly the bytes
  that follow it.
\<close>

theorem chunked_decoder_complete:
  assumes "tail_ok cap cs z ts" "concat segs = body_enc cs z ts @ rest"
  shows "\<exists>d. feed (decoder_new cap) segs = (Inr Done, d) \<and> is_done d
           \<and> into_body d = chunks_data cs \<and> input d = rest"
proof -
  have "dec_awaits (decoder_new cap) (concat segs) (chunks_data cs) rest"
    using assms by (auto simp: dec_awaits_def decoder_new_def)
  from feed_fine [OF this] show ?thesis
    by (auto simp: decoder_new_def is_done_def into_body_def)
qed

text \<open>
  C38. On any input, well formed or not, the bytes delivered and the bytes announced by chunk-size lines
  never exceed the cap, so the 64-bit counter cannot overflow either.
\<close>

theorem chunked_decoder_cap:
  assumes "dec_reach cap t out d"
  shows "length out + length (body d) \<le> received d \<and> received d \<le> cap"
  using dec_inv_reach [OF assms] by (auto simp: dec_inv_def)

lemma step_until_blocked_reach:
  "step_until_blocked d = (Inr r, d') \<Longrightarrow> dec_reach cap t out d \<Longrightarrow> dec_reach cap t out d'"
proof (induction d rule: step_until_blocked.induct)
  case (1 d)
  obtain r1 d1 where s: "step d = (Inr r1, d1)" "r1 = Progress \<and> step_until_blocked d1 = (Inr r, d') \<or> r1 = r \<and> d1 = d'"
    using 1(2) by (auto simp: step_until_blocked.simps [of d] split: prod.splits sum.splits chunked_step.splits)
  have r1: "dec_reach cap t out d1"
    by (rule dec_reach.stepped [OF 1(3) s(1)])
  show ?case
    using s(2)
  proof
    assume "r1 = Progress \<and> step_until_blocked d1 = (Inr r, d')"
    with 1(1) [OF s(1) [symmetric] refl _ _ r1] show ?thesis by blast
  qed (use r1 in simp)
qed

lemma sample_reach:
  "\<exists>d. dec_reach 3 (sample_body @ [9]) [] d \<and> is_done d \<and> into_body d = bs ''abc'' \<and> input d = [9]"
proof -
  let ?d = "push (sample_body @ [9]) (decoder_new 3)"
  have "dec_awaits ?d [] (chunks_data sample_chunks) [9]"
    using sample_tail_ok sample_enc [symmetric]
    by (simp add: dec_awaits_def push_def decoder_new_def) blast
  from step_until_blocked_fine [OF this] obtain r d' aft moved where
    s: "step_until_blocked ?d = (Inr r, d')" "chunks_data sample_chunks = moved @ aft" "body d' = body ?d @ moved"
      "dec_awaits d' [] aft [9]" "dstate d' = DoneState"
    by auto
  have "dec_reach 3 ([] @ (sample_body @ [9])) [] d'"
    by (rule step_until_blocked_reach [OF s(1)], rule dec_reach.pushed, rule dec_reach.start)
  then show ?thesis
    using s(2-5) by (auto simp: dec_awaits_def is_done_def into_body_def push_def decoder_new_def
        sample_chunks_def)
qed

theorem chunked_decoder_sound_witness:
  "\<exists>d. dec_reach 3 (sample_body @ [9]) [] d \<and> is_done d
     \<and> (\<exists>cs z ts. body_ok cs z ts \<and> sample_body @ [9] = body_enc cs z ts @ [9] \<and> bs ''abc'' = chunks_data cs)"
  using sample_reach chunked_decoder_sound [of 3 "sample_body @ [9]" "[]"]
  by (fastforce simp: into_body_def)

theorem chunked_decoder_complete_witness:
  "\<exists>d. feed (decoder_new 3) [take 5 sample_body, drop 5 sample_body @ [9]] = (Inr Done, d) \<and> is_done d
     \<and> into_body d = bs ''abc'' \<and> input d = [9]"
  using chunked_decoder_complete [OF sample_tail_ok, of "[take 5 sample_body, drop 5 sample_body @ [9]]" "[9]"]
  by (simp add: sample_enc) (simp add: sample_chunks_def)

theorem chunked_decoder_cap_witness:
  "\<exists>d. dec_reach 3 (sample_body @ [9]) [] d \<and> length [] + length (body d) \<le> received d \<and> received d \<le> 3"
  using sample_reach chunked_decoder_cap [of 3 "sample_body @ [9]" "[]"] by (metis list.size(3))

end
