(* ===== verification/Http1_Client.thy ===== *)
theory Http1_Client
  imports Byte_Stream Chunked
begin

text \<open>
  One HTTP/1.1 exchange on a connection,
  \<^verbatim>\<open>crates/zp-kernel-bundle/src/kernel/transport/http1.rs\<close>: sending the request, reading the
  response head past interim responses, choosing the framing, and the pull-driven body reader that owns
  the connection until the body is complete. A connection is a \<^typ>\<open>stream\<close>; the shared cell into
  which a clean connection is deposited is the field \<open>completed\<close> of the reader. The
  \<^verbatim>\<open>httparse\<close> crate is a parameter.

  The main result is that a connection is deposited for reuse only when exactly the bytes of the
  response body have been consumed, so the next response on it starts at the right byte.
\<close>

subsection \<open>Definitions\<close>

definition invalid :: "string \<Rightarrow> io_error" where
  "invalid message = IoError InvalidData [Lit ''http1: '', Lit message]"

definition truncated :: io_error where
  "truncated = IoError UnexpectedEof [Lit ''http1: truncated response'']"

record http_response =
  resp_status :: u16
  resp_reason :: str
  resp_headers :: "header list"
  resp_body :: "u8 list"
  null_body :: bool

datatype framing = Fixed nat | ChunkedBody chunked_decoder | Eof

record body_reader =
  conn :: "stream option"
  framing :: framing
  rinput :: "u8 list"
  completed :: "stream option"
  keepalive :: bool

definition finish :: "body_reader \<Rightarrow> body_reader" where
  "finish r = (if keepalive r then r\<lparr>completed := conn r, conn := None\<rparr> else r\<lparr>conn := None\<rparr>)"

text \<open>
  The part of a turn of the read loop before the connection is read: a result, or the reader to go on
  with.
\<close>

definition next_ready :: "body_reader \<Rightarrow> ((u8 list option) io_result \<times> body_reader) + body_reader" where
  "next_ready r =
     (case framing r of
        Fixed remaining \<Rightarrow>
          if length (rinput r) > remaining then Inl (Inl (invalid ''bytes beyond Content-Length''), r)
          else if rinput r \<noteq> [] then
            Inl (Inr (Some (rinput r)), r\<lparr>framing := Fixed (remaining - length (rinput r)), rinput := []\<rparr>)
          else if remaining = 0 then Inl (Inr None, finish r)
          else Inr r
      | ChunkedBody decoder \<Rightarrow>
          (case step_until_blocked (push (rinput r) decoder) of
             (Inl e, d) \<Rightarrow> Inl (Inl e, r\<lparr>framing := ChunkedBody d, rinput := []\<rparr>)
           | (Inr _, d) \<Rightarrow>
               if is_done d \<and> has_remaining_input d then
                 Inl (Inl (invalid ''bytes beyond chunked terminator''), r\<lparr>framing := ChunkedBody d, rinput := []\<rparr>)
               else
                 let (chunk, d) = take_body d;
                     r = r\<lparr>framing := ChunkedBody d, rinput := []\<rparr>
                 in if chunk \<noteq> [] then Inl (Inr (Some chunk), r)
                    else if is_done d then Inl (Inr None, finish r)
                    else Inr r)
      | Eof \<Rightarrow>
          if rinput r \<noteq> [] then Inl (Inr (Some (rinput r)), r\<lparr>rinput := []\<rparr>) else Inr r)"

definition read_limit :: "framing \<Rightarrow> nat" where
  "read_limit f = (case f of Fixed n \<Rightarrow> min n 8192 | _ \<Rightarrow> 8192)"

definition weight :: "stream option \<Rightarrow> nat" where
  "weight c = (case c of None \<Rightarrow> 0 | Some s \<Rightarrow> sum_list (map (\<lambda>x. Suc (length (rd_bytes x))) (rx s)))"

lemma read_weight: "read n s = (Inr xs, s') \<Longrightarrow> xs \<noteq> [] \<Longrightarrow> weight (Some s') < weight (Some s)"
  by (auto simp: read_def weight_def split: list.splits rd.splits if_splits)

lemma next_ready_conn: "next_ready r = Inr r' \<Longrightarrow> conn r' = conn r"
  by (auto simp: next_ready_def take_body_def Let_def split: framing.splits if_splits prod.splits sum.splits)

function next_chunk :: "body_reader \<Rightarrow> ((u8 list option) io_result \<times> body_reader) outcome" where
  "next_chunk r =
     (case next_ready r of
        Inl res \<Rightarrow> Return res
      | Inr r' \<Rightarrow>
          (case conn r' of
             None \<Rightarrow> Panic
           | Some c \<Rightarrow>
               (case read (read_limit (framing r')) c of
                  (Inl e, c') \<Rightarrow> Return (Inl e, r'\<lparr>conn := Some c'\<rparr>)
                | (Inr xs, c') \<Rightarrow>
                    if xs = [] then
                      if framing r' = Eof then Return (Inr None, finish (r'\<lparr>conn := Some c'\<rparr>))
                      else Return (Inl truncated, r'\<lparr>conn := Some c'\<rparr>)
                    else next_chunk (r'\<lparr>conn := Some c', rinput := rinput r' @ xs\<rparr>))))"
  by pat_completeness auto
termination
proof (relation "measure (\<lambda>r. weight (conn r))")
  fix r r' c res c' xs
  assume "next_ready r = Inr r'" "conn r' = Some c" "(res, c') = read (read_limit (framing r')) c" "res = Inr xs" "xs \<noteq> []"
  then show "(r'\<lparr>conn := Some c', rinput := rinput r' @ xs\<rparr>, r) \<in> measure (\<lambda>r. weight (conn r))"
    using read_weight [of "read_limit (framing r')" c xs c'] next_ready_conn [of r r'] by simp
qed simp

declare next_chunk.simps [simp del]

text \<open>The consumer of the body: pull until the end. \<^const>\<open>None\<close> stands for not ending.\<close>

partial_function (option) drain :: "u8 list \<Rightarrow> body_reader \<Rightarrow> (u8 list io_result \<times> body_reader) outcome option" where
  "drain acc r =
     (case next_chunk r of
        Panic \<Rightarrow> Some Panic
      | Return (Inl e, r') \<Rightarrow> Some (Return (Inl e, r'))
      | Return (Inr None, r') \<Rightarrow> Some (Return (Inr acc, r'))
      | Return (Inr (Some chunk), r') \<Rightarrow> drain (acc @ chunk) r')"

definition USIZE_MAX :: nat where
  "USIZE_MAX = 2 ^ 32 - 1"

definition has_token :: "header list \<Rightarrow> string \<Rightarrow> string \<Rightarrow> bool" where
  "has_token hs name token \<longleftrightarrow>
     list_ex (\<lambda>(k, v). eq_ignore_ascii_case k (bs name)
       \<and> list_ex (\<lambda>t. eq_ignore_ascii_case (trim t) (bs token)) (split_on 44 v)) hs"

definition transfer_codings :: "header list \<Rightarrow> str list" where
  "transfer_codings hs =
     concat (map (\<lambda>(_, v). map trim (split_on 44 v))
       (filter (\<lambda>(k, _). eq_ignore_ascii_case k (bs ''transfer-encoding'')) hs))"

definition choose_framing :: "bool \<Rightarrow> header list \<Rightarrow> framing io_result" where
  "choose_framing nb hs =
     (let transfer = transfer_codings hs in
      if \<not> nb \<and> transfer \<noteq> []
         \<and> (length transfer \<noteq> 1 \<or> \<not> eq_ignore_ascii_case (hd transfer) (bs ''chunked''))
      then Inl (invalid ''unsupported Transfer-Encoding'')
      else if nb then Inr (Fixed 0)
      else if transfer \<noteq> [] then Inr (ChunkedBody (decoder_new USIZE_MAX))
      else case header_content_length hs of
             Inl e \<Rightarrow> Inl e
           | Inr (Some n) \<Rightarrow> Inr (Fixed n)
           | Inr None \<Rightarrow> Inr Eof)"

definition reusable :: "framing \<Rightarrow> bool \<Rightarrow> bool \<Rightarrow> response_head \<Rightarrow> header list \<Rightarrow> bool" where
  "reusable f nb http11 head req_headers \<longleftrightarrow>
     f \<noteq> Eof
     \<and> response_keepalive (if nb then 204 else status head) (headers head)
     \<and> \<not> has_token req_headers ''connection'' ''close''
     \<and> (http11 \<or> has_token (headers head) ''connection'' ''keep-alive'')"

text \<open>The head loop; it may not end when the parser reports a head of no bytes.\<close>

partial_function (option) read_head_loop ::
    "(u8 list \<Rightarrow> nat \<Rightarrow> string + parsed_response) \<Rightarrow> u8 list \<Rightarrow> stream
      \<Rightarrow> ((response_head \<times> bool \<times> u8 list) io_result \<times> stream) option" where
  "read_head_loop httparse inp c =
     (case find_crlf2 inp of
        Some e \<Rightarrow>
          if e > MAX_HEAD_BYTES then Some (Inl (invalid ''response head exceeded limit''), c)
          else (case parse_response_head httparse inp of
                  Inl err \<Rightarrow> Some (Inl err, c)
                | Inr head \<Rightarrow>
                    if 100 \<le> status head \<and> status head < 200 \<and> status head \<noteq> 101
                    then read_head_loop httparse (drop (head_len head) inp) c
                    else Some (Inr (head, starts_with (bs ''HTTP/1.1 '') inp, drop (head_len head) inp), c))
      | None \<Rightarrow>
          if length inp > MAX_HEAD_BYTES then Some (Inl (invalid ''response head exceeded limit''), c)
          else (case read 4096 c of
                  (Inl err, c') \<Rightarrow> Some (Inl err, c')
                | (Inr xs, c') \<Rightarrow>
                    if xs = [] then Some (Inl truncated, c')
                    else read_head_loop httparse (inp @ xs) c'))"

text \<open>
  The request and everything up to the body; what the body reader delivers is then decoded and handed
  to the page by \<^verbatim>\<open>finish_response\<close>.
\<close>

definition send_request ::
    "(u8 list \<Rightarrow> nat \<Rightarrow> string + parsed_response) \<Rightarrow> str \<Rightarrow> str \<Rightarrow> str \<Rightarrow> header list \<Rightarrow> u8 list \<Rightarrow> stream
      \<Rightarrow> (response_head \<times> bool \<times> body_reader) io_result option" where
  "send_request httparse method host_header path hs request_body c0 =
     (case build_request_head method host_header path hs (length request_body) of
        Inl e \<Rightarrow> Some (Inl e)
      | Inr head \<Rightarrow>
          (case then_io (write_all head) (then_io (write_all request_body) flush) c0 of
             (Inl e, _) \<Rightarrow> Some (Inl e)
           | (Inr _, c) \<Rightarrow>
               (case read_head_loop httparse [] c of
                  None \<Rightarrow> None
                | Some (Inl e, _) \<Rightarrow> Some (Inl e)
                | Some (Inr (head, http11, inp), c) \<Rightarrow>
                    if status head = 101 then Some (Inl (invalid ''unexpected protocol upgrade''))
                    else
                      let nb = (eq_ignore_ascii_case method (bs ''HEAD'') \<or> no_body_status (status head))
                      in case choose_framing nb (headers head) of
                           Inl e \<Rightarrow> Some (Inl e)
                         | Inr f \<Rightarrow>
                             Some (Inr (head, nb,
                               \<lparr>conn = Some c, framing = f, rinput = inp, completed = None,
                                keepalive = reusable f nb http11 head hs\<rparr>)))))"

subsection \<open>The body reader\<close>

text \<open>The bytes a framing prescribes for a body.\<close>

fun framed :: "framing \<Rightarrow> u8 list \<Rightarrow> u8 list \<Rightarrow> bool" where
  "framed (Fixed n) w b \<longleftrightarrow> w = b \<and> length b = n"
| "framed (ChunkedBody _) w b \<longleftrightarrow> (\<exists>cs z ts. body_ok cs z ts \<and> w = body_enc cs z ts \<and> b = chunks_data cs)"
| "framed Eof w b \<longleftrightarrow> w = b"

text \<open>A reader after \<open>d\<close> has been delivered, begun with framing \<open>f\<close> on the bytes \<open>w\<close>.\<close>

definition reader_inv :: "bool \<Rightarrow> framing \<Rightarrow> u8 list \<Rightarrow> u8 list \<Rightarrow> body_reader \<Rightarrow> bool" where
  "reader_inv keep f w d r \<longleftrightarrow>
     (\<exists>c. conn r = Some c \<and> completed r = None \<and> keepalive r = keep \<and>
        (case framing r of
           Fixed m \<Rightarrow> f = Fixed (length d + m) \<and> w = d @ rinput r @ incoming c
         | ChunkedBody dec \<Rightarrow>
             (\<exists>dec0 t. f = ChunkedBody dec0 \<and> w = t @ rinput r @ incoming c \<and> dec_reach USIZE_MAX t d dec)
         | Eof \<Rightarrow> f = Eof \<and> w = d @ rinput r @ incoming c \<and> \<not> keep))"

definition reader_done :: "bool \<Rightarrow> framing \<Rightarrow> u8 list \<Rightarrow> u8 list \<Rightarrow> body_reader \<Rightarrow> bool" where
  "reader_done keep f w d r' \<longleftrightarrow>
     conn r' = None \<and> (\<exists>v c. completed r' = (if keep then Some c else None)
       \<and> w = v @ incoming c \<and> framed f v d)"

text \<open>What a turn of the loop and a whole pull leave behind.\<close>

definition ready_post ::
    "bool \<Rightarrow> framing \<Rightarrow> u8 list \<Rightarrow> u8 list \<Rightarrow> ((u8 list option) io_result \<times> body_reader) + body_reader \<Rightarrow> bool" where
  "ready_post keep f w d res \<longleftrightarrow>
     (case res of
        Inl (Inl _, r') \<Rightarrow> completed r' = None
      | Inl (Inr None, r') \<Rightarrow> reader_done keep f w d r'
      | Inl (Inr (Some xs), r') \<Rightarrow> xs \<noteq> [] \<and> reader_inv keep f w (d @ xs) r'
      | Inr r' \<Rightarrow> reader_inv keep f w d r')"

lemma read_incoming: "read n s = (Inr xs, s') \<Longrightarrow> incoming s = xs @ incoming s'"
  by (auto simp: read_def incoming_def split: list.splits rd.splits)

lemma next_ready_Fixed:
  assumes "reader_inv keep f w d r" "framing r = Fixed m"
  shows "ready_post keep f w d (next_ready r)"
  using assms by (auto simp: ready_post_def next_ready_def reader_inv_def reader_done_def finish_def)

lemma next_ready_Eof:
  assumes "reader_inv keep f w d r" "framing r = Eof"
  shows "ready_post keep f w d (next_ready r)"
  using assms by (auto simp: ready_post_def next_ready_def reader_inv_def)

lemma dec_reach_done:
  assumes "dec_reach cap t out d" "is_done d" "input d = []" "body d = []"
  shows "\<exists>cs z ts. body_ok cs z ts \<and> t = body_enc cs z ts \<and> out = chunks_data cs"
  using dec_inv_reach [OF assms(1)] assms(2-) by (auto simp: dec_inv_def is_done_def)

lemma next_ready_Chunked:
  assumes "reader_inv keep f w d r" "framing r = ChunkedBody dec"
  shows "ready_post keep f w d (next_ready r)"
proof -
  obtain c dec0 t where r: "conn r = Some c" "completed r = None \<and> keepalive r = keep" "f = ChunkedBody dec0"
      "w = t @ rinput r @ incoming c" "dec_reach USIZE_MAX t d dec"
    using assms by (auto simp: reader_inv_def)
  obtain res dec1 where run: "step_until_blocked (push (rinput r) dec) = (res, dec1)"
    by fastforce
  show ?thesis
  proof (cases res)
    case (Inl e)
    with run assms(2) r show ?thesis
      by (simp add: ready_post_def next_ready_def)
  next
    case (Inr x)
    let ?dec2 = "dec1\<lparr>body := []\<rparr>"
    have "dec_reach USIZE_MAX (t @ rinput r) d dec1"
      using step_until_blocked_reach run Inr dec_reach.pushed [OF r(5)] by blast
    from dec_reach.taken [OF this, of "body dec1" ?dec2]
    have reach: "dec_reach USIZE_MAX (t @ rinput r) (d @ body dec1) ?dec2"
      by (simp add: take_body_def)
    have fin: "\<exists>cs z ts. body_ok cs z ts \<and> t @ rinput r = body_enc cs z ts \<and> d = chunks_data cs"
      if "body dec1 = []" "is_done dec1" "\<not> has_remaining_input dec1"
      using dec_reach_done [OF reach] that by (simp add: is_done_def has_remaining_input_def)
    show ?thesis
    proof (cases "is_done dec1 \<and> has_remaining_input dec1")
      case True
      with run Inr assms(2) r show ?thesis by (simp add: ready_post_def next_ready_def)
    next
      case no_rest: False
      show ?thesis
      proof (cases "body dec1 = []")
        case False
        with run Inr assms(2) r reach no_rest show ?thesis
          by (auto simp: ready_post_def next_ready_def reader_inv_def take_body_def)
      next
        case True
        then have reach': "dec_reach USIZE_MAX (t @ rinput r) d ?dec2"
          using reach by simp
        show ?thesis
        proof (cases "is_done dec1")
          case fin_d: True
          obtain cs z ts where "body_ok cs z ts" "t @ rinput r = body_enc cs z ts" "d = chunks_data cs"
            using fin True fin_d no_rest by blast
          then show ?thesis
            using run Inr assms(2) r True no_rest fin_d
            by (auto simp: ready_post_def next_ready_def take_body_def is_done_def reader_done_def finish_def Let_def simp flip: append_assoc)
        next
          case False
          with run Inr assms(2) r True reach' show ?thesis
            by (auto simp: ready_post_def next_ready_def take_body_def is_done_def reader_inv_def)
        qed
      qed
    qed
  qed
qed

lemma next_ready_inv:
  assumes "reader_inv keep f w d r"
  shows "ready_post keep f w d (next_ready r)"
  using assms
  by (cases "framing r") (rule next_ready_Fixed next_ready_Chunked next_ready_Eof; assumption)+

lemma reader_inv_more:
  assumes "reader_inv keep f w d r" "conn r = Some c" "read n c = (Inr xs, c')"
  shows "reader_inv keep f w d (r\<lparr>conn := Some c', rinput := rinput r @ xs\<rparr>)"
  using assms(1,2) read_incoming [OF assms(3)]
  by (auto simp: reader_inv_def split: framing.splits)

lemma next_chunk_inv:
  "reader_inv keep f w d r \<Longrightarrow>
     \<exists>res. next_chunk r = Return res \<and> ready_post keep f w d (Inl res)"
proof (induction r rule: next_chunk.induct)
  case (1 r)
  note ready = next_ready_inv [OF 1(2)]
  show ?case
  proof (cases "next_ready r")
    case (Inl res)
    with ready show ?thesis
      by (simp add: next_chunk.simps [of r])
  next
    case r': (Inr r')
    then have inv: "reader_inv keep f w d r'"
      using ready by (auto simp: ready_post_def)
    then obtain c where c: "conn r' = Some c" "completed r' = None \<and> keepalive r' = keep"
      by (auto simp: reader_inv_def)
    obtain res c' where rd: "read (read_limit (framing r')) c = (res, c')"
      by fastforce
    show ?thesis
    proof (cases res)
      case (Inl e)
      with r' c rd show ?thesis
        by (simp add: next_chunk.simps [of r] ready_post_def)
    next
      case res: (Inr xs)
      show ?thesis
      proof (cases "xs = []")
        case True
        have "w = d @ incoming c' \<and> \<not> keep \<and> f = Eof" if "framing r' = Eof"
        proof -
          have "rinput r' = []"
            using r' that by (auto simp: next_ready_def take_body_def Let_def
                split: framing.splits if_splits prod.splits sum.splits)
          then show ?thesis
            using inv c that read_incoming [of "read_limit (framing r')" c xs c'] rd res True
            by (auto simp: reader_inv_def)
        qed
        with r' c rd res True show ?thesis
          by (auto simp: next_chunk.simps [of r] ready_post_def reader_done_def finish_def)
      next
        case False
        have "next_chunk r = next_chunk (r'\<lparr>conn := Some c', rinput := rinput r' @ xs\<rparr>)"
          using r' c rd res False by (simp add: next_chunk.simps [of r])
        moreover have "reader_inv keep f w d (r'\<lparr>conn := Some c', rinput := rinput r' @ xs\<rparr>)"
          using reader_inv_more [OF inv c(1)] rd res by simp
        ultimately show ?thesis
          using 1(1) [OF r' c(1) rd [symmetric] res False]
          by simp
      qed
    qed
  qed
qed

subsection \<open>Draining ends\<close>

definition load :: "body_reader \<Rightarrow> nat" where
  "load r = weight (conn r) + length (rinput r)
     + (case framing r of ChunkedBody d \<Rightarrow> length (input d) + length (body d) | _ \<Rightarrow> 0)"

lemma read_load: "read n s = (Inr xs, s') \<Longrightarrow> weight (Some s') + length xs \<le> weight (Some s)"
  by (auto simp: read_def weight_def split: list.splits rd.splits if_splits)

lemma step_load: "step d = (res, d') \<Longrightarrow> length (input d') + length (body d') \<le> length (input d) + length (body d)"
  by (auto simp: step_def Let_def min_def dest!: consume_line_Some
      split: if_splits chunked_state.splits option.splits sum.splits)

lemma step_until_blocked_load:
  "step_until_blocked d = (res, d') \<Longrightarrow>
     length (input d') + length (body d') \<le> length (input d) + length (body d)"
proof (induction d rule: step_until_blocked.induct)
  case (1 d)
  obtain r1 d1 where s: "step d = (r1, d1)"
    by fastforce
  show ?case
  proof (cases "r1 = Inr Progress")
    case True
    then show ?thesis
      using 1 s step_load [OF s] by (fastforce simp: step_until_blocked.simps [of d])
  next
    case False
    then have "d' = d1"
      using 1(2) s by (auto simp: step_until_blocked.simps [of d] split: sum.splits chunked_step.splits)
    then show ?thesis
      using step_load [OF s] by simp
  qed
qed

lemma next_ready_load:
  "case next_ready r of
     Inr r' \<Rightarrow> load r' \<le> load r
   | Inl (Inr (Some xs), r') \<Rightarrow> load r' < load r
   | _ \<Rightarrow> True"
proof (cases "framing r")
  case (ChunkedBody dec)
  obtain res d where "step_until_blocked (push (rinput r) dec) = (res, d)"
    by fastforce
  with step_until_blocked_load [OF this] ChunkedBody show ?thesis
    by (cases res; cases "body d") (simp_all add: next_ready_def load_def take_body_def Let_def push_def)
qed (simp_all add: next_ready_def load_def)

lemma next_chunk_load: "next_chunk r = Return (Inr (Some xs), r') \<Longrightarrow> load r' < load r"
proof (induction r rule: next_chunk.induct)
  case (1 r)
  show ?case
  proof (cases "next_ready r")
    case (Inl a)
    then show ?thesis
      using 1(2) next_ready_load [of r] by (simp add: next_chunk.simps [of r])
  next
    case r1: (Inr r1)
    then obtain c c' ys where c: "conn r1 = Some c" "read (read_limit (framing r1)) c = (Inr ys, c')" "ys \<noteq> []"
        "next_chunk (r1\<lparr>conn := Some c', rinput := rinput r1 @ ys\<rparr>) = Return (Inr (Some xs), r')"
      using 1(2) by (auto simp: next_chunk.simps [of r] split: option.splits prod.splits sum.splits if_splits)
    have "load r' < load (r1\<lparr>conn := Some c', rinput := rinput r1 @ ys\<rparr>)"
      using 1(1) [OF r1 c(1) c(2) [symmetric] refl c(3,4)] .
    also have "\<dots> \<le> load r1"
      using read_load [OF c(2)] c(1) by (simp add: load_def)
    finally show ?thesis
      using next_ready_load [of r] r1 by simp
  qed
qed

lemma drain_sound:
  "reader_inv keep f w d r \<Longrightarrow>
     \<exists>res r'. drain d r = Some (Return (res, r'))
       \<and> (case res of Inl _ \<Rightarrow> completed r' = None | Inr b \<Rightarrow> reader_done keep f w b r')"
proof (induction "load r" arbitrary: d r rule: less_induct)
  case less
  from next_chunk_inv [OF less.prems] obtain res r' where
    n: "next_chunk r = Return (res, r')" "ready_post keep f w d (Inl (res, r'))"
    by auto
  show ?case
  proof (cases res)
    case (Inl e)
    with n show ?thesis
      by (simp add: drain.simps [of d r] ready_post_def)
  next
    case res: (Inr x)
    show ?thesis
    proof (cases x)
      case None
      with n res show ?thesis
        by (simp add: drain.simps [of d r] ready_post_def)
    next
      case (Some xs)
      with n res have "load r' < load r" "reader_inv keep f w (d @ xs) r'"
        using next_chunk_load [of r xs r'] by (simp_all add: ready_post_def)
      from less.hyps [OF this] show ?thesis
        using n Some res by (simp add: drain.simps [of d r])
    qed
  qed
qed

subsection \<open>A complete body is delivered\<close>

definition reader_awaits :: "u8 list \<Rightarrow> u8 list \<Rightarrow> body_reader \<Rightarrow> bool" where
  "reader_awaits b rest r \<longleftrightarrow>
     (\<exists>c. conn r = Some c \<and> flowing c \<and>
        (case framing r of
           Fixed m \<Rightarrow> length b = m \<and> length (rinput r) \<le> m \<and> rinput r @ incoming c = b @ rest
         | ChunkedBody dec \<Rightarrow> rest = [] \<and> dec_awaits dec (rinput r @ incoming c) b [] \<and> body dec = []
         | Eof \<Rightarrow> rest = [] \<and> rinput r @ incoming c = b))"

definition delivers :: "u8 list \<Rightarrow> u8 list \<Rightarrow> (u8 list option) io_result \<times> body_reader \<Rightarrow> bool" where
  "delivers b rest res \<longleftrightarrow>
     (case res of
        (Inl _, _) \<Rightarrow> False
      | (Inr None, _) \<Rightarrow> b = []
      | (Inr (Some xs), r') \<Rightarrow> (\<exists>b'. b = xs @ b' \<and> reader_awaits b' rest r'))"

lemma next_ready_awaits:
  assumes "reader_awaits b rest r"
  shows "case next_ready r of
           Inl res \<Rightarrow> delivers b rest res
         | Inr r' \<Rightarrow> reader_awaits b rest r' \<and> rinput r' = [] \<and> (framing r' = Eof \<or> (\<exists>c. conn r' = Some c \<and> incoming c \<noteq> []))
             \<and> read_limit (framing r') > 0"
proof (cases "framing r")
  case (Fixed m)
  then obtain c where c: "conn r = Some c" "flowing c" "length b = m" "length (rinput r) \<le> m" "rinput r @ incoming c = b @ rest"
    using assms by (auto simp: reader_awaits_def)
  then obtain b' where b': "b = rinput r @ b'" "incoming c = b' @ rest"
    by (auto simp: append_eq_append_conv2)
  have ready: "next_ready r =
      (if rinput r \<noteq> [] then Inl (Inr (Some (rinput r)), r\<lparr>framing := Fixed (m - length (rinput r)), rinput := []\<rparr>)
       else if m = 0 then Inl (Inr None, finish r) else Inr r)"
    using Fixed c(4) by (simp add: next_ready_def)
  show ?thesis
  proof (cases "rinput r = []")
    case True
    with Fixed c(1-3) b' assms show ?thesis
      unfolding ready by (auto simp: delivers_def read_limit_def)
  next
    case False
    with c(1-3) b' show ?thesis
      unfolding ready by (simp add: delivers_def reader_awaits_def)
  qed
next
  case (ChunkedBody dec)
  then obtain c where c: "conn r = Some c" "flowing c" "rest = []" "dec_awaits dec (rinput r @ incoming c) b []" "body dec = []"
    using assms by (auto simp: reader_awaits_def)
  then have "dec_awaits (push (rinput r) dec) (incoming c) b []"
    by (simp add: dec_awaits_def push_def)
  from step_until_blocked_fine [OF this] obtain res d' moved aft where
    s: "step_until_blocked (push (rinput r) dec) = (Inr res, d')" "b = moved @ aft" "body d' = moved"
      "dec_awaits d' (incoming c) aft []" "res = NeedMore \<and> incoming c \<noteq> [] \<or> dstate d' = DoneState"
    using c(5) by (auto simp: push_def simp del: awaits.simps)
  from s(4) have "dec_awaits (d'\<lparr>body := []\<rparr>) (incoming c) aft []"
    by (simp add: dec_awaits_def)
  moreover have "dstate d' = DoneState \<Longrightarrow> input d' = [] \<and> aft = []"
    using s(4) by (simp add: dec_awaits_def)
  ultimately have aft: "dec_awaits (d'\<lparr>body := []\<rparr>) (incoming c) aft []"
      "dstate d' = DoneState \<Longrightarrow> input d' = [] \<and> aft = []"
    by blast+
  have ready: "next_ready r =
      (let q = r\<lparr>framing := ChunkedBody (d'\<lparr>body := []\<rparr>), rinput := []\<rparr>
       in if moved \<noteq> [] then Inl (Inr (Some moved), q)
          else if dstate d' = DoneState then Inl (Inr None, finish q) else Inr q)"
    using s(1,3) ChunkedBody aft(2)
    by (cases "dstate d' = DoneState")
       (simp_all add: next_ready_def take_body_def is_done_def has_remaining_input_def Let_def)
  show ?thesis
  proof (cases "moved = []")
    case True
    with s aft c show ?thesis
      unfolding ready Let_def by (auto simp: delivers_def reader_awaits_def read_limit_def)
  next
    case False
    with s aft c show ?thesis
      unfolding ready Let_def by (simp add: delivers_def reader_awaits_def)
  qed
next
  case Eof
  with assms show ?thesis
    by (auto simp: next_ready_def delivers_def reader_awaits_def read_limit_def)
qed

lemma next_chunk_awaits:
  "reader_awaits b rest r \<Longrightarrow> \<exists>res. next_chunk r = Return res \<and> delivers b rest res"
proof (induction r rule: next_chunk.induct)
  case (1 r)
  note ready = next_ready_awaits [OF 1(2)]
  show ?case
  proof (cases "next_ready r")
    case (Inl res)
    with ready show ?thesis
      by (simp add: next_chunk.simps [of r])
  next
    case r': (Inr r')
    with ready have inv: "reader_awaits b rest r'" "rinput r' = []" "read_limit (framing r') > 0"
        "framing r' = Eof \<or> (\<exists>c. conn r' = Some c \<and> incoming c \<noteq> [])"
      by auto
    then obtain c where c: "conn r' = Some c" "flowing c"
      by (auto simp: reader_awaits_def)
    obtain xs q where rd: "read (read_limit (framing r')) c = (Inr xs, c\<lparr>rx := q\<rparr>)" "flowing (c\<lparr>rx := q\<rparr>)"
       "incoming c = xs @ incoming (c\<lparr>rx := q\<rparr>)" "length xs \<le> read_limit (framing r')" "xs = [] \<longleftrightarrow> rx c = []"
      using read_flowing [OF c(2) inv(3)] by blast
    show ?thesis
    proof (cases "xs = []")
      case True
      then have "incoming c = []"
        using rd(5) by (simp add: incoming_def)
      with True r' rd(1) c inv show ?thesis
        by (auto simp: next_chunk.simps [of r] delivers_def reader_awaits_def)
    next
      case False
      let ?r = "r'\<lparr>conn := Some (c\<lparr>rx := q\<rparr>), rinput := rinput r' @ xs\<rparr>"
      have "reader_awaits b rest ?r"
        using inv c rd by (auto simp: reader_awaits_def read_limit_def split: framing.splits)
      with 1(1) [OF r' c(1) rd(1) [symmetric] refl False] show ?thesis
        using r' c rd(1) False by (simp add: next_chunk.simps [of r])
    qed
  qed
qed

lemma drain_complete:
  "reader_awaits b rest r \<Longrightarrow> \<exists>r'. drain acc r = Some (Return (Inr (acc @ b), r'))"
proof (induction "load r" arbitrary: b acc r rule: less_induct)
  case less
  from next_chunk_awaits [OF less.prems] obtain res r' where
    n: "next_chunk r = Return (res, r')" "delivers b rest (res, r')"
    by auto
  then consider "res = Inr None" "b = []" | xs b' where "res = Inr (Some xs)" "b = xs @ b'" "reader_awaits b' rest r'"
    by (auto simp: delivers_def split: sum.splits option.splits)
  then show ?case
  proof cases
    case 2
    then show ?thesis
      using less.hyps [of r' b' "acc @ xs"] n next_chunk_load [of r xs r']
      by (simp add: drain.simps [of acc r])
  qed (use n in \<open>simp add: drain.simps [of acc r]\<close>)
qed

subsection \<open>The response head\<close>

text \<open>A complete head has at least one byte and lies in the buffer.\<close>

definition parser_progress :: "(u8 list \<Rightarrow> nat \<Rightarrow> string + parsed_response) \<Rightarrow> bool" where
  "parser_progress httparse \<longleftrightarrow>
     (\<forall>inp m resp n. httparse inp m = Inr resp \<longrightarrow> parse_status resp = Complete n \<longrightarrow> 0 < n \<and> n \<le> length inp)"

lemma parse_response_head_progress:
  "parser_progress httparse \<Longrightarrow> parse_response_head httparse inp = Inr head \<Longrightarrow>
     0 < head_len head \<and> head_len head \<le> length inp"
  by (fastforce simp: parser_progress_def parse_response_head_def
      split: sum.splits option.splits parse_status.splits)

lemma read_tx: "read n s = (res, s') \<Longrightarrow> tx s' = tx s"
  by (auto simp: read_def split: list.splits rd.splits)

definition head_post :: "u8 list \<Rightarrow> stream \<Rightarrow> (response_head \<times> bool \<times> u8 list) io_result \<times> stream \<Rightarrow> bool" where
  "head_post inp c res \<longleftrightarrow>
     (case res of (Inl _, _) \<Rightarrow> True
      | (Inr (head, _, rest), c') \<Rightarrow>
          tx c' = tx c \<and> (\<exists>heads. inp @ incoming c = heads @ rest @ incoming c')
          \<and> \<not> (100 \<le> status head \<and> status head < 200 \<and> status head \<noteq> 101))"

lemma head_post_later:
  assumes "head_post inp' c' res" "tx c' = tx c" "inp @ incoming c = a @ inp' @ incoming c'"
  shows "head_post inp c res"
proof -
  have "\<exists>heads. inp @ incoming c = heads @ rest @ incoming c1" if "inp' @ incoming c' = heads @ rest @ incoming c1" for heads rest c1
    using assms(3) that by (intro exI [of _ "a @ heads"]) simp
  then show ?thesis
    using assms(1,2) by (fastforce simp: head_post_def split: prod.splits sum.splits)
qed

lemma read_head_loop_post:
  assumes "parser_progress httparse"
  shows "\<exists>res. read_head_loop httparse inp c = Some res \<and> head_post inp c res"
proof (induction "2 * weight (Some c) + length inp" arbitrary: inp c rule: less_induct)
  case less
  show ?case
  proof (cases "find_crlf2 inp")
    case (Some e)
    show ?thesis
    proof (cases "parse_response_head httparse inp")
      case (Inr head)
      note n = parse_response_head_progress [OF assms Inr]
      show ?thesis
      proof (cases "100 \<le> status head \<and> status head < 200 \<and> status head \<noteq> 101")
        case True
        obtain res where "read_head_loop httparse (drop (head_len head) inp) c = Some res"
            "head_post (drop (head_len head) inp) c res"
          using less [of c "drop (head_len head) inp"] n by fastforce
        then show ?thesis
          using Some Inr True head_post_later [of "drop (head_len head) inp" c res c inp "take (head_len head) inp"]
          by (auto simp: read_head_loop.simps [of httparse inp c] head_post_def)
      next
        case False
        have "\<exists>heads. inp @ incoming c = heads @ drop (head_len head) inp @ incoming c"
          by (metis append_assoc append_take_drop_id)
        with False Some Inr show ?thesis
          by (auto simp: read_head_loop.simps [of httparse inp c] head_post_def)
      qed
    qed (use Some in \<open>simp add: read_head_loop.simps [of httparse inp c] head_post_def\<close>)
  next
    case None
    obtain r c' where rd: "read 4096 c = (r, c')"
      by fastforce
    show ?thesis
    proof (cases "\<exists>xs. r = Inr xs \<and> xs \<noteq> [] \<and> length inp \<le> MAX_HEAD_BYTES")
      case True
      then obtain xs where xs: "r = Inr xs" "xs \<noteq> []" "length inp \<le> MAX_HEAD_BYTES"
        by blast
      then have "2 * weight (Some c') + length (inp @ xs) < 2 * weight (Some c) + length inp"
        using read_load [of 4096 c xs c'] rd by (cases xs) auto
      from less [OF this] obtain res where res: "read_head_loop httparse (inp @ xs) c' = Some res" "head_post (inp @ xs) c' res"
        by blast
      have "head_post inp c res"
        using head_post_later [OF res(2) read_tx [OF rd], of inp "[]"] read_incoming [of 4096 c xs c'] rd xs(1) by simp
      with res(1) None rd xs show ?thesis
        by (simp add: read_head_loop.simps [of httparse inp c])
    next
      case False
      then show ?thesis
        using None rd by (auto simp: read_head_loop.simps [of httparse inp c] head_post_def split: sum.splits)
    qed
  qed
qed

lemma choose_framing_start:
  assumes "choose_framing nb hs = Inr f"
  shows "reader_inv (reusable f nb h11 head req) f (inp @ incoming c) []
     \<lparr>conn = Some c, framing = f, rinput = inp, completed = None, keepalive = reusable f nb h11 head req\<rparr>"
  using assms dec_reach.start
  by (auto simp: choose_framing_def reader_inv_def reusable_def Let_def split: if_splits sum.splits option.splits)

lemma write_all_Inr: "write_all xs s = (Inr u, s') \<Longrightarrow> tx s' = tx s @ xs \<and> incoming s' = incoming s"
  by (auto simp: write_all_def split: list.splits option.splits)

lemma flush_Inr: "flush s = (Inr u, s') \<Longrightarrow> tx s' = tx s \<and> incoming s' = incoming s"
  by (auto simp: flush_def split: list.splits option.splits)

lemma write_request:
  assumes "then_io (write_all a) (then_io (write_all b) flush) c0 = (Inr u, c)"
  shows "tx c = tx c0 @ a @ b \<and> incoming c = incoming c0"
  using assms
  by (auto simp: io_simps dest!: write_all_Inr flush_Inr split: prod.splits sum.splits)

lemma send_request_post:
  assumes "parser_progress httparse"
  shows "\<exists>res. send_request httparse m host path hs b c0 = Some res \<and>
    (\<forall>head nb r. res = Inr (head, nb, r) \<longrightarrow>
      (\<exists>sent heads c. build_request_head m host path hs (length b) = Inr sent \<and> conn r = Some c
         \<and> tx c = tx c0 @ sent @ b \<and> incoming c0 = heads @ rinput r @ incoming c
         \<and> \<not> (100 \<le> status head \<and> status head < 200)
         \<and> choose_framing nb (headers head) = Inr (framing r)
         \<and> reader_inv (keepalive r) (framing r) (rinput r @ incoming c) [] r))"
proof (cases "build_request_head m host path hs (length b)")
  case (Inl e)
  then show ?thesis by (simp add: send_request_def)
next
  case sent: (Inr sent)
  obtain w c where w: "then_io (write_all sent) (then_io (write_all b) flush) c0 = (w, c)"
    by fastforce
  obtain res c' where loop: "read_head_loop httparse [] c = Some (res, c')" "head_post [] c (res, c')"
    using read_head_loop_post [OF assms, of "[]" c] by auto
  show ?thesis
  proof (cases w)
    case (Inl e)
    with sent w show ?thesis by (simp add: send_request_def)
  next
    case ok: (Inr u)
    note tx = write_request [OF w [unfolded ok]]
    show ?thesis
    proof (cases res)
      case (Inl e)
      with sent w ok loop show ?thesis by (simp add: send_request_def)
    next
      case (Inr t)
      obtain head h11 rest where t: "t = (head, h11, rest)"
        by (cases t)
      have post: "\<exists>heads. incoming c0 = heads @ rest @ incoming c'" "tx c' = tx c0 @ sent @ b"
          "\<not> (100 \<le> status head \<and> status head < 200 \<and> status head \<noteq> 101)"
        using loop(2) tx Inr t by (auto simp: head_post_def)
      let ?nb = "eq_ignore_ascii_case m (bs ''HEAD'') \<or> no_body_status (status head)"
      show ?thesis
      proof (cases "choose_framing ?nb (headers head)")
        case (Inl e)
        with sent w ok loop(1) Inr t show ?thesis
          by (simp add: send_request_def)
      next
        case f: (Inr f)
        note start = choose_framing_start [OF f, of h11 head hs rest c']
        show ?thesis
        proof (cases "status head = 101")
          case True
          with sent w ok loop(1) Inr t show ?thesis
            by (simp add: send_request_def)
        next
          case False
          with sent w ok loop(1) Inr t f post start show ?thesis
            by (auto simp: send_request_def Let_def)
        qed
      qed
    qed
  qed
qed

text \<open>
  The response head at the front of the bytes \<open>w\<close>, past any interim responses, and the bytes after it.
  The parser sees what has been received so far: the head \<open>h\<close> and some \<open>seen\<close> bytes after it.
\<close>

abbreviation interim :: "u16 \<Rightarrow> bool" where
  "interim st \<equiv> 100 \<le> st \<and> st < 200 \<and> st \<noteq> 101"

inductive response_head_on ::
    "(u8 list \<Rightarrow> nat \<Rightarrow> string + parsed_response) \<Rightarrow> u8 list \<Rightarrow> response_head \<Rightarrow> bool \<Rightarrow> u8 list \<Rightarrow> bool" for httparse where
  final: "parse_response_head httparse (h @ seen) = Inr head \<Longrightarrow> length h = head_len head \<Longrightarrow> \<not> interim (status head)
    \<Longrightarrow> response_head_on httparse (h @ seen @ later) head (starts_with (bs ''HTTP/1.1 '') (h @ seen)) (seen @ later)"
| skipped: "parse_response_head httparse (h @ seen) = Inr before \<Longrightarrow> length h = head_len before \<Longrightarrow> interim (status before)
    \<Longrightarrow> response_head_on httparse (seen @ later) head http11 rest
    \<Longrightarrow> response_head_on httparse (h @ seen @ later) head http11 rest"

lemma read_head_loop_on:
  assumes "parser_progress httparse" "read_head_loop httparse inp c = Some (Inr (head, http11, rest), c')"
  shows "response_head_on httparse (inp @ incoming c) head http11 (rest @ incoming c')"
  using assms(2)
proof (induction "2 * weight (Some c) + length inp" arbitrary: inp c rule: less_induct)
  case less
  show ?case
  proof (cases "find_crlf2 inp")
    case (Some e)
    then obtain hp where p: "parse_response_head httparse inp = Inr hp"
      using less(2) by (auto simp: read_head_loop.simps [of httparse inp c] split: if_splits sum.splits)
    note n = parse_response_head_progress [OF assms(1) p]
    let ?h = "take (head_len hp) inp" and ?s = "drop (head_len hp) inp"
    have h: "parse_response_head httparse (?h @ ?s) = Inr hp" "length ?h = head_len hp"
      using p n by simp_all
    show ?thesis
    proof (cases "interim (status hp)")
      case True
      then have "read_head_loop httparse ?s c = Some (Inr (head, http11, rest), c')"
        using less(2) Some p by (auto simp: read_head_loop.simps [of httparse inp c] split: if_splits)
      moreover have "2 * weight (Some c) + length ?s < 2 * weight (Some c) + length inp"
        using n by (cases "length inp") auto
      ultimately have "response_head_on httparse (?s @ incoming c) head http11 (rest @ incoming c')"
        using less(1) [of c ?s] by blast
      from response_head_on.skipped [OF h True this] show ?thesis
        by (simp flip: append_assoc)
    next
      case False
      then have "head = hp" "http11 = starts_with (bs ''HTTP/1.1 '') inp" "rest = ?s" "c' = c"
        using less(2) Some p by (auto simp: read_head_loop.simps [of httparse inp c] split: if_splits)
      with response_head_on.final [OF h False, of "incoming c"] show ?thesis
        by (simp flip: append_assoc)
    qed
  next
    case None
    obtain r c1 where rd: "read 4096 c = (r, c1)"
      by fastforce
    with less(2) None obtain xs where xs: "r = Inr xs" "xs \<noteq> []"
        "read_head_loop httparse (inp @ xs) c1 = Some (Inr (head, http11, rest), c')"
      by (auto simp: read_head_loop.simps [of httparse inp c] split: if_splits sum.splits)
    then have "2 * weight (Some c1) + length (inp @ xs) < 2 * weight (Some c) + length inp"
      using read_load [of 4096 c xs c1] rd by (cases xs) auto
    from less(1) [OF this xs(3)] show ?thesis
      using read_incoming [of 4096 c xs c1] rd xs(1) by simp
  qed
qed

lemma send_request_head:
  assumes "parser_progress httparse" "send_request httparse m hh pth hs b c0 = Some (Inr (head, nb, r))"
  shows "\<exists>http11 c. conn r = Some c \<and> response_head_on httparse (incoming c0) head http11 (rinput r @ incoming c)
    \<and> nb = (eq_ignore_ascii_case m (bs ''HEAD'') \<or> no_body_status (status head))
    \<and> keepalive r = reusable (framing r) nb http11 head hs \<and> completed r = None"
proof -
  obtain sent where sent: "build_request_head m hh pth hs (length b) = Inr sent"
    using assms(2) by (auto simp: send_request_def split: sum.splits)
  obtain w c where w: "then_io (write_all sent) (then_io (write_all b) flush) c0 = (w, c)"
    by fastforce
  with assms(2) sent obtain u where u: "w = Inr u"
    by (cases w) (auto simp: send_request_def)
  with assms(2) sent w obtain out c' where l: "read_head_loop httparse [] c = Some (out, c')"
    by (auto simp: send_request_def split: option.splits)
  with assms(2) sent w u obtain hp http11 inp where out: "out = Inr (hp, http11, inp)"
    by (cases out) (auto simp: send_request_def)
  let ?nb = "eq_ignore_ascii_case m (bs ''HEAD'') \<or> no_body_status (status hp)"
  from assms(2) sent w u l out obtain f where "choose_framing ?nb (headers hp) = Inr f" "status hp \<noteq> 101"
    by (cases "choose_framing ?nb (headers hp)") (auto simp: send_request_def Let_def split: if_splits)
  with assms(2) sent w u l out have r: "head = hp" "nb = ?nb" 
      "r = \<lparr>conn = Some c', framing = f, rinput = inp, completed = None, keepalive = reusable f nb http11 hp hs\<rparr>"
    by (auto simp: send_request_def Let_def)
  with read_head_loop_on [OF assms(1) l [unfolded out]] write_request [OF w [unfolded u]] show ?thesis
    by auto
qed

text \<open>Reading writes nothing: the connection keeps the bytes \<open>t\<close> sent on it.\<close>

definition carries :: "u8 list \<Rightarrow> body_reader \<Rightarrow> bool" where
  "carries t r \<longleftrightarrow> (\<forall>c. conn r = Some c \<or> completed r = Some c \<longrightarrow> tx c = t)"

lemma next_ready_sent:
  "carries t r \<Longrightarrow> (case next_ready r of Inl (_, r') \<Rightarrow> carries t r' | Inr r' \<Rightarrow> carries t r')"
  by (auto simp: next_ready_def carries_def finish_def take_body_def Let_def split: framing.splits sum.splits prod.splits)

lemma next_chunk_sent:
  "carries t r \<Longrightarrow> next_chunk r = Return (res, r') \<Longrightarrow> carries t r'"
proof (induction r rule: next_chunk.induct)
  case (1 r)
  note ready = next_ready_sent [OF 1(2)]
  show ?case
  proof (cases "next_ready r")
    case (Inl out)
    with ready 1(3) show ?thesis
      by (simp add: next_chunk.simps [of r])
  next
    case r1: (Inr r1)
    with 1(3) obtain c where c: "conn r1 = Some c"
      by (auto simp: next_chunk.simps [of r] split: option.splits)
    obtain out c' where rd: "read (read_limit (framing r1)) c = (out, c')"
      by fastforce
    have s: "carries t (r1\<lparr>conn := Some c'\<rparr>)" "carries t (r1\<lparr>conn := Some c', rinput := i\<rparr>)" for i
      using ready r1 c read_tx [OF rd] by (auto simp: carries_def)
    show ?thesis
    proof (cases "\<exists>xs. out = Inr xs \<and> xs \<noteq> []")
      case True
      then obtain xs where xs: "out = Inr xs" "xs \<noteq> []"
        by blast
      with 1(3) r1 c rd have "next_chunk (r1\<lparr>conn := Some c', rinput := rinput r1 @ xs\<rparr>) = Return (res, r')"
        by (simp add: next_chunk.simps [of r])
      from 1(1) [OF r1 c rd [symmetric] xs s(2) this] show ?thesis .
    next
      case False
      with 1(3) r1 c rd s(1) show ?thesis
        by (auto simp: next_chunk.simps [of r] carries_def finish_def split: sum.splits if_splits)
    qed
  qed
qed

subsection \<open>Properties\<close>

text \<open>
  C6. An exchange that gets as far as a response head has sent exactly the request head and the request
  body, and then: pulling the body ends, without a panic, in an error or in exactly the content that the
  chosen framing prescribes; and the connection is kept for reuse only when all bytes of the response
  and none after them have been consumed, never after an error.
\<close>

theorem http1_exchange_sound:
  assumes "parser_progress httparse" "send_request httparse m host path hs b c0 = Some (Inr (head, nb, r))"
  shows "\<exists>sent heads c out r'. build_request_head m host path hs (length b) = Inr sent
         \<and> conn r = Some c \<and> tx c = tx c0 @ sent @ b
         \<and> choose_framing nb (headers head) = Inr (framing r)
         \<and> drain [] r = Some (Return (out, r'))
         \<and> (case out of
              Inl _ \<Rightarrow> completed r' = None
            | Inr content \<Rightarrow> conn r' = None \<and>
                (\<exists>wire c'. framed (framing r) wire content
                   \<and> completed r' = (if keepalive r then Some c' else None)
                   \<and> incoming c0 = heads @ wire @ incoming c'))"
proof -
  from send_request_post [OF assms(1), of m host path hs b c0] assms(2) obtain sent heads c where
      r: "build_request_head m host path hs (length b) = Inr sent" "conn r = Some c"
        "tx c = tx c0 @ sent @ b" "incoming c0 = heads @ rinput r @ incoming c"
        "choose_framing nb (headers head) = Inr (framing r)"
        "reader_inv (keepalive r) (framing r) (rinput r @ incoming c) [] r"
    by auto
  from drain_sound [OF r(6)] obtain out r' where "drain [] r = Some (Return (out, r'))"
      "case out of Inl _ \<Rightarrow> completed r' = None
       | Inr d \<Rightarrow> reader_done (keepalive r) (framing r) (rinput r @ incoming c) d r'"
    by blast
  with r(1-5) show ?thesis
    by (cases out) (fastforce simp: reader_done_def)+
qed

text \<open>
  The exchange always ends: no sequence of interim responses, however the bytes arrive, keeps the
  head loop running.
\<close>

theorem http1_head_returns:
  assumes "parser_progress httparse"
  shows "\<exists>res. send_request httparse m host path hs b c0 = Some res"
  using send_request_post [OF assms] by blast

text \<open>
  C22. A body that the framing prescribes is delivered whole, however the transport segments it: after a
  Content-Length any bytes may follow it, a chunked body has to be the last thing received.
\<close>

theorem http1_body_complete:
  assumes "conn r = Some c" "flowing c" "rinput r @ incoming c = wire @ rest"
    and "case framing r of
           Fixed n \<Rightarrow> length (rinput r) \<le> n \<and> wire = content \<and> length content = n
         | ChunkedBody dec \<Rightarrow> dec = decoder_new USIZE_MAX \<and> rest = []
             \<and> (\<exists>cs z ts. tail_ok USIZE_MAX cs z ts \<and> wire = body_enc cs z ts \<and> content = chunks_data cs)
         | Eof \<Rightarrow> rest = [] \<and> wire = content"
  shows "\<exists>r'. drain [] r = Some (Return (Inr content, r'))"
proof -
  have "reader_awaits content rest r"
    using assms by (auto simp: reader_awaits_def dec_awaits_def decoder_new_def split: framing.splits)
  from drain_complete [OF this, of "[]"] show ?thesis by simp
qed

text \<open>A response of three bytes, and a parser that knows it.\<close>

definition sample_head :: "u8 list" where
  "sample_head = bs ''HTTP/1.1 200 '' @ CRLF @ CRLF"

definition sample_httparse :: "u8 list \<Rightarrow> nat \<Rightarrow> string + parsed_response" where
  "sample_httparse inp m =
     (if starts_with sample_head inp
      then Inr \<lparr>parse_status = Complete (length sample_head), code = Some 200, reason_phrase = None,
                raw_headers = [(bs ''Transfer-Encoding'', bs ''chunked'')]\<rparr>
      else Inl ''Token'')"

definition sample_server :: stream where
  "sample_server = \<lparr>rx = [Data (sample_head @ take 4 sample_body), Data (drop 4 sample_body)], tx = [], wr = []\<rparr>"

lemma sample_parser: "parser_progress sample_httparse"
  by (auto simp: parser_progress_def sample_httparse_def sample_head_def dest: starts_with_length)

lemma sample_request: "\<exists>sent. build_request_head (bs ''GET'') (bs ''a'') (bs ''/'') [] 0 = Inr sent"
  by (simp add: build_request_head_def is_token_def token_byte_def byte_simps Let_def)

lemma sample_response:
  "parse_response_head sample_httparse (sample_head @ xs)
   = Inr \<lparr>status = 200, reason = [], headers = [(bs ''Transfer-Encoding'', bs ''chunked'')], head_len = length sample_head\<rparr>"
  by (simp add: parse_response_head_def sample_httparse_def from_utf8_def from_utf8_lossy_ascii byte_simps)

lemma sample_end: "find_crlf2 (sample_head @ xs) = Some (length sample_head)"
  by (simp add: find_crlf2_def sample_head_def starts_with_def byte_simps)

lemma sample_framing:
  "choose_framing False [(bs ''Transfer-Encoding'', bs ''chunked'')] = Inr (ChunkedBody (decoder_new USIZE_MAX))"
proof -
  have "trim [99, 104, 117, 110, 107, 101, 100] = [99, 104, 117, 110, 107, 101, 100]"
    by (simp add: trim_all_graphic graphic_def)
  then show ?thesis
    by (simp add: choose_framing_def transfer_codings_def byte_simps)
qed

lemma sample_send:
  "\<exists>head r. send_request sample_httparse (bs ''GET'') (bs ''a'') (bs ''/'') [] [] sample_server = Some (Inr (head, False, r))
     \<and> framing r = ChunkedBody (decoder_new USIZE_MAX) \<and> rinput r = take 4 sample_body
     \<and> conn r = Some \<lparr>rx = [Data (drop 4 sample_body)], tx = tx (the (conn r)), wr = []\<rparr>"
proof -
  obtain sent where sent: "build_request_head (bs ''GET'') (bs ''a'') (bs ''/'') [] 0 = Inr sent"
    using sample_request by blast
  let ?c = "\<lparr>rx = [Data (drop 4 sample_body)], tx = sent, wr = []\<rparr>"
  have len: "length sample_head = 17" "length (take 4 sample_body) \<le> 4"
    by (simp_all add: sample_head_def byte_simps)
  have "find_crlf2 [] = None"
    by (simp add: find_crlf2_def)
  then have "read_head_loop sample_httparse [] (sample_server\<lparr>tx := sent\<rparr>)
      = read_head_loop sample_httparse (sample_head @ take 4 sample_body) ?c"
    using len by (auto simp: read_head_loop.simps [of _ "[]"] sample_server_def read_def)
  moreover have "read_head_loop sample_httparse (sample_head @ take 4 sample_body) ?c
      = Some (Inr (\<lparr>status = 200, reason = [], headers = [(bs ''Transfer-Encoding'', bs ''chunked'')], head_len = length sample_head\<rparr>,
          True, take 4 sample_body), ?c)"
    using len by (simp add: read_head_loop.simps [of _ "sample_head @ take 4 sample_body"] sample_end sample_response MAX_HEAD_BYTES_def)
       (simp add: sample_head_def starts_with_def byte_simps)
  moreover have "then_io (write_all sent) (then_io (write_all []) flush) sample_server = (Inr (), sample_server\<lparr>tx := sent\<rparr>)"
    by (simp add: io_simps write_all_def flush_def sample_server_def)
  ultimately show ?thesis
    using sent sample_framing by (simp add: send_request_def no_body_status_def byte_simps)
qed

theorem http1_exchange_sound_witness:
  "\<exists>head r sent heads c out r'.
     send_request sample_httparse (bs ''GET'') (bs ''a'') (bs ''/'') [] [] sample_server = Some (Inr (head, False, r))
     \<and> build_request_head (bs ''GET'') (bs ''a'') (bs ''/'') [] (length ([] :: u8 list)) = Inr sent
         \<and> conn r = Some c \<and> tx c = tx sample_server @ sent @ []
         \<and> choose_framing False (headers head) = Inr (framing r)
         \<and> drain [] r = Some (Return (out, r'))
         \<and> (case out of
              Inl _ \<Rightarrow> completed r' = None
            | Inr content \<Rightarrow> conn r' = None \<and>
                (\<exists>wire c'. framed (framing r) wire content
                   \<and> completed r' = (if keepalive r then Some c' else None)
                   \<and> incoming sample_server = heads @ wire @ incoming c'))"
proof -
  obtain head r where "send_request sample_httparse (bs ''GET'') (bs ''a'') (bs ''/'') [] [] sample_server = Some (Inr (head, False, r))"
    using sample_send by blast
  from this http1_exchange_sound [OF sample_parser this] show ?thesis
    by blast
qed

theorem http1_head_returns_witness:
  "\<exists>res. send_request sample_httparse (bs ''GET'') (bs ''a'') (bs ''/'') [] [] sample_server = Some res"
  by (rule http1_head_returns [OF sample_parser])

theorem http1_body_complete_witness:
  "\<exists>r'. drain [] \<lparr>conn = Some \<lparr>rx = [Data (drop 4 sample_body)], tx = [], wr = []\<rparr>,
           framing = ChunkedBody (decoder_new USIZE_MAX), rinput = take 4 sample_body,
           completed = None, keepalive = True\<rparr> = Some (Return (Inr (bs ''abc''), r'))"
proof -
  have "tail_ok USIZE_MAX sample_chunks (bs ''0'') []"
    using sample_tail_ok by (simp add: tail_ok_def USIZE_MAX_def)
  moreover have "chunks_data sample_chunks = bs ''abc''"
    by (simp add: sample_chunks_def)
  moreover have "flowing \<lparr>rx = [Data (drop 4 sample_body)], tx = [], wr = []\<rparr>"
    by (simp add: flowing_def sample_body_def byte_simps)
  ultimately show ?thesis
    by (intro http1_body_complete [where wire = sample_body and rest = "[]" and c = "\<lparr>rx = [Data (drop 4 sample_body)], tx = [], wr = []\<rparr>"])
       (simp_all add: incoming_def, metis sample_enc)
qed

end
