(* ===== verification/Conn_Pool.thy ===== *)
theory Conn_Pool
  imports Prelude "HOL-Library.AList" "HOL-Library.Multiset"
begin

text \<open>
  The idle-connection pool of \<^verbatim>\<open>crates/zp-kernel-bundle/src/kernel/transport/pool.rs\<close>: HTTP/1.1
  connections queued per key, and one HTTP/2 client per key. A hash map is an association list with
  distinct keys; which key \<^verbatim>\<open>keys().next()\<close> yields is unspecified, so the choice of the victim of an
  eviction is a parameter. The types of the connections and of the HTTP/2 clients are parameters too.
\<close>

subsection \<open>Definitions\<close>

record pool_key =
  key_scheme :: str
  key_host :: str
  key_port :: u16
  isolation_key :: str

datatype ('p, 't) pooled_conn = Plain 'p | Tls 't

text \<open>Every stream operation of a pooled connection is that of the variant inside.\<close>

fun conn_poll :: "('p \<Rightarrow> 'r \<times> 'p) \<Rightarrow> ('t \<Rightarrow> 'r \<times> 't) \<Rightarrow> ('p, 't) pooled_conn \<Rightarrow> 'r \<times> ('p, 't) pooled_conn" where
  "conn_poll plain tls (Plain s) = (case plain s of (r, s') \<Rightarrow> (r, Plain s'))"
| "conn_poll plain tls (Tls s) = (case tls s of (r, s') \<Rightarrow> (r, Tls s'))"

definition MAX_IDLE_PER_KEY :: nat where
  "MAX_IDLE_PER_KEY = 6"

definition MAX_POOL_KEYS :: nat where
  "MAX_POOL_KEYS = 64"

type_synonym 'c idle_pool = "(pool_key \<times> 'c list) list"
type_synonym 'h http2_pool = "(pool_key \<times> 'h) list"

record ('c, 'h) pools =
  idle :: "'c idle_pool"
  http2 :: "'h http2_pool"

definition pool_take :: "pool_key \<Rightarrow> 'c idle_pool \<Rightarrow> 'c option \<times> 'c idle_pool" where
  "pool_take key p =
     (case map_of p key of
        None \<Rightarrow> (None, p)
      | Some q \<Rightarrow>
          let c = (if q = [] then None else Some (last q));
              q' = butlast q
          in (c, if q' = [] then AList.delete key p else AList.update key q' p))"

definition victim :: "(pool_key list \<Rightarrow> nat) \<Rightarrow> pool_key list \<Rightarrow> pool_key" where
  "victim pick ks = ks ! (pick ks mod length ks)"

definition evict :: "(pool_key list \<Rightarrow> nat) \<Rightarrow> pool_key \<Rightarrow> (pool_key \<times> 'v) list \<Rightarrow> (pool_key \<times> 'v) list" where
  "evict pick key p =
     (if map_of p key = None \<and> length p \<ge> MAX_POOL_KEYS then AList.delete (victim pick (map fst p)) p else p)"

definition pool_put :: "(pool_key list \<Rightarrow> nat) \<Rightarrow> pool_key \<Rightarrow> 'c \<Rightarrow> 'c idle_pool \<Rightarrow> 'c idle_pool" where
  "pool_put pick key conn p =
     (let p = filter (\<lambda>(_, q). q \<noteq> []) p;
          p = evict pick key p;
          q = (case map_of p key of Some q \<Rightarrow> q | None \<Rightarrow> []);
          q = (if length q \<ge> MAX_IDLE_PER_KEY then tl q else q)
      in AList.update key (q @ [conn]) p)"

definition pool_clear :: "('c, 'h) pools \<Rightarrow> ('c, 'h) pools" where
  "pool_clear s = s\<lparr>idle := [], http2 := []\<rparr>"

definition is_alive :: "'h \<Rightarrow> bool" where
  "is_alive client = True"

definition get_http2 :: "pool_key \<Rightarrow> 'h http2_pool \<Rightarrow> 'h option \<times> 'h http2_pool" where
  "get_http2 key p =
     (case map_of p key of
        None \<Rightarrow> (None, p)
      | Some client \<Rightarrow> if is_alive client then (Some client, p) else (None, AList.delete key p))"

definition put_http2 :: "(pool_key list \<Rightarrow> nat) \<Rightarrow> pool_key \<Rightarrow> 'h \<Rightarrow> 'h http2_pool \<Rightarrow> 'h http2_pool" where
  "put_http2 pick key client p = AList.update key client (evict pick key p)"

definition remove_http2 :: "pool_key \<Rightarrow> 'h http2_pool \<Rightarrow> 'h http2_pool" where
  "remove_http2 key p = AList.delete key p"

subsection \<open>Invariant\<close>

definition idle_inv :: "'c idle_pool \<Rightarrow> bool" where
  "idle_inv p \<longleftrightarrow>
     distinct (map fst p) \<and> length p \<le> MAX_POOL_KEYS
     \<and> (\<forall>(_, q) \<in> set p. q \<noteq> [] \<and> length q \<le> MAX_IDLE_PER_KEY)"

definition http2_inv :: "'h http2_pool \<Rightarrow> bool" where
  "http2_inv p \<longleftrightarrow> distinct (map fst p) \<and> length p \<le> MAX_POOL_KEYS"

text \<open>The queue of a key, empty when it has no bucket, and all parked connections with their keys.\<close>

definition queue :: "'c idle_pool \<Rightarrow> pool_key \<Rightarrow> 'c list" where
  "queue p k = (case map_of p k of Some q \<Rightarrow> q | None \<Rightarrow> [])"

lemma victim_in: "ks \<noteq> [] \<Longrightarrow> victim pick ks \<in> set ks"
  by (simp add: victim_def)

lemma length_delete:
  "distinct (map fst p) \<Longrightarrow> k \<in> set (map fst p) \<Longrightarrow> Suc (length (AList.delete k p)) = length p"
proof (induction p)
  case (Cons a p)
  show ?case
  proof (cases "fst a = k")
    case True
    then have "AList.delete k p = p"
      using Cons.prems by auto
    with True show ?thesis
      by (cases a) simp
  next
    case False
    with Cons show ?thesis
      by (cases a) auto
  qed
qed simp

lemma length_update: "length (AList.update k v p) = (if k \<in> set (map fst p) then length p else Suc (length p))"
  by (induction p) auto

lemma evict_length:
  assumes "distinct (map fst p)" "length p \<le> MAX_POOL_KEYS" "map_of p k = None"
  shows "length (evict pick k p) < MAX_POOL_KEYS"
proof (cases "length p \<ge> MAX_POOL_KEYS")
  case True
  then have "p \<noteq> []"
    by (auto simp: MAX_POOL_KEYS_def)
  then have "victim pick (map fst p) \<in> set (map fst p)"
    by (intro victim_in) simp
  with True assms show ?thesis
    using length_delete [of p "victim pick (map fst p)"] by (simp add: evict_def)
qed (use assms in \<open>simp add: evict_def\<close>)

lemma evict_distinct: "distinct (map fst p) \<Longrightarrow> distinct (map fst (evict pick k p))"
  by (simp add: evict_def distinct_delete)

lemma evict_subset: "set (evict pick k p) \<subseteq> set p"
  by (auto simp: evict_def AList.delete_eq)

lemma map_of_evict: "map_of (evict pick k p) k = map_of p k"
  by (simp add: evict_def delete_conv')

lemma map_of_filter_nonempty:
  "distinct (map fst p) \<Longrightarrow> map_of (filter (\<lambda>(_, q). q \<noteq> []) p) k =
     (case map_of p k of Some q \<Rightarrow> if q = [] then None else Some q | None \<Rightarrow> None)"
proof (induction p)
  case (Cons a p)
  obtain k' q where a: "a = (k', q)"
    by (cases a)
  have "map_of p k = None" if "k' = k"
    using Cons.prems that by (auto simp: a map_of_eq_None_iff)
  then show ?case
    using Cons by (auto simp: a split: option.splits)
qed simp

lemma filter_nonempty_id: "idle_inv p \<Longrightarrow> filter (\<lambda>(_, q). q \<noteq> []) p = p"
  by (auto simp: idle_inv_def filter_id_conv)

lemma idle_inv_update:
  assumes "distinct (map fst p)" "length p \<le> MAX_POOL_KEYS" "k \<notin> set (map fst p) \<Longrightarrow> length p < MAX_POOL_KEYS"
    and "\<forall>(_, q) \<in> set p. q \<noteq> [] \<and> length q \<le> MAX_IDLE_PER_KEY" "q \<noteq> []" "length q \<le> MAX_IDLE_PER_KEY"
  shows "idle_inv (AList.update k q p)"
proof -
  have "set (AList.update k q p) \<subseteq> insert (k, q) (set p)"
    by (induction p) auto
  with assms show ?thesis
    by (auto simp: idle_inv_def distinct_update length_update)
qed

lemma idle_inv_delete: "idle_inv p \<Longrightarrow> idle_inv (AList.delete k p)"
proof -
  assume "idle_inv p"
  moreover have "set (AList.delete k p) \<subseteq> set p"
    by (auto simp: AList.delete_eq)
  ultimately show ?thesis
    using length_delete_le [of k p] by (auto simp: idle_inv_def distinct_delete)
qed

lemma idle_inv_take: "idle_inv p \<Longrightarrow> idle_inv (snd (pool_take k p))"
proof (cases "map_of p k")
  case (Some q)
  assume inv: "idle_inv p"
  have "(k, q) \<in> set p"
    using Some by (rule map_of_SomeD)
  with inv have "length q \<le> MAX_IDLE_PER_KEY" "k \<in> set (map fst p)"
    by (auto simp: idle_inv_def intro: rev_image_eqI)
  then have "butlast q \<noteq> [] \<Longrightarrow> idle_inv (AList.update k (butlast q) p)"
    using inv by (intro idle_inv_update) (simp_all add: idle_inv_def)
  then show ?thesis
    using idle_inv_delete [OF inv] Some by (simp add: pool_take_def Let_def)
qed (simp add: pool_take_def)

lemma idle_inv_put:
  assumes "idle_inv p"
  shows "idle_inv (pool_put pick k c p)"
proof -
  let ?p = "evict pick k p"
  have inv: "distinct (map fst p)" "length p \<le> MAX_POOL_KEYS" "\<forall>(_, q) \<in> set p. q \<noteq> [] \<and> length q \<le> MAX_IDLE_PER_KEY"
    using assms by (auto simp: idle_inv_def)
  let ?q = "case map_of ?p k of Some q \<Rightarrow> q | None \<Rightarrow> []"
  have q: "length ?q \<le> MAX_IDLE_PER_KEY"
    using inv(3) map_of_evict [of pick k p] by (auto split: option.splits dest: map_of_SomeD)
  have "length (if length ?q \<ge> MAX_IDLE_PER_KEY then tl ?q else ?q) < MAX_IDLE_PER_KEY"
    using q by (auto simp: MAX_IDLE_PER_KEY_def)
  moreover have "length ?p \<le> MAX_POOL_KEYS"
    using inv(2) length_delete_le [of "victim pick (map fst p)" p] by (simp add: evict_def)
  moreover have "length ?p < MAX_POOL_KEYS" if "k \<notin> set (map fst ?p)"
    using evict_length [OF inv(1,2), of k pick] map_of_evict [of pick k p]
      map_of_eq_None_iff [of ?p k] that by simp
  ultimately have "idle_inv (AList.update k ((if length ?q \<ge> MAX_IDLE_PER_KEY then tl ?q else ?q) @ [c]) ?p)"
    using inv(3) evict_subset [of pick k p] evict_distinct [OF inv(1)] by (intro idle_inv_update) auto
  then show ?thesis
    by (simp add: pool_put_def Let_def filter_nonempty_id [OF assms])
qed

lemma queue_take:
  assumes "idle_inv p" "pool_take k p = (r, p')"
  shows "r = (if queue p k = [] then None else Some (last (queue p k)))"
    and "queue p' k = butlast (queue p k)"
    and "k' \<noteq> k \<Longrightarrow> queue p' k' = queue p k'"
  using assms(2)
  by (auto simp: pool_take_def queue_def Let_def delete_conv' update_conv' split: option.splits if_splits)

lemma queue_put:
  assumes "idle_inv p"
  shows "queue (pool_put pick k c p) k =
      (if length (queue p k) \<ge> MAX_IDLE_PER_KEY then tl (queue p k) else queue p k) @ [c]"
    and "k' \<noteq> k \<Longrightarrow> queue (pool_put pick k c p) k' = queue p k' \<or> queue (pool_put pick k c p) k' = []"
proof -
  note id = filter_nonempty_id [OF assms]
  show "queue (pool_put pick k c p) k =
      (if length (queue p k) \<ge> MAX_IDLE_PER_KEY then tl (queue p k) else queue p k) @ [c]"
    by (simp add: pool_put_def Let_def id queue_def update_conv' map_of_evict)
  assume "k' \<noteq> k"
  then show "queue (pool_put pick k c p) k' = queue p k' \<or> queue (pool_put pick k c p) k' = []"
    by (auto simp: pool_put_def Let_def id queue_def update_conv' evict_def delete_conv')
qed

subsection \<open>The contract of a keyed stack\<close>

text \<open>
  What the fetch path relies on: per key a bounded stack, the newest connection first, and keys that do
  not share connections. A sequence of operations records what each \<open>take\<close> handed out.
\<close>

datatype ('k, 'c) pool_op = Put 'k 'c | Take 'k

fun run_ops ::
    "('k \<Rightarrow> 'c \<Rightarrow> 's \<Rightarrow> 's) \<Rightarrow> ('k \<Rightarrow> 's \<Rightarrow> 'c option \<times> 's) \<Rightarrow> 's \<Rightarrow> ('k, 'c) pool_op list \<Rightarrow> ('k \<times> 'c) list \<times> 's" where
  "run_ops put tak s [] = ([], s)"
| "run_ops put tak s (Put k c # ops) = run_ops put tak (put k c s) ops"
| "run_ops put tak s (Take k # ops) =
     (case tak k s of (r, s') \<Rightarrow>
      case run_ops put tak s' ops of (out, s'') \<Rightarrow>
        ((case r of Some c \<Rightarrow> [(k, c)] | None \<Rightarrow> []) @ out, s''))"

fun puts :: "('k, 'c) pool_op list \<Rightarrow> ('k \<times> 'c) list" where
  "puts [] = []"
| "puts (Put k c # ops) = (k, c) # puts ops"
| "puts (Take k # ops) = puts ops"

definition at_key :: "'k \<Rightarrow> ('k \<times> 'c) list \<Rightarrow> 'c multiset" where
  "at_key k xs = mset (map snd (filter (\<lambda>x. fst x = k) xs))"

lemma at_key_simps [simp]:
  "at_key k [] = {#}" "at_key k ((k', c) # xs) = (if k' = k then {#c#} else {#}) + at_key k xs"
  "at_key k (xs @ ys) = at_key k xs + at_key k ys"
  by (simp_all add: at_key_def)

locale keyed_stack =
  fixes inv :: "'s \<Rightarrow> bool" and q :: "'s \<Rightarrow> 'k \<Rightarrow> 'c list"
    and put :: "'k \<Rightarrow> 'c \<Rightarrow> 's \<Rightarrow> 's" and take_op :: "'k \<Rightarrow> 's \<Rightarrow> 'c option \<times> 's" and bound :: nat
  assumes put_inv: "inv s \<Longrightarrow> inv (put k c s)"
    and take_inv: "inv s \<Longrightarrow> inv (snd (take_op k s))"
    and put_same: "inv s \<Longrightarrow> q (put k c s) k = (if length (q s k) \<ge> bound then tl (q s k) else q s k) @ [c]"
    and put_other: "inv s \<Longrightarrow> k' \<noteq> k \<Longrightarrow> q (put k c s) k' = q s k' \<or> q (put k c s) k' = []"
    and take_res: "inv s \<Longrightarrow> take_op k s = (r, s') \<Longrightarrow> r = (if q s k = [] then None else Some (last (q s k)))"
    and take_same: "inv s \<Longrightarrow> take_op k s = (r, s') \<Longrightarrow> q s' k = butlast (q s k)"
    and take_other: "inv s \<Longrightarrow> take_op k s = (r, s') \<Longrightarrow> k' \<noteq> k \<Longrightarrow> q s' k' = q s k'"
begin

lemma take_put: "inv s \<Longrightarrow> fst (take_op k (put k c s)) = Some c"
  using take_res [OF put_inv [of s k c], of k] put_same [of s k c]
  by (cases "take_op k (put k c s)") simp

lemma put_mset: "inv s \<Longrightarrow> mset (q (put k c s) k') \<subseteq># mset (q s k') + (if k' = k then {#c#} else {#})"
proof (cases "k' = k")
  case True
  assume "inv s"
  moreover have "mset (tl (q s k)) \<subseteq># mset (q s k)"
    by (cases "q s k") auto
  ultimately show ?thesis
    using True put_same [of s k c] by auto
next
  case False
  assume "inv s"
  then show ?thesis
    using put_other [OF _ False, of s c] False by auto
qed

lemma take_mset:
  assumes "inv s" "take_op k s = (r, s')"
  shows "mset (q s' k') + at_key k' (case r of Some c \<Rightarrow> [(k, c)] | None \<Rightarrow> []) = mset (q s k')"
proof (cases "k' = k \<and> q s k \<noteq> []")
  case True
  then have "q s k = butlast (q s k) @ [last (q s k)]"
    by simp
  then have "mset (butlast (q s k)) + {#last (q s k)#} = mset (q s k)"
    by (metis mset_append mset.simps add_mset_add_single)
  with True show ?thesis
    using take_res [OF assms] take_same [OF assms] by simp
next
  case False
  then show ?thesis
    using take_res [OF assms] take_same [OF assms] take_other [OF assms, of k'] by auto
qed

lemma run_ops_mset:
  "inv s \<Longrightarrow> run_ops put take_op s ops = (out, s') \<Longrightarrow>
     inv s' \<and> mset (q s' k) + at_key k out \<subseteq># mset (q s k) + at_key k (puts ops)"
proof (induction ops arbitrary: s out)
  case (Cons a ops)
  show ?case
  proof (cases a)
    case (Put k' c)
    have IH: "inv s'" "mset (q s' k) + at_key k out \<subseteq># mset (q (put k' c s) k) + at_key k (puts ops)"
      using Cons.IH [OF put_inv [OF Cons.prems(1), of k' c]] Cons.prems(2) Put by auto
    note IH(2)
    also have "mset (q (put k' c s) k) + at_key k (puts ops)
        \<subseteq># mset (q s k) + (if k = k' then {#c#} else {#}) + at_key k (puts ops)"
      using put_mset [OF Cons.prems(1), of k' c k] by (rule subset_mset.add_right_mono)
    also have "\<dots> = mset (q s k) + at_key k (puts (a # ops))"
      by (auto simp: Put ac_simps)
    finally show ?thesis
      using IH(1) by simp
  next
    case (Take k')
    obtain r s1 o1 where r: "take_op k' s = (r, s1)" "run_ops put take_op s1 ops = (o1, s')"
        "out = (case r of Some c \<Rightarrow> [(k', c)] | None \<Rightarrow> []) @ o1"
      using Cons.prems(2) Take by (auto split: prod.splits)
    have "inv s1"
      using take_inv [OF Cons.prems(1), of k'] r(1) by simp
    from Cons.IH [OF this r(2)] have IH: "inv s'" "mset (q s' k) + at_key k o1 \<subseteq># mset (q s1 k) + at_key k (puts ops)"
      by auto
    let ?r = "case r of Some c \<Rightarrow> [(k', c)] | None \<Rightarrow> []"
    have "at_key k ?r + (mset (q s' k) + at_key k o1) \<subseteq># at_key k ?r + (mset (q s1 k) + at_key k (puts ops))"
      using IH(2) by (rule subset_mset.add_left_mono)
    also have "\<dots> = mset (q s k) + at_key k (puts ops)"
      by (simp add: take_mset [OF Cons.prems(1) r(1), of k, symmetric] ac_simps)
    finally show ?thesis
      using IH(1) by (simp add: r(3) Take ac_simps)
  qed
qed simp

end

interpretation idle_stack: keyed_stack idle_inv queue "pool_put pick" pool_take MAX_IDLE_PER_KEY for pick
proof
  fix s :: "'c idle_pool" and k k' :: pool_key and c :: 'c and r s'
  show "idle_inv s \<Longrightarrow> idle_inv (pool_put pick k c s)"
    by (rule idle_inv_put)
  show "idle_inv s \<Longrightarrow> idle_inv (snd (pool_take k s))"
    by (rule idle_inv_take)
  show "idle_inv s \<Longrightarrow> queue (pool_put pick k c s) k =
      (if length (queue s k) \<ge> MAX_IDLE_PER_KEY then tl (queue s k) else queue s k) @ [c]"
    by (rule queue_put(1))
  show "idle_inv s \<Longrightarrow> k' \<noteq> k \<Longrightarrow> queue (pool_put pick k c s) k' = queue s k' \<or> queue (pool_put pick k c s) k' = []"
    by (rule queue_put(2))
  show "idle_inv s \<Longrightarrow> pool_take k s = (r, s') \<Longrightarrow> r = (if queue s k = [] then None else Some (last (queue s k)))"
    by (rule queue_take(1))
  show "idle_inv s \<Longrightarrow> pool_take k s = (r, s') \<Longrightarrow> queue s' k = butlast (queue s k)"
    by (rule queue_take(2))
  show "idle_inv s \<Longrightarrow> pool_take k s = (r, s') \<Longrightarrow> k' \<noteq> k \<Longrightarrow> queue s' k' = queue s k'"
    by (rule queue_take(3))
qed

subsection \<open>Properties\<close>

text \<open>
  C21. Over any sequence of parking and taking, whichever buckets are evicted, a connection is handed out
  only for the very key it was parked under, and at most as often as it was parked: connections never
  cross origins or isolation keys and are never shared. The pool stays within 64 keys of one to six
  connections each.
\<close>

theorem pool_isolation:
  assumes "run_ops (pool_put pick) pool_take [] ops = (out, p)"
  shows "idle_inv p \<and> mset (queue p k) + at_key k out \<subseteq># at_key k (puts ops)"
proof -
  have "idle_inv ([] :: 'c idle_pool)"
    by (simp add: idle_inv_def)
  from idle_stack.run_ops_mset [OF this assms, of k] show ?thesis
    by (simp add: queue_def)
qed

definition sample_key :: "str \<Rightarrow> pool_key" where
  "sample_key ik = \<lparr>key_scheme = bs ''https'', key_host = bs ''h'', key_port = 443, isolation_key = ik\<rparr>"

theorem pool_isolation_witness:
  "run_ops (pool_put (\<lambda>_. 0)) pool_take [] [Put (sample_key [1]) (7 :: nat), Take (sample_key [2]), Take (sample_key [1])]
     = ([(sample_key [1], 7)], [])
   \<and> at_key (sample_key [1]) [(sample_key [1], 7 :: nat)] \<subseteq># {#7#}"
proof -
  have run: "run_ops (pool_put (\<lambda>_. 0)) pool_take [] [Put (sample_key [1]) (7 :: nat), Take (sample_key [2]), Take (sample_key [1])]
     = ([(sample_key [1], 7)], [])"
    by (simp add: pool_put_def pool_take_def evict_def sample_key_def MAX_POOL_KEYS_def MAX_IDLE_PER_KEY_def)
  from pool_isolation [OF this, of "sample_key [1]"] run show ?thesis
    by (simp add: queue_def)
qed

text \<open>
  The most recently parked connection of a key is the next one taken, and a full bucket gives up its
  oldest connection only.
\<close>

theorem pool_lifo:
  assumes "idle_inv p"
  shows "fst (pool_take k (pool_put pick k c p)) = Some c
    \<and> queue (snd (pool_take k (pool_put pick k c p))) k =
        (if length (queue p k) \<ge> MAX_IDLE_PER_KEY then tl (queue p k) else queue p k)"
proof -
  obtain r p' where t: "pool_take k (pool_put pick k c p) = (r, p')"
    by fastforce
  then show ?thesis
    using idle_stack.take_put [OF assms, of k pick c] queue_take(2) [OF idle_inv_put [OF assms] t]
      queue_put(1) [OF assms, of pick k c] by simp
qed

theorem pool_lifo_witness:
  "fst (pool_take (sample_key []) (pool_put (\<lambda>_. 0) (sample_key []) (1 :: nat) [])) = Some 1
   \<and> queue (snd (pool_take (sample_key []) (pool_put (\<lambda>_. 0) (sample_key []) (1 :: nat) []))) (sample_key []) = []"
  using pool_lifo [of "[]" "sample_key []" "\<lambda>_. 0" "1 :: nat"] by (simp add: idle_inv_def queue_def MAX_IDLE_PER_KEY_def)

end
