(* ===== verification/Response.thy ===== *)
theory Response
  imports Http1_Client Conn_Pool
begin

text \<open>
  From body chunks to the response handed to the page:
  \<^verbatim>\<open>crates/zp-kernel-bundle/src/kernel/transport/decode.rs\<close> (content decoding) and the HTTP-version
  independent part of \<^verbatim>\<open>http2.rs\<close> (\<^verbatim>\<open>finish_response\<close>, \<^verbatim>\<open>readable_stream\<close>), with the
  HTTP/2 request and body checks.

  A stream of chunks is the list of its items, an error being the last one. The decompressors
  (\<^verbatim>\<open>flate2\<close>, \<^verbatim>\<open>brotli\<close>, \<^verbatim>\<open>ruzstd\<close>), the \<^verbatim>\<open>http\<close> types, the \<^verbatim>\<open>h2\<close> client
  and the browser's stream constructors are parameters. A decompressor reads as the bytes it produces and
  the error, if any, that follows them.
\<close>

subsection \<open>Content decoding\<close>

definition MAX_DECODED_BYTES :: nat where
  "MAX_DECODED_BYTES = 32 * 1024 * 1024"

type_synonym reader = "u8 list \<times> io_error option"

definition read_bounded :: "reader \<Rightarrow> u8 list io_result" where
  "read_bounded rdr =
     (case rdr of (produced, failure) \<Rightarrow>
        if length produced > MAX_DECODED_BYTES then
          Inl (IoError InvalidData [Lit ''decoded response exceeded cap''])
        else case failure of
               Some e \<Rightarrow> Inl e
             | None \<Rightarrow> Inr produced)"

record decoders =
  MultiGzDecoder :: "u8 list \<Rightarrow> reader"
  ZlibDecoder :: "u8 list \<Rightarrow> reader"
  Decompressor :: "u8 list \<Rightarrow> reader"
  StreamingDecoder :: "u8 list \<Rightarrow> str + reader"

definition decode_one :: "decoders \<Rightarrow> str \<Rightarrow> u8 list \<Rightarrow> u8 list io_result" where
  "decode_one ds coding content =
     (let c = to_ascii_lowercase coding in
      if c = [] \<or> c = bs ''identity'' then Inr content
      else if c = bs ''gzip'' \<or> c = bs ''x-gzip'' then read_bounded (MultiGzDecoder ds content)
      else if c = bs ''deflate'' then read_bounded (ZlibDecoder ds content)
      else if c = bs ''br'' then read_bounded (Decompressor ds content)
      else if c = bs ''zstd'' then
        (case StreamingDecoder ds content of
           Inl e \<Rightarrow> Inl (IoError InvalidData [Disp e])
         | Inr decoder \<Rightarrow> read_bounded decoder)
      else Inl (IoError InvalidData [Lit ''unsupported Content-Encoding: '', Disp coding]))"

fun decode_loop :: "decoders \<Rightarrow> str list \<Rightarrow> u8 list \<Rightarrow> u8 list io_result" where
  "decode_loop ds [] content = Inr content"
| "decode_loop ds (c # cs) content =
     (case decode_one ds c content of
        Inl e \<Rightarrow> Inl e
      | Inr content' \<Rightarrow> decode_loop ds cs content')"

definition decode_body :: "decoders \<Rightarrow> str \<Rightarrow> u8 list \<Rightarrow> u8 list io_result" where
  "decode_body ds content_encoding content =
     decode_loop ds (map trim (rev (split_on 44 content_encoding))) content"

subsection \<open>Finishing a response\<close>

type_synonym chunks = "u8 list io_result list"

datatype body_source = RawStream chunks | DecompressionStream str chunks

record streaming_response =
  s_status :: u16
  s_reason :: str
  s_headers :: "header list"
  s_stream :: body_source

datatype h2_response = Buffered http_response | Streaming streaming_response

definition response_status :: "h2_response \<Rightarrow> u16" where
  "response_status r = (case r of Buffered b \<Rightarrow> resp_status b | Streaming s \<Rightarrow> s_status s)"

fun buffer_loop :: "bool \<Rightarrow> u8 list \<Rightarrow> chunks \<Rightarrow> u8 list io_result" where
  "buffer_loop nb acc [] = Inr acc"
| "buffer_loop nb acc (Inl e # cs) = Inl e"
| "buffer_loop nb acc (Inr c # cs) =
     (if nb \<and> c \<noteq> [] then Inl (IoError InvalidData [Lit ''unexpected null response body''])
      else if length c > MAX_DECODED_BYTES - length acc then
        Inl (IoError InvalidData [Lit ''buffered response exceeded cap''])
      else buffer_loop nb (acc @ c) cs)"

definition content_encoding_of :: "header list \<Rightarrow> str" where
  "content_encoding_of hs =
     join [44] (map snd (filter (\<lambda>(k, _). eq_ignore_ascii_case k (bs ''content-encoding'')) hs))"

definition content_type_of :: "header list \<Rightarrow> str" where
  "content_type_of hs =
     (case find (\<lambda>(k, _). eq_ignore_ascii_case k (bs ''content-type'')) hs of
        None \<Rightarrow> []
      | Some (_, v) \<Rightarrow> to_ascii_lowercase (trim (hd (split_on 59 v))))"

definition executable :: "str \<Rightarrow> bool" where
  "executable ct \<longleftrightarrow>
     find_sub (bs ''javascript'') ct \<noteq> None \<or> find_sub (bs ''ecmascript'') ct \<noteq> None \<or> ct = bs ''text/css''"

definition streamable :: "str \<Rightarrow> bool" where
  "streamable coding \<longleftrightarrow>
     coding \<in> {[], bs ''identity'', bs ''gzip'', bs ''x-gzip'', bs ''deflate''}"

definition decoded_header :: "header \<Rightarrow> bool" where
  "decoded_header kv \<longleftrightarrow>
     \<not> eq_ignore_ascii_case (fst kv) (bs ''content-encoding'')
     \<and> \<not> eq_ignore_ascii_case (fst kv) (bs ''content-length'')
     \<and> \<not> eq_ignore_ascii_case (fst kv) (bs ''transfer-encoding'')"

text \<open>
  The result, and whether \<^verbatim>\<open>on_complete\<close> has been called; a streaming response calls it when its
  stream ends. \<open>js\<close> gives the browser's error, if any, in creating the stream for a coding.
\<close>

definition finish_response ::
    "decoders \<Rightarrow> (str \<Rightarrow> str option) \<Rightarrow> u16 \<Rightarrow> str \<Rightarrow> header list \<Rightarrow> bool \<Rightarrow> chunks \<Rightarrow> h2_response io_result \<times> bool" where
  "finish_response ds js st rsn hs nb0 cs =
     (let nb = (nb0 \<or> is_null_body_status st);
          content_encoding = content_encoding_of hs;
          coding = to_ascii_lowercase (trim content_encoding)
      in if nb \<or> executable (content_type_of hs) \<or> \<not> streamable coding then
           (case buffer_loop nb [] cs of
              Inl e \<Rightarrow> (Inl e, False)
            | Inr content \<Rightarrow>
                if nb then
                  (Inr (Buffered \<lparr>resp_status = st, resp_reason = rsn, resp_headers = hs, resp_body = content,
                                  null_body = nb\<rparr>), True)
                else
                  (case decode_body ds content_encoding content of
                     Inl e \<Rightarrow> (Inl e, False)
                   | Inr plain \<Rightarrow>
                       (Inr (Buffered \<lparr>resp_status = st, resp_reason = rsn,
                               resp_headers = filter decoded_header hs
                                 @ [(bs ''Content-Length'', to_string (length plain))],
                               resp_body = plain, null_body = nb\<rparr>), True)))
         else
           let source = (if coding = [] \<or> coding = bs ''identity'' then RawStream cs
                         else DecompressionStream (if coding = bs ''x-gzip'' then bs ''gzip'' else coding) cs);
               fmt = (if coding = bs ''x-gzip'' then bs ''gzip'' else coding)
           in case js fmt of
                Some e \<Rightarrow> (Inl (IoError OtherKind [Lit ''response stream: '', Debug e]), False)
              | None \<Rightarrow>
                  (Inr (Streaming \<lparr>s_status = st, s_reason = rsn, s_headers = filter decoded_header hs,
                                   s_stream = source\<rparr>), False))"

subsection \<open>The readable stream\<close>

text \<open>
  The underlying source of a streamed body. \<open>slot\<close> is the shared cell with the remaining chunks and the
  completion callback, \<open>pending\<close> the chunks owned by a pull in progress; the rest is what the page sees.
\<close>

record readable =
  slot :: "chunks option"
  pending :: "chunks option"
  enqueued :: "u8 list list"
  complete :: bool
  closed :: bool
  errored :: "io_error option"

definition readable_stream :: "chunks \<Rightarrow> readable" where
  "readable_stream cs =
     \<lparr>slot = Some cs, pending = None, enqueued = [], complete = False, closed = False, errored = None\<rparr>"

definition pull_begin :: "readable \<Rightarrow> readable" where
  "pull_begin s = s\<lparr>slot := None, pending := slot s\<rparr>"

text \<open>\<open>ok\<close> is whether the controller accepts the call; it refuses once the stream is errored or closed.\<close>

definition pull_end :: "bool \<Rightarrow> readable \<Rightarrow> readable" where
  "pull_end ok s =
     (case pending s of
        None \<Rightarrow> s
      | Some (Inr c # cs) \<Rightarrow>
          if ok then s\<lparr>pending := None, enqueued := enqueued s @ [c], slot := Some cs\<rparr>
          else s\<lparr>pending := None\<rparr>
      | Some (Inl e # cs) \<Rightarrow> s\<lparr>pending := None, errored := Some e\<rparr>
      | Some [] \<Rightarrow> s\<lparr>pending := None, complete := True, closed := ok\<rparr>)"

definition cancel :: "readable \<Rightarrow> readable" where
  "cancel s = s\<lparr>pending := None, slot := None\<rparr>"

text \<open>
  The runtime calls pull only when the promise of the previous pull has settled.
\<close>

inductive readable_reach :: "chunks \<Rightarrow> readable \<Rightarrow> bool" for cs where
  opened: "readable_reach cs (readable_stream cs)"
| pull: "readable_reach cs s \<Longrightarrow> pending s = None \<Longrightarrow> readable_reach cs (pull_begin s)"
| pulled: "readable_reach cs s \<Longrightarrow> readable_reach cs (pull_end ok s)"
| cancelled: "readable_reach cs s \<Longrightarrow> readable_reach cs (cancel s)"

subsection \<open>The HTTP/2 exchange\<close>

datatype h2_frame = H2Chunk "u8 list" "str option" | H2Fail str

text \<open>
  The body stream: a data frame carries the outcome of releasing its flow-control capacity, the end of
  the body the outcome of reading the trailers.
\<close>

fun h2_chunks :: "bool \<Rightarrow> nat option \<Rightarrow> nat \<Rightarrow> h2_frame list \<Rightarrow> str option \<Rightarrow> chunks" where
  "h2_chunks nb content_length got (H2Chunk chunk release # fs) trailers =
     (let got' = got + length chunk in
      if got' \<ge> 2 ^ 64 then [Inl (IoError InvalidData [Lit ''h2: body length overflow''])]
      else if (nb \<and> chunk \<noteq> []) \<or> (case content_length of Some n \<Rightarrow> got' > n | None \<Rightarrow> False) then
        [Inl (IoError InvalidData [Lit ''h2: unexpected body length''])]
      else case release of
             Some e \<Rightarrow> [Inl (IoError OtherKind [Disp e])]
           | None \<Rightarrow> Inr chunk # h2_chunks nb content_length got' fs trailers)"
| "h2_chunks nb content_length got (H2Fail e # fs) trailers =
     [Inl (IoError OtherKind [Lit ''h2: body: '', Disp e])]"
| "h2_chunks nb content_length got [] trailers =
     (case trailers of
        Some e \<Rightarrow> [Inl (IoError OtherKind [Disp e])]
      | None \<Rightarrow>
          if (case content_length of Some n \<Rightarrow> got \<noteq> n | None \<Rightarrow> False)
          then [Inl (IoError UnexpectedEof [Lit ''h2: truncated response''])]
          else [])"

record http_types =
  method_from_bytes :: "str \<Rightarrow> str + str"
  uri_parse :: "str \<Rightarrow> str option"
  request_build :: "str \<Rightarrow> str \<Rightarrow> str option"
  header_name :: "str \<Rightarrow> str option"
  header_value :: "str \<Rightarrow> bool"

record h2_request =
  rq_method :: str
  rq_uri :: str
  rq_headers :: "header list"

record h2_reply =
  rp_status :: u16
  rp_reason :: "str option"
  rp_headers :: "(str \<times> u8 list) list"
  rp_frames :: "h2_frame list"
  rp_trailers :: "str option"

record h2_client =
  ready :: "str option"
  submit :: "h2_request \<Rightarrow> bool \<Rightarrow> str option"
  send_data :: "u8 list \<Rightarrow> str option"
  reply :: "h2_request \<Rightarrow> u8 list \<Rightarrow> str + h2_reply"

definition connection_header :: "str \<Rightarrow> bool" where
  "connection_header k \<longleftrightarrow>
     to_ascii_lowercase k \<in> {bs ''host'', bs ''connection'', bs ''keep-alive'', bs ''proxy-connection'',
       bs ''transfer-encoding'', bs ''upgrade'', bs ''te''}"

fun h2_append :: "http_types \<Rightarrow> header list \<Rightarrow> header list" where
  "h2_append t [] = []"
| "h2_append t ((k, v) # hs) =
     (if connection_header k then h2_append t hs
      else case header_name t k of
             None \<Rightarrow> h2_append t hs
           | Some name \<Rightarrow>
               if header_value t v then (name, v) # h2_append t hs else h2_append t hs)"

definition h2_headers :: "http_types \<Rightarrow> str \<Rightarrow> nat \<Rightarrow> header list \<Rightarrow> header list" where
  "h2_headers t mth body_len hs =
     (if wants_content_length mth body_len
         \<and> \<not> list_ex (\<lambda>(k, _). eq_ignore_ascii_case k (bs ''content-length'')) hs
         \<and> header_value t (to_string body_len)
      then [(bs ''content-length'', to_string body_len)] else [])
     @ h2_append t hs"

definition headers_to_vec :: "(str \<times> u8 list) list \<Rightarrow> header list" where
  "headers_to_vec m = map (\<lambda>(k, v). (k, from_utf8_lossy v)) m"

definition h2_send_request ::
    "http_types \<Rightarrow> decoders \<Rightarrow> (str \<Rightarrow> str option) \<Rightarrow> h2_client \<Rightarrow> str \<Rightarrow> str \<Rightarrow> str \<Rightarrow> str \<Rightarrow> header list \<Rightarrow> u8 list
      \<Rightarrow> h2_response io_result" where
  "h2_send_request t ds js client mth0 scheme host_header path hs content =
     (case method_from_bytes t mth0 of
        Inl e \<Rightarrow> Inl (IoError InvalidInput [Lit ''h2: method: '', Disp e])
      | Inr mth \<Rightarrow>
        let uri = scheme @ bs ''://'' @ host_header @ path in
        case uri_parse t uri of
          Some e \<Rightarrow> Inl (IoError InvalidInput [Lit ''h2: uri: '', Disp e])
        | None \<Rightarrow>
        case request_build t mth uri of
          Some e \<Rightarrow> Inl (IoError InvalidInput [Lit ''h2: request: '', Disp e])
        | None \<Rightarrow>
        let req = \<lparr>rq_method = mth, rq_uri = uri, rq_headers = h2_headers t mth (length content) hs\<rparr> in
        case ready client of
          Some e \<Rightarrow> Inl (IoError BrokenPipe [Lit ''h2: ready: '', Disp e])
        | None \<Rightarrow>
        case submit client req (content = []) of
          Some e \<Rightarrow> Inl (IoError OtherKind [Lit ''h2: send_request: '', Disp e])
        | None \<Rightarrow>
        case (if content \<noteq> [] then send_data client content else None) of
          Some e \<Rightarrow> Inl (IoError OtherKind [Lit ''h2: send_data: '', Disp e])
        | None \<Rightarrow>
        case reply client req content of
          Inl e \<Rightarrow> Inl (IoError OtherKind [Lit ''h2: response: '', Disp e])
        | Inr rp \<Rightarrow>
        let st = rp_status rp;
            rsn = (case rp_reason rp of Some r \<Rightarrow> r | None \<Rightarrow> []);
            resp = headers_to_vec (rp_headers rp);
            nb = (mth = bs ''HEAD'' \<or> no_body_status st)
        in case (if nb then Inr None else header_content_length resp) of
             Inl e \<Rightarrow> Inl e
           | Inr content_length \<Rightarrow>
               fst (finish_response ds js st rsn resp nb
                 (h2_chunks nb content_length 0 (rp_frames rp) (rp_trailers rp))))"

subsection \<open>The HTTP/1.1 response\<close>

text \<open>The chunks a body reader yields, up to its end or first error, and the reader after them.\<close>

function body_stream :: "body_reader \<Rightarrow> (chunks \<times> body_reader) outcome" where
  "body_stream r =
     (case next_chunk r of
        Panic \<Rightarrow> Panic
      | Return (Inl e, r') \<Rightarrow> Return ([Inl e], r')
      | Return (Inr None, r') \<Rightarrow> Return ([], r')
      | Return (Inr (Some chunk), r') \<Rightarrow>
          (case body_stream r' of
             Panic \<Rightarrow> Panic
           | Return (cs, r'') \<Rightarrow> Return (Inr chunk # cs, r'')))"
  by pat_completeness auto
termination
  by (relation "measure load") (auto dest: next_chunk_load)

declare body_stream.simps [simp del]

text \<open>
  The completion callback parks the connection that the reader has deposited. The result carries the
  pool after a buffered response; a streamed one parks when its stream completes.
\<close>

definition park :: "(pool_key list \<Rightarrow> nat) \<Rightarrow> pool_key \<Rightarrow> stream option \<Rightarrow> stream idle_pool \<Rightarrow> stream idle_pool" where
  "park pick key deposited p =
     (case deposited of Some c \<Rightarrow> pool_put pick key c p | None \<Rightarrow> p)"

definition http1_respond ::
    "decoders \<Rightarrow> (str \<Rightarrow> str option) \<Rightarrow> (pool_key list \<Rightarrow> nat) \<Rightarrow> pool_key \<Rightarrow> stream idle_pool
      \<Rightarrow> response_head \<times> bool \<times> body_reader \<Rightarrow> (h2_response io_result \<times> stream idle_pool) outcome" where
  "http1_respond ds js pick key p = (\<lambda>(head, nb, r).
     case body_stream r of
       Panic \<Rightarrow> Panic
     | Return (cs, r') \<Rightarrow>
         (case finish_response ds js (status head) (reason head) (headers head) nb cs of
            (res, called) \<Rightarrow> Return (res, if called then park pick key (completed r') p else p)))"

subsection \<open>Lemmas on decoding\<close>

text \<open>Decompressors that undo the compressors \<open>enc\<close>.\<close>

definition inverse_decoders :: "decoders \<Rightarrow> (str \<Rightarrow> u8 list \<Rightarrow> u8 list) \<Rightarrow> bool" where
  "inverse_decoders ds enc \<longleftrightarrow>
     (\<forall>x. MultiGzDecoder ds (enc (bs ''gzip'') x) = (x, None) \<and> ZlibDecoder ds (enc (bs ''deflate'') x) = (x, None)
        \<and> Decompressor ds (enc (bs ''br'') x) = (x, None) \<and> StreamingDecoder ds (enc (bs ''zstd'') x) = Inr (x, None))"

abbreviation "content_codings \<equiv> {bs ''gzip'', bs ''deflate'', bs ''br'', bs ''zstd''}"

lemma decode_one_inverse:
  assumes "inverse_decoders ds enc" "c \<in> content_codings" "length x \<le> MAX_DECODED_BYTES"
  shows "decode_one ds c (enc c x) = Inr x"
proof -
  have "c = bs ''gzip'' \<or> c = bs ''deflate'' \<or> c = bs ''br'' \<or> c = bs ''zstd''"
    using assms(2) by simp
  then show ?thesis
    using assms(1,3)
    by (elim disjE) (simp_all add: decode_one_def Let_def inverse_decoders_def read_bounded_def byte_simps)
qed

lemma content_coding_text:
  "c \<in> content_codings \<Longrightarrow> trim c = c \<and> 44 \<notin> set c"
  by (auto simp: bs_def trim_all_graphic graphic_def)

lemma decode_loop_inverse:
  assumes "inverse_decoders ds enc" "set cs \<subseteq> content_codings"
    and "\<forall>i < length cs. length (fold enc (take i cs) x) \<le> MAX_DECODED_BYTES"
  shows "decode_loop ds (rev cs) (fold enc cs x) = Inr x"
  using assms(2,3)
proof (induction cs rule: rev_induct)
  case (snoc c cs)
  have "decode_one ds c (enc c (fold enc cs x)) = Inr (fold enc cs x)"
    using decode_one_inverse [OF assms(1)] snoc.prems spec [OF snoc.prems(2), of "length cs"] by simp
  moreover have "\<forall>i < length cs. length (fold enc (take i cs) x) \<le> MAX_DECODED_BYTES"
    using snoc.prems(2) by (metis butlast_snoc length_append_singleton less_SucI take_butlast)
  ultimately show ?case
    using snoc by simp
qed simp

lemma buffer_loop_Inr:
  "buffer_loop nb acc cs = Inr content \<Longrightarrow> length acc \<le> MAX_DECODED_BYTES \<Longrightarrow>
     \<exists>ds. cs = map Inr ds \<and> content = acc @ concat ds \<and> length content \<le> MAX_DECODED_BYTES
     \<and> (nb \<longrightarrow> content = acc)"
proof (induction nb acc cs rule: buffer_loop.induct)
  case (3 nb acc c cs)
  then have "buffer_loop nb (acc @ c) cs = Inr content" "length (acc @ c) \<le> MAX_DECODED_BYTES" and nb: "nb \<longrightarrow> c = []"
    by (auto split: if_splits)
  with 3 obtain ds where "cs = map Inr ds" "content = (acc @ c) @ concat ds" "length content \<le> MAX_DECODED_BYTES"
      "nb \<longrightarrow> content = acc @ c"
    by (auto split: if_splits)
  with nb show ?case
    by (intro exI [of _ "c # ds"]) auto
qed simp_all

subsection \<open>Lemmas on the streams\<close>

text \<open>The chunks before the first error.\<close>

fun before_error :: "chunks \<Rightarrow> u8 list list" where
  "before_error [] = []"
| "before_error (Inr c # cs) = c # before_error cs"
| "before_error (Inl e # cs) = []"

lemma before_error_append:
  "before_error (map Inr cs @ ds) = cs @ before_error ds"
  by (induction cs) simp_all

definition readable_inv :: "chunks \<Rightarrow> readable \<Rightarrow> bool" where
  "readable_inv cs s \<longleftrightarrow>
     (slot s = None \<or> pending s = None)
     \<and> (case (if slot s = None then pending s else slot s) of
          Some rest \<Rightarrow> cs = map Inr (enqueued s) @ rest \<and> \<not> complete s \<and> errored s = None
        | None \<Rightarrow> (\<exists>rest. cs = map Inr (enqueued s) @ rest \<and> (complete s \<longrightarrow> rest = [])
            \<and> (case errored s of Some e \<Rightarrow> \<not> complete s \<and> (\<exists>aft. rest = Inl e # aft) | None \<Rightarrow> True)))"

lemma readable_inv_reach: "readable_reach cs s \<Longrightarrow> readable_inv cs s"
proof (induction rule: readable_reach.induct)
  case opened
  then show ?case
    by (simp add: readable_inv_def readable_stream_def)
next
  case (pull s)
  then show ?case
    by (auto simp: readable_inv_def pull_begin_def split: if_splits option.splits)
next
  case (pulled s ok)
  then show ?case
    by (auto simp: readable_inv_def pull_end_def split: if_splits option.splits list.splits sum.splits)
next
  case (cancelled s)
  then show ?case
    by (auto simp: readable_inv_def cancel_def split: if_splits option.splits)
qed

lemma h2_chunks_Cons:
  assumes "h2_chunks nb cl got (H2Chunk chunk release # fs) tr = map Inr ds"
  obtains ds' where "ds = chunk # ds'" "release = None" "h2_chunks nb cl (got + length chunk) fs tr = map Inr ds'"
    "nb \<longrightarrow> chunk = []"
  using assms by (auto simp: Let_def split: if_splits option.splits)

lemma h2_chunks_ok:
  "h2_chunks nb cl got fs tr = map Inr ds \<Longrightarrow>
     (case cl of Some n \<Rightarrow> got + length (concat ds) = n | None \<Rightarrow> True)
     \<and> (nb \<longrightarrow> concat ds = []) \<and> fs = map (\<lambda>c. H2Chunk c None) ds \<and> tr = None"
proof (induction fs arbitrary: got ds)
  case Nil
  then show ?case
    by (auto split: option.splits if_splits)
next
  case (Cons f fs)
  show ?case
  proof (cases f)
    case (H2Chunk chunk release)
    obtain ds' where "ds = chunk # ds'" "release = None" "nb \<longrightarrow> chunk = []"
      "h2_chunks nb cl (got + length chunk) fs tr = map Inr ds'"
      using h2_chunks_Cons [OF Cons.prems [unfolded H2Chunk]] by metis
    with Cons.IH [of "got + length chunk" ds'] H2Chunk show ?thesis
      by (auto split: option.splits)
  qed (use Cons.prems in auto)
qed

lemma h2_chunks_bound:
  "(case cl of Some n \<Rightarrow> got \<le> n | None \<Rightarrow> True) \<Longrightarrow>
   (case cl of Some n \<Rightarrow> got + length (concat (before_error (h2_chunks nb cl got fs tr))) \<le> n | None \<Rightarrow> True)"
proof (induction nb cl got fs tr rule: h2_chunks.induct)
  case (1 nb cl got chunk release fs trailers)
  then show ?case
    by (auto simp: Let_def split: if_splits option.splits)
qed (auto split: option.splits if_splits)

lemma h2_append_wire:
  assumes "\<forall>k n. header_name t k = Some n \<longrightarrow> n = to_ascii_lowercase k"
  shows "(n, v) \<in> set (h2_append t hs) \<Longrightarrow>
    \<exists>k. (k, v) \<in> set hs \<and> n = to_ascii_lowercase k \<and> \<not> connection_header k"
proof (induction hs)
  case (Cons kv hs)
  obtain k v' where kv: "kv = (k, v')"
    by fastforce
  show ?case
  proof (cases "(n, v) \<in> set (h2_append t hs)")
    case True
    with Cons.IH show ?thesis by auto
  next
    case False
    with Cons.prems kv assms show ?thesis
      by (auto split: if_splits option.splits)
  qed
qed simp

lemma body_stream_sound:
  "reader_inv keep f w d r \<Longrightarrow>
     \<exists>cs r'. body_stream r = Return (cs, r')
       \<and> (completed r' = None \<or> (\<exists>ds. cs = map Inr ds \<and> reader_done keep f w (d @ concat ds) r'))"
proof (induction r arbitrary: d rule: body_stream.induct)
  case (1 r)
  from next_chunk_inv [OF 1(2)] obtain res r1 where
    n: "next_chunk r = Return (res, r1)" "ready_post keep f w d (Inl (res, r1))"
    by auto
  then consider e where "res = Inl e" "completed r1 = None"
    | "res = Inr None" "reader_done keep f w d r1"
    | xs where "res = Inr (Some xs)" "reader_inv keep f w (d @ xs) r1"
    by (auto simp: ready_post_def split: sum.splits option.splits)
  then show ?case
  proof cases
    case (3 xs)
    from 1(1) [OF n(1) refl 3(1) refl 3(2)] obtain cs r' where
      "body_stream r1 = Return (cs, r')"
      "completed r' = None \<or> (\<exists>ds. cs = map Inr ds \<and> reader_done keep f w ((d @ xs) @ concat ds) r')"
      by blast
    then show ?thesis
      using n(1) 3(1) by (auto simp: body_stream.simps [of r] intro: exI [of _ "xs # ds" for ds])
  qed (use n(1) in \<open>simp_all add: body_stream.simps [of r]\<close>)
qed

lemma body_stream_sent:
  "carries t r \<Longrightarrow> body_stream r = Return (cs, r') \<Longrightarrow> carries t r'"
proof (induction r arbitrary: cs rule: body_stream.induct)
  case (1 r)
  from 1(3) obtain res r1 where n: "next_chunk r = Return (res, r1)"
    by (auto simp: body_stream.simps [of r] split: outcome.splits)
  note s = next_chunk_sent [OF 1(2) n]
  show ?case
  proof (cases "\<exists>xs. res = Inr (Some xs)")
    case True
    then obtain xs where xs: "res = Inr (Some xs)"
      by blast
    with n 1(3) obtain cs' where "body_stream r1 = Return (cs', r')"
      by (auto simp: body_stream.simps [of r] split: outcome.splits)
    from 1(1) [OF n refl xs refl s this] show ?thesis .
  next
    case False
    with n s 1(3) show ?thesis
      by (auto simp: body_stream.simps [of r] split: sum.splits option.splits)
  qed
qed

lemma finish_response_called:
  "finish_response ds js st rsn hs nb cs = (res, called) \<Longrightarrow> called = (\<exists>r. res = Inr (Buffered r))"
  by (auto simp: finish_response_def Let_def split: if_splits sum.splits option.splits)

lemma finish_response_Buffered:
  assumes "finish_response ds js st rsn hs nb cs = (Inr (Buffered r), called)"
  obtains parts where "cs = map Inr parts" "length (concat parts) \<le> MAX_DECODED_BYTES"
    and "null_body r \<Longrightarrow> concat parts = [] \<and> resp_body r = [] \<and> resp_headers r = hs"
    and "\<not> null_body r \<Longrightarrow> decode_body ds (content_encoding_of hs) (concat parts) = Inr (resp_body r)"
    and "\<not> null_body r \<Longrightarrow> resp_headers r =
        filter decoded_header hs @ [(bs ''Content-Length'', to_string (length (resp_body r)))]"
    and "null_body r = (nb \<or> is_null_body_status st)" "resp_status r = st" "resp_reason r = rsn"
proof -
  let ?nb = "nb \<or> is_null_body_status st"
  obtain content where c: "buffer_loop ?nb [] cs = Inr content"
    using assms by (auto simp: finish_response_def Let_def split: if_splits sum.splits option.splits)
  then obtain parts where "cs = map Inr parts" "content = concat parts" "length content \<le> MAX_DECODED_BYTES"
      "?nb \<longrightarrow> content = []"
    using buffer_loop_Inr [OF c] by auto
  then show thesis
    using assms c
    by (intro that [of parts])
       (auto simp: finish_response_def Let_def split: if_splits sum.splits option.splits)
qed

subsection \<open>Properties\<close>

text \<open>
  A body to which known content codings have been applied in the order the Content-Encoding header
  lists them is decoded back to the original, provided the decompressors invert the compressors and no
  intermediate result exceeds the cap: the outermost coding is undone first.
\<close>

theorem decode_body_roundtrip:
  assumes "inverse_decoders ds enc" "set cs \<subseteq> content_codings" "cs \<noteq> []"
    and "\<forall>i < length cs. length (fold enc (take i cs) x) \<le> MAX_DECODED_BYTES"
  shows "decode_body ds (join [44] cs) (fold enc cs x) = Inr x"
proof -
  have "split_on 44 (join [44] cs) = cs"
    using assms(2,3) content_coding_text by (intro split_on_join) auto
  moreover have "map trim (rev cs) = rev cs"
    using assms(2) content_coding_text by (intro map_idI) auto
  ultimately show ?thesis
    using decode_loop_inverse [OF assms(1,2,4)] by (simp add: decode_body_def)
qed

text \<open>Compressors that append a byte each.\<close>

definition sample_decoders :: decoders where
  "sample_decoders = \<lparr>MultiGzDecoder = (\<lambda>x. (butlast x, None)), ZlibDecoder = (\<lambda>x. (butlast x, None)),
     Decompressor = (\<lambda>x. (butlast (butlast x), None)), StreamingDecoder = (\<lambda>x. Inr (butlast x, None))\<rparr>"

definition sample_encoder :: "str \<Rightarrow> u8 list \<Rightarrow> u8 list" where
  "sample_encoder c x = (if c = bs ''br'' then x @ [1, 2] else x @ [0])"

theorem decode_body_roundtrip_witness:
  "decode_body sample_decoders (join [44] [bs ''gzip'', bs ''br'']) (fold sample_encoder [bs ''gzip'', bs ''br''] [7]) = Inr [7]"
  by (rule decode_body_roundtrip)
     (simp_all add: inverse_decoders_def sample_decoders_def sample_encoder_def bs_def butlast_append
       MAX_DECODED_BYTES_def less_Suc_eq)

text \<open>
  A buffered response: its body is the decoded concatenation of all chunks, none of which was an
  error, within the cap; its headers state that length and no longer any coding or framing of the wire;
  and only then has the completion callback run.
\<close>

theorem finish_response_buffered:
  assumes "finish_response ds js st rsn hs nb cs = (Inr (Buffered r), called)"
  shows "called \<and> resp_status r = st \<and> null_body r = (nb \<or> is_null_body_status st) \<and>
    (\<exists>parts. cs = map Inr parts \<and> length (concat parts) \<le> MAX_DECODED_BYTES \<and>
      (if null_body r then resp_body r = [] \<and> resp_headers r = hs
       else decode_body ds (content_encoding_of hs) (concat parts) = Inr (resp_body r)
         \<and> filter (\<lambda>kv. \<not> decoded_header kv) (resp_headers r)
             = [(bs ''Content-Length'', to_string (length (resp_body r)))]
         \<and> filter decoded_header (resp_headers r) = filter decoded_header hs))"
proof -
  obtain parts where p: "cs = map Inr parts" "length (concat parts) \<le> MAX_DECODED_BYTES"
     "null_body r \<Longrightarrow> concat parts = [] \<and> resp_body r = [] \<and> resp_headers r = hs"
     "\<not> null_body r \<Longrightarrow> decode_body ds (content_encoding_of hs) (concat parts) = Inr (resp_body r)"
     "\<not> null_body r \<Longrightarrow> resp_headers r =
        filter decoded_header hs @ [(bs ''Content-Length'', to_string (length (resp_body r)))]"
     "null_body r = (nb \<or> is_null_body_status st)" "resp_status r = st"
    using finish_response_Buffered [OF assms] by metis
  moreover have "\<not> decoded_header (bs ''Content-Length'', v)" for v
    by (simp add: decoded_header_def byte_simps)
  moreover have "filter (\<lambda>kv. \<not> decoded_header kv) (filter decoded_header hs) = []"
    by simp
  ultimately show ?thesis
    using finish_response_called [OF assms] by auto
qed

definition sample_response_headers :: "header list" where
  "sample_response_headers = [(bs ''content-encoding'', bs ''br''), (bs ''x'', bs ''y'')]"

theorem finish_response_buffered_witness:
  "\<exists>r. finish_response sample_decoders (\<lambda>_. None) 200 [] sample_response_headers False [Inr [7, 1], Inr [2]]
        = (Inr (Buffered r), True)
     \<and> filter decoded_header (resp_headers r) = filter decoded_header sample_response_headers \<and> resp_body r = [7]"
proof -
  have t: "trim (bs ''br'') = bs ''br''"
    using content_coding_text by simp
  have "\<exists>r. finish_response sample_decoders (\<lambda>_. None) 200 [] sample_response_headers False [Inr [7, 1], Inr [2]]
        = (Inr (Buffered r), True)"
    using t
    by (simp add: finish_response_def sample_response_headers_def content_encoding_of_def content_type_of_def executable_def streamable_def
       is_null_body_status_def MAX_DECODED_BYTES_def decode_body_def decode_one_def read_bounded_def sample_decoders_def byte_simps Let_def)
  then obtain r where r: "finish_response sample_decoders (\<lambda>_. None) 200 [] sample_response_headers False [Inr [7, 1], Inr [2]]
        = (Inr (Buffered r), True)"
    by blast
  have "decode_body sample_decoders (content_encoding_of sample_response_headers) [7, 1, 2] = Inr [7]"
    using t by (simp add: sample_response_headers_def content_encoding_of_def decode_body_def decode_one_def read_bounded_def
        MAX_DECODED_BYTES_def sample_decoders_def byte_simps)
  with finish_response_buffered [OF r] r show ?thesis
    by (auto simp: is_null_body_status_def map_eq_Cons_conv split: if_splits)
qed

text \<open>
  A body streamed to the page, under any schedule of pulls, refusals by the controller and
  cancellation: the page has received a prefix of the chunks in order and without gap; the completion
  callback has run only when every chunk has been delivered and none was an error.
\<close>

theorem readable_stream_invariant:
  assumes "readable_reach cs s"
  shows "(\<exists>rest. cs = map Inr (enqueued s) @ rest) \<and> (if complete s then cs = map Inr (enqueued s) else True)
    \<and> (case errored s of Some e \<Rightarrow> \<not> complete s \<and> (\<exists>rest. cs = map Inr (enqueued s) @ Inl e # rest) | None \<Rightarrow> True)"
  using readable_inv_reach [OF assms]
  by (auto simp: readable_inv_def split: if_splits option.splits)

theorem readable_stream_invariant_witness:
  "\<exists>s. readable_reach [Inr [1], Inr [2]] s \<and> enqueued s = [[1], [2]] \<and> complete s
     \<and> [Inr [1], Inr [2]] = map Inr (enqueued s)"
proof -
  let ?s = "(pull_end True \<circ> pull_begin \<circ> pull_end True \<circ> pull_begin \<circ> pull_end True \<circ> pull_begin)
              (readable_stream [Inr [1], Inr [2]])"
  have "readable_reach [Inr [1], Inr [2]] ?s"
    unfolding comp_def
    by (intro readable_reach.intros) (simp_all add: pull_begin_def pull_end_def readable_stream_def)
  moreover have "enqueued ?s = [[1], [2]]" "complete ?s"
    by (simp_all add: pull_begin_def pull_end_def readable_stream_def)
  ultimately show ?thesis
    using readable_stream_invariant [of "[Inr [1], Inr [2]]" ?s] by (intro exI [of _ ?s]) simp
qed

text \<open>
  An HTTP/2 body never delivers more bytes than the Content-Length announces, and one that ends
  without an error has delivered exactly that many, all its frames, and nothing when no body is allowed.
\<close>

theorem h2_body_length:
  "(case cl of Some n \<Rightarrow> length (concat (before_error (h2_chunks nb cl 0 fs tr))) \<le> n | None \<Rightarrow> True)
   \<and> (h2_chunks nb cl 0 fs tr = map Inr ds \<longrightarrow>
        (case cl of Some n \<Rightarrow> length (concat ds) = n | None \<Rightarrow> True) \<and> (nb \<longrightarrow> concat ds = [])
        \<and> fs = map (\<lambda>c. H2Chunk c None) ds)"
  using h2_chunks_bound [where got = 0 and cl = cl and nb = nb and fs = fs and tr = tr] h2_chunks_ok [of nb cl 0 fs tr ds]
  by (auto split: option.splits)

theorem h2_body_length_witness:
  "h2_chunks False (Some 3) 0 [H2Chunk [1, 2] None, H2Chunk [3] None] None = [Inr [1, 2], Inr [3]]
   \<and> length (concat [[1, 2], [3 :: u8]]) = 3"
proof -
  have "h2_chunks False (Some 3) 0 [H2Chunk [1, 2] None, H2Chunk [3] None] None = map Inr [[1, 2], [3]]"
    by simp
  with h2_body_length [where cl = "Some 3" and nb = False and fs = "[H2Chunk [1, 2] None, H2Chunk [3] None]" and tr = None and ds = "[[1, 2], [3]]"]
  show ?thesis by simp
qed

text \<open>
  No connection-specific header of HTTP/1.1 goes onto an HTTP/2 connection, whatever the caller
  passes, given that the header-name type lowercases names; every other header sent is one of the
  caller's or the computed length of the body.
\<close>

theorem h2_headers_wire:
  assumes "\<forall>k n. header_name t k = Some n \<longrightarrow> n = to_ascii_lowercase k" "(n, v) \<in> set (h2_headers t mth len hs)"
  shows "\<not> connection_header n
    \<and> ((n, v) = (bs ''content-length'', to_string len) \<or> (\<exists>k. (k, v) \<in> set hs \<and> eq_ignore_ascii_case k n))"
proof -
  have "connection_header (to_ascii_lowercase k) = connection_header k" for k
    by (simp add: connection_header_def)
  moreover have "\<not> connection_header (bs ''content-length'')"
    by (simp add: connection_header_def byte_simps)
  ultimately show ?thesis
    using assms(2) h2_append_wire [OF assms(1), of n v hs]
    by (fastforce simp: h2_headers_def eq_ignore_ascii_case_def split: if_splits)
qed

definition sample_types :: http_types where
  "sample_types = \<lparr>method_from_bytes = Inr, uri_parse = (\<lambda>_. None), request_build = (\<lambda>_ _. None),
     header_name = (\<lambda>k. Some (to_ascii_lowercase k)), header_value = (\<lambda>_. True)\<rparr>"

theorem h2_headers_wire_witness:
  "(bs ''x'', bs ''y'') \<in> set (h2_headers sample_types (bs ''GET'') 0 [(bs ''Host'', bs ''h''), (bs ''X'', bs ''y'')])
   \<and> \<not> connection_header (bs ''x'')"
proof -
  have i: "(bs ''x'', bs ''y'') \<in> set (h2_headers sample_types (bs ''GET'') 0 [(bs ''Host'', bs ''h''), (bs ''X'', bs ''y'')])"
    by (simp add: h2_headers_def wants_content_length_def connection_header_def sample_types_def byte_simps)
  moreover have "\<forall>k n. header_name sample_types k = Some n \<longrightarrow> n = to_ascii_lowercase k"
    by (simp add: sample_types_def)
  ultimately show ?thesis
    using h2_headers_wire [OF _ i] by blast
qed

end
