(* ===== verification/Socks5.thy ===== *)
theory Socks5
  imports Byte_Stream
begin

text \<open>
  The SOCKS5 codec of \<^verbatim>\<open>crates/zp-transport-codec/src/socks5.rs\<close> and the client that drives it
  over a stream, \<^verbatim>\<open>crates/zp-kernel-bundle/src/kernel/transport/socks5.rs\<close>. A reference decoder
  of the two requests, written from RFC 1928 and RFC 1929, gives the round trips; the handshake is shown
  to accept exactly the reply sequences of those RFCs, to send exactly the prescribed bytes, and to leave
  every byte after the reply on the stream.
\<close>

subsection \<open>Codec\<close>

definition VER :: u8 where "VER = 0x05"
definition METHOD_NO_AUTH :: u8 where "METHOD_NO_AUTH = 0x00"
definition METHOD_USER_PASS :: u8 where "METHOD_USER_PASS = 0x02"
definition METHOD_NONE_ACCEPTABLE :: u8 where "METHOD_NONE_ACCEPTABLE = 0xFF"
definition CMD_CONNECT :: u8 where "CMD_CONNECT = 0x01"
definition RSV :: u8 where "RSV = 0x00"
definition ATYP_IPV4 :: u8 where "ATYP_IPV4 = 0x01"
definition ATYP_DOMAIN :: u8 where "ATYP_DOMAIN = 0x03"
definition ATYP_IPV6 :: u8 where "ATYP_IPV6 = 0x04"
definition SUBNEG_VER :: u8 where "SUBNEG_VER = 0x01"
definition SUBNEG_STATUS_OK :: u8 where "SUBNEG_STATUS_OK = 0x00"

lemmas socks5_consts = VER_def METHOD_NO_AUTH_def METHOD_USER_PASS_def METHOD_NONE_ACCEPTABLE_def
  CMD_CONNECT_def RSV_def ATYP_IPV4_def ATYP_DOMAIN_def ATYP_IPV6_def SUBNEG_VER_def SUBNEG_STATUS_OK_def

datatype auth = NoneAuth | UserPassword (auth_user: str) (auth_pass: str)

fun auth_methods :: "auth \<Rightarrow> u8 list" where
  "auth_methods NoneAuth = [METHOD_NO_AUTH]"
| "auth_methods (UserPassword _ _) = [METHOD_NO_AUTH, METHOD_USER_PASS]"

definition build_greeting :: "auth \<Rightarrow> u8 list" where
  "build_greeting a = VER # word_of_nat (length (auth_methods a)) # auth_methods a"

datatype greeting_next = SendConnect | RunUserPassSubneg

definition parse_greeting_reply :: "u8 \<times> u8 \<Rightarrow> auth \<Rightarrow> greeting_next io_result" where
  "parse_greeting_reply reply a =
     (if fst reply \<noteq> VER then
        Inl (IoError InvalidData [Lit ''socks5: bad greeting reply VER=0x'', Hex2 (fst reply)])
      else if snd reply = METHOD_NO_AUTH then Inr SendConnect
      else if snd reply = METHOD_USER_PASS then
        (case a of
           UserPassword _ _ \<Rightarrow> Inr RunUserPassSubneg
         | NoneAuth \<Rightarrow>
             Inl (IoError PermissionDenied
               [Lit ''socks5: server selected USER_PASS but Auth::None was requested'']))
      else if snd reply = METHOD_NONE_ACCEPTABLE then
        Inl (IoError PermissionDenied [Lit ''socks5: server has no acceptable auth method''])
      else
        Inl (IoError InvalidData [Lit ''socks5: server selected unsupported method 0x'', Hex2 (snd reply)]))"

definition build_userpass_subneg :: "str \<Rightarrow> str \<Rightarrow> u8 list io_result" where
  "build_userpass_subneg user pass =
     (if user = [] \<or> length user > 255 \<or> pass = [] \<or> length pass > 255 then
        Inl (IoError InvalidInput [Lit ''socks5: user/pass must each be 1..=255 bytes''])
      else Inr (SUBNEG_VER # word_of_nat (length user) # user @ word_of_nat (length pass) # pass))"

definition parse_userpass_reply :: "u8 \<times> u8 \<Rightarrow> unit io_result" where
  "parse_userpass_reply reply =
     (if fst reply \<noteq> SUBNEG_VER then
        Inl (IoError InvalidData [Lit ''socks5: bad subneg reply VER=0x'', Hex2 (fst reply)])
      else if snd reply \<noteq> SUBNEG_STATUS_OK then
        Inl (IoError PermissionDenied
          [Lit ''socks5: userpass auth rejected (status=0x'', Hex2 (snd reply), Lit '')''])
      else Inr ())"

definition build_connect_request :: "str \<Rightarrow> u16 \<Rightarrow> u8 list io_result" where
  "build_connect_request host port =
     (if host = [] \<or> length host > 255 then
        Inl (IoError InvalidInput [Lit ''socks5: hostname must be 1..=255 bytes''])
      else Inr ([VER, CMD_CONNECT, RSV, ATYP_DOMAIN, word_of_nat (length host)] @ host
                @ u16_to_be_bytes port))"

datatype connect_atyp = Ipv4 | Ipv6 | Domain

fun fixed_skip :: "connect_atyp \<Rightarrow> nat option" where
  "fixed_skip Ipv4 = Some (4 + 2)"
| "fixed_skip Ipv6 = Some (16 + 2)"
| "fixed_skip Domain = None"

definition map_rep_kind :: "u8 \<Rightarrow> error_kind" where
  "map_rep_kind rep =
     (if rep = 0x01 then OtherKind
      else if rep = 0x02 then PermissionDenied
      else if rep = 0x03 then NetworkUnreachable
      else if rep = 0x04 then HostUnreachable
      else if rep = 0x05 then ConnectionRefused
      else if rep = 0x06 then TimedOut
      else if rep = 0x07 then Unsupported
      else if rep = 0x08 then Unsupported
      else OtherKind)"

definition rep_text :: "u8 \<Rightarrow> string" where
  "rep_text rep =
     (if rep = 0x00 then ''succeeded''
      else if rep = 0x01 then ''general SOCKS server failure''
      else if rep = 0x02 then ''connection not allowed by ruleset''
      else if rep = 0x03 then ''network unreachable''
      else if rep = 0x04 then ''host unreachable''
      else if rep = 0x05 then ''connection refused''
      else if rep = 0x06 then ''TTL expired''
      else if rep = 0x07 then ''command not supported''
      else if rep = 0x08 then ''address type not supported''
      else ''unknown REP'')"

definition parse_connect_reply_head :: "u8 \<times> u8 \<times> u8 \<times> u8 \<Rightarrow> connect_atyp io_result" where
  "parse_connect_reply_head head =
     (case head of (ver, rep, rsv, atyp) \<Rightarrow>
        if ver \<noteq> VER then
          Inl (IoError InvalidData [Lit ''socks5: bad CONNECT reply VER=0x'', Hex2 ver])
        else if rep \<noteq> 0x00 then
          Inl (IoError (map_rep_kind rep)
            [Lit ''socks5: CONNECT rejected (REP='', Lit (rep_text rep), Lit '')''])
        else if atyp = ATYP_IPV4 then Inr Ipv4
        else if atyp = ATYP_IPV6 then Inr Ipv6
        else if atyp = ATYP_DOMAIN then Inr Domain
        else Inl (IoError InvalidData [Lit ''socks5: bad CONNECT reply ATYP=0x'', Hex2 atyp]))"

definition connect_reply_domain_skip :: "u8 \<Rightarrow> nat" where
  "connect_reply_domain_skip len_byte = unat len_byte + 2"

subsection \<open>Client\<close>

text \<open>\<^const>\<open>read_exact\<close> into a fixed-size array.\<close>

definition read_pair :: "(u8 \<times> u8) io" where
  "read_pair = bind_io (read_exact 2) (\<lambda>xs. return_io (xs ! 0, xs ! 1))"

definition read_head :: "(u8 \<times> u8 \<times> u8 \<times> u8) io" where
  "read_head = bind_io (read_exact 4) (\<lambda>xs. return_io (xs ! 0, xs ! 1, xs ! 2, xs ! 3))"

definition userpass_subneg :: "str \<Rightarrow> str \<Rightarrow> unit io" where
  "userpass_subneg user pass =
     bind_io (lift_io (build_userpass_subneg user pass)) (\<lambda>buf.
     then_io (write_all buf) (
     then_io flush (
     bind_io read_pair (\<lambda>reply.
     lift_io (parse_userpass_reply reply)))))"

definition method_negotiation :: "auth \<Rightarrow> unit io" where
  "method_negotiation a =
     then_io (write_all (build_greeting a)) (
     then_io flush (
     bind_io read_pair (\<lambda>reply.
     bind_io (lift_io (parse_greeting_reply reply a)) (\<lambda>nx.
     case nx of
       SendConnect \<Rightarrow> return_io ()
     | RunUserPassSubneg \<Rightarrow> userpass_subneg (auth_user a) (auth_pass a)))))"

definition request_connect :: "str \<Rightarrow> u16 \<Rightarrow> unit io" where
  "request_connect host port =
     bind_io (lift_io (build_connect_request host port)) (\<lambda>req.
     then_io (write_all req) (
     then_io flush (
     bind_io read_head (\<lambda>head.
     bind_io (lift_io (parse_connect_reply_head head)) (\<lambda>atyp.
     case fixed_skip atyp of
       Some skip \<Rightarrow> then_io (read_exact skip) (return_io ())
     | None \<Rightarrow>
         bind_io (read_exact 1) (\<lambda>n.
         then_io (read_exact (connect_reply_domain_skip (n ! 0))) (return_io ())))))))"

definition connect :: "str \<Rightarrow> u16 \<Rightarrow> auth \<Rightarrow> unit io" where
  "connect host port a = then_io (method_negotiation a) (request_connect host port)"

subsection \<open>Reading the replies\<close>

lemma then_io_Inr: "m s = (Inr x, s1) \<Longrightarrow> then_io m k s = k s1"
  by (simp add: io_simps)

lemma bind_io_Inr: "m s = (Inr x, s1) \<Longrightarrow> bind_io m f s = f x s1"
  by (simp add: io_simps)

lemma bind_io_Inl: "m s = (Inl e, s1) \<Longrightarrow> bind_io m f s = (Inl e, s1)"
  by (simp add: io_simps)

lemma send_flush:
  assumes "flowing s" "wr s = []"
  shows "then_io (write_all xs) (then_io flush k) s = k (s\<lparr>tx := tx s @ xs\<rparr>)"
  using assms by (simp add: io_simps write_all_def flush_def)

lemma take_exact: "n \<le> length xs \<Longrightarrow> \<exists>ys zs. xs = ys @ zs \<and> length ys = n"
  by (metis append_take_drop_id length_take min.absorb2)

lemma read_exact_cases:
  assumes "flowing s"
  obtains (ok) xs s' where "length xs = n" "read_exact n s = (Inr xs, s')" "exchange s [] xs s'"
  | (eof) s' where "length (incoming s) < n" "read_exact n s = (Inl unexpected_eof, s')"
  using read_exact_exchange [OF assms, of n] by (fastforce split: if_splits)

lemma read_pair_cases:
  assumes "flowing s"
  obtains (ok) a b s' where "read_pair s = (Inr (a, b), s')" "exchange s [] [a, b] s'"
  | (eof) s' where "length (incoming s) < 2" "read_pair s = (Inl unexpected_eof, s')"
proof (cases rule: read_exact_cases [OF assms, of 2])
  case (1 xs s')
  then obtain a b where "xs = [a, b]"
    by (auto simp: numeral_2_eq_2 length_Suc_conv)
  with 1 show ?thesis
    using that(1) [of a b s'] by (simp add: read_pair_def io_simps)
next
  case (2 s')
  then show ?thesis
    using that(2) [of s'] by (simp add: read_pair_def io_simps)
qed

lemma read_head_cases:
  assumes "flowing s"
  obtains (ok) a b c d s' where "read_head s = (Inr (a, b, c, d), s')" "exchange s [] [a, b, c, d] s'"
  | (eof) s' where "length (incoming s) < 4" "read_head s = (Inl unexpected_eof, s')"
proof (cases rule: read_exact_cases [OF assms, of 4])
  case (1 xs s')
  then obtain a b c d where "xs = [a, b, c, d]"
    by (auto simp: eval_nat_numeral length_Suc_conv)
  with 1 show ?thesis
    using that(1) [of a b c d s'] by (simp add: read_head_def io_simps)
next
  case (2 s')
  then show ?thesis
    using that(2) [of s'] by (simp add: read_head_def io_simps)
qed

subsection \<open>The phases\<close>

definition subneg_ok :: "str \<Rightarrow> str \<Rightarrow> u8 list \<Rightarrow> u8 list \<Rightarrow> bool" where
  "subneg_ok user pass out inp \<longleftrightarrow> build_userpass_subneg user pass = Inr out \<and> inp = [0x01, 0x00]"

definition nego_ok :: "auth \<Rightarrow> u8 list \<Rightarrow> u8 list \<Rightarrow> bool" where
  "nego_ok a out inp \<longleftrightarrow>
     inp = [0x05, 0x00] \<and> out = build_greeting a
     \<or> (\<exists>user pass sub. a = UserPassword user pass \<and> build_userpass_subneg user pass = Inr sub
          \<and> inp = [0x05, 0x02, 0x01, 0x00] \<and> out = build_greeting a @ sub)"

lemma subneg_phase: "phase (userpass_subneg user pass) (subneg_ok user pass)"
proof
  fix s s'
  assume s: "flowing s" "wr s = []" "userpass_subneg user pass s = (Inr (), s')"
  then obtain buf where b: "build_userpass_subneg user pass = Inr buf"
    by (auto simp: userpass_subneg_def io_simps split: sum.splits)
  let ?s = "s\<lparr>tx := tx s @ buf\<rparr>"
  have run: "userpass_subneg user pass s = bind_io read_pair (\<lambda>r. lift_io (parse_userpass_reply r)) ?s"
    using b s(1,2) by (simp add: userpass_subneg_def bind_io_Inr lift_io_def send_flush)
  have fl: "flowing ?s"
    using s(1) by simp
  show "\<exists>out inp. subneg_ok user pass out inp \<and> exchange s out inp s'"
  proof (cases rule: read_pair_cases [OF fl])
    case (1 x y s1)
    then show ?thesis
      using s run b
      by (intro exI [of _ buf] exI [of _ "[x, y]"])
         (auto simp: bind_io_Inr lift_io_def parse_userpass_reply_def subneg_ok_def socks5_consts exchange_def
           split: if_splits)
  qed (use s run in \<open>auto simp: bind_io_Inl\<close>)
next
  fix s out inp rest
  assume s: "flowing s" "wr s = []" "subneg_ok user pass out inp" "incoming s = inp @ rest"
  then have b: "build_userpass_subneg user pass = Inr out" and i: "inp = [0x01, 0x00]"
    by (auto simp: subneg_ok_def)
  let ?s = "s\<lparr>tx := tx s @ out\<rparr>"
  have run: "userpass_subneg user pass s = bind_io read_pair (\<lambda>r. lift_io (parse_userpass_reply r)) ?s"
    using b s(1,2) by (simp add: userpass_subneg_def bind_io_Inr lift_io_def send_flush)
  have fl: "flowing ?s"
    using s(1) by simp
  show "\<exists>s'. userpass_subneg user pass s = (Inr (), s') \<and> exchange s out inp s'"
  proof (cases rule: read_pair_cases [OF fl])
    case (1 x y s1)
    then show ?thesis
      using s run i
      by (auto simp: bind_io_Inr lift_io_def parse_userpass_reply_def socks5_consts exchange_def)
  qed (use s run i in auto)
qed

interpretation subneg: phase "userpass_subneg user pass" "subneg_ok user pass" for user pass
  by (rule subneg_phase)

lemma method_negotiation_reply:
  assumes "flowing s" "wr s = []"
  shows "method_negotiation a s = bind_io read_pair (\<lambda>reply.
     bind_io (lift_io (parse_greeting_reply reply a)) (\<lambda>nx.
     case nx of
       SendConnect \<Rightarrow> return_io ()
     | RunUserPassSubneg \<Rightarrow> userpass_subneg (auth_user a) (auth_pass a))) (s\<lparr>tx := tx s @ build_greeting a\<rparr>)"
  using assms by (simp add: method_negotiation_def send_flush)

lemma nego_phase: "phase (method_negotiation a) (nego_ok a)"
proof
  fix s s'
  assume s: "flowing s" "wr s = []" "method_negotiation a s = (Inr (), s')"
  let ?s = "s\<lparr>tx := tx s @ build_greeting a\<rparr>"
  have fl: "flowing ?s"
    using s(1) by simp
  note run = method_negotiation_reply [OF s(1,2), of a]
  show "\<exists>out inp. nego_ok a out inp \<and> exchange s out inp s'"
  proof (cases rule: read_pair_cases [OF fl])
    case (1 x y s1)
    have s1: "flowing s1" "wr s1 = []" "exchange s (build_greeting a) [x, y] s1"
      using 1(2) s(2) by (simp_all add: exchange_def)
    consider (none) "x = 5" "y = 0" "s' = s1"
      | (user) u p where "x = 5" "y = 2" "a = UserPassword u p" "userpass_subneg u p s1 = (Inr (), s')"
      using s(3) run 1(1)
      by (auto simp: bind_io_Inr io_simps parse_greeting_reply_def socks5_consts
          split: if_splits auth.splits sum.splits)
    then show ?thesis
    proof cases
      case none
      with s1(3) show ?thesis
        unfolding nego_ok_def by blast
    next
      case user
      obtain sub where "build_userpass_subneg u p = Inr sub" "exchange s1 sub [1, 0] s'"
        using subneg.sound [OF s1(1,2) user(4)] by (auto simp: subneg_ok_def)
      with exchange_trans [OF s1(3) this(2)] user show ?thesis
        unfolding nego_ok_def by auto
    qed
  qed (use s(3) run in \<open>auto simp: bind_io_Inl\<close>)
next
  fix s out inp rest
  assume s: "flowing s" "wr s = []" "nego_ok a out inp" "incoming s = inp @ rest"
  let ?s = "s\<lparr>tx := tx s @ build_greeting a\<rparr>"
  have fl: "flowing ?s"
    using s(1) by simp
  note run = method_negotiation_reply [OF s(1,2), of a]
  show "\<exists>s'. method_negotiation a s = (Inr (), s') \<and> exchange s out inp s'"
  proof (cases rule: read_pair_cases [OF fl])
    case (1 x y s1)
    have s1: "flowing s1" "wr s1 = []" "exchange s (build_greeting a) [x, y] s1"
      using 1(2) s(2) by (simp_all add: exchange_def)
    from s(3) consider (none) "inp = [5, 0]" "out = build_greeting a"
      | (user) u p sub where "a = UserPassword u p" "build_userpass_subneg u p = Inr sub"
          "inp = [5, 2, 1, 0]" "out = build_greeting a @ sub"
      unfolding nego_ok_def by blast
    then show ?thesis
    proof cases
      case none
      with s(4) s1(3) have "x = 5" "y = 0"
        by (auto simp: exchange_def)
      with none run 1(1) s1(3) show ?thesis
        by (auto simp: bind_io_Inr io_simps parse_greeting_reply_def socks5_consts)
    next
      case user
      with s(4) s1(3) have xy: "x = 5" "y = 2" "incoming s1 = [1, 0] @ rest"
        by (auto simp: exchange_def)
      obtain s' where "userpass_subneg u p s1 = (Inr (), s')" "exchange s1 sub [1, 0] s'"
        using subneg.complete [OF s1(1,2), of u p sub "[1, 0]" rest] user(2) xy(3)
        by (auto simp: subneg_ok_def)
      with user xy run 1(1) exchange_trans [OF s1(3) this(2)] show ?thesis
        by (auto simp: bind_io_Inr io_simps parse_greeting_reply_def socks5_consts)
    qed
  qed (use s(3,4) in \<open>auto simp: nego_ok_def\<close>)
qed

interpretation nego: phase "method_negotiation a" "nego_ok a" for a
  by (rule nego_phase)

text \<open>The address that follows the head of the reply.\<close>

definition skip_addr :: "connect_atyp \<Rightarrow> unit io" where
  "skip_addr atyp =
     (case fixed_skip atyp of
        Some skip \<Rightarrow> then_io (read_exact skip) (return_io ())
      | None \<Rightarrow>
          bind_io (read_exact 1) (\<lambda>n.
          then_io (read_exact (connect_reply_domain_skip (n ! 0))) (return_io ())))"

fun addr_ok :: "connect_atyp \<Rightarrow> u8 list \<Rightarrow> bool" where
  "addr_ok Ipv4 addr = (length addr = 6)"
| "addr_ok Ipv6 addr = (length addr = 18)"
| "addr_ok Domain addr = (\<exists>n rest. addr = n # rest \<and> length rest = unat n + 2)"

fun atyp_byte :: "connect_atyp \<Rightarrow> u8" where
  "atyp_byte Ipv4 = 0x01"
| "atyp_byte Ipv6 = 0x04"
| "atyp_byte Domain = 0x03"

lemma read_exact_phase: "phase (then_io (read_exact n) (return_io ())) (\<lambda>out inp. out = [] \<and> length inp = n)"
proof
  fix s s'
  assume s: "flowing s" "wr s = []" "then_io (read_exact n) (return_io ()) s = (Inr (), s')"
  show "\<exists>out inp. (out = [] \<and> length inp = n) \<and> exchange s out inp s'"
    by (cases rule: read_exact_cases [OF s(1), of n])
       (use s(3) in \<open>auto simp: return_io_def then_io_def bind_io_Inl bind_io_Inr\<close>)
next
  fix s and out inp rest :: "u8 list"
  assume s: "flowing s" "wr s = []" "out = [] \<and> length inp = n" "incoming s = inp @ rest"
  show "\<exists>s'. then_io (read_exact n) (return_io ()) s = (Inr (), s') \<and> exchange s out inp s'"
  proof (cases rule: read_exact_cases [OF s(1), of n])
    case (1 xs s')
    then show ?thesis
      using s by (auto simp: then_io_Inr return_io_def exchange_def)
  qed (use s in auto)
qed

interpretation rd: phase "then_io (read_exact n) (return_io ())" "\<lambda>out inp. out = [] \<and> length inp = n" for n
  by (rule read_exact_phase)

lemma domain_phase: "phase (skip_addr Domain) (\<lambda>out inp. out = [] \<and> addr_ok Domain inp)"
proof
  fix s s'
  assume s: "flowing s" "wr s = []" "skip_addr Domain s = (Inr (), s')"
  show "\<exists>out inp. (out = [] \<and> addr_ok Domain inp) \<and> exchange s out inp s'"
  proof (cases rule: read_exact_cases [OF s(1), of 1])
    case (1 xs s1)
    then obtain n where n: "xs = [n]"
      by (auto simp: length_Suc_conv)
    have "flowing s1" "wr s1 = []"
      using 1(3) s(2) by (simp_all add: exchange_def)
    with rd.sound [OF this, of "unat n + 2" s'] s(3) 1(2) n obtain inp
      where "length inp = unat n + 2" "exchange s1 [] inp s'"
      by (auto simp: skip_addr_def bind_io_Inr connect_reply_domain_skip_def)
    with exchange_trans [OF 1(3) this(2)] n show ?thesis
      by auto
  qed (use s(3) in \<open>auto simp: skip_addr_def bind_io_Inl\<close>)
next
  fix s and out inp rest :: "u8 list"
  assume s: "flowing s" "wr s = []" "out = [] \<and> addr_ok Domain inp" "incoming s = inp @ rest"
  then obtain n addr where n: "inp = n # addr" "length addr = unat n + 2" "out = []"
    by auto
  show "\<exists>s'. skip_addr Domain s = (Inr (), s') \<and> exchange s out inp s'"
  proof (cases rule: read_exact_cases [OF s(1), of 1])
    case (1 xs s1)
    then have xs: "xs = [n]" and s1: "flowing s1" "wr s1 = []" "incoming s1 = addr @ rest"
      using s(2,4) n by (auto simp: exchange_def length_Suc_conv)
    obtain s' where "then_io (read_exact (unat n + 2)) (return_io ()) s1 = (Inr (), s')" "exchange s1 [] addr s'"
      using rd.complete [OF s1(1,2), of "[]" addr "unat n + 2" rest] n(2) s1(3) by auto
    with exchange_trans [OF 1(3) this(2)] 1(2) xs n show ?thesis
      by (auto simp: skip_addr_def bind_io_Inr connect_reply_domain_skip_def)
  qed (use s n in auto)
qed

lemma skip_addr_phase: "phase (skip_addr atyp) (\<lambda>out inp. out = [] \<and> addr_ok atyp inp)"
  by (cases atyp) (use read_exact_phase [of 6] read_exact_phase [of 18] domain_phase
      in \<open>simp_all add: skip_addr_def\<close>)

interpretation skip: phase "skip_addr atyp" "\<lambda>out inp. out = [] \<and> addr_ok atyp inp" for atyp
  by (rule skip_addr_phase)

lemma parse_connect_reply_head_Inr:
  "parse_connect_reply_head (a, b, c, d) = Inr atyp \<longleftrightarrow> a = 5 \<and> b = 0 \<and> d = atyp_byte atyp"
  by (cases atyp) (auto simp: parse_connect_reply_head_def socks5_consts)

definition conn_ok :: "str \<Rightarrow> u16 \<Rightarrow> u8 list \<Rightarrow> u8 list \<Rightarrow> bool" where
  "conn_ok host port out inp \<longleftrightarrow>
     build_connect_request host port = Inr out
     \<and> (\<exists>rsv atyp addr. inp = [0x05, 0x00, rsv, atyp_byte atyp] @ addr \<and> addr_ok atyp addr)"

lemma request_connect_reply:
  assumes "flowing s" "wr s = []" "build_connect_request host port = Inr req"
  shows "request_connect host port s =
     bind_io read_head (\<lambda>head. bind_io (lift_io (parse_connect_reply_head head)) skip_addr)
       (s\<lparr>tx := tx s @ req\<rparr>)"
  using assms by (simp add: request_connect_def bind_io_Inr lift_io_def send_flush skip_addr_def [abs_def])

lemma conn_phase: "phase (request_connect host port) (conn_ok host port)"
proof
  fix s s'
  assume s: "flowing s" "wr s = []" "request_connect host port s = (Inr (), s')"
  then obtain req where r: "build_connect_request host port = Inr req"
    by (auto simp: request_connect_def io_simps split: sum.splits)
  let ?s = "s\<lparr>tx := tx s @ req\<rparr>"
  have fl: "flowing ?s"
    using s(1) by simp
  note run = request_connect_reply [OF s(1,2) r]
  show "\<exists>out inp. conn_ok host port out inp \<and> exchange s out inp s'"
  proof (cases rule: read_head_cases [OF fl])
    case (1 a b c d s1)
    have s1: "flowing s1" "wr s1 = []" "exchange s req [a, b, c, d] s1"
      using 1(2) s(2) by (simp_all add: exchange_def)
    obtain atyp where at: "parse_connect_reply_head (a, b, c, d) = Inr atyp" "skip_addr atyp s1 = (Inr (), s')"
      using s(3) run 1(1) by (auto simp: bind_io_Inr io_simps split: sum.splits)
    obtain addr where "addr_ok atyp addr" "exchange s1 [] addr s'"
      using skip.sound [OF s1(1,2) at(2)] by blast
    with exchange_trans [OF s1(3) this(2)] at(1) r show ?thesis
      by (auto simp: parse_connect_reply_head_Inr conn_ok_def)
  qed (use s(3) run in \<open>auto simp: bind_io_Inl\<close>)
next
  fix s out inp rest
  assume s: "flowing s" "wr s = []" "conn_ok host port out inp" "incoming s = inp @ rest"
  then obtain rsv atyp addr where r: "build_connect_request host port = Inr out"
      and i: "inp = [5, 0, rsv, atyp_byte atyp] @ addr" "addr_ok atyp addr"
    unfolding conn_ok_def by blast
  let ?s = "s\<lparr>tx := tx s @ out\<rparr>"
  have fl: "flowing ?s"
    using s(1) by simp
  note run = request_connect_reply [OF s(1,2) r]
  show "\<exists>s'. request_connect host port s = (Inr (), s') \<and> exchange s out inp s'"
  proof (cases rule: read_head_cases [OF fl])
    case (1 a b c d s1)
    have s1: "flowing s1" "wr s1 = []" "exchange s out [a, b, c, d] s1"
      using 1(2) s(2) by (simp_all add: exchange_def)
    then have h: "a = 5" "b = 0" "c = rsv" "d = atyp_byte atyp" "incoming s1 = addr @ rest"
      using s(4) i(1) by (auto simp: exchange_def)
    then have p: "parse_connect_reply_head (a, b, c, d) = Inr atyp"
      by (simp add: parse_connect_reply_head_Inr)
    obtain s' where s': "skip_addr atyp s1 = (Inr (), s')" "exchange s1 [] addr s'"
      using skip.complete [OF s1(1,2), of "[]" atyp addr rest] i(2) h(5) by auto
    with run 1(1) p h(1-4) exchange_trans [OF s1(3) s'(2)] i(1) show ?thesis
      by (auto simp: bind_io_Inr lift_io_def)
  qed (use s i in auto)
qed

interpretation handshake: two_phases "method_negotiation a" "nego_ok a" "request_connect host port" "conn_ok host port"
  for a host port
  by (intro two_phases.intro nego_phase conn_phase)

subsection \<open>Reference decoders\<close>

text \<open>What a server reads: RFC 1928 section 4 with a domain name, and RFC 1929 section 2.\<close>

fun decode_connect :: "u8 list \<Rightarrow> (str \<times> u16 \<times> u8 list) option" where
  "decode_connect (ver # cmd # rsv # atyp # n # xs) =
     (if ver = 0x05 \<and> cmd = 0x01 \<and> rsv = 0x00 \<and> atyp = 0x03 \<and> unat n + 2 \<le> length xs
      then Some (take (unat n) xs, u16_from_be_bytes (xs ! unat n) (xs ! (unat n + 1)), drop (unat n + 2) xs)
      else None)"
| "decode_connect _ = None"

definition decode_field :: "u8 list \<Rightarrow> (str \<times> u8 list) option" where
  "decode_field xs =
     (case xs of
        [] \<Rightarrow> None
      | n # ys \<Rightarrow> if unat n \<le> length ys then Some (take (unat n) ys, drop (unat n) ys) else None)"

fun decode_userpass :: "u8 list \<Rightarrow> (str \<times> str \<times> u8 list) option" where
  "decode_userpass (ver # xs) =
     (if ver \<noteq> 0x01 then None
      else case decode_field xs of
             None \<Rightarrow> None
           | Some (user, ys) \<Rightarrow>
               (case decode_field ys of None \<Rightarrow> None | Some (pass, rest) \<Rightarrow> Some (user, pass, rest)))"
| "decode_userpass [] = None"

lemma unat_length_byte: "length xs \<le> 255 \<Longrightarrow> unat (word_of_nat (length xs) :: u8) = length xs"
  by (simp add: unat_of_nat)

lemma decode_field_append:
  "length xs \<le> 255 \<Longrightarrow> decode_field (word_of_nat (length xs) # xs @ rest) = Some (xs, rest)"
  by (simp add: decode_field_def unat_length_byte)

lemma decode_userpass_build:
  "build_userpass_subneg user pass = Inr out \<Longrightarrow> decode_userpass (out @ rest) = Some (user, pass, rest)"
  by (auto simp: build_userpass_subneg_def socks5_consts decode_field_append split: if_splits)

lemma decode_connect_build:
  "build_connect_request host port = Inr out \<Longrightarrow> decode_connect (out @ rest) = Some (host, port, rest)"
  by (auto simp: build_connect_request_def socks5_consts unat_length_byte u16_to_be_bytes_def nth_append
      u16_be_roundtrip split: if_splits)

subsection \<open>Properties\<close>

text \<open>
  C2. On a stream that delivers data in any segmentation, the handshake succeeds exactly when the peer's
  bytes start with a reply sequence the RFCs allow for the offered authentication. It has then written
  exactly the greeting, the sub-negotiation when that was selected, and the CONNECT request, and it has
  consumed exactly that reply: every later byte is still on the stream.
\<close>

theorem connect_correct:
  assumes "flowing s" "wr s = []"
  shows "(\<forall>s'. connect host port a s = (Inr (), s') \<longrightarrow>
             (\<exists>out inp. seq_ok (nego_ok a) (conn_ok host port) out inp \<and> exchange s out inp s'))
         \<and> (\<forall>out inp rest. seq_ok (nego_ok a) (conn_ok host port) out inp \<and> incoming s = inp @ rest \<longrightarrow>
             (\<exists>s'. connect host port a s = (Inr (), s') \<and> exchange s out inp s'))"
  unfolding connect_def
  using handshake.both.sound [OF assms] handshake.both.complete [OF assms] by blast

text \<open>A server that asks for the password, answers with an IPv4 address, and then sends two bytes.\<close>

theorem connect_correct_witness:
  "\<exists>s'. connect (bs ''a.b'') 443 (UserPassword [117] [112])
       \<lparr>rx = [Data [5], Data [2, 1, 0, 5], Data [0, 0, 1, 127, 0, 0, 1], Data [0, 80, 104, 105]], tx = [], wr = []\<rparr>
       = (Inr (), s')
     \<and> tx s' = [5, 2, 0, 2, 1, 1, 117, 1, 112, 5, 1, 0, 3, 3, 97, 46, 98, 1, 187]
     \<and> incoming s' = [104, 105]"
proof -
  let ?s = "\<lparr>rx = [Data [5], Data [2, 1, 0, 5], Data [0, 0, 1, 127, 0, 0, 1], Data [0, 80, 104, 105]], tx = [], wr = []\<rparr>"
  let ?a = "UserPassword [117] [112]"
  let ?sub = "[1, 1, 117, 1, 112] :: u8 list" and ?req = "[5, 1, 0, 3, 3, 97, 46, 98, 1, 187] :: u8 list"
  have n: "nego_ok ?a (build_greeting ?a @ ?sub) [5, 2, 1, 0]"
    by (simp add: nego_ok_def build_userpass_subneg_def socks5_consts)
  have c: "conn_ok (bs ''a.b'') 443 ?req ([5, 0, 0, 1] @ [127, 0, 0, 1, 0, 80])"
    unfolding conn_ok_def
    by (intro conjI exI [of _ "0 :: u8"] exI [of _ Ipv4] exI [of _ "[127, 0, 0, 1, 0, 80] :: u8 list"])
       (simp_all add: build_connect_request_def socks5_consts bs_def u16_to_be_bytes_def)
  have "seq_ok (nego_ok ?a) (conn_ok (bs ''a.b'') 443) ((build_greeting ?a @ ?sub) @ ?req)
      ([5, 2, 1, 0] @ [5, 0, 0, 1] @ [127, 0, 0, 1, 0, 80])"
    unfolding seq_ok_def using n c by blast
  moreover have "flowing ?s" "wr ?s = []"
      "incoming ?s = ([5, 2, 1, 0] @ [5, 0, 0, 1] @ [127, 0, 0, 1, 0, 80]) @ [104, 105]"
    by (simp_all add: flowing_def incoming_def)
  ultimately obtain s' where "connect (bs ''a.b'') 443 ?a ?s = (Inr (), s')"
      "exchange ?s ((build_greeting ?a @ ?sub) @ ?req) ([5, 2, 1, 0] @ [5, 0, 0, 1] @ [127, 0, 0, 1, 0, 80]) s'"
    using connect_correct [of ?s "bs ''a.b''" 443 ?a] by blast
  then show ?thesis
    by (auto simp: exchange_def incoming_def build_greeting_def socks5_consts)
qed

text \<open>
  A server that reads as RFC 1928 and RFC 1929 prescribe recovers from the emitted requests exactly
  the host and port, and exactly the user and password, whatever follows them on the wire. In particular
  two different isolation keys never look the same to the relay.
\<close>

theorem socks5_requests_roundtrip:
  "(\<forall>out. build_connect_request host port = Inr out \<longrightarrow> decode_connect (out @ rest) = Some (host, port, rest))
   \<and> (\<forall>out. build_userpass_subneg user pass = Inr out \<longrightarrow> decode_userpass (out @ rest) = Some (user, pass, rest))"
  using decode_connect_build decode_userpass_build by blast

theorem socks5_requests_roundtrip_witness:
  "decode_connect ([5, 1, 0, 3, 1, 120, 0, 80] @ [9]) = Some (bs ''x'', 80, [9])
   \<and> decode_userpass ([1, 1, 117, 2, 112, 113] @ []) = Some (bs ''u'', bs ''pq'', [])"
  using socks5_requests_roundtrip [of "bs ''x''" 80 "[9]" "[]" "[]"]
    socks5_requests_roundtrip [of "[]" 0 "[]" "bs ''u''" "bs ''pq''"]
  by (auto simp: build_connect_request_def build_userpass_subneg_def socks5_consts bs_def u16_to_be_bytes_def)

text \<open>
  A CONNECT that the server refuses fails with the error kind of its REP code, after the whole
  request has been sent.
\<close>

theorem connect_rep_error:
  assumes "flowing s" "wr s = []" "build_connect_request host port = Inr req"
    and "incoming s = [0x05, 0x00] @ [0x05, rep, rsv, atyp] @ rest" "rep \<noteq> 0"
  shows "\<exists>e s'. connect host port a s = (Inl e, s') \<and> err_kind e = map_rep_kind rep
           \<and> tx s' = tx s @ build_greeting a @ req"
proof -
  have "nego_ok a (build_greeting a) [5, 0]"
    by (simp add: nego_ok_def)
  from nego.complete [OF assms(1,2) this, of "[5, rep, rsv, atyp] @ rest"] assms(4)
  obtain s1 where s1: "method_negotiation a s = (Inr (), s1)" "exchange s (build_greeting a) [5, 0] s1"
    by auto
  then have fl: "flowing s1" "wr s1 = []" "incoming s1 = [5, rep, rsv, atyp] @ rest"
    using assms(2,4) by (auto simp: exchange_def)
  let ?s = "s1\<lparr>tx := tx s1 @ req\<rparr>"
  have run: "connect host port a s =
      bind_io read_head (\<lambda>head. bind_io (lift_io (parse_connect_reply_head head)) skip_addr) ?s"
    using request_connect_reply [OF fl(1,2) assms(3)] s1(1) by (simp add: connect_def then_io_Inr)
  have fl': "flowing ?s"
    using fl(1) by simp
  show ?thesis
  proof (cases rule: read_head_cases [OF fl'])
    case (1 w x y z s2)
    then have "w = 5" "x = rep" "y = rsv" "z = atyp" "tx s2 = tx s @ build_greeting a @ req"
      using fl(3) s1(2) by (auto simp: exchange_def)
    then show ?thesis
      using run 1(1) assms(5)
      by (auto simp: bind_io_Inr bind_io_Inl lift_io_def parse_connect_reply_head_def socks5_consts)
  qed (use fl(3) in auto)
qed

theorem connect_rep_error_witness:
  "\<exists>e s'. connect (bs ''h'') 80 NoneAuth \<lparr>rx = [Data [5, 0, 5], Data [4, 0, 1]], tx = [], wr = []\<rparr> = (Inl e, s')
     \<and> err_kind e = HostUnreachable \<and> tx s' = [] @ [5, 1, 0] @ [5, 1, 0, 3, 1, 104, 0, 80]"
  using connect_rep_error [of "\<lparr>rx = [Data [5, 0, 5], Data [4, 0, 1]], tx = [], wr = []\<rparr>" "bs ''h''" 80
      "[5, 1, 0, 3, 1, 104, 0, 80]" 4 0 1 "[]" NoneAuth]
  by (simp add: flowing_def incoming_def build_connect_request_def socks5_consts bs_def u16_to_be_bytes_def
      build_greeting_def map_rep_kind_def)

end
