(* ===== verification/Mux.thy ===== *)
theory Mux
  imports Socks5 Conn_Pool
begin

text \<open>
  Dialing: the dialer contract (\<^verbatim>\<open>crates/zp-kernel-bundle/src/dial.rs\<close>), the multiplexed relay session
  (\<^verbatim>\<open>kernel/transport/yamux.rs\<close>) and the default dialer that opens a stream on it and runs SOCKS5
  (\<^verbatim>\<open>kernel/transport/dialer.rs\<close>). The \<^verbatim>\<open>yamux\<close> crate's connection is a parameter: what its polls
  return. A reply channel is a number. The driver is one function per tick; the session cache, which
  several tasks and drivers change between their suspension points, is a transition relation.
\<close>

subsection \<open>The dialer contract\<close>

record target_addr =
  target_host :: str
  target_port :: u16
  target_isolation :: "str option"

datatype dial_error =
    RelaySession (stage: string) (dial_detail: io_error)
  | TargetConnect (stage: string) (dial_detail: io_error)
  | Custom (stage: string) (custom_detail: str)

definition dial_code :: "dial_error \<Rightarrow> string" where
  "dial_code e = stage e"

definition detail :: "dial_error \<Rightarrow> fmt" where
  "detail e =
     (case e of RelaySession _ d \<Rightarrow> DispErr d | TargetConnect _ d \<Rightarrow> DispErr d | Custom _ d \<Rightarrow> Disp d)"

definition dial_display :: "dial_error \<Rightarrow> fmt list" where
  "dial_display e = [Lit (dial_code e), Lit '': '', detail e]"

definition injected_dialer :: "'d option \<Rightarrow> 'd option" where
  "injected_dialer current = current"

definition set_dialer :: "'d \<Rightarrow> 'd option \<Rightarrow> 'd option" where
  "set_dialer d current = Some d"

definition clear_dialer :: "'d option \<Rightarrow> 'd option" where
  "clear_dialer current = None"

definition dialer :: "'d \<Rightarrow> 'd option \<Rightarrow> 'd" where
  "dialer relay_dialer current = (case injected_dialer current of Some d \<Rightarrow> d | None \<Rightarrow> relay_dialer)"

subsection \<open>The driver of a session\<close>

datatype inbound = Stream | Ended

text \<open>What the polls of one tick return.\<close>

record 's tick =
  cmds :: "nat list"
  cmds_closed :: bool
  next_inbound :: "inbound poll"
  new_outbound :: "(str + 's) poll"
  buffered :: bool

record 's driver =
  waiting :: "nat list"
  replies :: "(nat \<times> 's io_result) list"

datatype event = Shutdown | EofEvent

text \<open>The event that ends the loop, if any; otherwise whether the task wakes itself.\<close>

definition drive_tick :: "'s tick \<Rightarrow> 's driver \<Rightarrow> (event + bool) \<times> 's driver" where
  "drive_tick t d =
     (let d = d\<lparr>waiting := waiting d @ cmds t\<rparr> in
      if cmds_closed t then (Inl Shutdown, d)
      else case next_inbound t of
             Ready Ended \<Rightarrow> (Inl EofEvent, d)
           | inb \<Rightarrow>
               let progress = (inb = Ready Stream) in
               (case waiting d of
                  [] \<Rightarrow> (Inr (progress \<or> buffered t), d)
                | reply # rest \<Rightarrow>
                    (case new_outbound t of
                       Ready (Inr s) \<Rightarrow>
                         (Inr True, d\<lparr>waiting := rest, replies := replies d @ [(reply, Inr s)]\<rparr>)
                     | Ready (Inl e) \<Rightarrow>
                         (Inl EofEvent, d\<lparr>waiting := rest, replies := replies d @
                            [(reply, Inl (IoError OtherKind [Lit ''yamux: open: '', Disp e]))]\<rparr>)
                     | Pending \<Rightarrow> (Inr (progress \<or> buffered t), d))))"

definition drive_exit :: "event \<Rightarrow> 's driver \<Rightarrow> 's driver" where
  "drive_exit e d =
     (case e of
        Shutdown \<Rightarrow> d\<lparr>waiting := []\<rparr>
      | EofEvent \<Rightarrow> d\<lparr>waiting := [], replies := replies d @
            map (\<lambda>reply. (reply, Inl (IoError ConnectionReset [Lit ''yamux: connection closed'']))) (waiting d)\<rparr>)"

fun drive :: "'s tick list \<Rightarrow> 's driver \<Rightarrow> event option \<times> 's driver" where
  "drive [] d = (None, d)"
| "drive (t # ts) d =
     (case drive_tick t d of
        (Inl e, d') \<Rightarrow> (Some e, drive_exit e d')
      | (Inr _, d') \<Rightarrow> drive ts d')"

text \<open>
  What a caller gets: an error at once when the driver is already gone, otherwise its reply, an error
  when the driver has gone without one, or nothing yet.
\<close>

definition open_stream :: "bool \<Rightarrow> nat \<Rightarrow> event option \<times> 's driver \<Rightarrow> 's io_result option" where
  "open_stream alive reply res =
     (if \<not> alive then Some (Inl (IoError BrokenPipe [Lit ''mux: driver gone'']))
      else case map_of (replies (snd res)) reply of
             Some r \<Rightarrow> Some r
           | None \<Rightarrow>
               (case fst res of
                  None \<Rightarrow> None
                | Some _ \<Rightarrow> Some (Inl (IoError BrokenPipe [Lit ''mux: driver dropped reply'']))))"

subsection \<open>The session cache\<close>

text \<open>
  Sessions and tasks are numbers. A session lives while its command channel has a sender: the cache or
  a task inside \<^verbatim>\<open>connect\<close>.
\<close>

record mux =
  cache :: "nat option"
  next_session :: nat
  openers :: "nat list"
  holders :: "(nat \<times> nat) list"
  streams :: "(nat \<times> nat) list"
  gone :: "nat list"

definition mux_init :: mux where
  "mux_init = \<lparr>cache = None, next_session = 0, openers = [], holders = [], streams = [], gone = []\<rparr>"

definition invalidate :: "mux \<Rightarrow> mux" where
  "invalidate m = m\<lparr>cache := None\<rparr>"

definition get_or_open_begin :: "nat \<Rightarrow> mux \<Rightarrow> mux" where
  "get_or_open_begin task m =
     (case cache m of
        Some s \<Rightarrow> m\<lparr>holders := (task, s) # holders m\<rparr>
      | None \<Rightarrow> m\<lparr>openers := task # openers m\<rparr>)"

definition get_or_open_end :: "nat \<Rightarrow> mux \<Rightarrow> mux" where
  "get_or_open_end task m =
     m\<lparr>openers := remove1 task (openers m), cache := Some (next_session m),
       holders := (task, next_session m) # holders m, next_session := Suc (next_session m)\<rparr>"

definition driver_exit :: "nat \<Rightarrow> mux \<Rightarrow> mux" where
  "driver_exit s m = (invalidate m)\<lparr>gone := s # gone m, streams := filter (\<lambda>(_, s'). s' \<noteq> s) (streams m)\<rparr>"

definition has_sender :: "nat \<Rightarrow> mux \<Rightarrow> bool" where
  "has_sender s m \<longleftrightarrow> cache m = Some s \<or> s \<in> snd ` set (holders m)"

text \<open>
  Steps between suspension points. The driver's own shutdown happens when no sender is left; no rule is
  for a failing transport.
\<close>

inductive mux_step :: "mux \<Rightarrow> mux \<Rightarrow> bool" where
  lookup: "mux_step m (get_or_open_begin task m)"
| opened: "task \<in> set (openers m) \<Longrightarrow> mux_step m (get_or_open_end task m)"
| stream: "(task, s) \<in> set (holders m) \<Longrightarrow> s \<notin> set (gone m) \<Longrightarrow> mux_step m (m\<lparr>streams := (task, s) # streams m\<rparr>)"
| released: "(task, s) \<in> set (streams m) \<Longrightarrow> mux_step m (m\<lparr>holders := filter (\<lambda>h. h \<noteq> (task, s)) (holders m)\<rparr>)"
| shutdown: "s < next_session m \<Longrightarrow> s \<notin> set (gone m) \<Longrightarrow> \<not> has_sender s m \<Longrightarrow> mux_step m (driver_exit s m)"

subsection \<open>The relay dialer\<close>

definition isolation_auth :: "str option \<Rightarrow> auth" where
  "isolation_auth key =
     (case key of
        Some k \<Rightarrow> if 1 \<le> length k \<and> length k \<le> 255 then UserPassword k (bs ''zp'') else NoneAuth
      | None \<Rightarrow> NoneAuth)"

text \<open>
  The outcomes of the two session look-ups and of opening a stream on each; \<open>cleared\<close> is whether the
  stale session and both connection pools have been dropped.
\<close>

record relay =
  session1 :: "unit io_result"
  open1 :: "stream io_result"
  session2 :: "unit io_result"
  open2 :: "stream io_result"

definition relay_stream :: "relay \<Rightarrow> ('c, 'h) pools \<Rightarrow> (dial_error + stream) \<times> ('c, 'h) pools" where
  "relay_stream r p =
     (case session1 r of
        Inl e \<Rightarrow> (Inl (RelaySession ''TARGET_CONNECT_FAILED:mux-session'' e), p)
      | Inr _ \<Rightarrow>
          (case open1 r of
             Inr s \<Rightarrow> (Inr s, p)
           | Inl _ \<Rightarrow>
               let p = pool_clear p in
               (case session2 r of
                  Inl e \<Rightarrow> (Inl (RelaySession ''TARGET_CONNECT_FAILED:mux-reopen'' e), p)
                | Inr _ \<Rightarrow>
                    (case open2 r of
                       Inl e \<Rightarrow> (Inl (RelaySession ''TARGET_CONNECT_FAILED:mux-open'' e), p)
                     | Inr s \<Rightarrow> (Inr s, p)))))"

definition relay_connect :: "relay \<Rightarrow> target_addr \<Rightarrow> ('c, 'h) pools \<Rightarrow> (dial_error + stream) \<times> ('c, 'h) pools" where
  "relay_connect r target p =
     (case relay_stream r p of
        (Inl e, p) \<Rightarrow> (Inl e, p)
      | (Inr s, p) \<Rightarrow>
          (case Socks5.connect (target_host target) (target_port target) (isolation_auth (target_isolation target)) s of
             (Inl e, _) \<Rightarrow> (Inl (TargetConnect ''TARGET_CONNECT_FAILED:socks5'' e), p)
           | (Inr _, s') \<Rightarrow> (Inr s', p)))"

subsection \<open>Lemmas\<close>

definition driver_new :: "'s driver" where
  "driver_new = \<lparr>waiting = [], replies = []\<rparr>"

lemma drive_tick_order:
  assumes "drive_tick t d = (r, d')"
  shows "map fst (replies d') @ waiting d' = map fst (replies d) @ waiting d @ cmds t"
  using assms
  by (auto simp: drive_tick_def Let_def split: if_splits poll.splits inbound.splits list.splits sum.splits)

definition served :: "'s tick list \<Rightarrow> nat list \<Rightarrow> event option \<times> 's driver \<Rightarrow> bool" where
  "served ts arrived res \<longleftrightarrow>
     (\<exists>used rest dropped. ts = used @ rest
        \<and> map fst (replies (snd res)) @ waiting (snd res) @ dropped = arrived @ concat (map cmds used)
        \<and> (if fst res = Some Shutdown then True else dropped = [])
        \<and> (if fst res = None then rest = [] else waiting (snd res) = []))"

lemma servedI:
  "\<lbrakk>ts = used @ rest; map fst (replies d) @ waiting d @ dropped = arrived @ concat (map cmds used);
    e \<noteq> Some Shutdown \<Longrightarrow> dropped = []; e = None \<Longrightarrow> rest = []; e \<noteq> None \<Longrightarrow> waiting d = []\<rbrakk> \<Longrightarrow>
     served ts arrived (e, d)"
  unfolding served_def
  by (intro exI [of _ used] exI [of _ rest] exI [of _ dropped]) (simp split: if_splits)

lemma served_Cons:
  assumes "served ts (arrived @ cmds t) res"
  shows "served (t # ts) arrived res"
proof -
  obtain used rest dropped where "ts = used @ rest"
    "map fst (replies (snd res)) @ waiting (snd res) @ dropped = (arrived @ cmds t) @ concat (map cmds used)"
    "if fst res = Some Shutdown then True else dropped = []"
    "if fst res = None then rest = [] else waiting (snd res) = []"
    using assms unfolding served_def by blast
  then show ?thesis
    unfolding served_def by (intro exI [of _ "t # used"] exI [of _ rest] exI [of _ dropped]) simp
qed

lemma drive_served: "served ts (map fst (replies d) @ waiting d) (drive ts d)"
proof (induction ts arbitrary: d)
  case Nil
  then show ?case
    by (simp add: served_def)
next
  case (Cons t ts)
  obtain r d' where tick: "drive_tick t d = (r, d')"
    by fastforce
  note order = drive_tick_order [OF tick]
  show ?case
  proof (cases r)
    case (Inl e)
    have "served (t # ts) (map fst (replies d) @ waiting d) (Some e, drive_exit e d')"
      using order
      by (intro servedI [where used = "[t]" and rest = ts and dropped = "if e = Shutdown then waiting d' else []"])
         (auto simp: drive_exit_def comp_def split: event.splits)
    with Inl tick show ?thesis by simp
  next
    case (Inr b)
    with Cons.IH [of d'] order tick show ?thesis
      by (auto intro: served_Cons)
  qed
qed

lemma relay_stream_Inr:
  "relay_stream r p = (Inr s, p') \<Longrightarrow>
     open1 r = Inr s \<and> p' = p \<or> (\<exists>e. open1 r = Inl e) \<and> open2 r = Inr s \<and> p' = pool_clear p"
  by (auto simp: relay_stream_def Let_def split: sum.splits)

text \<open>Executions in which no task looks a session up while another one is opening it.\<close>

inductive single_flight :: "mux \<Rightarrow> bool" where
  start: "single_flight mux_init"
| looked: "single_flight m \<Longrightarrow> openers m = [] \<Longrightarrow> single_flight (get_or_open_begin task m)"
| other: "single_flight m \<Longrightarrow> mux_step m m' \<Longrightarrow> openers m' = [] \<or> openers m' = openers m \<Longrightarrow> single_flight m'"

lemma single_flight_inv:
  "single_flight m \<Longrightarrow>
     gone m = [] \<and> snd ` set (holders m) \<subseteq> {0} \<and>
     (cache m = None \<and> next_session m = 0 \<and> length (openers m) \<le> 1 \<or> cache m = Some 0 \<and> next_session m = 1 \<and> openers m = [])"
proof (induction rule: single_flight.induct)
  case start
  then show ?case by (simp add: mux_init_def)
next
  case (looked m task)
  then show ?case
    by (auto simp: get_or_open_begin_def split: option.splits)
next
  case (other m m')
  from other(2) show ?case
  proof cases
    case (lookup task)
    with other show ?thesis
      by (auto simp: get_or_open_begin_def split: option.splits)
  next
    case (opened task)
    then have "openers m = [task]"
      using other(4) by (cases "openers m") auto
    with opened other(4) show ?thesis
      by (auto simp: get_or_open_end_def)
  next
    case (shutdown s)
    with other(4) show ?thesis
      by (auto simp: has_sender_def)
  qed (use other(4) in auto)
qed

subsection \<open>Properties\<close>

text \<open>
  The driver serves open requests in the order of their arrival and each once: at every moment the
  answered ones followed by the waiting ones are those that arrived; when the connection ends all of
  them have been answered, and only an orderly shutdown drops some.
\<close>

theorem driver_answers_in_order:
  "served ts [] (drive ts driver_new)"
  using drive_served [of ts driver_new] by (simp add: driver_new_def)

text \<open>
  As long as no task looks up the session while another one is opening it, the cached session is the
  only one, and no driver ever shuts down under an open stream.
\<close>

theorem mux_single_flight_safe:
  assumes "single_flight m" "mux_step m m'"
  shows "gone m = [] \<and> gone m' = [] \<and> set (streams m) \<subseteq> set (streams m')"
proof -
  note inv = single_flight_inv [OF assms(1)]
  from assms(2) show ?thesis
    by cases (use inv in \<open>auto simp: get_or_open_begin_def get_or_open_end_def has_sender_def split: option.splits\<close>)
qed

theorem mux_single_flight_safe_witness:
  "single_flight (get_or_open_begin 1 mux_init) \<and> mux_step (get_or_open_begin 1 mux_init) (get_or_open_end 1 (get_or_open_begin 1 mux_init))
   \<and> gone (get_or_open_end 1 (get_or_open_begin 1 mux_init)) = []"
proof -
  have s: "single_flight (get_or_open_begin 1 mux_init)"
    by (rule single_flight.looked [OF single_flight.start]) (simp add: mux_init_def)
  have t: "mux_step (get_or_open_begin 1 mux_init) (get_or_open_end 1 (get_or_open_begin 1 mux_init))"
    by (rule mux_step.opened) (simp add: get_or_open_begin_def mux_init_def)
  show ?thesis
    using s t mux_single_flight_safe [OF s t] by blast
qed

text \<open>
  Two tasks that both find the cache empty open two sessions. The second replaces the first in the cache,
  so the first driver loses its last sender while its stream is in use, shuts down, and on its way out
  removes the second session from the cache although that one is alive.
\<close>

theorem mux_concurrent_open:
  "\<exists>m m'. mux_step\<^sup>*\<^sup>* mux_init m \<and> mux_step m m'
     \<and> (1, 0) \<in> set (streams m) \<and> (1, 0) \<notin> set (streams m')
     \<and> cache m = Some 1 \<and> 1 \<notin> set (gone m') \<and> cache m' = None"
proof -
  let ?m1 = "get_or_open_begin 2 (get_or_open_begin 1 mux_init)"
  let ?m2 = "get_or_open_end 2 (get_or_open_end 1 ?m1)"
  let ?m3 = "?m2\<lparr>streams := [(1, 0)]\<rparr>"
  let ?m4 = "?m3\<lparr>holders := filter (\<lambda>h. h \<noteq> (1, 0)) (holders ?m3)\<rparr>"
  note evals = get_or_open_begin_def get_or_open_end_def mux_init_def
  have "mux_step\<^sup>*\<^sup>* mux_init (get_or_open_begin 1 mux_init)"
    by (rule r_into_rtranclp [of mux_step, OF mux_step.lookup])
  then have r1: "mux_step\<^sup>*\<^sup>* mux_init ?m1"
    using mux_step.lookup by (rule rtranclp.rtrancl_into_rtrancl)
  have "mux_step ?m1 (get_or_open_end 1 ?m1)" "mux_step (get_or_open_end 1 ?m1) ?m2"
    by (rule mux_step.opened; simp add: evals)+
  from rtranclp.rtrancl_into_rtrancl [OF rtranclp.rtrancl_into_rtrancl [OF r1 this(1)] this(2)]
  have r2: "mux_step\<^sup>*\<^sup>* mux_init ?m2" .
  have "mux_step ?m2 ?m3"
    using mux_step.stream [of 1 0 ?m2] by (simp add: evals)
  moreover have "mux_step ?m3 ?m4"
    by (rule mux_step.released) simp
  ultimately have "mux_step\<^sup>*\<^sup>* mux_init ?m4"
    using rtranclp.rtrancl_into_rtrancl [OF rtranclp.rtrancl_into_rtrancl [OF r2]] by blast
  moreover have "mux_step ?m4 (driver_exit 0 ?m4)"
    by (rule mux_step.shutdown) (auto simp: has_sender_def evals)
  ultimately show ?thesis
    by (intro exI [of _ ?m4] exI [of _ "driver_exit 0 ?m4"]) (simp add: driver_exit_def invalidate_def evals)
qed

text \<open>
  The bytes of the method negotiation for an isolation key, both ways: a key of 1 to 255 bytes is offered
  as the user name, and sent if the server asks for it; without one, or with a longer one, no
  authentication is offered.
\<close>

definition key_negotiation :: "str option \<Rightarrow> u8 list \<Rightarrow> u8 list \<Rightarrow> bool" where
  "key_negotiation key out inp \<longleftrightarrow>
     (case key of
        Some k \<Rightarrow>
          if k \<noteq> [] \<and> length k < 256 then
            (out, inp) = ([5, 2, 0, 2], [5, 0])
            \<or> (out, inp) = ([5, 2, 0, 2] @ [1, word_of_nat (length k)] @ k @ [2, 122, 112], [5, 2, 1, 0])
          else (out, inp) = ([5, 1, 0], [5, 0])
      | None \<Rightarrow> (out, inp) = ([5, 1, 0], [5, 0]))"

lemma nego_key: "nego_ok (isolation_auth key) out inp \<Longrightarrow> key_negotiation key out inp"
  by (auto simp: nego_ok_def isolation_auth_def key_negotiation_def build_greeting_def build_userpass_subneg_def
      socks5_consts bs_def Suc_le_eq split: option.splits if_splits)

text \<open>
  C26. A dialed connection is a stream of the relay session, the first one or, when opening one there
  failed, one of the reopened session with all pooled connections dropped. On it exactly a SOCKS5
  handshake has taken place: the negotiation for the isolation key, byte by byte (a key of 1 to 255 bytes
  is the user name; a longer one is not sent at all), then the request for the target's host and port and
  a success reply, of which no byte is left on the stream.
\<close>

theorem relay_connect_sound:
  assumes "relay_connect r target p = (Inr s', p')"
    and "\<forall>s. open1 r = Inr s \<or> open2 r = Inr s \<longrightarrow> flowing s \<and> wr s = []"
  shows "\<exists>s nego chosen rsv atyp addr.
    (open1 r = Inr s \<and> p' = p \<or> (\<exists>e. open1 r = Inl e) \<and> open2 r = Inr s \<and> p' = pool_clear p)
    \<and> key_negotiation (target_isolation target) nego chosen
    \<and> target_host target \<noteq> [] \<and> length (target_host target) < 256 \<and> addr_ok atyp addr
    \<and> exchange s
        (nego @ [5, 1, 0, 3, word_of_nat (length (target_host target))] @ target_host target @ u16_to_be_bytes (target_port target))
        (chosen @ [5, 0, rsv, atyp_byte atyp] @ addr) s'"
proof -
  obtain s where s: "relay_stream r p = (Inr s, p')"
      "Socks5.connect (target_host target) (target_port target) (isolation_auth (target_isolation target)) s = (Inr (), s')"
    using assms(1) by (auto simp: relay_connect_def split: prod.splits sum.splits)
  note opened = relay_stream_Inr [OF s(1)]
  with assms(2) have "flowing s" "wr s = []"
    by blast+
  from handshake.both.sound [OF this s(2) [unfolded connect_def]] obtain o1 i1 o2 i2 where
    hs: "nego_ok (isolation_auth (target_isolation target)) o1 i1" "conn_ok (target_host target) (target_port target) o2 i2"
      "exchange s (o1 @ o2) (i1 @ i2) s'"
    by (auto simp: seq_ok_def)
  from hs(2) obtain rsv atyp addr where
    "o2 = [5, 1, 0, 3, word_of_nat (length (target_host target))] @ target_host target @ u16_to_be_bytes (target_port target)"
    "i2 = [5, 0, rsv, atyp_byte atyp] @ addr" "addr_ok atyp addr" "target_host target \<noteq> [] \<and> length (target_host target) < 256"
    by (auto simp: conn_ok_def build_connect_request_def socks5_consts split: if_splits)
  with opened nego_key [OF hs(1)] hs(3) show ?thesis
    by blast
qed

text \<open>A stale session, and a server that asks for the user name.\<close>

definition sample_reply :: "u8 list" where
  "sample_reply = [5, 2, 1, 0] @ [5, 0, 0, 1] @ [127, 0, 0, 1, 0, 80]"

definition sample_relay :: relay where
  "sample_relay = \<lparr>session1 = Inr (), open1 = Inl (IoError BrokenPipe []), session2 = Inr (),
     open2 = Inr \<lparr>rx = [Data sample_reply], tx = [], wr = []\<rparr>\<rparr>"

definition sample_target :: target_addr where
  "sample_target = \<lparr>target_host = bs ''a.b'', target_port = 443, target_isolation = Some (bs ''k'')\<rparr>"

theorem relay_connect_sound_witness:
  "\<exists>s'. relay_connect sample_relay sample_target \<lparr>idle = [], http2 = []\<rparr> = (Inr s', \<lparr>idle = [], http2 = []\<rparr> :: (nat, nat) pools)
     \<and> tx s' = [5, 2, 0, 2, 1, 1, 107, 2, 122, 112, 5, 1, 0, 3, 3, 97, 46, 98, 1, 187] \<and> incoming s' = []"
proof -
  let ?s = "\<lparr>rx = [Data sample_reply], tx = [], wr = []\<rparr>"
  let ?a = "isolation_auth (Some (bs ''k''))" and ?req = "[5, 1, 0, 3, 3, 97, 46, 98, 1, 187] :: u8 list"
  have fresh: "flowing ?s" "wr ?s = []" "incoming ?s = ([5, 2, 1, 0] @ [5, 0, 0, 1] @ [127, 0, 0, 1, 0, 80]) @ []"
    by (simp_all add: flowing_def incoming_def sample_reply_def)
  have "nego_ok ?a ([5, 2, 0, 2] @ [1, 1, 107, 2, 122, 112]) [5, 2, 1, 0]"
    by (simp add: nego_ok_def isolation_auth_def build_greeting_def build_userpass_subneg_def socks5_consts bs_def)
  moreover have "conn_ok (bs ''a.b'') 443 ?req ([5, 0, 0, 1] @ [127, 0, 0, 1, 0, 80])"
    unfolding conn_ok_def
    by (intro conjI exI [of _ "0 :: u8"] exI [of _ Ipv4] exI [of _ "[127, 0, 0, 1, 0, 80] :: u8 list"])
       (simp_all add: build_connect_request_def socks5_consts bs_def u16_to_be_bytes_def)
  ultimately have "seq_ok (nego_ok ?a) (conn_ok (bs ''a.b'') 443) (([5, 2, 0, 2] @ [1, 1, 107, 2, 122, 112]) @ ?req)
      ([5, 2, 1, 0] @ [5, 0, 0, 1] @ [127, 0, 0, 1, 0, 80])"
    unfolding seq_ok_def by blast
  from handshake.both.complete [OF fresh(1,2) this fresh(3)] obtain s' where
    "Socks5.connect (bs ''a.b'') 443 ?a ?s = (Inr (), s')"
    unfolding connect_def by blast
  then have run: "relay_connect sample_relay sample_target \<lparr>idle = [], http2 = []\<rparr> = (Inr s', \<lparr>idle = [], http2 = []\<rparr> :: (nat, nat) pools)"
    by (simp add: relay_connect_def relay_stream_def sample_relay_def sample_target_def pool_clear_def)
  from relay_connect_sound [OF run] fresh(1,2) obtain nego chosen rsv atyp addr where
    "key_negotiation (Some (bs ''k'')) nego chosen" "addr_ok atyp addr"
    "exchange ?s (nego @ [5, 1, 0, 3, 3] @ bs ''a.b'' @ u16_to_be_bytes 443) (chosen @ [5, 0, rsv, atyp_byte atyp] @ addr) s'"
    by (auto simp: sample_relay_def sample_target_def bs_def)
  then have "tx s' = [5, 2, 0, 2, 1, 1, 107, 2, 122, 112] @ ?req"
      "length addr = 6 \<longrightarrow> length (incoming ?s) = 14 + length (incoming s')" "length addr = 6"
    using fresh(3)
    by (cases atyp; auto simp: key_negotiation_def exchange_def u16_to_be_bytes_def bs_def)+
  with run fresh(3) show ?thesis by auto
qed

text \<open>
  An isolation key of more than 255 bytes is treated like no key, so all such keys share one circuit.
\<close>

theorem isolation_auth_long_key:
  "length k > 255 \<Longrightarrow> isolation_auth (Some k) = isolation_auth None"
  by (simp add: isolation_auth_def)

end
