(* ===== verification/Header_Order.thy ===== *)
theory Header_Order
  imports Utf8 "HOL-Library.Multiset"
begin

text \<open>
  The wire order of request headers, \<^verbatim>\<open>crates/zp-transport-codec/src/header_order.rs\<close>. The sort is
  the stable \<^verbatim>\<open>sort_by_key\<close> of the standard library, which is \<^const>\<open>sort_key\<close>.
\<close>

definition order_rank :: "str list \<Rightarrow> str \<Rightarrow> nat" where
  "order_rank order name =
     (let n = to_ascii_lowercase name
      in case position (\<lambda>x. x = n) order of Some i \<Rightarrow> i | None \<Rightarrow> length order)"

definition navigation_rank :: "str \<Rightarrow> nat" where
  "navigation_rank name =
     (let n = to_ascii_lowercase name in
      if n = bs ''sec-ch-ua'' then 0
      else if n = bs ''sec-ch-ua-mobile'' then 1
      else if n = bs ''sec-ch-ua-platform'' then 2
      else if n = bs ''upgrade-insecure-requests'' then 3
      else if n = bs ''user-agent'' then 4
      else if n = bs ''accept'' then 5
      else if n = bs ''origin'' then 6
      else if n = bs ''sec-fetch-site'' then 7
      else if n = bs ''sec-fetch-mode'' then 8
      else if n = bs ''sec-fetch-user'' then 9
      else if n = bs ''sec-fetch-dest'' then 10
      else if n = bs ''sec-fetch-storage-access'' then 11
      else if n = bs ''referer'' then 12
      else if n = bs ''accept-encoding'' then 13
      else if n = bs ''accept-language'' then 14
      else if n = bs ''priority'' then 15
      else if n = bs ''cookie'' then 900
      else 800)"

definition order_request_headers :: "str list option \<Rightarrow> header list \<Rightarrow> header list" where
  "order_request_headers sw_order hs =
     (case sw_order of
        Some order \<Rightarrow> sort_key (\<lambda>(k, _). order_rank order k) hs
      | None \<Rightarrow> sort_key (\<lambda>(k, _). navigation_rank k) hs)"

definition parse_header_order :: "str \<Rightarrow> str list" where
  "parse_header_order v = filter (\<lambda>s. s \<noteq> []) (map (\<lambda>s. to_ascii_lowercase (trim s)) (split_on 44 v))"

definition header_rank :: "str list option \<Rightarrow> str \<Rightarrow> nat" where
  "header_rank sw_order = (case sw_order of Some order \<Rightarrow> order_rank order | None \<Rightarrow> navigation_rank)"

subsection \<open>Lemmas\<close>

lemma filter_sort_key_same:
  "(\<And>x. x \<in> set xs \<Longrightarrow> P x \<Longrightarrow> f x = c) \<Longrightarrow> filter P (sort_key f xs) = filter P xs"
proof -
  assume same: "\<And>x. x \<in> set xs \<Longrightarrow> P x \<Longrightarrow> f x = c"
  have "filter P (sort_key f xs) = filter P (filter (\<lambda>x. f x = c) (sort_key f xs))"
    using same by (auto intro!: filter_cong)
  also have "\<dots> = filter P (filter (\<lambda>x. f x = c) xs)"
    by (simp only: sort_key_stable)
  also have "\<dots> = filter P xs"
    using same by (auto intro!: filter_cong)
  finally show ?thesis .
qed

lemma rank_cong:
  assumes "to_ascii_lowercase k = to_ascii_lowercase n"
  shows "order_rank order k = order_rank order n" "navigation_rank k = navigation_rank n"
  unfolding order_rank_def navigation_rank_def assms by (rule refl)+

lemma order_rank_nth:
  assumes "distinct order" "i < length order" "to_ascii_lowercase name = order ! i"
  shows "order_rank order name = i"
proof -
  have "position (\<lambda>x. x = order ! i) order = Some i"
    using assms(1,2) by (auto simp: position_Some_iff nth_eq_iff_index_eq)
  with assms(3) show ?thesis
    by (simp add: order_rank_def)
qed

lemma order_request_headers_sort:
  "order_request_headers sw_order hs = sort_key (\<lambda>(k, _). header_rank sw_order k) hs"
  by (simp add: order_request_headers_def header_rank_def split: option.splits)

lemma order_request_headers_named:
  "filter (\<lambda>(k, _). eq_ignore_ascii_case k n) (order_request_headers sw_order hs)
     = filter (\<lambda>(k, _). eq_ignore_ascii_case k n) hs"
proof -
  have same: "header_rank sw_order k = header_rank sw_order n" if "eq_ignore_ascii_case k n" for k
    using rank_cong [OF that [unfolded eq_ignore_ascii_case_def]] by (cases sw_order) (simp_all add: header_rank_def)
  show ?thesis
    unfolding order_request_headers_sort
    by (rule filter_sort_key_same [where c = "header_rank sw_order n"]) (clarsimp, erule same)
qed

subsection \<open>Properties\<close>

text \<open>
  Ordering loses and duplicates nothing, leaves the headers in ascending rank, and keeps the
  relative order of headers of the same name, so repeated fields keep their meaning.
\<close>

theorem order_request_headers_correct:
  "mset (order_request_headers sw_order hs) = mset hs
   \<and> sorted (map (\<lambda>(k, _). header_rank sw_order k) (order_request_headers sw_order hs))
   \<and> filter (\<lambda>(k, _). eq_ignore_ascii_case k n) (order_request_headers sw_order hs)
       = filter (\<lambda>(k, _). eq_ignore_ascii_case k n) hs"
  using order_request_headers_named [of n sw_order hs] by (simp add: order_request_headers_sort)

text \<open>
  A list of distinct lowercase names, joined with commas, is read back as itself, and a header then
  sorts to the place its name has in the list.
\<close>

theorem header_order_roundtrip:
  assumes "list_all (\<lambda>n. n \<noteq> [] \<and> to_ascii_lowercase n = n \<and> 44 \<notin> set n \<and> list_all graphic n) order"
    and "distinct order" "order \<noteq> []"
  shows "parse_header_order (join [44] order) = order
    \<and> (\<forall>i < length order. order_rank (parse_header_order (join [44] order)) (order ! i) = i)"
proof -
  have "split_on 44 (join [44] order) = order"
    using assms(1,3)
  proof (induction order rule: induct_list012)
    case (3 s t ts)
    then show ?case
      by (simp add: split_on_append_sep)
  qed (simp_all add: split_on_absent)
  moreover have "map (\<lambda>s. to_ascii_lowercase (trim s)) order = order"
    using assms(1) by (intro map_idI) (simp add: list_all_iff trim_all_graphic)
  ultimately have "parse_header_order (join [44] order) = order"
    using assms(1) by (simp add: parse_header_order_def list_all_iff)
  moreover have "order_rank order (order ! i) = i" if "i < length order" for i
    using assms(1,2) that by (intro order_rank_nth) (auto simp: list_all_length)
  ultimately show ?thesis by simp
qed

theorem header_order_roundtrip_witness:
  "parse_header_order (join [44] [bs ''host'', bs ''cookie'']) = [bs ''host'', bs ''cookie'']
   \<and> order_rank (parse_header_order (join [44] [bs ''host'', bs ''cookie''])) (bs ''cookie'') = 1"
proof -
  have "parse_header_order (join [44] [bs ''host'', bs ''cookie'']) = [bs ''host'', bs ''cookie'']
   \<and> (\<forall>i < length [bs ''host'', bs ''cookie'']. order_rank (parse_header_order (join [44] [bs ''host'', bs ''cookie'']))
        ([bs ''host'', bs ''cookie''] ! i) = i)"
    by (rule header_order_roundtrip) (simp_all add: byte_simps graphic_def)
  then show ?thesis by auto
qed

end
