(* ===== verification/Shared_Urls.thy ===== *)
theory Shared_Urls
  imports Utf8
begin

text \<open>
  The shared vocabulary of \<^verbatim>\<open>crates/zp-shared\<close>: error codes (\<^verbatim>\<open>errors.rs\<close>), the share-URL
  parser (\<^verbatim>\<open>shareurl.rs\<close>), proxy URLs of subresources (\<^verbatim>\<open>proxyurl.rs\<close>) and the
  challenge classifier (\<^verbatim>\<open>challenge.rs\<close>). Percent encoding is done by the
  \<^verbatim>\<open>percent-encoding\<close> crate, which is a parameter.
\<close>

subsection \<open>Error codes\<close>

datatype error_code =
    BadHmac
  | InvalidShareLink
  | MalformedRoute
  | SwNotReady
  | TargetProtocolBlocked
  | TlsCertificateInvalid
  | TlsHandshakeFailed
  | TargetConnectFailed
  | TargetHttpFailed
  | MalformedHtml
  | RealmInjectionFailure
  | RequestBodyTooLarge
  | SubmissionExpired
  | PolicyBlocked
  | RewriteFailed
  | ScriptSrcBlocked
  | RedirectBodyNonReplayable
  | RedirectLimitExceeded
  | WsBlocked
  | RtcGatewayUnavailable
  | WtUnsupported

fun as_str :: "error_code \<Rightarrow> string" where
  "as_str BadHmac = ''BAD_HMAC''"
| "as_str InvalidShareLink = ''INVALID_SHARE_LINK''"
| "as_str MalformedRoute = ''MALFORMED_ROUTE''"
| "as_str SwNotReady = ''SW_NOT_READY''"
| "as_str TargetProtocolBlocked = ''TARGET_PROTOCOL_BLOCKED''"
| "as_str TlsCertificateInvalid = ''TLS_CERTIFICATE_INVALID''"
| "as_str TlsHandshakeFailed = ''TLS_HANDSHAKE_FAILED''"
| "as_str TargetConnectFailed = ''TARGET_CONNECT_FAILED''"
| "as_str TargetHttpFailed = ''TARGET_HTTP_FAILED''"
| "as_str MalformedHtml = ''MALFORMED_HTML''"
| "as_str RealmInjectionFailure = ''REALM_INJECTION_FAILURE''"
| "as_str RequestBodyTooLarge = ''REQUEST_BODY_TOO_LARGE''"
| "as_str SubmissionExpired = ''SUBMISSION_EXPIRED''"
| "as_str PolicyBlocked = ''POLICY_BLOCKED''"
| "as_str RewriteFailed = ''REWRITE_FAILED''"
| "as_str ScriptSrcBlocked = ''SCRIPT_SRC_BLOCKED''"
| "as_str RedirectBodyNonReplayable = ''REDIRECT_BODY_NONREPLAYABLE''"
| "as_str RedirectLimitExceeded = ''REDIRECT_LIMIT_EXCEEDED''"
| "as_str WsBlocked = ''WS_BLOCKED''"
| "as_str RtcGatewayUnavailable = ''RTC_GATEWAY_UNAVAILABLE''"
| "as_str WtUnsupported = ''WT_UNSUPPORTED''"

definition ALL_CODES :: "error_code list" where
  "ALL_CODES =
     [BadHmac, InvalidShareLink, MalformedRoute, SwNotReady, TargetProtocolBlocked,
      TlsCertificateInvalid, TlsHandshakeFailed, TargetConnectFailed, TargetHttpFailed, MalformedHtml,
      RealmInjectionFailure, RequestBodyTooLarge, SubmissionExpired, PolicyBlocked, RewriteFailed,
      ScriptSrcBlocked, RedirectBodyNonReplayable, RedirectLimitExceeded, WsBlocked,
      RtcGatewayUnavailable, WtUnsupported]"

subsection \<open>Share URLs\<close>

datatype share_url_error = EmptyUrl | InvalidScheme | Malformed

record share_url =
  raw :: str
  scheme :: str
  host :: str

definition host_delim :: "u8 \<Rightarrow> bool" where
  "host_delim c \<longleftrightarrow> c = 47 \<or> c = 63 \<or> c = 35"

definition parse_share_url :: "str \<Rightarrow> share_url_error + share_url" where
  "parse_share_url inp =
     (let s = trim inp in
      if s = [] then Inl EmptyUrl
      else case position (\<lambda>c. c = 58) s of
             None \<Rightarrow> Inl Malformed
           | Some colon \<Rightarrow>
               let lower = to_ascii_lowercase (take colon s) in
               if lower \<noteq> bs ''http'' \<and> lower \<noteq> bs ''https'' then Inl InvalidScheme
               else let after = drop (colon + 1) s in
                    if \<not> starts_with (bs ''//'') after then Inl Malformed
                    else let rest = drop 2 after;
                             host_end = (case position host_delim rest of Some i \<Rightarrow> i | None \<Rightarrow> length rest);
                             h = take host_end rest
                         in if h = [] then Inl Malformed
                            else Inr \<lparr>raw = s, scheme = lower, host = h\<rparr>)"

subsection \<open>Proxy URLs\<close>

definition URL_PARAM_ENCODE :: "u8 \<Rightarrow> bool" where
  "URL_PARAM_ENCODE b \<longleftrightarrow> \<not> is_ascii_alphanumeric b \<and> b \<noteq> 45 \<and> b \<noteq> 46 \<and> b \<noteq> 95 \<and> b \<noteq> 126"

definition split_fragment :: "str \<Rightarrow> str \<times> str" where
  "split_fragment url =
     (case position (\<lambda>c. c = 35) url of
        Some i \<Rightarrow> (take i url, drop i url)
      | None \<Rightarrow> (url, []))"

definition trim_end_slashes :: "str \<Rightarrow> str" where
  "trim_end_slashes s = rev (dropWhile (\<lambda>c. c = 47) (rev s))"

definition subresource_proxy_url ::
    "((u8 \<Rightarrow> bool) \<Rightarrow> str \<Rightarrow> str) \<Rightarrow> str \<Rightarrow> str \<Rightarrow> str \<Rightarrow> str option \<Rightarrow> str" where
  "subresource_proxy_url percent_encode absolute proxy_origin control_prefix tab_id =
     (let (head, fragment) = split_fragment absolute;
          out = trim_end_slashes proxy_origin @ control_prefix;
          out = (if ends_with [47] out then out else out @ [47]);
          out = out @ bs ''api/v2/fetch?url='' @ percent_encode URL_PARAM_ENCODE head;
          out = (case tab_id of
                   Some tab \<Rightarrow> if tab \<noteq> [] then out @ bs ''&tab='' @ percent_encode URL_PARAM_ENCODE tab else out
                 | None \<Rightarrow> out)
      in out @ fragment)"

subsection \<open>Challenge classifier\<close>

definition CHALLENGE_HOST :: str where
  "CHALLENGE_HOST = bs ''challenges.cloudflare.com''"

definition CHALLENGE_PLATFORM_PREFIX :: str where
  "CHALLENGE_PLATFORM_PREFIX = bs ''/cdn-cgi/challenge-platform/''"

definition is_challenge_document :: "str \<Rightarrow> str \<Rightarrow> str \<Rightarrow> bool" where
  "is_challenge_document cf_mitigated h path =
     (let cf = trim cf_mitigated in
      if cf \<noteq> [] \<and> eq_ignore_ascii_case cf (bs ''challenge'') then True
      else if eq_ignore_ascii_case h CHALLENGE_HOST then True
      else starts_with CHALLENGE_PLATFORM_PREFIX path)"

definition challenge_subresource_skip :: "bool \<Rightarrow> bool \<Rightarrow> str \<Rightarrow> str \<Rightarrow> str \<Rightarrow> bool" where
  "challenge_subresource_skip armed is_doc cf_mitigated h path =
     (if \<not> armed \<or> is_doc then False else is_challenge_document cf_mitigated h path)"

subsection \<open>Lemmas\<close>

lemma position_split:
  "position P xs = Some i \<longleftrightarrow> (\<exists>ys z zs. xs = ys @ z # zs \<and> length ys = i \<and> P z \<and> (\<forall>y \<in> set ys. \<not> P y))"
proof
  assume *: "position P xs = Some i"
  then have "xs = take i xs @ xs ! i # drop (Suc i) xs" "P (xs ! i)" "length (take i xs) = i"
    by (auto simp: position_Some_iff id_take_nth_drop)
  then show "\<exists>ys z zs. xs = ys @ z # zs \<and> length ys = i \<and> P z \<and> (\<forall>y \<in> set ys. \<not> P y)"
    using position_take [OF *] by blast
next
  assume "\<exists>ys z zs. xs = ys @ z # zs \<and> length ys = i \<and> P z \<and> (\<forall>y \<in> set ys. \<not> P y)"
  then show "position P xs = Some i"
    by (auto simp: position_Some_iff nth_append)
qed

lemma split_fragment_append:
  assumes "split_fragment url = (h, f)"
  shows "url = h @ f \<and> 35 \<notin> set h \<and> (f = [] \<or> hd f = 35)"
proof (cases "position (\<lambda>c. c = 35) url")
  case None
  with assms show ?thesis
    by (auto simp: split_fragment_def position_None_iff)
next
  case (Some i)
  with assms position_take [OF Some] show ?thesis
    by (auto simp: split_fragment_def position_Some_iff hd_drop_conv_nth)
qed

lemma split_fragment_glue: "35 \<notin> set h \<Longrightarrow> f = [] \<or> hd f = 35 \<Longrightarrow> split_fragment (h @ f) = (h, f)"
proof (cases f)
  case Nil
  assume "35 \<notin> set h"
  then have "position (\<lambda>c. c = 35) h = None"
    by (auto simp: position_None_iff)
  with Nil show ?thesis
    by (simp add: split_fragment_def)
next
  case (Cons c cs)
  assume h: "35 \<notin> set h" and "f = [] \<or> hd f = 35"
  with Cons have "f = 35 # cs"
    by simp
  with h have "position (\<lambda>c. c = 35) (h @ f) = Some (length h)"
    unfolding position_split by (intro exI [of _ h]) auto
  then show ?thesis
    by (simp add: split_fragment_def)
qed

subsection \<open>Properties\<close>

text \<open>
  A share URL is accepted exactly when its trimmed text is an \<open>http\<close> or \<open>https\<close> scheme in any
  letter case, \<open>://\<close>, and a non-empty authority up to the first slash, question mark or hash; the
  result is that text, the lowercase scheme and that authority.
\<close>

theorem parse_share_url_spec:
  "parse_share_url inp = Inr r \<longleftrightarrow>
     (\<exists>sch h tail. trim inp = sch @ bs ''://'' @ h @ tail
        \<and> to_ascii_lowercase sch \<in> {bs ''http'', bs ''https''}
        \<and> h \<noteq> [] \<and> (\<forall>c \<in> set h. \<not> host_delim c) \<and> (tail = [] \<or> host_delim (hd tail))
        \<and> r = \<lparr>raw = trim inp, scheme = to_ascii_lowercase sch, host = h\<rparr>)"
  (is "_ \<longleftrightarrow> ?spec")
proof
  assume ok: "parse_share_url inp = Inr r"
  define s where "s = trim inp"
  obtain k where k: "position (\<lambda>c. c = 58) s = Some k"
    using ok by (auto simp: parse_share_url_def s_def Let_def split: if_splits option.splits)
  define rest where "rest = drop 2 (drop (k + 1) s)"
  define e where "e = (case position host_delim rest of Some i \<Rightarrow> i | None \<Rightarrow> length rest)"
  have P: "to_ascii_lowercase (take k s) \<in> {bs ''http'', bs ''https''}" "starts_with (bs ''//'') (drop (k + 1) s)"
      "take e rest \<noteq> []" "r = \<lparr>raw = s, scheme = to_ascii_lowercase (take k s), host = take e rest\<rparr>"
    using ok k unfolding parse_share_url_def s_def [symmetric] rest_def e_def
    by (auto simp: Let_def split: if_splits option.splits)
  have "s = take k s @ [58] @ drop (k + 1) s"
    using k id_take_nth_drop [of k s] by (auto simp: position_Some_iff)
  moreover have "drop (k + 1) s = bs ''//'' @ rest"
  proof -
    obtain ys where ys: "drop (k + 1) s = bs ''//'' @ ys"
      using P(2) by (rule starts_with_obtain)
    then have "rest = ys"
      unfolding rest_def by (simp add: bs_def)
    with ys show ?thesis by simp
  qed
  ultimately have s: "s = take k s @ bs ''://'' @ take e rest @ drop e rest"
    by (simp add: bs_def)
  have "(\<forall>c \<in> set (take e rest). \<not> host_delim c) \<and> (drop e rest = [] \<or> host_delim (hd (drop e rest)))"
  proof (cases "position host_delim rest")
    case (Some i)
    then have "e = i"
      by (simp add: e_def)
    then show ?thesis
      using position_take [OF Some] Some by (auto simp: position_Some_iff hd_drop_conv_nth)
  next
    case None
    then have "e = length rest"
      by (simp add: e_def)
    with None show ?thesis
      by (simp add: position_None_iff)
  qed
  with P s show ?spec
    unfolding s_def [symmetric] by metis
next
  assume ?spec
  then obtain sch h tail where S: "trim inp = sch @ bs ''://'' @ h @ tail"
      "to_ascii_lowercase sch \<in> {bs ''http'', bs ''https''}" "h \<noteq> []" "\<forall>c \<in> set h. \<not> host_delim c"
      "tail = [] \<or> host_delim (hd tail)"
      "r = \<lparr>raw = trim inp, scheme = to_ascii_lowercase sch, host = h\<rparr>"
    by blast
  have "58 \<notin> set sch"
  proof
    assume "58 \<in> set sch"
    then have "to_lower 58 \<in> set (to_ascii_lowercase sch)"
      by (simp add: to_ascii_lowercase_def)
    with S(2) show False
      by (auto simp: byte_simps)
  qed
  then have k: "position (\<lambda>c. c = 58) (trim inp) = Some (length sch)"
    unfolding position_split S(1) by (intro exI [of _ sch]) (auto simp: bs_def)
  have "(case position host_delim (h @ tail) of Some i \<Rightarrow> i | None \<Rightarrow> length (h @ tail)) = length h"
  proof (cases tail)
    case Nil
    then show ?thesis
      using S(4) by (simp add: position_None_iff [THEN iffD2])
  next
    case (Cons c cs)
    then have "position host_delim (h @ tail) = Some (length h)"
      using S(4,5) unfolding position_split by (intro exI [of _ h]) auto
    then show ?thesis by simp
  qed
  with S k show "parse_share_url inp = Inr r"
    by (auto simp: parse_share_url_def Let_def bs_def starts_with_def)
qed

theorem parse_share_url_spec_witness:
  "parse_share_url (bs ''HTTPS://a.b/c'') = Inr \<lparr>raw = bs ''HTTPS://a.b/c'', scheme = bs ''https'', host = bs ''a.b''\<rparr>"
proof -
  have t: "trim (bs ''HTTPS://a.b/c'') = bs ''HTTPS://a.b/c''"
    by (rule trim_all_graphic) (simp add: bs_def graphic_def)
  show ?thesis
    unfolding parse_share_url_spec t
    by (intro exI [of _ "bs ''HTTPS''"] exI [of _ "bs ''a.b''"] exI [of _ "bs ''/c''"])
       (simp add: byte_simps host_delim_def)
qed

text \<open>The documented behaviour of percent encoding and of the decoding on the other side.\<close>

definition percent_ok :: "((u8 \<Rightarrow> bool) \<Rightarrow> str \<Rightarrow> str) \<Rightarrow> (str \<Rightarrow> str) \<Rightarrow> bool" where
  "percent_ok enc dec \<longleftrightarrow>
     (\<forall>s. dec (enc URL_PARAM_ENCODE s) = s)
     \<and> (\<forall>s. \<forall>b \<in> set (enc URL_PARAM_ENCODE s). b = 37 \<or> \<not> URL_PARAM_ENCODE b)"

text \<open>The receiving side: fragment, path, and the decoded query parameters.\<close>

definition read_param :: "(str \<Rightarrow> str) \<Rightarrow> str \<Rightarrow> str \<times> str" where
  "read_param dec p =
     (case position (\<lambda>c. c = 61) p of
        Some k \<Rightarrow> (take k p, dec (drop (k + 1) p))
      | None \<Rightarrow> (p, []))"

definition read_proxy_url :: "(str \<Rightarrow> str) \<Rightarrow> str \<Rightarrow> (str \<times> (str \<times> str) list \<times> str) option" where
  "read_proxy_url dec url =
     (let (h, fragment) = split_fragment url in
      case position (\<lambda>c. c = 63) h of
        None \<Rightarrow> None
      | Some q \<Rightarrow> Some (take q h, map (read_param dec) (split_on 38 (drop (q + 1) h)), fragment))"

lemma read_param_glue: "61 \<notin> set k \<Longrightarrow> read_param dec (k @ 61 # v) = (k, dec v)"
proof -
  assume "61 \<notin> set k"
  then have "position (\<lambda>c. c = 61) (k @ 61 # v) = Some (length k)"
    unfolding position_split by (intro exI [of _ k]) auto
  then show ?thesis
    by (simp add: read_param_def)
qed

definition proxy_base :: "str \<Rightarrow> str \<Rightarrow> str" where
  "proxy_base proxy_origin control_prefix =
     (let out = trim_end_slashes proxy_origin @ control_prefix
      in (if ends_with [47] out then out else out @ [47]) @ bs ''api/v2/fetch'')"

lemma set_trim_end_slashes: "set (trim_end_slashes s) \<subseteq> set s"
  by (auto simp: trim_end_slashes_def dest!: set_dropWhileD)

text \<open>
  With a percent encoder that behaves as documented, the receiving side recovers from a proxy URL
  exactly the absolute URL without its fragment as the parameter \<open>url\<close>, the tab when one was given, and
  the fragment, whatever characters they contain.
\<close>

theorem subresource_proxy_url_roundtrip:
  assumes "percent_ok enc dec"
    and "\<forall>c \<in> set proxy_origin \<union> set control_prefix. c \<noteq> 35 \<and> c \<noteq> 63"
  shows "read_proxy_url dec (subresource_proxy_url enc absolute proxy_origin control_prefix tab_id) =
    Some (proxy_base proxy_origin control_prefix,
      (bs ''url'', fst (split_fragment absolute))
        # (case tab_id of Some t \<Rightarrow> if t \<noteq> [] then [(bs ''tab'', t)] else [] | None \<Rightarrow> []),
      snd (split_fragment absolute))"
proof -
  obtain h f where hf: "split_fragment absolute = (h, f)"
    by fastforce
  let ?e = "enc URL_PARAM_ENCODE" and ?base = "proxy_base proxy_origin control_prefix"
  define tabs where "tabs = (case tab_id of Some t \<Rightarrow> if t \<noteq> [] then [t] else [] | None \<Rightarrow> [])"
  define query where "query = bs ''url='' @ ?e h @ concat (map (\<lambda>t. bs ''&tab='' @ ?e t) tabs)"
  have safe: "c \<noteq> 35 \<and> c \<noteq> 63 \<and> c \<noteq> 38" if "c \<in> set (?e s)" for c s
  proof -
    have "c = 37 \<or> \<not> URL_PARAM_ENCODE c"
      using assms(1) that unfolding percent_ok_def by blast
    then show ?thesis
      by (auto simp: URL_PARAM_ENCODE_def byte_simps)
  qed
  have url: "subresource_proxy_url enc absolute proxy_origin control_prefix tab_id = (?base @ 63 # query) @ f"
    by (auto simp: subresource_proxy_url_def hf proxy_base_def Let_def query_def tabs_def bs_def split: option.splits)
  have base: "c \<noteq> 35 \<and> c \<noteq> 63" if "c \<in> set ?base" for c
    using that assms(2) set_trim_end_slashes [of proxy_origin]
    by (auto simp: proxy_base_def Let_def bs_def split: if_splits)
  have "35 \<notin> set query"
    using safe by (auto simp: query_def tabs_def bs_def split: option.splits if_splits)
  then have frag: "split_fragment ((?base @ 63 # query) @ f) = (?base @ 63 # query, f)"
    using base split_fragment_append [OF hf] by (intro split_fragment_glue) auto
  have q: "position (\<lambda>c. c = 63) (?base @ 63 # query) = Some (length ?base)"
    using base unfolding position_split by (intro exI [of _ ?base]) auto
  have "38 \<notin> set (bs ''url='' @ ?e h)" "38 \<notin> set (bs ''tab='' @ ?e t)" for t
    using safe by (auto simp: bs_def)
  then have "split_on 38 query = (bs ''url='' @ ?e h) # map (\<lambda>t. bs ''tab='' @ ?e t) tabs"
    using split_on_append_sep [of 38 "bs ''url='' @ ?e h" "bs ''tab='' @ ?e (hd tabs)"]
    by (auto simp: query_def tabs_def split_on_absent bs_def split: option.splits)
  moreover have "read_param dec (bs ''url='' @ ?e s) = (bs ''url'', s)" "read_param dec (bs ''tab='' @ ?e s) = (bs ''tab'', s)" for s
    using read_param_glue [of "bs ''url''" dec "?e s"] read_param_glue [of "bs ''tab''" dec "?e s"] assms(1)
    by (simp_all add: bs_def percent_ok_def)
  ultimately show ?thesis
    unfolding url read_proxy_url_def frag
    by (simp add: Let_def q hf tabs_def split: option.splits)
qed

text \<open>An encoder and a decoder that behave as documented.\<close>

definition hex_digit :: "nat \<Rightarrow> u8" where
  "hex_digit n = (if n < 10 then word_of_nat (48 + n) else word_of_nat (55 + n))"

definition pct_encode :: "(u8 \<Rightarrow> bool) \<Rightarrow> str \<Rightarrow> str" where
  "pct_encode esc s =
     concat (map (\<lambda>b. if esc b then [37, hex_digit (unat b div 16), hex_digit (unat b mod 16)] else [b]) s)"

fun pct_decode :: "str \<Rightarrow> str" where
  "pct_decode [] = []"
| "pct_decode (c # s) =
     (case s of
        a # b # t \<Rightarrow>
          if c = 37 then
            (case (digit_value 16 a, digit_value 16 b) of
               (Some x, Some y) \<Rightarrow> word_of_nat (16 * x + y) # pct_decode t
             | _ \<Rightarrow> c # pct_decode s)
          else c # pct_decode s
      | _ \<Rightarrow> c # pct_decode s)"

lemma hex_digit_value: "n < 16 \<Longrightarrow> digit_value 16 (hex_digit n) = Some n \<and> is_ascii_alphanumeric (hex_digit n)"
proof -
  have "list_all (\<lambda>n. digit_value 16 (hex_digit n) = Some n \<and> is_ascii_alphanumeric (hex_digit n)) [0..<16]"
    by code_simp
  then show "n < 16 \<Longrightarrow> digit_value 16 (hex_digit n) = Some n \<and> is_ascii_alphanumeric (hex_digit n)"
    by (simp add: list_all_iff)
qed

lemma pct_decode_plain: "c \<noteq> 37 \<Longrightarrow> pct_decode (c # s) = c # pct_decode s"
  by (simp split: list.splits)

lemma pct_decode_escape:
  "pct_decode (37 # hex_digit (unat b div 16) # hex_digit (unat b mod 16) # t) = b # pct_decode t"
proof -
  have "unat b < 256"
    using unsigned_less [of b] by simp
  then have "unat b div 16 < 16" "unat b mod 16 < 16"
    by (simp_all add: less_mult_imp_div_less)
  then show ?thesis
    using hex_digit_value [of "unat b div 16"] hex_digit_value [of "unat b mod 16"] by simp
qed

lemma percent_ok_pct: "percent_ok pct_encode pct_decode"
proof -
  have dec: "pct_decode (pct_encode URL_PARAM_ENCODE s) = s" for s
  proof (induction s)
    case (Cons b s)
    have "\<not> URL_PARAM_ENCODE b \<Longrightarrow> b \<noteq> 37"
      by (auto simp: URL_PARAM_ENCODE_def byte_simps)
    with Cons show ?case
      by (cases "URL_PARAM_ENCODE b")
         (auto simp: pct_encode_def pct_decode_escape pct_decode_plain simp del: pct_decode.simps)
  qed (simp add: pct_encode_def)
  have "c = 37 \<or> \<not> URL_PARAM_ENCODE c" if c: "c \<in> set (pct_encode URL_PARAM_ENCODE s)" for c s
  proof -
    obtain b where "c \<in> set (if URL_PARAM_ENCODE b then [37, hex_digit (unat b div 16), hex_digit (unat b mod 16)] else [b])"
      using c unfolding pct_encode_def set_concat set_map by blast
    moreover have "unat b < 256"
      using unsigned_less [of b] by simp
    then have "unat b div 16 < 16" "unat b mod 16 < 16"
      by (simp_all add: less_mult_imp_div_less)
    ultimately show ?thesis
      using hex_digit_value [of "unat b div 16"] hex_digit_value [of "unat b mod 16"]
      by (auto simp: URL_PARAM_ENCODE_def split: if_splits)
  qed
  with dec show ?thesis
    unfolding percent_ok_def by blast
qed

theorem subresource_proxy_url_roundtrip_witness:
  "percent_ok pct_encode pct_decode
   \<and> read_proxy_url pct_decode
       (subresource_proxy_url pct_encode (bs ''https://t/x?a=b&c#i'') (bs ''https://p/'') (bs ''/zp/'') (Some (bs ''7'')))
     = Some (bs ''https://p/zp/api/v2/fetch'', [(bs ''url'', bs ''https://t/x?a=b&c''), (bs ''tab'', bs ''7'')], bs ''#i'')"
proof
  have "split_fragment (bs ''https://t/x?a=b&c#i'') = (bs ''https://t/x?a=b&c'', bs ''#i'')"
    by (simp add: split_fragment_def bs_def)
  moreover have "proxy_base (bs ''https://p/'') (bs ''/zp/'') = bs ''https://p/zp/api/v2/fetch''"
    by (simp add: proxy_base_def trim_end_slashes_def ends_with_def bs_def)
  moreover have "\<forall>c \<in> set (bs ''https://p/'') \<union> set (bs ''/zp/''). c \<noteq> 35 \<and> c \<noteq> 63"
    by (simp add: bs_def)
  ultimately show "read_proxy_url pct_decode
       (subresource_proxy_url pct_encode (bs ''https://t/x?a=b&c#i'') (bs ''https://p/'') (bs ''/zp/'') (Some (bs ''7'')))
     = Some (bs ''https://p/zp/api/v2/fetch'', [(bs ''url'', bs ''https://t/x?a=b&c''), (bs ''tab'', bs ''7'')], bs ''#i'')"
    using subresource_proxy_url_roundtrip [OF percent_ok_pct, of "bs ''https://p/''" "bs ''/zp/''"
        "bs ''https://t/x?a=b&c#i''" "Some (bs ''7'')"] by (simp add: bs_def)
qed (rule percent_ok_pct)

text \<open>
  Every error code is listed once, and different codes have different texts, so the text identifies
  the code.
\<close>

theorem error_codes_complete:
  "c \<in> set ALL_CODES \<and> distinct ALL_CODES \<and> (as_str c = as_str c' \<longleftrightarrow> c = c')"
proof -
  have "c \<in> set ALL_CODES" for c
    by (cases c) (simp_all add: ALL_CODES_def)
  moreover have "distinct (map as_str ALL_CODES)"
    by (simp add: ALL_CODES_def)
  ultimately show ?thesis
    by (auto simp: distinct_map dest: inj_onD)
qed

end
