(* ===== verification/Tls.thy ===== *)
theory Tls
  imports Byte_Stream
begin

text \<open>
  The TLS stream of \<^verbatim>\<open>crates/zp-kernel-bundle/src/kernel/transport/tls.rs\<close>: the pump between a byte stream
  and the \<^verbatim>\<open>rustls\<close> connection, which is a parameter (the record of its operations). For the polls the
  byte stream is a \<open>wire\<close>: the outcomes of the coming polls, pending ones included; for the handshake,
  which awaits, it is a \<^typ>\<open>stream\<close>.

  The results: ciphertext reaches the connection in the order in which it arrived, without loss, and
  leaves it in the order in which it was produced; a read parks only when the socket does.
\<close>

subsection \<open>The wire\<close>

record wire =
  reads :: "rd poll list"
  writes :: "nat io_result poll list"
  flushes :: "unit io_result poll list"
  closes :: "unit io_result poll list"
  sent :: "u8 list"

definition wire_read :: "nat \<Rightarrow> wire \<Rightarrow> u8 list io_result poll \<times> wire" where
  "wire_read n w =
     (case reads w of
        [] \<Rightarrow> (Pending, w)
      | Pending # r \<Rightarrow> (Pending, w\<lparr>reads := r\<rparr>)
      | Ready (RdErr e) # r \<Rightarrow> (Ready (Inl e), w\<lparr>reads := r\<rparr>)
      | Ready (Data d) # r \<Rightarrow>
          (Ready (Inr (take n d)), w\<lparr>reads := (if length d \<le> n then r else Ready (Data (drop n d)) # r)\<rparr>))"

definition wire_write :: "u8 list \<Rightarrow> wire \<Rightarrow> nat io_result poll \<times> wire" where
  "wire_write buf w =
     (case writes w of
        [] \<Rightarrow> (Ready (Inr (length buf)), w\<lparr>sent := sent w @ buf\<rparr>)
      | Pending # r \<Rightarrow> (Pending, w\<lparr>writes := r\<rparr>)
      | Ready (Inl e) # r \<Rightarrow> (Ready (Inl e), w\<lparr>writes := r\<rparr>)
      | Ready (Inr k) # r \<Rightarrow>
          (Ready (Inr (min k (length buf))), w\<lparr>writes := r, sent := sent w @ take k buf\<rparr>))"

definition wire_flush :: "wire \<Rightarrow> unit io_result poll \<times> wire" where
  "wire_flush w = (case flushes w of [] \<Rightarrow> (Ready (Inr ()), w) | r # rs \<Rightarrow> (r, w\<lparr>flushes := rs\<rparr>))"

definition wire_close :: "wire \<Rightarrow> unit io_result poll \<times> wire" where
  "wire_close w = (case closes w of [] \<Rightarrow> (Ready (Inr ()), w) | r # rs \<Rightarrow> (r, w\<lparr>closes := rs\<rparr>))"

subsection \<open>The connection\<close>

datatype rustls_error = SelectedUnofferedCipherSuite | RustlsError str

record 'c conn_ops =
  reader_read :: "nat \<Rightarrow> 'c \<Rightarrow> u8 list io_result \<times> 'c"
  read_tls :: "u8 list \<Rightarrow> 'c \<Rightarrow> str option \<times> nat \<times> 'c"
  process_new_packets :: "'c \<Rightarrow> rustls_error option \<times> 'c"
  wants_write :: "'c \<Rightarrow> bool"
  wants_read :: "'c \<Rightarrow> bool"
  is_handshaking :: "'c \<Rightarrow> bool"
  write_tls :: "'c \<Rightarrow> str option \<times> u8 list \<times> 'c"
  writer_write :: "u8 list \<Rightarrow> 'c \<Rightarrow> nat io_result \<times> 'c"
  send_close_notify :: "'c \<Rightarrow> 'c"

datatype tls_error = TlsProcessError rustls_error | TlsIo io_error

definition is_unoffered_suite :: "tls_error \<Rightarrow> bool" where
  "is_unoffered_suite e \<longleftrightarrow> e = TlsProcessError SelectedUnofferedCipherSuite"

definition display_rustls :: "rustls_error \<Rightarrow> fmt" where
  "display_rustls e =
     (case e of SelectedUnofferedCipherSuite \<Rightarrow> Lit ''SelectedUnofferedCipherSuite'' | RustlsError m \<Rightarrow> Disp m)"

definition remember_plain_suites :: "str \<Rightarrow> str list \<Rightarrow> str list" where
  "remember_plain_suites host hosts = List.insert (to_ascii_lowercase host) hosts"

definition host_needs_plain_suites :: "str \<Rightarrow> str list \<Rightarrow> bool" where
  "host_needs_plain_suites host hosts \<longleftrightarrow> to_ascii_lowercase host \<in> set hosts"

text \<open>The configuration cache; \<open>build\<close> is the construction of a configuration or its error.\<close>

type_synonym 'k config_cache = "(str list \<times> bool \<times> 'k) list"

definition build_client_config ::
    "(str list \<Rightarrow> bool \<Rightarrow> str + 'k) \<Rightarrow> str list \<Rightarrow> bool \<Rightarrow> 'k config_cache \<Rightarrow> 'k io_result \<times> 'k config_cache" where
  "build_client_config build alpn advertise cache =
     (case find (\<lambda>(k, adv, _). k = alpn \<and> adv = advertise) cache of
        Some (_, _, c) \<Rightarrow> (Inr c, cache)
      | None \<Rightarrow>
          (case build alpn advertise of
             Inl e \<Rightarrow> (Inl (IoError OtherKind [Lit ''tls: config: '', Disp e]), cache)
           | Inr c \<Rightarrow> (Inr c, cache @ [(alpn, advertise, c)])))"

subsection \<open>The handshake\<close>

record 'c tls_handshake =
  hs_inner :: stream
  hs_conn :: 'c
  hs_pending_in :: "u8 list"
  hs_pending_out :: "u8 list"
  hs_eof :: bool

partial_function (option) hs_write_loop ::
    "'c conn_ops \<Rightarrow> 'c \<Rightarrow> stream \<Rightarrow> ((io_error option) \<times> 'c \<times> stream) option" where
  "hs_write_loop ops c s =
     (if wants_write ops c then
        (case write_tls ops c of
           (Some e, _, c') \<Rightarrow> Some (Some (IoError OtherKind [Lit ''tls: write_tls: '', Disp e]), c', s)
         | (None, chunk, c') \<Rightarrow>
             (case write_all chunk s of
                (Inl e, s') \<Rightarrow> Some (Some e, c', s')
              | (Inr _, s') \<Rightarrow> hs_write_loop ops c' s'))
      else Some (None, c, s))"

definition drain_pending_out :: "'c tls_handshake \<Rightarrow> unit io_result \<times> 'c tls_handshake" where
  "drain_pending_out t =
     (if hs_pending_out t \<noteq> [] then
        (case write_all (hs_pending_out t) (hs_inner t) of
           (r, s) \<Rightarrow> (r, t\<lparr>hs_pending_out := [], hs_inner := s\<rparr>))
      else (Inr (), t))"

definition read_more_into_conn :: "'c conn_ops \<Rightarrow> 'c tls_handshake \<Rightarrow> unit io_result \<times> 'c tls_handshake" where
  "read_more_into_conn ops t =
     (let (r, t) =
        (if hs_pending_in t = [] then
           (case read 8192 (hs_inner t) of
              (Inl e, s) \<Rightarrow> (Inl e, t\<lparr>hs_inner := s\<rparr>)
            | (Inr xs, s) \<Rightarrow>
                if xs = [] then
                  (Inl (IoError UnexpectedEof [Lit ''tls: EOF before handshake completion'']),
                   t\<lparr>hs_inner := s, hs_eof := True\<rparr>)
                else (Inr (), t\<lparr>hs_inner := s, hs_pending_in := xs\<rparr>))
         else (Inr (), t))
      in case r of
           Inl e \<Rightarrow> (Inl e, t)
         | Inr _ \<Rightarrow>
             (case read_tls ops (hs_pending_in t) (hs_conn t) of
                (Some e, _, c) \<Rightarrow> (Inl (IoError OtherKind [Lit ''tls: read_tls: '', Disp e]), t\<lparr>hs_conn := c\<rparr>)
              | (None, consumed, c) \<Rightarrow>
                  (Inr (), t\<lparr>hs_conn := c, hs_pending_in := drop consumed (hs_pending_in t)\<rparr>)))"

text \<open>One turn of the loop, then the loop; \<^const>\<open>None\<close> stands for a handshake that never ends.\<close>

definition handshake_turn :: "'c conn_ops \<Rightarrow> 'c tls_handshake \<Rightarrow> ((tls_error option) \<times> 'c tls_handshake) option" where
  "handshake_turn ops t =
     (case drain_pending_out t of
        (Inl e, t) \<Rightarrow> Some (Some (TlsIo e), t)
      | (Inr _, t) \<Rightarrow>
          (case hs_write_loop ops (hs_conn t) (hs_inner t) of
             None \<Rightarrow> None
           | Some (Some e, c, s) \<Rightarrow> Some (Some (TlsIo e), t\<lparr>hs_conn := c, hs_inner := s\<rparr>)
           | Some (None, c, s) \<Rightarrow>
               (case flush s of
                  (Inl e, s) \<Rightarrow> Some (Some (TlsIo e), t\<lparr>hs_conn := c, hs_inner := s\<rparr>)
                | (Inr _, s) \<Rightarrow>
                    let t = t\<lparr>hs_conn := c, hs_inner := s\<rparr> in
                    if is_handshaking ops c \<and> wants_read ops c then
                      (case read_more_into_conn ops t of
                         (Inl e, t) \<Rightarrow> Some (Some (TlsIo e), t)
                       | (Inr _, t) \<Rightarrow>
                           (case process_new_packets ops (hs_conn t) of
                              (Some e, c) \<Rightarrow> Some (Some (TlsProcessError e), t\<lparr>hs_conn := c\<rparr>)
                            | (None, c) \<Rightarrow> Some (None, t\<lparr>hs_conn := c\<rparr>)))
                    else Some (None, t))))"

partial_function (option) tls_handshake_loop ::
    "'c conn_ops \<Rightarrow> 'c tls_handshake \<Rightarrow> ((tls_error option) \<times> 'c tls_handshake) option" where
  "tls_handshake_loop ops t =
     (if is_handshaking ops (hs_conn t) then
        (case handshake_turn ops t of
           None \<Rightarrow> None
         | Some (Some e, t') \<Rightarrow> Some (Some e, t')
         | Some (None, t') \<Rightarrow> tls_handshake_loop ops t')
      else Some (None, t))"

definition connect_with ::
    "(str list \<Rightarrow> bool \<Rightarrow> str + 'k) \<Rightarrow> (str \<Rightarrow> str option) \<Rightarrow> ('k \<Rightarrow> str \<Rightarrow> str + 'c) \<Rightarrow> 'c conn_ops \<Rightarrow> stream \<Rightarrow> str
      \<Rightarrow> str list \<Rightarrow> bool \<Rightarrow> 'k config_cache \<Rightarrow> ((tls_error + 'c tls_handshake) \<times> 'k config_cache) option" where
  "connect_with build bad_name new_conn ops s server_name alpn advertise cache =
     (case build_client_config build alpn advertise cache of
        (Inl e, cache) \<Rightarrow> Some (Inl (TlsIo e), cache)
      | (Inr config, cache) \<Rightarrow>
          (case bad_name server_name of
             Some e \<Rightarrow> Some (Inl (TlsIo (IoError InvalidInput [Lit ''tls: SNI: '', Disp e])), cache)
           | None \<Rightarrow>
               (case new_conn config server_name of
                  Inl e \<Rightarrow> Some (Inl (TlsIo (IoError OtherKind [Lit ''tls: new conn: '', Disp e])), cache)
                | Inr c \<Rightarrow>
                    (case tls_handshake_loop ops \<lparr>hs_inner = s, hs_conn = c, hs_pending_in = [], hs_pending_out = [],
                                                  hs_eof = False\<rparr> of
                       None \<Rightarrow> None
                     | Some (Some e, _) \<Rightarrow> Some (Inl e, cache)
                     | Some (None, t) \<Rightarrow> Some (Inr t, cache)))))"

subsection \<open>The polls\<close>

record 'c tls_stream =
  tls_inner :: wire
  tls_conn :: 'c
  pending_in :: "u8 list"
  pending_out :: "u8 list"
  eof_observed :: bool

definition read_tls_error :: "str \<Rightarrow> io_error" where
  "read_tls_error e = IoError OtherKind [Lit ''tls: read_tls: '', Disp e]"

definition process_error :: "rustls_error \<Rightarrow> io_error" where
  "process_error e = IoError InvalidData [Lit ''tls: process: '', display_rustls e]"

text \<open>Feeding the connection: an error, or the number of bytes it consumed and whether it processed them.\<close>

definition feed_conn :: "'c conn_ops \<Rightarrow> u8 list \<Rightarrow> bool \<Rightarrow> 'c tls_stream \<Rightarrow> (nat io_result) \<times> 'c tls_stream" where
  "feed_conn ops raw always t =
     (case read_tls ops raw (tls_conn t) of
        (err, consumed, c) \<Rightarrow>
          let t = t\<lparr>tls_conn := c, pending_in := drop consumed raw\<rparr> in
          (case err of
             Some e \<Rightarrow> (Inl (read_tls_error e), t)
           | None \<Rightarrow>
               if always \<or> consumed > 0 then
                 (case process_new_packets ops c of
                    (Some e, c) \<Rightarrow> (Inl (process_error e), t\<lparr>tls_conn := c\<rparr>)
                  | (None, c) \<Rightarrow> (Inr consumed, t\<lparr>tls_conn := c\<rparr>))
               else (Inr consumed, t)))"

definition read_socket ::
    "'c conn_ops \<Rightarrow> nat \<Rightarrow> 'c tls_stream \<Rightarrow> (u8 list io_result poll \<times> 'c tls_stream) + 'c tls_stream" where
  "read_socket ops n t =
     (case wire_read 8192 (tls_inner t) of
        (Pending, w) \<Rightarrow> Inl (Pending, t\<lparr>tls_inner := w\<rparr>)
      | (Ready (Inl e), w) \<Rightarrow> Inl (Ready (Inl e), t\<lparr>tls_inner := w\<rparr>)
      | (Ready (Inr xs), w) \<Rightarrow>
          let t = t\<lparr>tls_inner := w\<rparr> in
          if xs = [] then
            (case reader_read ops n (tls_conn t) of
               (r, c) \<Rightarrow>
                 Inl (Ready (case r of
                               Inr ys \<Rightarrow> Inr ys
                             | Inl e \<Rightarrow> if err_kind e = WouldBlock then Inr [] else Inl e),
                      t\<lparr>tls_conn := c, eof_observed := True\<rparr>))
          else
            (case feed_conn ops (pending_in t @ xs) True t of
               (Inl e, t) \<Rightarrow> Inl (Ready (Inl e), t)
             | (Inr _, t) \<Rightarrow> Inr t))"

definition read_turn ::
    "'c conn_ops \<Rightarrow> nat \<Rightarrow> 'c tls_stream \<Rightarrow> (u8 list io_result poll \<times> 'c tls_stream) + 'c tls_stream" where
  "read_turn ops n t =
     (case reader_read ops n (tls_conn t) of
        (r, c) \<Rightarrow>
          let t = t\<lparr>tls_conn := c\<rparr> in
          if r = Inr [] \<and> eof_observed t then Inl (Ready (Inr []), t)
          else if (case r of Inr xs \<Rightarrow> xs \<noteq> [] | Inl _ \<Rightarrow> False) then Inl (Ready r, t)
          else if pending_in t \<noteq> [] then
            (case feed_conn ops (pending_in t) False t of
               (Inl e, t) \<Rightarrow> Inl (Ready (Inl e), t)
             | (Inr consumed, t) \<Rightarrow> if consumed > 0 then Inr t else read_socket ops n t)
          else read_socket ops n t)"

definition wire_weight :: "wire \<Rightarrow> nat" where
  "wire_weight w = sum_list (map (\<lambda>r. case r of Ready (Data d) \<Rightarrow> Suc (length d) | _ \<Rightarrow> 1) (reads w))"

definition read_work :: "'c tls_stream \<Rightarrow> nat" where
  "read_work t = 2 * wire_weight (tls_inner t) + length (pending_in t)"

lemma wire_read_weight:
  "wire_read n w = (Ready (Inr xs), w') \<Longrightarrow> xs \<noteq> [] \<Longrightarrow> wire_weight w' + length xs \<le> wire_weight w"
  by (auto simp: wire_read_def wire_weight_def split: list.splits poll.splits rd.splits if_splits)

lemma feed_conn_pending:
  "feed_conn ops raw always t = (Inr consumed, t') \<Longrightarrow>
     tls_inner t' = tls_inner t \<and> pending_in t' = drop consumed raw"
  by (auto simp: feed_conn_def Let_def split: prod.splits option.splits if_splits)

lemma read_socket_Inr:
  assumes "read_socket ops n t = Inr t'"
  obtains xs w consumed where "wire_read 8192 (tls_inner t) = (Ready (Inr xs), w)" "xs \<noteq> []"
    "feed_conn ops (pending_in t @ xs) True (t\<lparr>tls_inner := w\<rparr>) = (Inr consumed, t')"
  using assms by (auto simp: read_socket_def Let_def split: prod.splits poll.splits sum.splits if_splits)

lemma read_socket_work: "read_socket ops n t = Inr t' \<Longrightarrow> read_work t' < read_work t"
proof -
  assume "read_socket ops n t = Inr t'"
  then obtain xs w consumed where s: "wire_read 8192 (tls_inner t) = (Ready (Inr xs), w)" "xs \<noteq> []"
    "feed_conn ops (pending_in t @ xs) True (t\<lparr>tls_inner := w\<rparr>) = (Inr consumed, t')"
    by (rule read_socket_Inr)
  have "wire_weight (tls_inner t') = wire_weight w" "length (pending_in t') \<le> length (pending_in t) + length xs"
      "1 \<le> length xs"
    using feed_conn_pending [OF s(3)] s(2) by (simp_all add: Suc_le_eq)
  then show ?thesis
    using wire_read_weight [OF s(1,2)] unfolding read_work_def by linarith
qed

lemma read_turn_work: "read_turn ops n t = Inr t' \<Longrightarrow> read_work t' < read_work t"
proof -
  assume turn: "read_turn ops n t = Inr t'"
  obtain r c where rd: "reader_read ops n (tls_conn t) = (r, c)"
    by fastforce
  let ?t = "t\<lparr>tls_conn := c\<rparr>"
  have same: "read_work ?t = read_work t"
    by (simp add: read_work_def)
  consider "read_socket ops n ?t = Inr t'"
    | consumed where "feed_conn ops (pending_in t) False ?t = (Inr consumed, t')" "consumed > 0" "pending_in t \<noteq> []"
    | consumed t1 where "feed_conn ops (pending_in t) False ?t = (Inr consumed, t1)" "read_socket ops n t1 = Inr t'"
    using turn rd by (auto simp: read_turn_def Let_def split: if_splits prod.splits sum.splits)
  then show ?thesis
  proof cases
    case 1
    then show ?thesis
      using read_socket_work same by metis
  next
    case 2
    then show ?thesis
      using feed_conn_pending [OF 2(1)] by (simp add: read_work_def)
  next
    case 3
    have "read_work t1 \<le> read_work t"
      using feed_conn_pending [OF 3(1)] by (simp add: read_work_def)
    then show ?thesis
      using read_socket_work [OF 3(2)] by simp
  qed
qed

function tls_poll_read :: "'c conn_ops \<Rightarrow> nat \<Rightarrow> 'c tls_stream \<Rightarrow> u8 list io_result poll \<times> 'c tls_stream" where
  "tls_poll_read ops n t =
     (case read_turn ops n t of
        Inl res \<Rightarrow> res
      | Inr t' \<Rightarrow> tls_poll_read ops n t')"
  by pat_completeness auto
termination
  by (relation "measure (\<lambda>(ops, n, t). read_work t)") (auto dest: read_turn_work)

declare tls_poll_read.simps [simp del]

text \<open>Records that the connection wants to write; \<^const>\<open>None\<close> when it never stops wanting.\<close>

partial_function (option) collect_tls :: "'c conn_ops \<Rightarrow> 'c tls_stream \<Rightarrow> ((io_error option) \<times> 'c tls_stream) option" where
  "collect_tls ops t =
     (if wants_write ops (tls_conn t) then
        (case write_tls ops (tls_conn t) of
           (Some e, _, c) \<Rightarrow>
             Some (Some (IoError OtherKind [Lit ''tls: write_tls: '', Disp e]), t\<lparr>tls_conn := c\<rparr>)
         | (None, chunk, c) \<Rightarrow>
             collect_tls ops (t\<lparr>tls_conn := c, pending_out := pending_out t @ chunk\<rparr>))
      else Some (None, t))"

lemma wire_write_length: "wire_write buf w = (Ready (Inr k), w') \<Longrightarrow> k \<le> length buf"
  by (auto simp: wire_write_def split: list.splits poll.splits sum.splits)

function wire_drain :: "string \<Rightarrow> u8 list \<Rightarrow> wire \<Rightarrow> unit io_result poll \<times> u8 list \<times> wire" where
  "wire_drain msg buf w =
     (if buf = [] then (Ready (Inr ()), [], w)
      else case wire_write buf w of
             (Pending, w') \<Rightarrow> (Pending, buf, w')
           | (Ready (Inl e), w') \<Rightarrow> (Ready (Inl e), [], w')
           | (Ready (Inr k), w') \<Rightarrow>
               if k = 0 then (Ready (Inl (IoError WriteZero [Lit msg])), [], w')
               else wire_drain msg (drop k buf) w')"
  by pat_completeness auto
termination
  by (relation "measure (\<lambda>(msg, buf, w). length buf)") auto

declare wire_drain.simps [simp del]

definition tls_poll_write ::
    "'c conn_ops \<Rightarrow> u8 list \<Rightarrow> 'c tls_stream \<Rightarrow> (nat io_result poll \<times> 'c tls_stream) option" where
  "tls_poll_write ops buf t =
     (case writer_write ops buf (tls_conn t) of
        (Inl e, c) \<Rightarrow> Some (Ready (Inl e), t\<lparr>tls_conn := c\<rparr>)
      | (Inr written, c) \<Rightarrow>
          (case collect_tls ops (t\<lparr>tls_conn := c\<rparr>) of
             None \<Rightarrow> None
           | Some (Some e, t) \<Rightarrow> Some (Ready (Inl e), t)
           | Some (None, t) \<Rightarrow>
               (case wire_drain ''tls: inner wrote 0 bytes'' (pending_out t) (tls_inner t) of
                  (r, rest, w) \<Rightarrow>
                    let t = t\<lparr>pending_out := rest, tls_inner := w\<rparr>
                    in Some (case r of
                               Ready (Inl e) \<Rightarrow> (Ready (Inl e), t)
                             | _ \<Rightarrow> (Ready (Inr written), t)))))"

definition tls_poll_flush ::
    "'c conn_ops \<Rightarrow> 'c tls_stream \<Rightarrow> (unit io_result poll \<times> 'c tls_stream) option" where
  "tls_poll_flush ops t =
     (case collect_tls ops t of
        None \<Rightarrow> None
      | Some (Some e, t) \<Rightarrow> Some (Ready (Inl e), t)
      | Some (None, t) \<Rightarrow>
          (case wire_drain ''tls: inner wrote 0 bytes during flush'' (pending_out t) (tls_inner t) of
             (r, rest, w) \<Rightarrow>
               let t = t\<lparr>pending_out := rest, tls_inner := w\<rparr>
               in Some (case r of
                          Ready (Inr _) \<Rightarrow> (case wire_flush w of (f, w) \<Rightarrow> (f, t\<lparr>tls_inner := w\<rparr>))
                        | _ \<Rightarrow> (r, t))))"

definition tls_poll_close ::
    "'c conn_ops \<Rightarrow> 'c tls_stream \<Rightarrow> (unit io_result poll \<times> 'c tls_stream) option" where
  "tls_poll_close ops t =
     (case tls_poll_flush ops (t\<lparr>tls_conn := send_close_notify ops (tls_conn t)\<rparr>) of
        None \<Rightarrow> None
      | Some (Ready (Inr _), t) \<Rightarrow>
          (case wire_close (tls_inner t) of (r, w) \<Rightarrow> Some (r, t\<lparr>tls_inner := w\<rparr>))
      | Some (r, t) \<Rightarrow> Some (r, t))"

subsection \<open>Lemmas\<close>

text \<open>
  A connection that keeps to its interface: \<open>fed\<close> is the ciphertext it has consumed, always a prefix of
  what it is offered, and \<open>produced\<close> the ciphertext taken out of it.
\<close>

definition faithful_conn :: "'c conn_ops \<Rightarrow> ('c \<Rightarrow> u8 list) \<Rightarrow> ('c \<Rightarrow> u8 list) \<Rightarrow> bool" where
  "faithful_conn ops fed produced \<longleftrightarrow>
     (\<forall>n c. fed (snd (reader_read ops n c)) = fed c \<and> produced (snd (reader_read ops n c)) = produced c)
     \<and> (\<forall>xs c. case read_tls ops xs c of (_, k, c') \<Rightarrow>
          k \<le> length xs \<and> fed c' = fed c @ take k xs \<and> produced c' = produced c)
     \<and> (\<forall>c. fed (snd (process_new_packets ops c)) = fed c \<and> produced (snd (process_new_packets ops c)) = produced c)
     \<and> (\<forall>c. case write_tls ops c of (e, chunk, c') \<Rightarrow>
          fed c' = fed c \<and> produced c' = produced c @ (if e = None then chunk else []))
     \<and> (\<forall>buf c. fed (snd (writer_write ops buf c)) = fed c \<and> produced (snd (writer_write ops buf c)) = produced c)"

definition wire_bytes :: "wire \<Rightarrow> u8 list" where
  "wire_bytes w = concat (map (\<lambda>r. case r of Ready d \<Rightarrow> rd_bytes d | Pending \<Rightarrow> []) (reads w))"

definition taken :: "u8 list io_result poll \<Rightarrow> u8 list" where
  "taken r = (case r of Ready (Inr xs) \<Rightarrow> xs | _ \<Rightarrow> [])"

lemma wire_read_bytes:
  "wire_read n w = (r, w') \<Longrightarrow> wire_bytes w = taken r @ wire_bytes w' \<and> sent w' = sent w"
  by (auto simp: wire_read_def wire_bytes_def taken_def split: list.splits poll.splits rd.splits)

lemma drop_take_append: "k \<le> length xs \<Longrightarrow> take k xs @ drop k xs = xs"
  by simp

text \<open>What a step of the read loop does: \<open>got\<close> is what it took from the wire.\<close>

definition read_ok :: "('c \<Rightarrow> u8 list) \<Rightarrow> ('c \<Rightarrow> u8 list) \<Rightarrow> 'c tls_stream \<Rightarrow> 'c tls_stream \<Rightarrow> bool" where
  "read_ok fed produced t t' \<longleftrightarrow>
     (\<exists>got. wire_bytes (tls_inner t) = got @ wire_bytes (tls_inner t')
        \<and> fed (tls_conn t') @ pending_in t' = fed (tls_conn t) @ pending_in t @ got)
     \<and> sent (tls_inner t') = sent (tls_inner t) \<and> pending_out t' = pending_out t
     \<and> produced (tls_conn t') = produced (tls_conn t)"

lemma read_ok_trans: "read_ok fed produced t t' \<Longrightarrow> read_ok fed produced t' t'' \<Longrightarrow> read_ok fed produced t t''"
  unfolding read_ok_def by (metis (no_types, opaque_lifting) append_assoc)

lemma faithful_read_tls:
  assumes "faithful_conn ops fed produced" "read_tls ops xs c = (e, k, c')"
  shows "k \<le> length xs \<and> fed c' = fed c @ take k xs \<and> produced c' = produced c"
proof -
  have "\<forall>xs c. case read_tls ops xs c of (_, k, c') \<Rightarrow>
      k \<le> length xs \<and> fed c' = fed c @ take k xs \<and> produced c' = produced c"
    using assms(1) by (simp add: faithful_conn_def)
  from this [rule_format, of xs c] assms(2) show ?thesis by simp
qed

lemma feed_conn_ok:
  assumes "faithful_conn ops fed produced" "feed_conn ops raw always t = (r, t')"
  shows "fed (tls_conn t') @ pending_in t' = fed (tls_conn t) @ raw \<and> tls_inner t' = tls_inner t
    \<and> pending_out t' = pending_out t \<and> produced (tls_conn t') = produced (tls_conn t)"
proof -
  obtain err k c where rt: "read_tls ops raw (tls_conn t) = (err, k, c)"
    by (metis prod_cases3)
  have f: "k \<le> length raw" "fed c = fed (tls_conn t) @ take k raw" "produced c = produced (tls_conn t)"
    using faithful_read_tls [OF assms(1) rt] by blast+
  have p: "fed (snd (process_new_packets ops c)) = fed c" "produced (snd (process_new_packets ops c)) = produced c"
    using assms(1) by (simp_all add: faithful_conn_def)
  show ?thesis
    using assms(2) rt f p
    by (auto simp: feed_conn_def Let_def split: option.splits if_splits prod.splits)
qed

lemma faithful_reader:
  "faithful_conn ops fed produced \<Longrightarrow> reader_read ops n c = (r, c') \<Longrightarrow> fed c' = fed c \<and> produced c' = produced c"
  by (simp add: faithful_conn_def) (metis snd_conv)

lemma read_socket_ok:
  assumes f: "faithful_conn ops fed produced"
  shows "case read_socket ops n t of Inl (_, t') \<Rightarrow> read_ok fed produced t t' | Inr t' \<Rightarrow> read_ok fed produced t t'"
proof -
  obtain r w where rd: "wire_read 8192 (tls_inner t) = (r, w)"
    by fastforce
  note b = wire_read_bytes [OF rd]
  show ?thesis
  proof (cases "\<exists>xs. r = Ready (Inr xs) \<and> xs \<noteq> []")
    case True
    then obtain xs where xs: "r = Ready (Inr xs)" "xs \<noteq> []"
      by blast
    obtain res t' where feed: "feed_conn ops (pending_in t @ xs) True (t\<lparr>tls_inner := w\<rparr>) = (res, t')"
      by fastforce
    have "read_ok fed produced t t'"
      using feed_conn_ok [OF f feed] b xs unfolding read_ok_def by (auto simp: taken_def)
    with rd xs feed show ?thesis
      by (cases res) (simp_all add: read_socket_def)
  next
    case False
    with rd b show ?thesis
      by (auto simp: read_socket_def read_ok_def taken_def Let_def dest: faithful_reader [OF f]
          split: poll.splits sum.splits prod.splits)
  qed
qed

lemma read_turn_ok:
  assumes f: "faithful_conn ops fed produced"
  shows "case read_turn ops n t of Inl (_, t') \<Rightarrow> read_ok fed produced t t' | Inr t' \<Rightarrow> read_ok fed produced t t'"
proof -
  obtain r c where rd: "reader_read ops n (tls_conn t) = (r, c)"
    by fastforce
  let ?t = "t\<lparr>tls_conn := c\<rparr>"
  have first: "read_ok fed produced t ?t"
    using faithful_reader [OF f rd] by (auto simp: read_ok_def)
  obtain res t1 where feed: "feed_conn ops (pending_in t) False ?t = (res, t1)"
    by fastforce
  have "read_ok fed produced ?t t1"
    using feed_conn_ok [OF f feed] by (auto simp: read_ok_def)
  then have t1: "read_ok fed produced t t1"
    by (rule read_ok_trans [OF first])
  show ?thesis
    using rd feed first t1 read_ok_trans [OF first] read_ok_trans [OF t1]
      read_socket_ok [OF f, where n = n and t = ?t] read_socket_ok [OF f, where n = n and t = t1]
    by (auto simp: read_turn_def Let_def split: if_splits sum.splits prod.splits)
qed

lemma tls_poll_read_ok:
  assumes f: "faithful_conn ops fed produced"
  shows "tls_poll_read ops n t = (r, t') \<Longrightarrow> read_ok fed produced t t'"
proof (induction "read_work t" arbitrary: t rule: less_induct)
  case less
  show ?case
  proof (cases "read_turn ops n t")
    case (Inl res)
    with less.prems read_turn_ok [OF f, where n = n and t = t] show ?thesis
      by (simp add: tls_poll_read.simps [of ops n t])
  next
    case (Inr t1)
    then have "read_ok fed produced t1 t'"
      using less read_turn_work [OF Inr] by (simp add: tls_poll_read.simps [of ops n t])
    with Inr read_turn_ok [OF f, where n = n and t = t] show ?thesis
      using read_ok_trans by auto
  qed
qed

text \<open>
  A connection on which a read that gives no plaintext, and a feed that takes no ciphertext, change nothing.
\<close>

definition quiet_conn :: "'c conn_ops \<Rightarrow> bool" where
  "quiet_conn ops \<longleftrightarrow>
     (\<forall>n c. fst (reader_read ops n c) = Inr [] \<or> isl (fst (reader_read ops n c)) \<longrightarrow> snd (reader_read ops n c) = c)
     \<and> (\<forall>xs c c'. read_tls ops xs c = (None, 0, c') \<longrightarrow> c' = c)"

text \<open>The polls of the wire that delivered \<open>got\<close>, one after the other.\<close>

inductive wire_reads :: "wire \<Rightarrow> u8 list \<Rightarrow> wire \<Rightarrow> bool" where
  wire_reads_refl: "wire_reads w [] w"
| wire_reads_step: "wire_read 8192 w = (Ready (Inr xs), w') \<Longrightarrow> xs \<noteq> [] \<Longrightarrow> wire_reads w' got w''
    \<Longrightarrow> wire_reads w (xs @ got) w''"

lemma wire_reads_bytes: "wire_reads w got w' \<Longrightarrow> wire_bytes w = got @ wire_bytes w'"
  by (induction rule: wire_reads.induct) (auto dest: wire_read_bytes simp: taken_def)

text \<open>Nothing is left to do without the wire: no plaintext is waiting and no buffered ciphertext is taken.\<close>

definition read_idle :: "'c conn_ops \<Rightarrow> nat \<Rightarrow> 'c tls_stream \<Rightarrow> bool" where
  "read_idle ops n t \<longleftrightarrow>
     (fst (reader_read ops n (tls_conn t)) = Inr [] \<or> isl (fst (reader_read ops n (tls_conn t))))
     \<and> (pending_in t = [] \<or> read_tls ops (pending_in t) (tls_conn t) = (None, 0, tls_conn t))"

lemma read_socket_pending:
  "read_socket ops n t = Inl (Pending, t') \<Longrightarrow> \<exists>w. wire_read 8192 (tls_inner t) = (Pending, w) \<and> t' = t\<lparr>tls_inner := w\<rparr>"
  by (auto simp: read_socket_def Let_def split: prod.splits poll.splits sum.splits if_splits)

lemma feed_conn_none:
  "feed_conn ops raw False t = (Inr 0, t') \<Longrightarrow> read_tls ops raw (tls_conn t) = (None, 0, tls_conn t')
     \<and> pending_in t' = raw \<and> tls_inner t' = tls_inner t"
  by (auto simp: feed_conn_def Let_def split: prod.splits option.splits if_splits)

lemma read_turn_pending:
  assumes "quiet_conn ops" "read_turn ops n t = Inl (Pending, t')"
  shows "wire_read 8192 (tls_inner t) = (Pending, tls_inner t') \<and> read_idle ops n t'"
proof -
  obtain r c where rd: "reader_read ops n (tls_conn t) = (r, c)"
    by fastforce
  let ?t = "t\<lparr>tls_conn := c\<rparr>"
  have none: "r = Inr [] \<or> isl r"
    using assms(2) rd by (cases r) (auto simp: read_turn_def Let_def split: if_splits)
  then have c: "c = tls_conn t"
    using assms(1) rd unfolding quiet_conn_def by (metis fst_conv snd_conv)
  consider "pending_in t = []" "read_socket ops n ?t = Inl (Pending, t')"
    | t1 where "feed_conn ops (pending_in t) False ?t = (Inr 0, t1)" "read_socket ops n t1 = Inl (Pending, t')"
    using assms(2) rd by (auto simp: read_turn_def Let_def split: if_splits prod.splits sum.splits)
  then show ?thesis
  proof cases
    case 1
    from read_socket_pending [OF 1(2)] 1(1) none rd c show ?thesis
      by (auto simp: read_idle_def)
  next
    case 2
    note f = feed_conn_none [OF 2(1)]
    then have "tls_conn t1 = tls_conn t"
      using assms(1) c unfolding quiet_conn_def by auto
    with read_socket_pending [OF 2(2)] f none rd c show ?thesis
      by (auto simp: read_idle_def)
  qed
qed

lemma read_turn_reads:
  assumes "read_turn ops n t = Inr t1"
  shows "\<exists>got. wire_reads (tls_inner t) got (tls_inner t1)"
proof -
  obtain r c where rd: "reader_read ops n (tls_conn t) = (r, c)"
    by fastforce
  let ?t = "t\<lparr>tls_conn := c\<rparr>"
  have socket: "\<exists>got. wire_reads (tls_inner t2) got (tls_inner t1)" if "read_socket ops n t2 = Inr t1" for t2
  proof -
    from that obtain xs w consumed where "wire_read 8192 (tls_inner t2) = (Ready (Inr xs), w)" "xs \<noteq> []"
        "feed_conn ops (pending_in t2 @ xs) True (t2\<lparr>tls_inner := w\<rparr>) = (Inr consumed, t1)"
      by (rule read_socket_Inr)
    then show ?thesis
      using wire_reads_step [OF _ _ wire_reads_refl] feed_conn_pending by fastforce
  qed
  consider "read_socket ops n ?t = Inr t1"
    | consumed where "feed_conn ops (pending_in t) False ?t = (Inr consumed, t1)"
    | consumed t2 where "feed_conn ops (pending_in t) False ?t = (Inr consumed, t2)" "read_socket ops n t2 = Inr t1"
    using assms rd by (auto simp: read_turn_def Let_def split: if_splits prod.splits sum.splits)
  then show ?thesis
  proof cases
    case 1
    from socket [OF this] show ?thesis by simp
  next
    case 2
    from feed_conn_pending [OF this] show ?thesis
      using wire_reads_refl by fastforce
  next
    case 3
    from feed_conn_pending [OF 3(1)] socket [OF 3(2)] show ?thesis by simp
  qed
qed

lemma wire_reads_trans: "wire_reads w got w' \<Longrightarrow> wire_reads w' got' w'' \<Longrightarrow> wire_reads w (got @ got') w''"
  by (induction rule: wire_reads.induct) (auto intro: wire_reads_step)

lemma tls_poll_read_pending:
  assumes "quiet_conn ops"
  shows "tls_poll_read ops n t = (Pending, t') \<Longrightarrow>
    \<exists>got w. wire_reads (tls_inner t) got w \<and> wire_read 8192 w = (Pending, tls_inner t') \<and> read_idle ops n t'"
proof (induction "read_work t" arbitrary: t rule: less_induct)
  case less
  show ?case
  proof (cases "read_turn ops n t")
    case (Inl res)
    with less.prems have "read_turn ops n t = Inl (Pending, t')"
      by (simp add: tls_poll_read.simps [of ops n t])
    from read_turn_pending [OF assms this] show ?thesis
      using wire_reads_refl by blast
  next
    case (Inr t1)
    then have "\<exists>got w. wire_reads (tls_inner t1) got w \<and> wire_read 8192 w = (Pending, tls_inner t') \<and> read_idle ops n t'"
      using less read_turn_work [OF Inr] by (simp add: tls_poll_read.simps [of ops n t])
    with read_turn_reads [OF Inr] show ?thesis
      using wire_reads_trans by blast
  qed
qed

lemma wire_read_pending: "wire_read n w = (Pending, w') \<Longrightarrow> wire_bytes w' = wire_bytes w"
  by (drule wire_read_bytes) (simp add: taken_def)

lemma wire_write_sent: "wire_write buf w = (Ready (Inr k), w') \<Longrightarrow> sent w' = sent w @ take k buf"
  by (auto simp: wire_write_def min_def split: list.splits poll.splits sum.splits)

lemma wire_write_pending: "wire_write buf w = (Pending, w') \<Longrightarrow> sent w' = sent w"
  by (auto simp: wire_write_def split: list.splits poll.splits sum.splits)

lemma wire_drain_sent:
  "wire_drain msg buf w = (r, rest, w') \<Longrightarrow>
     (case r of Ready (Inl _) \<Rightarrow> True
      | Ready (Inr _) \<Rightarrow> rest = [] \<and> sent w' = sent w @ buf
      | Pending \<Rightarrow> sent w' @ rest = sent w @ buf)"
proof (induction msg buf w arbitrary: r rest w' rule: wire_drain.induct)
  case (1 msg buf w)
  show ?case
  proof (cases "buf = []")
    case True
    with 1(2) show ?thesis by (auto simp: wire_drain.simps)
  next
    case buf: False
    obtain p w1 where wr: "wire_write buf w = (p, w1)"
      by fastforce
    consider "p = Pending" | e where "p = Ready (Inl e)" | k where "p = Ready (Inr k)"
      by (metis poll.exhaust sum.exhaust)
    then show ?thesis
    proof cases
      case 1
      with wr buf \<open>wire_drain msg buf w = (r, rest, w')\<close> wire_write_pending [of buf w w1] show ?thesis
        by (auto simp: wire_drain.simps [of msg buf w])
    next
      case 2
      with wr buf 1(2) show ?thesis
        by (auto simp: wire_drain.simps [of msg buf w])
    next
      case (3 k)
      show ?thesis
      proof (cases "k = 0")
        case True
        with 3 wr buf 1(2) show ?thesis
          by (auto simp: wire_drain.simps [of msg buf w])
      next
        case False
        have "wire_drain msg (drop k buf) w1 = (r, rest, w')"
          using 3 wr buf 1(2) False by (simp add: wire_drain.simps [of msg buf w])
        from 1(1) [OF buf wr [symmetric] 3 refl False this] show ?thesis
          using wire_write_sent [of buf w k w1] 3 wr by (auto split: poll.splits sum.splits)
      qed
    qed
  qed
qed

definition out_ok :: "('c \<Rightarrow> u8 list) \<Rightarrow> 'c tls_stream \<Rightarrow> bool" where
  "out_ok produced t \<longleftrightarrow> produced (tls_conn t) = sent (tls_inner t) @ pending_out t"

lemma faithful_write_tls:
  assumes "faithful_conn ops fed produced" "write_tls ops c = (e, chunk, c')"
  shows "produced c' = produced c @ (if e = None then chunk else [])"
proof -
  have "\<forall>c. case write_tls ops c of (e, chunk, c') \<Rightarrow>
      fed c' = fed c \<and> produced c' = produced c @ (if e = None then chunk else [])"
    using assms(1) by (simp add: faithful_conn_def)
  from this [rule_format, of c] assms(2) show ?thesis by simp
qed

lemma collect_tls_ok:
  "collect_tls ops t = Some y \<Longrightarrow> faithful_conn ops fed produced \<Longrightarrow> out_ok produced t \<Longrightarrow> out_ok produced (snd y)"
proof (induction ops t y rule: collect_tls.raw_induct [rotated 1, consumes 1, case_names step])
  case (step rec ops t y)
  show ?case
  proof (cases "wants_write ops (tls_conn t)")
    case True
    obtain e chunk c where w: "write_tls ops (tls_conn t) = (e, chunk, c)"
      by (metis prod_cases3)
    note p = faithful_write_tls [OF step(3) w]
    show ?thesis
    proof (cases e)
      case None
      have "out_ok produced (t\<lparr>tls_conn := c, pending_out := pending_out t @ chunk\<rparr>)"
        using p None step(4) by (simp add: out_ok_def)
      with step True w None show ?thesis by auto
    next
      case (Some m)
      with step(2,4) True w p show ?thesis
        by (auto simp: out_ok_def)
    qed
  qed (use step in auto)
qed

lemma wire_flush_sent: "wire_flush w = (r, w') \<Longrightarrow> sent w' = sent w"
  by (auto simp: wire_flush_def split: list.splits)

lemma tls_poll_write_ok:
  assumes f: "faithful_conn ops fed produced" and ok: "out_ok produced t"
    and run: "tls_poll_write ops buf t = Some (Ready (Inr k), t')"
  shows "out_ok produced t'"
proof -
  obtain c t1 where t1: "writer_write ops buf (tls_conn t) = (Inr k, c)" "collect_tls ops (t\<lparr>tls_conn := c\<rparr>) = Some (None, t1)"
    using run by (auto simp: tls_poll_write_def Let_def split: prod.splits sum.splits option.splits poll.splits)
  have "produced c = produced (tls_conn t)"
    using f t1(1) by (simp add: faithful_conn_def) (metis snd_conv)
  then have "out_ok produced (t\<lparr>tls_conn := c\<rparr>)"
    using ok by (simp add: out_ok_def)
  from collect_tls_ok [OF t1(2) f this] have "out_ok produced t1"
    by simp
  moreover obtain r rest w where d: "wire_drain ''tls: inner wrote 0 bytes'' (pending_out t1) (tls_inner t1) = (r, rest, w)"
    by (metis prod_cases3)
  moreover have "t' = t1\<lparr>pending_out := rest, tls_inner := w\<rparr> \<and> (\<forall>e. r \<noteq> Ready (Inl e))"
    using run t1 d by (auto simp: tls_poll_write_def Let_def split: poll.splits sum.splits)
  ultimately show ?thesis
    using wire_drain_sent [OF d] by (auto simp: out_ok_def split: poll.splits sum.splits)
qed

lemma tls_poll_flush_ok:
  assumes f: "faithful_conn ops fed produced" and ok: "out_ok produced t"
    and run: "tls_poll_flush ops t = Some (res, t')" "\<forall>e. res \<noteq> Ready (Inl e)"
  shows "out_ok produced t' \<and> (res = Ready (Inr ()) \<longrightarrow> pending_out t' = [])"
proof -
  obtain t1 where t1: "collect_tls ops t = Some (None, t1)"
    using run by (auto simp: tls_poll_flush_def Let_def split: prod.splits sum.splits option.splits poll.splits)
  from collect_tls_ok [OF t1 f ok] have o: "out_ok produced t1"
    by simp
  obtain r rest w where d: "wire_drain ''tls: inner wrote 0 bytes during flush'' (pending_out t1) (tls_inner t1) = (r, rest, w)"
    by (metis prod_cases3)
  show ?thesis
    using run t1 d o wire_drain_sent [OF d]
    by (auto simp: tls_poll_flush_def out_ok_def Let_def dest!: wire_flush_sent split: poll.splits sum.splits prod.splits)
qed

subsection \<open>Properties\<close>

text \<open>
  C30. Ciphertext reaches the TLS connection in the order in which it arrived: after any read, the bytes
  the connection has consumed followed by those still buffered are the earlier ones followed by exactly
  what was taken off the wire. The read loop always ends. When it ends without a result, its last poll
  of the wire, after the polls that delivered exactly those bytes, was answered \<^const>\<open>Pending\<close>, so the
  wire has the waker; no plaintext is waiting then, and the connection takes nothing from the buffer.
  The connection is a parameter: it consumes a prefix of what it is fed, and a read or feed that yields
  nothing leaves it unchanged.
\<close>

theorem tls_read_in_order:
  assumes "faithful_conn ops fed produced" "quiet_conn ops" "tls_poll_read ops n t = (r, t')"
  shows "\<exists>got. wire_bytes (tls_inner t) = got @ wire_bytes (tls_inner t')
      \<and> fed (tls_conn t') @ pending_in t' = fed (tls_conn t) @ pending_in t @ got
      \<and> (if r = Pending
         then (\<exists>w. wire_reads (tls_inner t) got w \<and> wire_read 8192 w = (Pending, tls_inner t')) \<and> read_idle ops n t'
         else True)"
proof -
  obtain got where got: "wire_bytes (tls_inner t) = got @ wire_bytes (tls_inner t')"
      "fed (tls_conn t') @ pending_in t' = fed (tls_conn t) @ pending_in t @ got"
    using tls_poll_read_ok [OF assms(1,3)] by (auto simp: read_ok_def)
  have "(\<exists>w. wire_reads (tls_inner t) got w \<and> wire_read 8192 w = (Pending, tls_inner t')) \<and> read_idle ops n t'"
    if pend: "r = Pending"
  proof -
    obtain g w where w: "wire_reads (tls_inner t) g w" "wire_read 8192 w = (Pending, tls_inner t')" "read_idle ops n t'"
      using tls_poll_read_pending [OF assms(2)] assms(3) pend by blast
    from wire_reads_bytes [OF w(1)] wire_read_pending [OF w(2)] got(1) have "g = got"
      by simp
    with w show ?thesis by blast
  qed
  with got show ?thesis by auto
qed

text \<open>A connection without encryption: one byte of plaintext for every byte consumed.\<close>

record null_conn =
  nc_in :: "u8 list"
  nc_read :: nat
  nc_out :: "u8 list"
  nc_sent :: nat

definition null_ops :: "null_conn conn_ops" where
  "null_ops = \<lparr>
     reader_read = (\<lambda>n c. if drop (nc_read c) (nc_in c) = [] then (Inl (IoError WouldBlock []), c)
                          else (Inr (take n (drop (nc_read c) (nc_in c))),
                                c\<lparr>nc_read := nc_read c + length (take n (drop (nc_read c) (nc_in c)))\<rparr>)),
     read_tls = (\<lambda>xs c. (None, length (take 2 xs), c\<lparr>nc_in := nc_in c @ take 2 xs\<rparr>)),
     process_new_packets = (\<lambda>c. (None, c)),
     wants_write = (\<lambda>c. nc_sent c < length (nc_out c)),
     wants_read = (\<lambda>c. True),
     is_handshaking = (\<lambda>c. False),
     write_tls = (\<lambda>c. (None, drop (nc_sent c) (nc_out c), c\<lparr>nc_sent := max (nc_sent c) (length (nc_out c))\<rparr>)),
     writer_write = (\<lambda>xs c. (Inr (length xs), if nc_sent c \<le> length (nc_out c) then c\<lparr>nc_out := nc_out c @ xs\<rparr> else c)),
     send_close_notify = id\<rparr>"

lemma null_faithful: "faithful_conn null_ops nc_in (\<lambda>c. take (nc_sent c) (nc_out c))"
  by (simp add: faithful_conn_def null_ops_def min_def max_def)

lemma null_quiet: "quiet_conn null_ops"
  by (auto simp: quiet_conn_def null_ops_def min_def split: if_splits)

definition null_stream :: "null_conn tls_stream" where
  "null_stream = \<lparr>tls_inner = \<lparr>reads = [Ready (Data [1, 2, 3])], writes = [Ready (Inr 1), Pending], flushes = [], closes = [], sent = []\<rparr>,
     tls_conn = \<lparr>nc_in = [], nc_read = 0, nc_out = [], nc_sent = 0\<rparr>, pending_in = [], pending_out = [], eof_observed = False\<rparr>"

text \<open>A reader that has had all plaintext and asks for more while the next byte is not there yet.\<close>

definition waiting_stream :: "null_conn tls_stream" where
  "waiting_stream = null_stream\<lparr>tls_inner := (tls_inner null_stream)\<lparr>reads := [Pending, Ready (Data [9])]\<rparr>,
     tls_conn := \<lparr>nc_in = [1, 2], nc_read = 2, nc_out = [], nc_sent = 0\<rparr>\<rparr>"

theorem tls_read_in_order_witness:
  "(\<exists>t'. tls_poll_read null_ops 8 null_stream = (Ready (Inr [1, 2]), t')
      \<and> nc_in (tls_conn t') @ pending_in t' = [1, 2, 3])
   \<and> (\<exists>t'. tls_poll_read null_ops 8 waiting_stream = (Pending, t')
      \<and> reads (tls_inner t') = [Ready (Data [9])]
      \<and> (\<exists>w. wire_reads (tls_inner waiting_stream) [] w \<and> wire_read 8192 w = (Pending, tls_inner t'))
      \<and> read_idle null_ops 8 t')"
proof
  have turn: "read_turn null_ops 8 null_stream = Inr (null_stream\<lparr>tls_inner := (tls_inner null_stream)\<lparr>reads := []\<rparr>,
        tls_conn := \<lparr>nc_in = [1, 2], nc_read = 0, nc_out = [], nc_sent = 0\<rparr>, pending_in := [3]\<rparr>)" (is "_ = Inr ?t1")
    by (simp add: read_turn_def read_socket_def feed_conn_def wire_read_def null_ops_def null_stream_def)
  moreover have "read_turn null_ops 8 ?t1 = Inl (Ready (Inr [1, 2]), ?t1\<lparr>tls_conn := (tls_conn ?t1)\<lparr>nc_read := 2\<rparr>\<rparr>)"
    by (simp add: read_turn_def null_ops_def)
  ultimately have run: "tls_poll_read null_ops 8 null_stream = (Ready (Inr [1, 2]), ?t1\<lparr>tls_conn := (tls_conn ?t1)\<lparr>nc_read := 2\<rparr>\<rparr>)"
    by (simp add: tls_poll_read.simps)
  let ?t2 = "?t1\<lparr>tls_conn := (tls_conn ?t1)\<lparr>nc_read := 2\<rparr>\<rparr>"
  have "nc_in (tls_conn ?t2) @ pending_in ?t2 = [1, 2, 3]"
    using tls_read_in_order [OF null_faithful null_quiet run] by (auto simp: null_stream_def wire_bytes_def)
  with run show "\<exists>t'. tls_poll_read null_ops 8 null_stream = (Ready (Inr [1, 2]), t')
      \<and> nc_in (tls_conn t') @ pending_in t' = [1, 2, 3]" by blast
next
  let ?t1 = "waiting_stream\<lparr>tls_inner := (tls_inner waiting_stream)\<lparr>reads := [Ready (Data [9])]\<rparr>\<rparr>"
  have run: "tls_poll_read null_ops 8 waiting_stream = (Pending, ?t1)"
    by (simp add: tls_poll_read.simps read_turn_def read_socket_def wire_read_def null_ops_def waiting_stream_def null_stream_def)
  obtain got where got: "wire_bytes (tls_inner waiting_stream) = got @ wire_bytes (tls_inner ?t1)"
      "\<exists>w. wire_reads (tls_inner waiting_stream) got w \<and> wire_read 8192 w = (Pending, tls_inner ?t1)" "read_idle null_ops 8 ?t1"
    using tls_read_in_order [OF null_faithful null_quiet run] by auto
  from got(1) have "got = []"
    by (simp add: waiting_stream_def null_stream_def wire_bytes_def)
  with run got(2,3) show "\<exists>t'. tls_poll_read null_ops 8 waiting_stream = (Pending, t')
      \<and> reads (tls_inner t') = [Ready (Data [9])]
      \<and> (\<exists>w. wire_reads (tls_inner waiting_stream) [] w \<and> wire_read 8192 w = (Pending, tls_inner t'))
      \<and> read_idle null_ops 8 t'"
    by (intro exI [of _ ?t1]) simp
qed

text \<open>
  Ciphertext leaves in the order in which the connection produced it: as long as no error is
  reported, what the wire has accepted followed by what is buffered is everything produced, and a
  successful flush leaves nothing buffered.
\<close>

theorem tls_write_in_order:
  assumes "faithful_conn ops fed produced" "produced (tls_conn t) = sent (tls_inner t) @ pending_out t"
    and "tls_poll_write ops buf t = Some (Ready (Inr k), t1)"
    and "tls_poll_flush ops t1 = Some (res, t2)" "\<forall>e. res \<noteq> Ready (Inl e)"
  shows "produced (tls_conn t1) = sent (tls_inner t1) @ pending_out t1
    \<and> produced (tls_conn t2) = sent (tls_inner t2) @ pending_out t2
    \<and> (if res = Ready (Inr ()) then sent (tls_inner t2) = produced (tls_conn t2) else True)"
proof -
  have t1: "out_ok produced t1"
    using tls_poll_write_ok [OF assms(1) _ assms(3)] assms(2) by (simp add: out_ok_def)
  from tls_poll_flush_ok [OF assms(1) this assms(4,5)] t1 show ?thesis
    by (auto simp: out_ok_def)
qed

theorem tls_write_in_order_witness:
  "\<exists>t1 t2. tls_poll_write null_ops [7, 8] null_stream = Some (Ready (Inr 2), t1) \<and> sent (tls_inner t1) = [7] \<and> pending_out t1 = [8]
     \<and> tls_poll_flush null_ops t1 = Some (Ready (Inr ()), t2) \<and> sent (tls_inner t2) = [7, 8]"
proof -
  let ?c = "\<lparr>nc_in = [], nc_read = 0, nc_out = [7, 8], nc_sent = 2\<rparr>"
  let ?t1 = "null_stream\<lparr>tls_conn := ?c, pending_out := [8], tls_inner := (tls_inner null_stream)\<lparr>writes := [], sent := [7]\<rparr>\<rparr>"
  let ?t2 = "?t1\<lparr>pending_out := [], tls_inner := (tls_inner ?t1)\<lparr>sent := [7, 8]\<rparr>\<rparr>"
  have w: "tls_poll_write null_ops [7, 8] null_stream = Some (Ready (Inr 2), ?t1)"
    by (simp add: tls_poll_write_def null_ops_def null_stream_def collect_tls.simps wire_drain.simps wire_write_def)
  have fl: "tls_poll_flush null_ops ?t1 = Some (Ready (Inr ()), ?t2)"
    by (simp add: tls_poll_flush_def null_ops_def null_stream_def collect_tls.simps wire_drain.simps wire_write_def wire_flush_def)
  have "sent (tls_inner ?t2) = take (nc_sent (tls_conn ?t2)) (nc_out (tls_conn ?t2))"
    using tls_write_in_order [OF null_faithful _ w fl] by (simp add: null_stream_def)
  with w fl show ?thesis
    by (intro exI [of _ ?t1] exI [of _ ?t2]) simp
qed

end
