(* ===== verification/Fetch.thy ===== *)
theory Fetch
  imports Response Mux Header_Order Shared_Urls Tls
begin

text \<open>
  The transport entry point (\<^verbatim>\<open>crates/zp-kernel-bundle/src/kernel/transport/fetch.rs\<close>): reuse of pooled
  connections, the cold path, and the response handed back to the service worker. The browser's URL
  parser, its response constructor, the TLS stack and the two HTTP clients are parameters; the pools and
  the set of hosts that need the plain cipher list are explicit state. Tracing is left out.
\<close>

subsection \<open>URLs\<close>

text \<open>What the browser's \<^verbatim>\<open>URL\<close> object exposes.\<close>

record web_url =
  protocol :: str
  hostname :: str
  port_str :: str
  pathname :: str
  search :: str

record parsed_url =
  scheme :: str
  host :: str
  port :: u16
  path :: str

definition trim_end_colons :: "str \<Rightarrow> str" where
  "trim_end_colons s = rev (dropWhile (\<lambda>b. b = 58) (rev s))"

definition default_port :: "str \<Rightarrow> u16" where
  "default_port sch = (if sch = bs ''https'' then 443 else 80)"

definition parse_url :: "(str \<Rightarrow> web_url option) \<Rightarrow> str \<Rightarrow> fmt list + parsed_url" where
  "parse_url url_new url =
     (case url_new url of
        None \<Rightarrow> Inl [Lit ''bad URL: '', Disp url]
      | Some u \<Rightarrow>
          let sch = to_ascii_lowercase (trim_end_colons (protocol u)) in
          if sch \<noteq> bs ''http'' \<and> sch \<noteq> bs ''https'' then Inl [Lit ''unsupported scheme: '', Disp sch]
          else if hostname u = [] then Inl [Lit ''empty host in URL: '', Disp url]
          else
            (case (if port_str u = [] then Some (unat (default_port sch)) else from_str_radix 16 10 (port_str u)) of
               None \<Rightarrow> Inl [Lit ''bad port: '', Disp (port_str u)]
             | Some p \<Rightarrow>
                 let pth = pathname u @ search u
                 in Inr \<lparr>scheme = sch, host = hostname u, port = word_of_nat p,
                         path = (if pth = [] then bs ''/'' else pth)\<rparr>))"

definition host_header :: "parsed_url \<Rightarrow> str" where
  "host_header u =
     (if (scheme u = bs ''http'' \<and> port u = 80) \<or> (scheme u = bs ''https'' \<and> port u = 443) then host u
      else host u @ [58] @ to_string (unat (port u)))"

text \<open>The service worker's location: absent, or its \<^verbatim>\<open>host\<close> and \<^verbatim>\<open>protocol\<close> when they are strings.\<close>

definition pick_relay_url :: "(str option \<times> str option) option \<Rightarrow> string + str" where
  "pick_relay_url location =
     (case location of
        None \<Rightarrow> Inl ''SW_NOT_READY: no location''
      | Some (h, p) \<Rightarrow>
          let h = (case h of Some h \<Rightarrow> h | None \<Rightarrow> []);
              p = (case p of Some p \<Rightarrow> p | None \<Rightarrow> bs ''http:'')
          in if h = [] then Inl ''SW_NOT_READY: empty host''
             else Inr ((if p = bs ''https:'' then bs ''wss'' else bs ''ws'') @ bs ''://'' @ h @ bs ''/zp/ws-pipe''))"

subsection \<open>The response for the service worker\<close>

text \<open>
  A browser header list; \<open>ok\<close> tells which appended pairs the browser accepts, the others are dropped.
\<close>

definition headers_append :: "(header \<Rightarrow> bool) \<Rightarrow> header list \<Rightarrow> header \<Rightarrow> header list" where
  "headers_append ok hs kv = (if ok kv then hs @ [kv] else hs)"

definition set_header :: "header list \<Rightarrow> header \<Rightarrow> header list" where
  "set_header hs kv = filter (\<lambda>(k, _). \<not> eq_ignore_ascii_case k (fst kv)) hs @ [kv]"

definition forged_marker :: "str \<Rightarrow> bool" where
  "forged_marker k \<longleftrightarrow>
     eq_ignore_ascii_case k (bs ''x-zp-body-stream'') \<or> eq_ignore_ascii_case k (bs ''x-zp-stream'')"

definition header_value_of :: "string \<Rightarrow> header list \<Rightarrow> str option" where
  "header_value_of name hs = map_option snd (find (\<lambda>(k, _). eq_ignore_ascii_case k (bs name)) hs)"

definition set_cookies :: "header list \<Rightarrow> str list" where
  "set_cookies hs =
     map snd (filter (\<lambda>(k, _). \<not> forged_marker k \<and> eq_ignore_ascii_case k (bs ''set-cookie'')) hs)"

definition build_response_headers ::
    "(header \<Rightarrow> bool) \<Rightarrow> (str \<Rightarrow> web_url option) \<Rightarrow> header list \<Rightarrow> str \<Rightarrow> bool \<Rightarrow> header list" where
  "build_response_headers ok url_new upstream final_url armed =
     (let hs = fold (\<lambda>kv hs. if forged_marker (fst kv) then hs else headers_append ok hs kv) upstream [];
          cookies = set_cookies upstream;
          hs = (if cookies \<noteq> [] then headers_append ok hs (bs ''X-ZP-Set-Cookie'', join [9] cookies) else hs);
          cf = (case header_value_of ''cf-mitigated'' upstream of Some v \<Rightarrow> v | None \<Rightarrow> []);
          (h, p) = (case parse_url url_new final_url of Inr u \<Rightarrow> (host u, path u) | Inl _ \<Rightarrow> ([], []))
      in if armed \<and> is_challenge_document cf h p then headers_append ok hs (bs ''X-ZP-Challenge-Compat'', bs ''1'') else hs)"

datatype js_body = NullBody | Buffer "u8 list" | StreamBody body_source

record js_response =
  js_status :: u16
  js_text :: str
  js_headers :: "header list"
  js_body :: js_body

definition build_js_response ::
    "(header \<Rightarrow> bool) \<Rightarrow> (str \<Rightarrow> web_url option) \<Rightarrow> http_response \<Rightarrow> str \<Rightarrow> bool \<Rightarrow> js_response" where
  "build_js_response ok url_new resp final_url armed =
     \<lparr>js_status = resp_status resp, js_text = resp_reason resp,
      js_headers = build_response_headers ok url_new (resp_headers resp) final_url armed,
      js_body = (if null_body resp then NullBody else Buffer (resp_body resp))\<rparr>"

definition is_html :: "header list \<Rightarrow> bool" where
  "is_html hs =
     (case header_value_of ''content-type'' hs of
        Some v \<Rightarrow> eq_ignore_ascii_case (trim (hd (split_on 59 v))) (bs ''text/html'')
      | None \<Rightarrow> False)"

definition build_streaming_js_response ::
    "(header \<Rightarrow> bool) \<Rightarrow> (str \<Rightarrow> web_url option) \<Rightarrow> streaming_response \<Rightarrow> str \<Rightarrow> bool \<Rightarrow> js_response" where
  "build_streaming_js_response ok url_new resp final_url armed =
     (let hs = build_response_headers ok url_new (s_headers resp) final_url armed;
          hs = set_header hs (bs ''X-ZP-Body-Stream'', bs ''1'');
          hs = (if is_html (s_headers resp) then set_header hs (bs ''X-ZP-Stream'', bs ''1'') else hs)
      in \<lparr>js_status = s_status resp, js_text = s_reason resp, js_headers = hs,
          js_body = (if is_null_body_status (s_status resp) then NullBody else StreamBody (s_stream resp))\<rparr>)"

text \<open>The browser's constructor may refuse a response; \<open>ctor\<close> is its error.\<close>

definition finish_h2_response ::
    "(header \<Rightarrow> bool) \<Rightarrow> (str \<Rightarrow> web_url option) \<Rightarrow> (js_response \<Rightarrow> fmt list option) \<Rightarrow> h2_response \<Rightarrow> str \<Rightarrow> bool
      \<Rightarrow> fmt list + js_response" where
  "finish_h2_response ok url_new ctor resp final_url armed =
     (let r = (case resp of
                 Buffered b \<Rightarrow> build_js_response ok url_new b final_url armed
               | Streaming s \<Rightarrow> build_streaming_js_response ok url_new s final_url armed)
      in case ctor r of Some e \<Rightarrow> Inl e | None \<Rightarrow> Inr r)"

subsection \<open>Opening a connection\<close>

text \<open>
  What the layers below answer: dialing and the TLS handshake by attempt, the negotiated protocol, the
  HTTP/2 handshake, and the two HTTP exchanges for the request at hand. An HTTP/1.1 exchange may park
  its connection.
\<close>

record ('s, 't, 'h) net =
  dial :: "nat \<Rightarrow> target_addr \<Rightarrow> dial_error + 's"
  tls_connect :: "nat \<Rightarrow> 's \<Rightarrow> str \<Rightarrow> str list \<Rightarrow> bool \<Rightarrow> tls_error + 't"
  alpn_protocol :: "'t \<Rightarrow> str option"
  h2_handshake :: "'t \<Rightarrow> 'h io_result"
  h2_exchange :: "'h \<Rightarrow> h2_response io_result"
  h1_exchange :: "('s, 't) pooled_conn \<Rightarrow> pool_key \<Rightarrow> ('s, 't) pooled_conn idle_pool
    \<Rightarrow> h2_response io_result \<times> ('s, 't) pooled_conn idle_pool"

datatype ('s, 't, 'h) fresh_conn = Http1 "('s, 't) pooled_conn" | Http2 'h

definition host_h2_denied :: "str \<Rightarrow> bool" where
  "host_h2_denied h = False"

definition jserr :: "string \<Rightarrow> fmt \<Rightarrow> fmt list" where
  "jserr tag e = [Lit tag, Lit '': '', e]"

definition tls_display :: "tls_error \<Rightarrow> fmt" where
  "tls_display e =
     (case e of
        TlsProcessError r \<Rightarrow> DispErr (IoError InvalidData [Lit ''tls: process: '', display_rustls r])
      | TlsIo e \<Rightarrow> DispErr e)"

definition into_js_error :: "dial_error \<Rightarrow> fmt list" where
  "into_js_error e = jserr (dial_code e) (detail e)"

definition alpn_list :: "str \<Rightarrow> str list" where
  "alpn_list h = (if host_h2_denied h then [bs ''http/1.1''] else [bs ''h2'', bs ''http/1.1''])"

definition after_tls :: "('s, 't, 'h) net \<Rightarrow> 't \<Rightarrow> fmt list + ('s, 't, 'h) fresh_conn" where
  "after_tls w t =
     (if alpn_protocol w t = Some (bs ''h2'') then
        (case h2_handshake w t of
           Inl e \<Rightarrow> Inl (jserr ''TARGET_HTTP_FAILED'' (DispErr e))
         | Inr client \<Rightarrow> Inr (Http2 client))
      else Inr (Http1 (Conn_Pool.Tls t)))"

definition open_fresh ::
    "('s, 't, 'h) net \<Rightarrow> parsed_url \<Rightarrow> str option \<Rightarrow> str list \<Rightarrow> (fmt list + ('s, 't, 'h) fresh_conn) \<times> str list" where
  "open_fresh w u isolation hosts =
     (let addr = \<lparr>target_host = host u, target_port = port u,
                  target_isolation = (case isolation of Some k \<Rightarrow> if k = [] then None else Some k | None \<Rightarrow> None)\<rparr>
      in case dial w 0 addr of
           Inl e \<Rightarrow> (Inl (into_js_error e), hosts)
         | Inr s \<Rightarrow>
             if scheme u = bs ''https'' then
               (case tls_connect w 0 s (host u) (alpn_list (host u)) (\<not> host_needs_plain_suites (host u) hosts) of
                  Inr t \<Rightarrow> (after_tls w t, hosts)
                | Inl e \<Rightarrow>
                    if is_unoffered_suite e then
                      let hosts = remember_plain_suites (host u) hosts in
                      (case dial w 1 addr of
                         Inl e \<Rightarrow> (Inl (into_js_error e), hosts)
                       | Inr s \<Rightarrow>
                           (case tls_connect w 1 s (host u) (alpn_list (host u)) False of
                              Inl e \<Rightarrow> (Inl (jserr ''TARGET_TLS_FAILED'' (tls_display e)), hosts)
                            | Inr t \<Rightarrow> (after_tls w t, hosts)))
                    else (Inl (jserr ''TARGET_TLS_FAILED'' (tls_display e)), hosts))
             else (Inr (Http1 (Conn_Pool.Plain s)), hosts))"

subsection \<open>The fetch\<close>

text \<open>Where the request has been sent, in order.\<close>

datatype ('s, 't, 'h) sent_on =
    ReusedH2 'h
  | ReusedH1 "('s, 't) pooled_conn"
  | FreshH2 'h
  | FreshH1 "('s, 't) pooled_conn"

record ('s, 't, 'h) kernel =
  kpools :: "(('s, 't) pooled_conn, 'h) pools"
  plain_hosts :: "str list"
  attempts :: "('s, 't, 'h) sent_on list"

definition cold_request ::
    "('s, 't, 'h) net \<Rightarrow> (pool_key list \<Rightarrow> nat) \<Rightarrow> parsed_url \<Rightarrow> pool_key \<Rightarrow> ('s, 't, 'h) kernel
      \<Rightarrow> (fmt list + h2_response) \<times> ('s, 't, 'h) kernel" where
  "cold_request w pick u key k =
     (let isolation = (if isolation_key key = [] then None else Some (isolation_key key)) in
      case open_fresh w u isolation (plain_hosts k) of
        (Inl e, hosts) \<Rightarrow> (Inl e, k\<lparr>plain_hosts := hosts\<rparr>)
      | (Inr (Http2 client), hosts) \<Rightarrow>
          let k = k\<lparr>plain_hosts := hosts,
                    kpools := (kpools k)\<lparr>http2 := put_http2 pick key client (http2 (kpools k))\<rparr>,
                    attempts := attempts k @ [FreshH2 client]\<rparr>
          in (case h2_exchange w client of
                Inl e \<Rightarrow> (Inl (jserr ''TARGET_HTTP_FAILED'' (DispErr e)), k)
              | Inr resp \<Rightarrow> (Inr resp, k))
      | (Inr (Http1 c), hosts) \<Rightarrow>
          (case h1_exchange w c key (idle (kpools k)) of
             (r, p) \<Rightarrow>
               let k = k\<lparr>plain_hosts := hosts, kpools := (kpools k)\<lparr>idle := p\<rparr>,
                         attempts := attempts k @ [FreshH1 c]\<rparr>
               in (case r of
                     Inl e \<Rightarrow> (Inl (jserr ''TARGET_HTTP_FAILED'' (DispErr e)), k)
                   | Inr resp \<Rightarrow> (Inr resp, k))))"

definition try_http2 ::
    "('s, 't, 'h) net \<Rightarrow> pool_key \<Rightarrow> ('s, 't, 'h) kernel \<Rightarrow> h2_response option \<times> ('s, 't, 'h) kernel" where
  "try_http2 w key k =
     (case get_http2 key (http2 (kpools k)) of
        (None, p) \<Rightarrow> (None, k\<lparr>kpools := (kpools k)\<lparr>http2 := p\<rparr>\<rparr>)
      | (Some client, p) \<Rightarrow>
          let k = k\<lparr>kpools := (kpools k)\<lparr>http2 := p\<rparr>, attempts := attempts k @ [ReusedH2 client]\<rparr> in
          (case h2_exchange w client of
             Inr resp \<Rightarrow> (Some resp, k)
           | Inl _ \<Rightarrow> (None, k\<lparr>kpools := (kpools k)\<lparr>http2 := remove_http2 key p\<rparr>\<rparr>)))"

definition try_pooled ::
    "('s, 't, 'h) net \<Rightarrow> pool_key \<Rightarrow> ('s, 't, 'h) kernel \<Rightarrow> h2_response option \<times> ('s, 't, 'h) kernel" where
  "try_pooled w key k =
     (case pool_take key (idle (kpools k)) of
        (None, p) \<Rightarrow> (None, k\<lparr>kpools := (kpools k)\<lparr>idle := p\<rparr>\<rparr>)
      | (Some c, p) \<Rightarrow>
          (case h1_exchange w c key p of
             (r, p) \<Rightarrow>
               let k = k\<lparr>kpools := (kpools k)\<lparr>idle := p\<rparr>, attempts := attempts k @ [ReusedH1 c]\<rparr>
               in (case r of Inr resp \<Rightarrow> (Some resp, k) | Inl _ \<Rightarrow> (None, k))))"

definition pool_key_of :: "parsed_url \<Rightarrow> str option \<Rightarrow> pool_key" where
  "pool_key_of u isolation =
     \<lparr>key_scheme = scheme u, key_host = host u, key_port = port u,
      isolation_key = (case isolation of Some k \<Rightarrow> k | None \<Rightarrow> [])\<rparr>"

definition send_any ::
    "('s, 't, 'h) net \<Rightarrow> (pool_key list \<Rightarrow> nat) \<Rightarrow> parsed_url \<Rightarrow> str option \<Rightarrow> ('s, 't, 'h) kernel
      \<Rightarrow> (fmt list + h2_response) \<times> ('s, 't, 'h) kernel" where
  "send_any w pick u isolation k =
     (let key = pool_key_of u isolation in
      case try_http2 w key k of
        (Some resp, k) \<Rightarrow> (Inr resp, k)
      | (None, k) \<Rightarrow>
          (case try_pooled w key k of
             (Some resp, k) \<Rightarrow> (Inr resp, k)
           | (None, k) \<Rightarrow> cold_request w pick u key k))"

record browser =
  url_new :: "str \<Rightarrow> web_url option"
  append_ok :: "header \<Rightarrow> bool"
  response_ctor :: "js_response \<Rightarrow> fmt list option"
  location :: "(str option \<times> str option) option"

definition fetch ::
    "browser \<Rightarrow> (str \<Rightarrow> str \<Rightarrow> str \<Rightarrow> ('s, 't, 'h) net) \<Rightarrow> (pool_key list \<Rightarrow> nat) \<Rightarrow> str \<Rightarrow> bool \<Rightarrow> str option
      \<Rightarrow> ('s, 't, 'h) kernel \<Rightarrow> (fmt list + js_response) \<times> ('s, 't, 'h) kernel" where
  "fetch b w pick target_url armed isolation k =
     (case parse_url (url_new b) target_url of
        Inl e \<Rightarrow> (Inl e, k)
      | Inr u \<Rightarrow>
          (case pick_relay_url (location b) of
             Inl e \<Rightarrow> (Inl [Lit e], k)
           | Inr relay \<Rightarrow>
               (case send_any (w relay (host_header u) (path u)) pick u isolation k of
                  (Inl e, k) \<Rightarrow> (Inl e, k)
                | (Inr resp, k) \<Rightarrow>
                    (finish_h2_response (append_ok b) (url_new b) (response_ctor b) resp target_url armed, k))))"

subsection \<open>Lemmas on attempts\<close>

fun from_pool :: "('s, 't, 'h) kernel \<Rightarrow> pool_key \<Rightarrow> ('s, 't, 'h) sent_on \<Rightarrow> bool" where
  "from_pool k key (ReusedH2 h) \<longleftrightarrow> map_of (http2 (kpools k)) key = Some h"
| "from_pool k key (ReusedH1 c) \<longleftrightarrow> c \<in> set (queue (idle (kpools k)) key)"
| "from_pool k key _ \<longleftrightarrow> False"

text \<open>
  What a connection opened for a key is: dialed to the key's host and port under its isolation key, and
  for \<^verbatim>\<open>https\<close> secured by a TLS handshake for that host name.
\<close>

definition dialed_for :: "('s, 't, 'h) net \<Rightarrow> pool_key \<Rightarrow> nat \<Rightarrow> 's \<Rightarrow> bool" where
  "dialed_for w key n s \<longleftrightarrow>
     dial w n \<lparr>target_host = key_host key, target_port = key_port key,
               target_isolation = (if isolation_key key = [] then None else Some (isolation_key key))\<rparr> = Inr s"

definition secured_for :: "('s, 't, 'h) net \<Rightarrow> pool_key \<Rightarrow> 't \<Rightarrow> bool" where
  "secured_for w key t \<longleftrightarrow> key_scheme key = bs ''https''
     \<and> (\<exists>n s offer suites. dialed_for w key n s \<and> tls_connect w n s (key_host key) offer suites = Inr t)"

fun opened_for :: "('s, 't, 'h) net \<Rightarrow> pool_key \<Rightarrow> ('s, 't, 'h) sent_on \<Rightarrow> bool" where
  "opened_for w key (FreshH1 (Conn_Pool.Plain s)) \<longleftrightarrow> key_scheme key \<noteq> bs ''https'' \<and> (\<exists>n. dialed_for w key n s)"
| "opened_for w key (FreshH1 (Conn_Pool.Tls t)) \<longleftrightarrow> secured_for w key t \<and> alpn_protocol w t \<noteq> Some (bs ''h2'')"
| "opened_for w key (FreshH2 h) \<longleftrightarrow>
     (\<exists>t. secured_for w key t \<and> alpn_protocol w t = Some (bs ''h2'') \<and> h2_handshake w t = Inr h)"
| "opened_for w key _ \<longleftrightarrow> False"

fun fresh_attempt :: "('s, 't, 'h) fresh_conn \<Rightarrow> ('s, 't, 'h) sent_on" where
  "fresh_attempt (Http1 c) = FreshH1 c"
| "fresh_attempt (Http2 h) = FreshH2 h"

lemma after_tls_opened:
  "secured_for w key t \<Longrightarrow> after_tls w t = Inr fc \<Longrightarrow> opened_for w key (fresh_attempt fc)"
  by (auto simp: after_tls_def split: if_splits sum.splits)

lemma open_fresh_opened:
  assumes "open_fresh w u (if isolation_key key = [] then None else Some (isolation_key key)) hosts = (Inr fc, hosts')"
    and "key_scheme key = scheme u" "key_host key = host u" "key_port key = port u"
  shows "opened_for w key (fresh_attempt fc)"
proof -
  define addr where "addr = \<lparr>target_host = host u, target_port = port u,
    target_isolation = (if isolation_key key = [] then None else Some (isolation_key key))\<rparr>"
  have a: "dialed_for w key n s \<longleftrightarrow> dial w n addr = Inr s" for n s
    using assms(2-) by (simp add: dialed_for_def addr_def)
  have "(case (if isolation_key key = [] then None else Some (isolation_key key)) of
      Some k \<Rightarrow> if k = [] then None else Some k | None \<Rightarrow> None)
      = (if isolation_key key = [] then None else Some (isolation_key key))"
    by simp
  note run = assms(1) [unfolded open_fresh_def Let_def this, folded addr_def]
  show ?thesis
  proof (cases "scheme u = bs ''https''")
    case False
    with run obtain s where "fc = Http1 (Conn_Pool.Plain s)" "dialed_for w key 0 s"
      by (auto simp: a split: sum.splits if_splits)
    with False assms(2) show ?thesis
      by auto
  next
    case True
    then have "secured_for w key t"
      if "dial w n addr = Inr s" "tls_connect w n s (host u) offer suites = Inr t" for n s t offer suites
      using that assms(2,3) by (auto simp: secured_for_def a)
    note t = after_tls_opened [OF this]
    show ?thesis
      using run True by (auto dest: t split: sum.splits if_splits)
  qed
qed

fun answer :: "('s, 't, 'h) net \<Rightarrow> pool_key \<Rightarrow> ('s, 't, 'h) sent_on \<Rightarrow> h2_response io_result \<Rightarrow> bool" where
  "answer w key (ReusedH2 h) r \<longleftrightarrow> h2_exchange w h = r"
| "answer w key (FreshH2 h) r \<longleftrightarrow> h2_exchange w h = r"
| "answer w key (ReusedH1 c) r \<longleftrightarrow> (\<exists>p p'. h1_exchange w c key p = (r, p'))"
| "answer w key (FreshH1 c) r \<longleftrightarrow> (\<exists>p p'. h1_exchange w c key p = (r, p'))"

lemma try_http2_cases:
  assumes "try_http2 w key k = (r, k')"
  obtains "r = None" "attempts k' = attempts k" "idle (kpools k') = idle (kpools k)"
  | h e where "r = None" "attempts k' = attempts k @ [ReusedH2 h]" "idle (kpools k') = idle (kpools k)"
      "map_of (http2 (kpools k)) key = Some h" "h2_exchange w h = Inl e"
  | h resp where "r = Some resp" "attempts k' = attempts k @ [ReusedH2 h]"
      "map_of (http2 (kpools k)) key = Some h" "h2_exchange w h = Inr resp"
  using assms
  by (auto simp: try_http2_def get_http2_def is_alive_def Let_def split: option.splits sum.splits)

lemma pool_take_queue: "pool_take key p = (Some c, p') \<Longrightarrow> c \<in> set (queue p key)"
  by (auto simp: pool_take_def queue_def Let_def split: option.splits if_splits)

lemma try_pooled_cases:
  assumes "try_pooled w key k = (r, k')"
  obtains "r = None" "attempts k' = attempts k"
  | c e where "r = None" "attempts k' = attempts k @ [ReusedH1 c]" "c \<in> set (queue (idle (kpools k)) key)"
      "answer w key (ReusedH1 c) (Inl e)"
  | c resp where "r = Some resp" "attempts k' = attempts k @ [ReusedH1 c]" "c \<in> set (queue (idle (kpools k)) key)"
      "answer w key (ReusedH1 c) (Inr resp)"
  using assms
  by (fastforce simp: try_pooled_def Let_def dest!: pool_take_queue split: option.splits sum.splits prod.splits)

lemma cold_request_cases:
  assumes "cold_request w pick u key k = (r, k')"
    and key: "key_scheme key = scheme u" "key_host key = host u" "key_port key = port u"
  obtains e where "r = Inl e" "attempts k' = attempts k"
  | a e m where "r = Inl m" "attempts k' = attempts k @ [a]" "opened_for w key a" "answer w key a (Inl e)"
  | a resp where "r = Inr resp" "attempts k' = attempts k @ [a]" "opened_for w key a" "answer w key a (Inr resp)"
proof -
  obtain fr hosts where o: "open_fresh w u (if isolation_key key = [] then None else Some (isolation_key key)) (plain_hosts k) = (fr, hosts)"
    by fastforce
  show thesis
  proof (cases fr)
    case (Inl e)
    with o assms that(1) show thesis
      by (auto simp: cold_request_def)
  next
    case (Inr fc)
    note opened = open_fresh_opened [OF o [unfolded Inr] key]
    show thesis
    proof (cases fc)
      case (Http1 c)
      obtain x p where x: "h1_exchange w c key (idle (kpools k)) = (x, p)"
        by fastforce
      note run = assms(1) [unfolded cold_request_def Let_def o Inr Http1]
      show thesis
      proof (cases x)
        case (Inl e)
        show thesis
          by (rule that(2) [of _ "FreshH1 c" e]) (use run x Inl opened Http1 in auto)
      next
        case (Inr resp)
        show thesis
          by (rule that(3) [of resp "FreshH1 c"]) (use run x Inr opened Http1 in auto)
      qed
    next
      case (Http2 h)
      note run = assms(1) [unfolded cold_request_def Let_def o Inr Http2]
      show thesis
      proof (cases "h2_exchange w h")
        case (Inl e)
        show thesis
          by (rule that(2) [of _ "FreshH2 h" e]) (use run Inl opened Http2 in auto)
      next
        case (Inr resp)
        show thesis
          by (rule that(3) [of resp "FreshH2 h"]) (use run Inr opened Http2 in auto)
      qed
    qed
  qed
qed

definition attempts_ok ::
    "('s, 't, 'h) net \<Rightarrow> ('s, 't, 'h) kernel \<Rightarrow> pool_key \<Rightarrow> fmt list + h2_response \<Rightarrow> ('s, 't, 'h) sent_on list \<Rightarrow> bool" where
  "attempts_ok w k key res tried \<longleftrightarrow>
     (\<exists>failed final. tried = failed @ final \<and> length failed \<le> 2
        \<and> list_all (\<lambda>a. from_pool k key a \<and> (\<exists>e. answer w key a (Inl e))) failed
        \<and> (case res of
             Inr resp \<Rightarrow> (\<exists>a. final = [a] \<and> (from_pool k key a \<or> opened_for w key a) \<and> answer w key a (Inr resp))
           | Inl _ \<Rightarrow> final = [] \<or> (\<exists>a e. final = [a] \<and> opened_for w key a \<and> answer w key a (Inl e))))"

lemma attempts_okI:
  "\<lbrakk>tried = failed @ [a]; length failed \<le> 2;
    list_all (\<lambda>a. from_pool k key a \<and> (\<exists>e. answer w key a (Inl e))) failed;
    from_pool k key a \<or> opened_for w key a; answer w key a (Inr resp)\<rbrakk> \<Longrightarrow> attempts_ok w k key (Inr resp) tried"
  unfolding attempts_ok_def by (intro exI [of _ failed] exI [of _ "[a]"]) simp

lemma cold_request_attempts:
  assumes "cold_request w pick u key k' = (r, k2)" "attempts k' = failed" "length failed \<le> 2"
    "list_all (\<lambda>a. from_pool k key a \<and> (\<exists>e. answer w key a (Inl e))) failed"
    "key_scheme key = scheme u" "key_host key = host u" "key_port key = port u"
  shows "attempts_ok w k key r (attempts k2)"
  using assms(1,5-)
proof (cases rule: cold_request_cases)
  case (1 e)
  with assms(2-) show ?thesis
    unfolding attempts_ok_def by (intro exI [of _ failed] exI [of _ "[]"]) simp
next
  case (2 a e m)
  with assms(2-) show ?thesis
    unfolding attempts_ok_def by (intro exI [of _ failed] exI [of _ "[a]"]) auto
next
  case (3 a resp)
  with assms(2-) show ?thesis
    using attempts_okI [of "attempts k2" failed a k key w resp] by simp
qed

lemma send_any_attempts:
  assumes "attempts k = []" "send_any w pick u isolation k = (r, k')"
  shows "attempts_ok w k (pool_key_of u isolation) r (attempts k')"
proof -
  let ?key = "pool_key_of u isolation"
  obtain r1 k1 where t1: "try_http2 w ?key k = (r1, k1)"
    by fastforce
  obtain r2 k2 where t2: "try_pooled w ?key k1 = (r2, k2)"
    by fastforce
  show ?thesis
  proof (cases r1)
    case (Some resp)
    have end1: "r = Inr resp" "k' = k1"
      using assms(2) t1 Some by (simp_all add: send_any_def)
    show ?thesis
      using t1 Some assms(1) attempts_okI [of "attempts k1" "[]" _ k ?key w resp]
      by (cases rule: try_http2_cases) (auto simp: end1)
  next
    case None
    define failed where "failed = attempts k1"
    have f: "length failed \<le> 1" "idle (kpools k1) = idle (kpools k)"
        "list_all (\<lambda>a. from_pool k ?key a \<and> (\<exists>e. answer w ?key a (Inl e))) failed"
      using t1 assms(1) None by (cases rule: try_http2_cases; auto simp: failed_def)+
    show ?thesis
    proof (cases r2)
      case (Some resp)
      with t2 show ?thesis
      proof (cases rule: try_pooled_cases)
        case (3 c resp')
        with Some None t1 t2 f assms show ?thesis
          using attempts_okI [of "attempts k2" failed "ReusedH1 c" k ?key w resp]
          by (auto simp: send_any_def failed_def)
      qed auto
    next
      case None': None
      have "length (attempts k2) \<le> 2"
          "list_all (\<lambda>a. from_pool k ?key a \<and> (\<exists>e. answer w ?key a (Inl e))) (attempts k2)"
        using t2 f None' by (cases rule: try_pooled_cases; force simp: failed_def)+
      then show ?thesis
        using cold_request_attempts [of w pick u ?key k2 r k' "attempts k2" k] assms(2) t1 t2 None None'
        by (simp add: send_any_def) (simp add: pool_key_of_def)
    qed
  qed
qed

subsection \<open>Lemmas on the response headers\<close>

lemma copy_headers:
  "set (fold (\<lambda>kv hs. if forged_marker (fst kv) then hs else headers_append ok hs kv) upstream hs0)
     = set hs0 \<union> {kv \<in> set upstream. \<not> forged_marker (fst kv) \<and> ok kv}"
  by (induction upstream arbitrary: hs0) (auto simp: headers_append_def)

lemma build_response_headers_set:
  "kv \<in> set (build_response_headers ok un upstream final_url armed) \<Longrightarrow>
     kv \<in> set upstream \<and> \<not> forged_marker (fst kv)
     \<or> kv = (bs ''X-ZP-Set-Cookie'', join [9] (set_cookies upstream)) \<and> set_cookies upstream \<noteq> []
     \<or> kv = (bs ''X-ZP-Challenge-Compat'', bs ''1'') \<and> armed"
  using copy_headers [of ok upstream "[]"]
  by (auto simp: build_response_headers_def Let_def headers_append_def split: if_splits prod.splits)

lemma forged_marker_ours [simp]:
  "\<not> forged_marker (bs ''X-ZP-Set-Cookie'')" "\<not> forged_marker (bs ''X-ZP-Challenge-Compat'')"
  by (simp_all add: forged_marker_def byte_simps)

lemma build_response_headers_unforged:
  "kv \<in> set (build_response_headers ok un upstream final_url armed) \<Longrightarrow> \<not> forged_marker (fst kv)"
  by (auto dest!: build_response_headers_set)

subsection \<open>Properties\<close>

text \<open>
  C9. Every connection a request is sent on was parked for exactly the request's scheme, host, port and
  isolation key, or has been opened for it: dialed to that host and port under that isolation key, and
  for \<^verbatim>\<open>https\<close> (and no other scheme) secured by a TLS handshake for that host name. At most two parked
  ones are tried; each attempt but the last failed, and the response is that of the last attempt.
\<close>

theorem fetch_attempts:
  assumes "attempts k = []" "send_any w pick u isol k = (res, k')"
    and "key = \<lparr>key_scheme = scheme u, key_host = host u, key_port = port u,
                isolation_key = (case isol of Some i \<Rightarrow> i | None \<Rightarrow> [])\<rparr>"
  shows "\<exists>failed final. attempts k' = failed @ final \<and> length failed \<le> 2
    \<and> list_all (\<lambda>a. from_pool k key a \<and> (\<exists>e. answer w key a (Inl e))) failed
    \<and> (case res of
         Inr resp \<Rightarrow> (\<exists>a. final = [a] \<and> (from_pool k key a \<or> opened_for w key a) \<and> answer w key a (Inr resp))
       | Inl _ \<Rightarrow> final = [] \<or> (\<exists>a e. final = [a] \<and> opened_for w key a \<and> answer w key a (Inl e)))"
proof -
  have "key = pool_key_of u isol"
    using assms(3) by (simp add: pool_key_of_def)
  with send_any_attempts [OF assms(1,2)] have "attempts_ok w k key res (attempts k')" by simp
  then show ?thesis
    unfolding attempts_ok_def .
qed

text \<open>A parked connection that turns out stale, and a fresh one in the clear that answers.\<close>

definition sample_url :: parsed_url where
  "sample_url = \<lparr>scheme = bs ''http'', host = bs ''a.b'', port = 80, path = bs ''/''\<rparr>"

definition sample_answer :: h2_response where
  "sample_answer = Buffered \<lparr>resp_status = 200, resp_reason = [], resp_headers = [], resp_body = [], null_body = False\<rparr>"

definition sample_net :: "(nat, nat, nat) net" where
  "sample_net = \<lparr>dial = (\<lambda>_ _. Inr 2), tls_connect = (\<lambda>_ _ _ _ _. Inl (TlsIo (IoError OtherKind []))),
     alpn_protocol = (\<lambda>_. None), h2_handshake = (\<lambda>_. Inl (IoError OtherKind [])),
     h2_exchange = (\<lambda>_. Inl (IoError OtherKind [])),
     h1_exchange = (\<lambda>c key p. (if c = Conn_Pool.Plain 1 then Inl (IoError BrokenPipe []) else Inr sample_answer, p))\<rparr>"

definition sample_kernel :: "(nat, nat, nat) kernel" where
  "sample_kernel = \<lparr>kpools = \<lparr>idle = [(pool_key_of sample_url None, [Conn_Pool.Plain 1])], http2 = []\<rparr>,
     plain_hosts = [], attempts = []\<rparr>"

theorem fetch_attempts_witness:
  "\<exists>k' failed final. send_any sample_net (\<lambda>_. 0) sample_url None sample_kernel = (Inr sample_answer, k')
     \<and> attempts k' = failed @ final \<and> failed = [ReusedH1 (Conn_Pool.Plain 1)] \<and> final = [FreshH1 (Conn_Pool.Plain 2)]"
proof -
  let ?k = "\<lparr>kpools = \<lparr>idle = [], http2 = []\<rparr>, plain_hosts = [],
      attempts = [ReusedH1 (Conn_Pool.Plain 1), FreshH1 (Conn_Pool.Plain 2)]\<rparr> :: (nat, nat, nat) kernel"
  have run: "send_any sample_net (\<lambda>_. 0) sample_url None sample_kernel = (Inr sample_answer, ?k)"
    by (simp add: send_any_def try_http2_def get_http2_def try_pooled_def pool_take_def cold_request_def open_fresh_def
        sample_net_def sample_url_def sample_kernel_def pool_key_of_def byte_simps)
  from fetch_attempts [OF _ run refl] obtain failed final where
    "attempts ?k = failed @ final" "length failed \<le> 2" "\<exists>a. final = [a]"
    by (auto simp: sample_kernel_def)
  then have "failed = [ReusedH1 (Conn_Pool.Plain 1)] \<and> final = [FreshH1 (Conn_Pool.Plain 2)]"
    by (auto simp: Cons_eq_append_conv)
  with run \<open>attempts ?k = failed @ final\<close> show ?thesis by blast
qed

text \<open>
  C23. The markers that make the service worker treat a body as a live stream or as HTML cannot be set by
  the upstream server: a buffered response carries none, a streamed one exactly the kernel's.
\<close>

theorem stream_markers_trusted:
  "filter (\<lambda>(k, _). forged_marker k) (js_headers (build_js_response ok un b final_url armed)) = []
   \<and> filter (\<lambda>(k, _). forged_marker k) (js_headers (build_streaming_js_response ok un s final_url armed))
       = (bs ''X-ZP-Body-Stream'', bs ''1'') # (if is_html (s_headers s) then [(bs ''X-ZP-Stream'', bs ''1'')] else [])"
proof -
  have none: "kv \<in> set (build_response_headers ok un hs final_url armed) \<Longrightarrow> \<not> forged_marker (fst kv)" for kv hs
    by (rule build_response_headers_unforged)
  have "forged_marker (bs ''X-ZP-Body-Stream'')" "forged_marker (bs ''X-ZP-Stream'')"
      "\<not> eq_ignore_ascii_case (bs ''X-ZP-Body-Stream'') (bs ''X-ZP-Stream'')"
    by (simp_all add: forged_marker_def byte_simps)
  then show ?thesis
    by (auto simp: build_js_response_def build_streaming_js_response_def Let_def set_header_def
        filter_empty_conv dest!: none)
qed

text \<open>
  The challenge marker is copied from upstream even when the tab has not armed it.
\<close>

theorem challenge_marker_forged:
  "(bs ''X-ZP-Challenge-Compat'', bs ''1'') \<in> set (build_response_headers (\<lambda>_. True) un
     [(bs ''X-ZP-Challenge-Compat'', bs ''1'')] final_url False)"
  by (simp add: build_response_headers_def headers_append_def set_cookies_def Let_def forged_marker_def byte_simps)

end
