(* ===== verification/Ws_Frame.thy ===== *)
theory Ws_Frame
  imports Fetch
begin

text \<open>
  The wire side of the WebSocket client of
  \<^verbatim>\<open>crates/zp-kernel-bundle/src/kernel/transport/ws_client.rs\<close>: the \<^verbatim>\<open>ws:\<close> URL, the transport
  stream, the opening handshake over a \<open>stream\<close>, and the frame codec. Base64, SHA-1, the random
  bytes and \<^verbatim>\<open>httparse\<close> are parameters. An error value is the pieces of the JavaScript string.
\<close>

subsection \<open>The URL and the transport\<close>

definition WS_GUID :: str where
  "WS_GUID = bs ''258EAFA5-E914-47DA-95CA-C5AB0DC85B11''"

record ws_url =
  secure :: bool
  ws_host :: str
  ws_port :: u16
  path_and_query :: str

definition ws_url_parse :: "(str \<Rightarrow> web_url option) \<Rightarrow> str \<Rightarrow> fmt list + ws_url" where
  "ws_url_parse new url =
     (case new url of
        None \<Rightarrow> Inl [Lit ''bad URL: '', Disp url]
      | Some u \<Rightarrow>
          let sch = to_ascii_lowercase (trim_end_colons (protocol u)) in
          if sch \<noteq> bs ''ws'' \<and> sch \<noteq> bs ''wss'' then Inl [Lit ''unsupported ws scheme: '', Disp sch]
          else if hostname u = [] then Inl [Lit ''empty host in URL: '', Disp url]
          else
            (case (if port_str u = [] then Some (if sch = bs ''wss'' then 443 else 80)
                   else from_str_radix 16 10 (port_str u)) of
               None \<Rightarrow> Inl [Lit ''bad port: '', Disp (port_str u)]
             | Some p \<Rightarrow>
                 Inr \<lparr>secure = (sch = bs ''wss''), ws_host = hostname u, ws_port = word_of_nat p,
                      path_and_query = (if pathname u = [] then bs ''/'' else pathname u) @ search u\<rparr>))"

definition fresh_key :: "(u8 list \<Rightarrow> str) \<Rightarrow> str + u8 list \<Rightarrow> fmt list + str" where
  "fresh_key base64 rand =
     (case rand of Inl e \<Rightarrow> Inl [Lit ''getrandom: '', Disp e] | Inr nonce \<Rightarrow> Inr (base64 nonce))"

definition expected_accept :: "(u8 list \<Rightarrow> str) \<Rightarrow> (u8 list \<Rightarrow> u8 list) \<Rightarrow> str \<Rightarrow> str" where
  "expected_accept base64 sha1 client_key = base64 (sha1 (client_key @ WS_GUID))"

text \<open>
  \<open>open_target_stream\<close> goes through the dialer and, for \<^verbatim>\<open>wss:\<close>, TLS with only
  \<^verbatim>\<open>http/1.1\<close> offered; \<open>hosts\<close> are those that need the plain cipher suites.
\<close>

definition open_target_stream ::
    "('s, 't, 'h) net \<Rightarrow> string + str \<Rightarrow> str \<Rightarrow> u16 \<Rightarrow> bool \<Rightarrow> str option \<Rightarrow> str list
      \<Rightarrow> fmt list + ('s, 't) pooled_conn" where
  "open_target_stream w relay h p sec isolation hosts =
     (case relay of
        Inl e \<Rightarrow> Inl [Lit e]
      | Inr _ \<Rightarrow>
          (case dial w 0 \<lparr>target_host = h, target_port = p,
                          target_isolation = (case isolation of Some k \<Rightarrow> if k = [] then None else Some k | None \<Rightarrow> None)\<rparr> of
             Inl e \<Rightarrow> Inl (into_js_error e)
           | Inr s \<Rightarrow>
               if \<not> sec then Inr (Conn_Pool.Plain s)
               else (case tls_connect w 0 s h [bs ''http/1.1''] (\<not> host_needs_plain_suites h hosts) of
                       Inl e \<Rightarrow> Inl (jserr ''TARGET_TLS_FAILED'' (tls_display e))
                     | Inr t \<Rightarrow> Inr (Conn_Pool.Tls t))))"

subsection \<open>The opening handshake\<close>

definition ws_host_header :: "ws_url \<Rightarrow> str" where
  "ws_host_header u =
     (if (\<not> secure u \<and> ws_port u = 80) \<or> (secure u \<and> ws_port u = 443) then ws_host u
      else ws_host u @ [58] @ to_string (unat (ws_port u)))"

definition identity_ok :: "header \<Rightarrow> bool" where
  "identity_ok h \<longleftrightarrow>
     fst h \<in> {bs ''Origin'', bs ''User-Agent'', bs ''Cookie''}
     \<and> list_all (\<lambda>b. b \<noteq> CR \<and> b \<noteq> LF \<and> b \<noteq> 0) (snd h)"

fun push_identity :: "header list \<Rightarrow> str \<Rightarrow> fmt list + str" where
  "push_identity [] req = Inr req"
| "push_identity (h # hs) req =
     (if \<not> identity_ok h then Inl [Lit ''WS_BLOCKED: invalid handshake identity header'']
      else push_identity hs (if snd h = [] then req else req @ fst h @ bs '': '' @ snd h @ CRLF))"

definition upgrade_request :: "str \<Rightarrow> ws_url \<Rightarrow> str list \<Rightarrow> header list \<Rightarrow> fmt list + str" where
  "upgrade_request client_key url protocols identity_headers =
     (case push_identity identity_headers
         (bs ''GET '' @ path_and_query url @ bs '' HTTP/1.1'' @ CRLF
          @ bs ''Host: '' @ ws_host_header url @ CRLF
          @ bs ''Upgrade: websocket'' @ CRLF
          @ bs ''Connection: Upgrade'' @ CRLF
          @ bs ''Sec-WebSocket-Version: 13'' @ CRLF
          @ bs ''Sec-WebSocket-Key: '' @ client_key @ CRLF) of
        Inl e \<Rightarrow> Inl e
      | Inr req \<Rightarrow>
          Inr (req @ (if protocols = [] then []
                      else bs ''Sec-WebSocket-Protocol: '' @ join (bs '', '') protocols @ CRLF) @ CRLF))"

definition http_failed :: "string \<Rightarrow> fmt list" where
  "http_failed m = [Lit ''TARGET_HTTP_FAILED: '', Lit m]"

function read_upgrade :: "u8 list \<Rightarrow> stream \<Rightarrow> (fmt list + u8 list) \<times> stream" where
  "read_upgrade acc s =
     (case read 1024 s of
        (Inl e, s') \<Rightarrow> (Inl (http_failed ''ws-handshake-read: '' @ [DispErr e]), s')
      | (Inr xs, s') \<Rightarrow>
          if xs = [] then (Inl (http_failed ''ws-handshake-eof''), s')
          else if find_sub [CR, LF, CR, LF] (acc @ xs) \<noteq> None then (Inr (acc @ xs), s')
          else if 16 * 1024 < length (acc @ xs) then (Inl (http_failed ''ws-handshake-too-large''), s')
          else read_upgrade (acc @ xs) s')"
  by pat_completeness auto
termination
  by (relation "measure (\<lambda>(acc, s). 16 * 1024 + 1 - length acc)") (auto simp flip: length_greater_0_conv)

declare read_upgrade.simps [simp del]

record upgrade_seen =
  got_upgrade :: bool
  got_connection :: bool
  got_accept :: bool
  negotiated_protocol :: str

definition upgrade_field :: "str \<Rightarrow> str \<times> u8 list \<Rightarrow> upgrade_seen \<Rightarrow> upgrade_seen" where
  "upgrade_field expected h seen =
     (let name = fst h; v = (case from_utf8 (snd h) of Some s \<Rightarrow> s | None \<Rightarrow> []) in
      if eq_ignore_ascii_case name (bs ''upgrade'') then
        (if eq_ignore_ascii_case (trim v) (bs ''websocket'') then seen\<lparr>got_upgrade := True\<rparr> else seen)
      else if eq_ignore_ascii_case name (bs ''connection'') then
        (if list_ex (\<lambda>tok. eq_ignore_ascii_case (trim tok) (bs ''upgrade'')) (split_on 44 v)
         then seen\<lparr>got_connection := True\<rparr> else seen)
      else if eq_ignore_ascii_case name (bs ''sec-websocket-accept'') then
        (if trim v = expected then seen\<lparr>got_accept := True\<rparr> else seen)
      else if eq_ignore_ascii_case name (bs ''sec-websocket-protocol'') then seen\<lparr>negotiated_protocol := trim v\<rparr>
      else seen)"

definition check_upgrade ::
    "(u8 list \<Rightarrow> nat \<Rightarrow> string + parsed_response) \<Rightarrow> str \<Rightarrow> str list \<Rightarrow> u8 list \<Rightarrow> fmt list + str" where
  "check_upgrade httparse expected protocols response =
     (case httparse response 64 of
        Inl e \<Rightarrow> Inl (http_failed ''ws-handshake-parse: '' @ [Lit e])
      | Inr resp \<Rightarrow>
          if parse_status resp = Partial then Inl (http_failed ''ws-handshake-incomplete'')
          else if code resp \<noteq> Some 101 then
            Inl (http_failed ''ws-handshake-status: '' @ [Num (case code resp of Some c \<Rightarrow> unat c | None \<Rightarrow> 0)])
          else
            let seen = fold (upgrade_field expected) (raw_headers resp)
                  \<lparr>got_upgrade = False, got_connection = False, got_accept = False, negotiated_protocol = []\<rparr>
            in if \<not> got_upgrade seen \<or> \<not> got_connection seen \<or> \<not> got_accept seen
               then Inl (http_failed ''ws-handshake-headers'')
               else if negotiated_protocol seen \<noteq> [] \<and> protocols \<noteq> [] \<and> negotiated_protocol seen \<notin> set protocols
               then Inl [Lit ''WS_BLOCKED: ws-protocol-not-offered'']
               else Inr (negotiated_protocol seen))"

definition ws_handshake ::
    "(u8 list \<Rightarrow> str) \<Rightarrow> (u8 list \<Rightarrow> u8 list) \<Rightarrow> (u8 list \<Rightarrow> nat \<Rightarrow> string + parsed_response) \<Rightarrow> str + u8 list
      \<Rightarrow> ws_url \<Rightarrow> str list \<Rightarrow> header list \<Rightarrow> stream \<Rightarrow> (fmt list + str) \<times> stream" where
  "ws_handshake base64 sha1 httparse rand url protocols identity_headers s =
     (case fresh_key base64 rand of
        Inl e \<Rightarrow> (Inl e, s)
      | Inr client_key \<Rightarrow>
          (case upgrade_request client_key url protocols identity_headers of
             Inl e \<Rightarrow> (Inl e, s)
           | Inr req \<Rightarrow>
               (case write_all req s of
                  (Inl e, s) \<Rightarrow> (Inl (http_failed ''ws-handshake-write: '' @ [DispErr e]), s)
                | (Inr _, s) \<Rightarrow>
                    (case read_upgrade [] s of
                       (Inl e, s) \<Rightarrow> (Inl e, s)
                     | (Inr response, s) \<Rightarrow>
                         (check_upgrade httparse (expected_accept base64 sha1 client_key) protocols response, s)))))"

subsection \<open>Frames\<close>

datatype opcode = Continuation | Text | Binary | Close | Ping | Pong

fun op_byte :: "opcode \<Rightarrow> u8" where
  "op_byte Continuation = 0x0"
| "op_byte Text = 0x1"
| "op_byte Binary = 0x2"
| "op_byte Close = 0x8"
| "op_byte Ping = 0x9"
| "op_byte Pong = 0xA"

definition opcode_from_u8 :: "u8 \<Rightarrow> opcode option" where
  "opcode_from_u8 v =
     (if v = 0x0 then Some Continuation else if v = 0x1 then Some Text else if v = 0x2 then Some Binary
      else if v = 0x8 then Some Close else if v = 0x9 then Some Ping else if v = 0xA then Some Pong
      else None)"

definition is_control :: "opcode \<Rightarrow> bool" where
  "is_control op \<longleftrightarrow> op = Close \<or> op = Ping \<or> op = Pong"

definition MAX_WS_BUFFER_BYTES :: nat where
  "MAX_WS_BUFFER_BYTES = 32 * 1024 * 1024"

definition xor_mask :: "u8 list \<Rightarrow> u8 list \<Rightarrow> u8 list" where
  "xor_mask key payload = map (\<lambda>(i, b). b XOR key ! (i AND 3)) (enumerate 0 payload)"

definition encode_frame :: "str + u8 list \<Rightarrow> opcode \<Rightarrow> u8 list \<Rightarrow> fmt list + u8 list" where
  "encode_frame rand op payload =
     (if is_control op \<and> 125 < length payload then Inl [Lit ''control frame payload exceeds 125 bytes'']
      else case rand of
             Inl e \<Rightarrow> Inl [Lit ''getrandom mask: '', Disp e]
           | Inr key \<Rightarrow>
               let len = length payload in
               Inr ([0x80 OR op_byte op]
                    @ (if len < 126 then [0x80 OR word_of_nat len]
                       else if len \<le> 0xFFFF then (0x80 OR 126) # u16_to_be_bytes (word_of_nat len)
                       else (0x80 OR 127) # u64_to_be_bytes (word_of_nat len))
                    @ key @ xor_mask key payload))"

record frame =
  frame_fin :: bool
  frame_op :: opcode
  frame_payload :: "u8 list"

definition ws_invalid :: "string \<Rightarrow> io_error" where
  "ws_invalid m = IoError InvalidData [Lit m]"

definition read_payload_len :: "u8 \<Rightarrow> nat io" where
  "read_payload_len len_field =
     (if len_field \<le> 125 then return_io (unat len_field)
      else if len_field = 126 then bind_io (read_exact 2) (\<lambda>ext. return_io (be_value ext))
      else bind_io (read_exact 8) (\<lambda>ext.
             if MAX_WS_BUFFER_BYTES < be_value ext then throw (ws_invalid ''ws: frame payload > 32 MiB'')
             else return_io (be_value ext)))"

definition read_frame_body :: "bool \<Rightarrow> opcode \<Rightarrow> nat \<Rightarrow> frame io" where
  "read_frame_body f o1 payload_len =
     (if is_control o1 \<and> \<not> f then throw (ws_invalid ''ws: control frame fragmented (FIN=0)'')
      else if is_control o1 \<and> 125 < payload_len then throw (ws_invalid ''ws: control payload > 125'')
      else bind_io (if 0 < payload_len then read_exact payload_len else return_io [])
             (\<lambda>p. return_io \<lparr>frame_fin = f, frame_op = o1, frame_payload = p\<rparr>))"

definition read_frame_split :: "frame io" where
  "read_frame_split =
     bind_io (read_exact 2) (\<lambda>header.
       let b0 = header ! 0; b1 = header ! 1; rsv = b0 AND 0x70; op_bits = b0 AND 0x0F in
       if rsv \<noteq> 0 then throw (IoError InvalidData [Lit ''ws: RSV bits set (0x'', Hex2 rsv, Lit '')''])
       else case opcode_from_u8 op_bits of
              None \<Rightarrow> throw (IoError InvalidData [Lit ''ws: unknown opcode 0x'', Disp [if op_bits < 10 then 48 + op_bits else 87 + op_bits]])
            | Some o1 \<Rightarrow>
                if b1 AND 0x80 \<noteq> 0 then throw (ws_invalid ''ws: server frame is masked (5.1 violation)'')
                else bind_io (read_payload_len (b1 AND 0x7F)) (read_frame_body (b0 AND 0x80 \<noteq> 0) o1))"

subsection \<open>Reading messages off a stream\<close>

text \<open>
  A reader of values whose wire forms are \<open>wire\<close>: on a stream that only delivers data it returns a value
  exactly when a wire form of it comes next, and consumes just that.
\<close>

fun read_seq :: "'a io \<Rightarrow> nat \<Rightarrow> 'a list io" where
  "read_seq m 0 = return_io []"
| "read_seq m (Suc n) = bind_io m (\<lambda>x. bind_io (read_seq m n) (\<lambda>xs. return_io (x # xs)))"

locale message_reader =
  fixes m :: "'a io" and wire :: "'a \<Rightarrow> u8 list \<Rightarrow> bool"
  assumes accepts: "\<lbrakk>flowing s; wire x w; incoming s = w @ rest\<rbrakk> \<Longrightarrow> \<exists>s'. m s = (Inr x, s') \<and> exchange s [] w s'"
    and sound: "\<lbrakk>flowing s; m s = (Inr x, s')\<rbrakk> \<Longrightarrow> \<exists>w. wire x w \<and> exchange s [] w s'"
begin

lemma sequence_accepts:
  "\<lbrakk>list_all2 wire xs ws; flowing s; incoming s = concat ws @ rest\<rbrakk> \<Longrightarrow>
     \<exists>s'. read_seq m (length xs) s = (Inr xs, s') \<and> exchange s [] (concat ws) s'"
proof (induction xs ws arbitrary: s rule: list_all2_induct)
  case Nil
  then show ?case by (simp add: io_simps exchange_refl)
next
  case (Cons x xs w ws)
  then obtain s1 where s1: "m s = (Inr x, s1)" "exchange s [] w s1"
    using accepts [of s x w "concat ws @ rest"] by auto
  then have "flowing s1" "incoming s1 = concat ws @ rest"
    using Cons.prems by (auto simp: exchange_def)
  from Cons.IH [OF this] s1 show ?case
    using exchange_trans by (fastforce simp: io_simps)
qed

lemma sequence_sound:
  "\<lbrakk>flowing s; read_seq m n s = (Inr xs, s')\<rbrakk> \<Longrightarrow> \<exists>ws. list_all2 wire xs ws \<and> length xs = n \<and> exchange s [] (concat ws) s'"
proof (induction n arbitrary: s xs)
  case 0
  then show ?case by (auto simp: io_simps exchange_refl)
next
  case (Suc n)
  from Suc.prems(2) obtain x s1 ys where r: "m s = (Inr x, s1)" "read_seq m n s1 = (Inr ys, s')" "xs = x # ys"
    by (auto simp: io_simps split: sum.splits prod.splits)
  obtain w where w: "wire x w" "exchange s [] w s1"
    using sound [OF Suc.prems(1) r(1)] by blast
  then have "flowing s1" by (simp add: exchange_def)
  from Suc.IH [OF this r(2)] obtain ws where "list_all2 wire ys ws" "length ys = n" "exchange s1 [] (concat ws) s'"
    by blast
  with w r(3) show ?case
    using exchange_trans by (intro exI [of _ "w # ws"]) fastforce
qed

end

lemma read_exact_accepts:
  "flowing s \<Longrightarrow> incoming s = w @ rest \<Longrightarrow> \<exists>s'. read_exact (length w) s = (Inr w, s') \<and> exchange s [] w s'"
  using read_exact_exchange [of s "length w"] by simp

lemma read_exact_sound:
  "flowing s \<Longrightarrow> read_exact n s = (Inr w, s') \<Longrightarrow> length w = n \<and> exchange s [] w s'"
  using read_exact_exchange [of s n] by (auto split: if_splits)

subsection \<open>Frames on the wire\<close>

definition len_wire :: "nat \<Rightarrow> u8 \<Rightarrow> u8 list \<Rightarrow> bool" where
  "len_wire n f ext \<longleftrightarrow>
     f \<le> 125 \<and> ext = [] \<and> n = unat f
     \<or> f = 126 \<and> length ext = 2 \<and> n = be_value ext
     \<or> f = 127 \<and> length ext = 8 \<and> n = be_value ext \<and> n \<le> MAX_WS_BUFFER_BYTES"

definition first_byte :: "bool \<Rightarrow> opcode \<Rightarrow> u8" where
  "first_byte f o1 = (if f then 0x80 else 0) OR op_byte o1"

definition frame_wire :: "frame \<Rightarrow> u8 list \<Rightarrow> bool" where
  "frame_wire fr w \<longleftrightarrow>
     (\<exists>f ext. w = [first_byte (frame_fin fr) (frame_op fr), f] @ ext @ frame_payload fr
        \<and> len_wire (length (frame_payload fr)) f ext)
     \<and> (is_control (frame_op fr) \<longrightarrow> frame_fin fr \<and> length (frame_payload fr) \<le> 125)"

lemma first_byte_bits [simp]:
  "first_byte f o1 AND 0x70 = 0" "first_byte f o1 AND 0x0F = op_byte o1"
  "(first_byte f o1 AND 0x80 = 0) \<longleftrightarrow> \<not> f"
  by (cases o1; simp add: first_byte_def)+

lemma opcode_from_op_byte [simp]: "opcode_from_u8 (op_byte o1) = Some o1"
  by (cases o1) (simp_all add: opcode_from_u8_def)

lemma opcode_from_u8_Some: "opcode_from_u8 v = Some o1 \<Longrightarrow> v = op_byte o1"
  by (auto simp: opcode_from_u8_def split: if_splits)

lemma high_bit: "(b :: u8) AND 0x80 = (if b AND 0x80 \<noteq> 0 then 0x80 else 0)"
proof -
  have "b AND 0x80 = push_bit 7 (of_bool (bit b 7))"
  proof (rule bit_word_eqI)
    fix n assume "n < LENGTH(8)"
    have "(0x80 :: u8) = 2 ^ 7" by simp
    then have "bit (0x80 :: u8) n \<longleftrightarrow> n = 7"
      using \<open>n < LENGTH(8)\<close> by (auto simp only: bit_exp_iff possible_bit_word)
    then show "bit (b AND 0x80) n = bit (push_bit 7 (of_bool (bit b 7)) :: u8) n"
      by (auto simp: bit_simps)
  qed
  then show ?thesis by (cases "bit b 7") simp_all
qed

lemma first_byte_eq:
  assumes "b AND 0x70 = 0" "opcode_from_u8 (b AND 0x0F) = Some o1"
  shows "b = first_byte (b AND 0x80 \<noteq> 0) o1"
proof -
  have "(0x80 OR (0x70 OR 0x0F)) = (- 1 :: u8)"
    by simp
  then have "b = b AND (0x80 OR (0x70 OR 0x0F))"
    by (simp only: and.right_neutral)
  also have "\<dots> = b AND 0x80 OR (b AND 0x70 OR b AND 0x0F)"
    by (simp only: bit.conj_disj_distrib)
  finally have "b = b AND 0x80 OR op_byte o1"
    unfolding assms(1) opcode_from_u8_Some [OF assms(2)] by (simp only: or.left_neutral)
  then show ?thesis
    by (simp only: first_byte_def high_bit [of b, symmetric])
qed

lemma unmasked: "(b :: u8) AND 0x80 = 0 \<Longrightarrow> b AND 0x7F = b \<and> b \<le> 127"
proof -
  assume "b AND 0x80 = 0"
  moreover have "(0x80 OR 0x7F) = (- 1 :: u8)"
    by simp
  then have "b = b AND 0x80 OR b AND 0x7F"
    by (metis bit.conj_disj_distrib and.right_neutral)
  ultimately have "b AND 0x7F = b" by simp
  then show ?thesis using word_and_le1 [of b "0x7F"] by (metis)
qed

lemma small_byte: "(b :: u8) \<le> 127 \<Longrightarrow> b AND 0x80 = 0 \<and> b AND 0x7F = b"
proof -
  assume "b \<le> 127"
  then have "unat b < 2 ^ 7" by (simp add: word_le_nat_alt)
  then have "take_bit 7 b = b"
    by (simp add: word_unat_eq_iff unsigned_take_bit_eq take_bit_nat_eq_self)
  then have b: "b AND 0x7F = b"
    by (simp add: take_bit_eq_mask mask_eq_exp_minus_1)
  have "b AND 0x80 = (b AND 0x7F) AND 0x80"
    by (simp only: b)
  also have "\<dots> = 0"
    by (simp only: and.assoc) simp
  finally show ?thesis using b by simp
qed

lemma read_payload_len_accepts:
  assumes "len_wire n f ext" "flowing s" "incoming s = ext @ rest"
  shows "\<exists>s'. read_payload_len f s = (Inr n, s') \<and> exchange s [] ext s'"
  using assms(1) unfolding len_wire_def
proof (elim disjE conjE)
  assume "f \<le> 125" "ext = []" "n = unat f"
  with assms(2) show ?thesis
    by (simp add: read_payload_len_def io_simps exchange_refl)
next
  assume "f = 126" "length ext = 2" "n = be_value ext"
  with read_exact_accepts [OF assms(2,3)] show ?thesis
    by (auto simp: read_payload_len_def io_simps)
next
  assume "f = 127" "length ext = 8" "n = be_value ext" "n \<le> MAX_WS_BUFFER_BYTES"
  with read_exact_accepts [OF assms(2,3)] show ?thesis
    by (auto simp: read_payload_len_def io_simps)
qed

lemma read_payload_len_sound:
  assumes "read_payload_len f s = (Inr n, s')" "flowing s" "f \<le> 127"
  shows "\<exists>ext. len_wire n f ext \<and> exchange s [] ext s'"
proof -
  consider "f \<le> 125" | "f = 126" | "f = 127"
    using assms(3) by (force simp: word_le_nat_alt word_unat_eq_iff)
  then show ?thesis
  proof cases
    case 1
    with assms(1,2) show ?thesis
      by (auto simp: read_payload_len_def io_simps len_wire_def exchange_refl)
  next
    case 2
    with assms show ?thesis
      by (auto simp: read_payload_len_def io_simps len_wire_def dest!: read_exact_sound split: sum.splits prod.splits)
  next
    case 3
    with assms show ?thesis
      by (auto simp: read_payload_len_def io_simps len_wire_def dest!: read_exact_sound split: sum.splits prod.splits if_splits)
  qed
qed

lemma read_frame_body_accepts:
  assumes "flowing s" "incoming s = p @ rest" "is_control o1 \<longrightarrow> f \<and> length p \<le> 125"
  shows "\<exists>s'. read_frame_body f o1 (length p) s = (Inr \<lparr>frame_fin = f, frame_op = o1, frame_payload = p\<rparr>, s') \<and> exchange s [] p s'"
proof (cases "p = []")
  case True
  with assms show ?thesis
    by (auto simp: read_frame_body_def io_simps exchange_refl)
next
  case False
  with assms read_exact_accepts [OF assms(1,2)] show ?thesis
    by (auto simp: read_frame_body_def io_simps)
qed

lemma read_frame_body_sound:
  assumes "read_frame_body f o1 n s = (Inr fr, s')" "flowing s"
  shows "frame_fin fr = f \<and> frame_op fr = o1 \<and> length (frame_payload fr) = n \<and> exchange s [] (frame_payload fr) s'
    \<and> (is_control o1 \<longrightarrow> f \<and> n \<le> 125)"
proof (cases "n = 0")
  case True
  with assms exchange_refl [OF assms(2)] show ?thesis
    by (auto simp: read_frame_body_def io_simps split: if_splits)
next
  case False
  with assms show ?thesis
    by (auto simp: read_frame_body_def io_simps dest!: read_exact_sound split: if_splits sum.splits prod.splits)
qed

lemma exchange_flowing: "exchange s out inp s' \<Longrightarrow> flowing s' \<and> incoming s = inp @ incoming s'"
  by (simp add: exchange_def)

interpretation ws_frames: message_reader read_frame_split frame_wire
proof
  fix s fr w rest
  assume s: "flowing s" "frame_wire fr w" "incoming s = w @ rest"
  then obtain f ext where w: "w = [first_byte (frame_fin fr) (frame_op fr), f] @ ext @ frame_payload fr"
      "len_wire (length (frame_payload fr)) f ext"
      "is_control (frame_op fr) \<longrightarrow> frame_fin fr \<and> length (frame_payload fr) \<le> 125"
    by (auto simp: frame_wire_def)
  let ?b = "first_byte (frame_fin fr) (frame_op fr)"
  obtain s1 where s1: "read_exact 2 s = (Inr [?b, f], s1)" "exchange s [] [?b, f] s1"
    using read_exact_accepts [OF s(1), of "[?b, f]" "ext @ frame_payload fr @ rest"] s(3) w(1) by (auto simp: numeral_2_eq_2)
  then have i1: "flowing s1" "incoming s1 = ext @ frame_payload fr @ rest"
    using s(3) w(1) exchange_flowing [OF s1(2)] by auto
  obtain s2 where s2: "read_payload_len f s1 = (Inr (length (frame_payload fr)), s2)" "exchange s1 [] ext s2"
    using read_payload_len_accepts [OF w(2) i1] by blast
  then have i2: "flowing s2" "incoming s2 = frame_payload fr @ rest"
    using i1 exchange_flowing [OF s2(2)] by auto
  obtain s3 where s3: "read_frame_body (frame_fin fr) (frame_op fr) (length (frame_payload fr)) s2
      = (Inr \<lparr>frame_fin = frame_fin fr, frame_op = frame_op fr, frame_payload = frame_payload fr\<rparr>, s3)"
      "exchange s2 [] (frame_payload fr) s3"
    using read_frame_body_accepts [OF i2 w(3)] by blast
  have "f AND 0x80 = 0" "f AND 0x7F = f"
    using w(2) small_byte [of f] by (auto simp: len_wire_def word_le_nat_alt)
  then have "read_frame_split s = (Inr fr, s3)"
    using s1(1) s2(1) s3(1) by (simp add: read_frame_split_def io_simps Let_def)
  moreover have "exchange s [] w s3"
    using exchange_trans [OF s1(2) exchange_trans [OF s2(2) s3(2)]] by (simp add: w(1))
  ultimately show "\<exists>s'. read_frame_split s = (Inr fr, s') \<and> exchange s [] w s'"
    by blast
next
  fix s fr s'
  assume s: "flowing s" "read_frame_split s = (Inr fr, s')"
  then obtain h s1 where h: "read_exact 2 s = (Inr h, s1)"
    by (auto simp: read_frame_split_def io_simps split: sum.splits prod.splits)
  from read_exact_sound [OF s(1) this] obtain b0 b1 where b: "h = [b0, b1]" "exchange s [] [b0, b1] s1"
    by (auto simp: length_Suc_conv numeral_2_eq_2)
  with s(2) h obtain o1 n s2 where r: "b0 AND 0x70 = 0" "opcode_from_u8 (b0 AND 0x0F) = Some o1" "b1 AND 0x80 = 0"
      "read_payload_len (b1 AND 0x7F) s1 = (Inr n, s2)" "read_frame_body (b0 AND 0x80 \<noteq> 0) o1 n s2 = (Inr fr, s')"
    by (auto simp: read_frame_split_def io_simps Let_def split: if_splits option.splits sum.splits prod.splits)
  note u = unmasked [OF r(3)]
  obtain ext where e: "len_wire n b1 ext" "exchange s1 [] ext s2"
    using read_payload_len_sound [of b1 s1 n s2] r(4) u exchange_flowing [OF b(2)] by auto
  note body = read_frame_body_sound [OF r(5)] exchange_flowing [OF e(2)]
  then have "exchange s [] ([b0, b1] @ ext @ frame_payload fr) s'"
    using exchange_trans [OF b(2) exchange_trans [OF e(2)]] by auto
  moreover have "frame_wire fr ([b0, b1] @ ext @ frame_payload fr)"
    using e(1) body first_byte_eq [OF r(1,2)] by (auto simp: frame_wire_def)
  ultimately show "\<exists>w. frame_wire fr w \<and> exchange s [] w s'"
    by blast
qed

subsection \<open>A server's reading of a client frame\<close>

definition decode_client_frame :: "u8 list \<Rightarrow> (bool \<times> opcode \<times> u8 list \<times> u8 list) option" where
  "decode_client_frame xs =
     (case xs of
        b0 # b1 # r \<Rightarrow>
          if b0 AND 0x70 \<noteq> 0 \<or> b1 AND 0x80 = 0 then None
          else (case opcode_from_u8 (b0 AND 0x0F) of
                  None \<Rightarrow> None
                | Some o1 \<Rightarrow>
                    let f = b1 AND 0x7F;
                        k = (if f \<le> 125 then 0 else if f = 126 then 2 else 8);
                        n = (if k = 0 then unat f else be_value (take k r));
                        r = drop k r
                    in if length r < 4 + n then None
                       else Some (b0 AND 0x80 \<noteq> 0, o1, xor_mask (take 4 r) (take n (drop 4 r)), drop (4 + n) r))
      | _ \<Rightarrow> None)"

lemma length_xor_mask [simp]: "length (xor_mask key p) = length p"
  by (simp add: xor_mask_def)

lemma xor_mask_twice [simp]: "xor_mask key (xor_mask key p) = p"
  by (rule nth_equalityI) (simp_all add: xor_mask_def nth_enumerate_eq xor.assoc)

lemma byte_of: "(ucast (drop_bit k (w :: 'a :: len word)) :: u8) = word_of_nat (unat w div 2 ^ k)"
proof -
  have "unat (drop_bit k w) = unat w div 2 ^ k"
    by (simp only: unsigned_drop_bit_eq) (simp add: drop_bit_eq_div take_bit_nat_eq_self unsigned_less)
  then show ?thesis by (metis of_nat_unat)
qed

lemma be_digits: "be_value (map (\<lambda>i. word_of_nat (n div 256 ^ i)) (rev [0..<k])) = n mod 256 ^ k"
proof (induction k)
  case (Suc k)
  have "n mod (256 ^ k * 256) = 256 ^ k * (n div 256 ^ k mod 256) + n mod 256 ^ k"
    by (rule mod_mult2_eq)
  then show ?case
    using Suc.IH by (simp add: unat_of_nat mult.commute)
qed simp

lemma be_value_u16: "be_value (u16_to_be_bytes w) = unat w"
proof -
  have "u16_to_be_bytes w = map (\<lambda>i. word_of_nat (unat w div 256 ^ i)) (rev [0..<2])"
    using byte_of [of 8 w] byte_of [of 0 w] by (simp add: u16_to_be_bytes_def upt_rec)
  then show ?thesis
    using unsigned_less [of w, where ?'a = nat] be_digits [of "unat w" 2] by simp
qed

lemma be_value_u64: "be_value (u64_to_be_bytes w) = unat w"
proof -
  have "u64_to_be_bytes w = map (\<lambda>i. word_of_nat (unat w div 256 ^ i)) (rev [0..<8])"
    by (simp only: u64_to_be_bytes_def byte_of) (simp add: upt_rec)
  then show ?thesis
    using unsigned_less [of w, where ?'a = nat] be_digits [of "unat w" 8] by simp
qed

lemma length_be_bytes [simp]: "length (u16_to_be_bytes v) = 2" "length (u64_to_be_bytes w) = 8"
  by (simp_all add: u16_to_be_bytes_def u64_to_be_bytes_def)

lemma high_or: "(b :: u8) \<le> 127 \<Longrightarrow> (0x80 OR b) AND 0x80 = 0x80 \<and> (0x80 OR b) AND 0x7F = b"
  using small_byte [of b] by (simp add: bit.conj_disj_distrib2)

text \<open>The length field and its extension, as \<^const>\<open>encode_frame\<close> writes them.\<close>

lemma encode_frame_layout:
  assumes "encode_frame (Inr key) o1 p = Inr w" "length p < 2 ^ 64"
  obtains f ext where "w = [first_byte True o1, 0x80 OR f] @ ext @ key @ xor_mask key p" "f \<le> 127"
    "length ext = (if f \<le> 125 then 0 else if f = 126 then 2 else 8)"
    "length p = (if f \<le> 125 then unat f else be_value ext)"
proof -
  from assms(1) have w: "w = [0x80 OR op_byte o1]
        @ (if length p < 126 then [0x80 OR word_of_nat (length p)]
           else if length p \<le> 0xFFFF then (0x80 OR 126) # u16_to_be_bytes (word_of_nat (length p))
           else (0x80 OR 127) # u64_to_be_bytes (word_of_nat (length p)))
        @ key @ xor_mask key p"
    by (simp add: encode_frame_def Let_def split: if_splits)
  consider "length p < 126" | "126 \<le> length p" "length p \<le> 0xFFFF" | "0xFFFF < length p"
    by linarith
  then show thesis
  proof cases
    case 1
    then have "unat (word_of_nat (length p) :: u8) = length p"
      by (simp add: unat_of_nat)
    with 1 show thesis
      using w by (intro that [of "word_of_nat (length p)" "[]"]) (simp_all add: first_byte_def word_le_nat_alt)
  next
    case 2
    then show thesis
      using w by (intro that [of 126 "u16_to_be_bytes (word_of_nat (length p))"])
        (simp_all add: first_byte_def be_value_u16 unat_of_nat)
  next
    case 3
    then show thesis
      using w assms(2) by (intro that [of 127 "u64_to_be_bytes (word_of_nat (length p))"])
        (simp_all add: first_byte_def be_value_u64 unat_of_nat)
  qed
qed

lemma decode_encoded:
  assumes "encode_frame (Inr key) o1 p = Inr w" "length p < 2 ^ 64" "length key = 4"
  shows "decode_client_frame (w @ rest) = Some (True, o1, p, rest)"
  using assms(1,2)
proof (cases rule: encode_frame_layout)
  case (1 f ext)
  then show ?thesis
    using high_or [of f] assms(3) by (simp add: decode_client_frame_def Let_def)
qed

subsection \<open>Lemmas on the handshake\<close>

definition upgrade_headers :: "str \<Rightarrow> ws_url \<Rightarrow> str list \<Rightarrow> header list \<Rightarrow> header list" where
  "upgrade_headers client_key url protocols identity_headers =
     [(bs ''Host'', ws_host_header url), (bs ''Upgrade'', bs ''websocket''), (bs ''Connection'', bs ''Upgrade''),
      (bs ''Sec-WebSocket-Version'', bs ''13''), (bs ''Sec-WebSocket-Key'', client_key)]
     @ filter (\<lambda>h. snd h \<noteq> []) identity_headers
     @ (if protocols = [] then [] else [(bs ''Sec-WebSocket-Protocol'', join (bs '', '') protocols)])"

lemma push_identity_Inr:
  "push_identity hs req = Inr req' \<Longrightarrow>
     list_all identity_ok hs \<and> req' = req @ lines (map field_line (filter (\<lambda>h. snd h \<noteq> []) hs))"
proof (induction hs arbitrary: req)
  case (Cons h hs)
  then have h: "identity_ok h"
      "push_identity hs (if snd h = [] then req else req @ fst h @ bs '': '' @ snd h @ CRLF) = Inr req'"
    by (simp_all split: if_splits)
  from h(1) Cons.IH [OF h(2)] show ?case
    by (simp add: lines_def field_line_def)
qed (simp add: lines_def)

lemma upgrade_request_Inr:
  assumes "upgrade_request client_key url protocols ids = Inr req"
  shows "list_all identity_ok ids"
    and "req = lines ((bs ''GET'' @ [32] @ path_and_query url @ bs '' HTTP/1.1'')
                      # map field_line (upgrade_headers client_key url protocols ids)) @ CRLF"
proof -
  from assms obtain r where r: "push_identity ids
         (bs ''GET '' @ path_and_query url @ bs '' HTTP/1.1'' @ CRLF
          @ bs ''Host: '' @ ws_host_header url @ CRLF
          @ bs ''Upgrade: websocket'' @ CRLF
          @ bs ''Connection: Upgrade'' @ CRLF
          @ bs ''Sec-WebSocket-Version: 13'' @ CRLF
          @ bs ''Sec-WebSocket-Key: '' @ client_key @ CRLF) = Inr r"
      "req = r @ (if protocols = [] then [] else bs ''Sec-WebSocket-Protocol: '' @ join (bs '', '') protocols @ CRLF) @ CRLF"
    by (auto simp: upgrade_request_def split: sum.splits)
  note p = push_identity_Inr [OF r(1)]
  then show "list_all identity_ok ids" ..
  show "req = lines ((bs ''GET'' @ [32] @ path_and_query url @ bs '' HTTP/1.1'')
                      # map field_line (upgrade_headers client_key url protocols ids)) @ CRLF"
    using p r(2) by (simp add: upgrade_headers_def lines_def field_line_def byte_simps)
qed

lemma identity_tokens: "is_token (bs ''Origin'')" "is_token (bs ''User-Agent'')" "is_token (bs ''Cookie'')"
  by (simp_all add: is_token_def token_byte_def byte_simps)

lemma upgrade_tokens [unfolded bs_def, simplified]:
  "is_token (bs ''Host'')" "is_token (bs ''Upgrade'')" "is_token (bs ''Connection'')" "is_token (bs ''Sec-WebSocket-Version'')"
  "is_token (bs ''Sec-WebSocket-Key'')" "is_token (bs ''Sec-WebSocket-Protocol'')"
  by (simp_all add: is_token_def token_byte_def byte_simps)

lemma upgrade_headers_ok:
  assumes "CR \<notin> set (ws_host url)" "CR \<notin> set client_key" "\<forall>p \<in> set protocols. CR \<notin> set p" "list_all identity_ok ids"
    "kv \<in> set (upgrade_headers client_key url protocols ids)"
  shows "is_token (fst kv) \<and> CR \<notin> set (snd kv)"
proof -
  have "CR \<notin> set (to_string n)" for n
    using to_string_digits [of n] by (auto simp: byte_simps)
  then have "CR \<notin> set (ws_host_header url)"
    using assms(1) by (simp add: ws_host_header_def)
  moreover have "CR \<notin> set (join (bs '', '') protocols)"
    using assms(3) by (induction protocols rule: induct_list012) (auto simp: byte_simps)
  moreover have "is_token (fst h) \<and> CR \<notin> set (snd h)" if "h \<in> set ids" for h
    using assms(4) that identity_tokens by (auto simp: list_all_iff identity_ok_def)
  ultimately show ?thesis
    using assms(2,5) upgrade_tokens by (cases kv) (auto simp: upgrade_headers_def byte_simps split: if_splits)
qed

definition header_text :: "u8 list \<Rightarrow> str" where
  "header_text v = (case from_utf8 v of Some s \<Rightarrow> s | None \<Rightarrow> [])"

lemma fold_upgrade_field:
  "got_upgrade (fold (upgrade_field e) hs seen) \<longleftrightarrow> got_upgrade seen
     \<or> (\<exists>h \<in> set hs. eq_ignore_ascii_case (fst h) (bs ''upgrade'') \<and> eq_ignore_ascii_case (trim (header_text (snd h))) (bs ''websocket''))"
  "got_connection (fold (upgrade_field e) hs seen) \<longleftrightarrow> got_connection seen
     \<or> (\<exists>h \<in> set hs. eq_ignore_ascii_case (fst h) (bs ''connection'')
          \<and> (\<exists>tok \<in> set (split_on 44 (header_text (snd h))). eq_ignore_ascii_case (trim tok) (bs ''upgrade'')))"
  "got_accept (fold (upgrade_field e) hs seen) \<longleftrightarrow> got_accept seen
     \<or> (\<exists>h \<in> set hs. eq_ignore_ascii_case (fst h) (bs ''sec-websocket-accept'') \<and> trim (header_text (snd h)) = e)"
  by (induction hs arbitrary: seen)
    (auto simp: upgrade_field_def Let_def header_text_def list_ex_iff byte_simps)

lemma read_upgrade_incoming:
  "read_upgrade acc s = (Inr response, s') \<Longrightarrow>
     \<exists>got. response = acc @ got \<and> incoming s = got @ incoming s' \<and> tx s' = tx s
       \<and> find_sub [CR, LF, CR, LF] response \<noteq> None"
proof (induction acc s rule: read_upgrade.induct)
  case (1 acc s)
  obtain r s1 where r: "read 1024 s = (r, s1)"
    by fastforce
  show ?case
  proof (cases r)
    case (Inl e)
    with 1(2) r show ?thesis by (simp add: read_upgrade.simps [of acc s])
  next
    case (Inr xs)
    note i = read_incoming [of 1024 s xs s1] read_tx [of 1024 s r s1]
    show ?thesis
    proof (cases "xs \<noteq> [] \<and> find_sub [CR, LF, CR, LF] (acc @ xs) = None \<and> length (acc @ xs) \<le> 16 * 1024")
      case True
      then have "read_upgrade (acc @ xs) s1 = (Inr response, s')"
        using 1(2) r Inr by (simp add: read_upgrade.simps [of acc s])
      with 1(1) [OF r [symmetric] Inr] True obtain got where
        "response = (acc @ xs) @ got" "incoming s1 = got @ incoming s'" "tx s' = tx s1"
        "find_sub [CR, LF, CR, LF] response \<noteq> None"
        by (auto simp del: append_assoc)
      with i r Inr show ?thesis by (intro exI [of _ "xs @ got"]) auto
    next
      case False
      with 1(2) r Inr i show ?thesis
        by (auto simp: read_upgrade.simps [of acc s] split: if_splits)
    qed
  qed
qed

subsection \<open>Properties\<close>

text \<open>
  The upgrade request is built exactly for the identity headers allowed and free of line breaks, and
  a server reads it as the request for the URL's path with the WebSocket headers, the identity headers
  that are not empty and the offered protocols, in that order, and nothing else.
\<close>

theorem ws_upgrade_request_roundtrip:
  assumes "\<forall>b \<in> set (path_and_query url). b \<noteq> 32 \<and> b \<noteq> CR \<and> b \<noteq> LF"
    and "CR \<notin> set (ws_host url)" "CR \<notin> set client_key" "\<forall>p \<in> set protocols. CR \<notin> set p"
  shows "(case upgrade_request client_key url protocols ids of
            Inl _ \<Rightarrow> \<not> list_all identity_ok ids
          | Inr req \<Rightarrow> list_all identity_ok ids \<and> parse_request_head (req @ rest)
              = Some (bs ''GET'', path_and_query url, map Some (upgrade_headers client_key url protocols ids), rest))"
proof (cases "upgrade_request client_key url protocols ids")
  case (Inl e)
  have "push_identity hs req = Inl e \<Longrightarrow> \<not> list_all identity_ok hs" for hs req
    by (induction hs arbitrary: req) (auto split: if_splits)
  with Inl show ?thesis
    by (auto simp: upgrade_request_def split: sum.splits)
next
  case (Inr req)
  note R = upgrade_request_Inr [OF Inr]
  let ?l = "bs ''GET'' @ [32] @ path_and_query url @ bs '' HTTP/1.1''" and ?hs = "upgrade_headers client_key url protocols ids"
  have t: "is_token (bs ''GET'')"
    by (simp add: is_token_def token_byte_def byte_simps)
  note ok = upgrade_headers_ok [OF assms(2-4) R(1)]
  have "head_lines (lines (?l # map field_line ?hs) @ CRLF @ rest) = Some (?l # map field_line ?hs, rest)"
    using head_line_ok(1) [OF t assms(1)] field_line_ok ok by (intro head_lines_lines) auto
  moreover have "map parse_field (map field_line ?hs) = map Some ?hs"
    using ok parse_field_line by auto
  ultimately show ?thesis
    using head_line_ok(2) [OF t assms(1)] R Inr by (simp add: parse_request_head_def)
qed

definition sample_ws :: ws_url where
  "sample_ws = \<lparr>secure = True, ws_host = bs ''h'', ws_port = 8443, path_and_query = bs ''/s?q=1''\<rparr>"

theorem ws_upgrade_request_roundtrip_witness:
  "\<exists>req. upgrade_request (bs ''k='') sample_ws [bs ''a'', bs ''b''] [(bs ''Origin'', bs ''https://o''), (bs ''Cookie'', [])] = Inr req
     \<and> parse_request_head req = Some (bs ''GET'', bs ''/s?q=1'',
         map Some [(bs ''Host'', bs ''h:8443''), (bs ''Upgrade'', bs ''websocket''), (bs ''Connection'', bs ''Upgrade''),
           (bs ''Sec-WebSocket-Version'', bs ''13''), (bs ''Sec-WebSocket-Key'', bs ''k=''), (bs ''Origin'', bs ''https://o''),
           (bs ''Sec-WebSocket-Protocol'', bs ''a, b'')], [])"
proof -
  have "to_string 8443 = bs ''8443''"
    by (simp add: to_string.simps byte_simps)
  then have h: "upgrade_headers (bs ''k='') sample_ws [bs ''a'', bs ''b''] [(bs ''Origin'', bs ''https://o''), (bs ''Cookie'', [])]
      = [(bs ''Host'', bs ''h:8443''), (bs ''Upgrade'', bs ''websocket''), (bs ''Connection'', bs ''Upgrade''),
           (bs ''Sec-WebSocket-Version'', bs ''13''), (bs ''Sec-WebSocket-Key'', bs ''k=''), (bs ''Origin'', bs ''https://o''),
           (bs ''Sec-WebSocket-Protocol'', bs ''a, b'')]"
    by (simp add: upgrade_headers_def ws_host_header_def sample_ws_def byte_simps)
  have ok: "list_all identity_ok [(bs ''Origin'', bs ''https://o''), (bs ''Cookie'', [])]"
    by (simp add: identity_ok_def byte_simps)
  show ?thesis
    using ws_upgrade_request_roundtrip [of sample_ws "bs ''k=''" "[bs ''a'', bs ''b'']"
        "[(bs ''Origin'', bs ''https://o''), (bs ''Cookie'', [])]" "[]"] ok
    unfolding h by (simp add: sample_ws_def byte_simps split: sum.splits)
qed

text \<open>
  A handshake succeeds only after the upgrade request has been sent and the server has answered
  with status 101, an \<^verbatim>\<open>Upgrade: websocket\<close> field, a \<^verbatim>\<open>Connection\<close> field listing
  \<^verbatim>\<open>upgrade\<close> and the accept value that belongs to this handshake's key; the protocol it
  reports is one that was offered, if any was.
\<close>

theorem ws_handshake_sound:
  assumes "ws_handshake base64 sha1 httparse rand url protocols ids s = (Inr proto, s')"
  shows "\<exists>nonce req response resp. rand = Inr nonce
    \<and> upgrade_request (base64 nonce) url protocols ids = Inr req \<and> tx s' = tx s @ req
    \<and> incoming s = response @ incoming s' \<and> httparse response 64 = Inr resp
    \<and> parse_status resp \<noteq> Partial \<and> code resp = Some 101
    \<and> (\<exists>h \<in> set (raw_headers resp). eq_ignore_ascii_case (fst h) (bs ''upgrade'')
          \<and> eq_ignore_ascii_case (trim (header_text (snd h))) (bs ''websocket''))
    \<and> (\<exists>h \<in> set (raw_headers resp). eq_ignore_ascii_case (fst h) (bs ''connection'')
          \<and> (\<exists>tok \<in> set (split_on 44 (header_text (snd h))). eq_ignore_ascii_case (trim tok) (bs ''upgrade'')))
    \<and> (\<exists>h \<in> set (raw_headers resp). eq_ignore_ascii_case (fst h) (bs ''sec-websocket-accept'')
          \<and> trim (header_text (snd h)) = base64 (sha1 (base64 nonce @ WS_GUID)))
    \<and> (proto = [] \<or> protocols = [] \<or> proto \<in> set protocols)"
proof -
  from assms obtain nonce req s1 response where h: "rand = Inr nonce" "upgrade_request (base64 nonce) url protocols ids = Inr req"
      "write_all req s = (Inr (), s1)" "read_upgrade [] s1 = (Inr response, s')"
      "check_upgrade httparse (expected_accept base64 sha1 (base64 nonce)) protocols response = Inr proto"
    by (auto simp: ws_handshake_def fresh_key_def split: sum.splits prod.splits)
  from h(5) obtain resp where r: "httparse response 64 = Inr resp" "parse_status resp \<noteq> Partial" "code resp = Some 101"
      and seen: "proto = [] \<or> protocols = [] \<or> proto \<in> set protocols"
      "got_upgrade (fold (upgrade_field (expected_accept base64 sha1 (base64 nonce))) (raw_headers resp)
         \<lparr>got_upgrade = False, got_connection = False, got_accept = False, negotiated_protocol = []\<rparr>)"
      "got_connection (fold (upgrade_field (expected_accept base64 sha1 (base64 nonce))) (raw_headers resp)
         \<lparr>got_upgrade = False, got_connection = False, got_accept = False, negotiated_protocol = []\<rparr>)"
      "got_accept (fold (upgrade_field (expected_accept base64 sha1 (base64 nonce))) (raw_headers resp)
         \<lparr>got_upgrade = False, got_connection = False, got_accept = False, negotiated_protocol = []\<rparr>)"
    by (auto simp: check_upgrade_def Let_def split: sum.splits if_splits)
  from seen(2-) write_all_Inr [OF h(3)] read_upgrade_incoming [OF h(4)] h(1,2) r seen(1) show ?thesis
    unfolding fold_upgrade_field by (intro exI [of _ nonce] exI [of _ req] exI [of _ response] exI [of _ resp])
      (simp add: expected_accept_def)
qed

text \<open>A server that accepts; the parser below knows its response.\<close>

definition sample_accept :: "u8 list" where
  "sample_accept = bs ''HTTP/1.1 101 '' @ CRLF @ CRLF"

definition sample_upgrade_parser :: "u8 list \<Rightarrow> nat \<Rightarrow> string + parsed_response" where
  "sample_upgrade_parser inp m =
     (if starts_with sample_accept inp
      then Inr \<lparr>parse_status = Complete (length sample_accept), code = Some 101, reason_phrase = None,
                raw_headers = [(bs ''Upgrade'', bs ''websocket''), (bs ''Connection'', bs ''upgrade''), (bs ''Sec-WebSocket-Accept'', bs ''x'')]\<rparr>
      else Inl ''Token'')"

definition sample_upgrade :: "rd list \<Rightarrow> (fmt list + str) \<times> stream" where
  "sample_upgrade segments =
     ws_handshake (\<lambda>_. bs ''x'') id sample_upgrade_parser (Inr []) sample_ws [] [] \<lparr>rx = segments, tx = [], wr = []\<rparr>"

lemma sample_upgrade_run:
  assumes "length w \<le> 1000"
  shows "\<exists>s'. sample_upgrade (Data (sample_accept @ w) # r) = (Inr [], s') \<and> rx s' = r"
proof -
  obtain req where req: "upgrade_request (bs ''x'') sample_ws [] [] = Inr req"
    by (simp add: upgrade_request_def)
  have t: "trim (bs ''websocket'') = bs ''websocket''" "trim (bs ''upgrade'') = bs ''upgrade''" "trim (bs ''x'') = bs ''x''"
    by (simp_all add: bs_def trim_all_graphic graphic_def)
  have u: "from_utf8 (bs ''websocket'') = Some (bs ''websocket'')" "from_utf8 (bs ''upgrade'') = Some (bs ''upgrade'')"
      "from_utf8 (bs ''x'') = Some (bs ''x'')"
    by (simp_all add: from_utf8_def byte_simps utf8_valid_ascii)
  have s: "split_on 44 (bs ''upgrade'') = [bs ''upgrade'']"
    by (simp add: byte_simps)
  have "check_upgrade sample_upgrade_parser (bs ''x'') [] (sample_accept @ w) = Inr []"
    by (simp add: check_upgrade_def sample_upgrade_parser_def upgrade_field_def Let_def byte_simps
        t [unfolded bs_def, simplified] u [unfolded bs_def, simplified] s [unfolded bs_def, simplified])
  moreover have "read_upgrade [] \<lparr>rx = Data (sample_accept @ w) # r, tx = req, wr = []\<rparr>
      = (Inr (sample_accept @ w), \<lparr>rx = r, tx = req, wr = []\<rparr>)"
    using assms by (simp add: read_upgrade.simps read_def sample_accept_def starts_with_def byte_simps)
  ultimately show ?thesis
    using req by (simp add: sample_upgrade_def ws_handshake_def fresh_key_def write_all_def expected_accept_def)
qed

theorem ws_handshake_sound_witness:
  "\<exists>s' req response. sample_upgrade [Data sample_accept] = (Inr [], s') \<and> tx s' = req
     \<and> upgrade_request (bs ''x'') sample_ws [] [] = Inr req
     \<and> incoming \<lparr>rx = [Data sample_accept], tx = [], wr = []\<rparr> = response @ incoming s'"
proof -
  obtain s' where s': "sample_upgrade [Data sample_accept] = (Inr [], s')"
    using sample_upgrade_run [of "[]" "[]"] by auto
  from this ws_handshake_sound [OF s' [unfolded sample_upgrade_def]] show ?thesis
    by auto
qed

text \<open>
  A frame that arrives in the same read as the response head is lost, although the same bytes
  delivered in two reads yield it: the handshake drops everything it has read past the head.
\<close>

theorem ws_handshake_drops_early_frame:
  "\<exists>w s1 s2 s3. frame_wire \<lparr>frame_fin = True, frame_op = Text, frame_payload = bs ''hi''\<rparr> w
     \<and> sample_upgrade [Data (sample_accept @ w)] = (Inr [], s1) \<and> read_frame_split s1 = (Inl unexpected_eof, s1)
     \<and> sample_upgrade [Data sample_accept, Data w] = (Inr [], s2)
     \<and> read_frame_split s2 = (Inr \<lparr>frame_fin = True, frame_op = Text, frame_payload = bs ''hi''\<rparr>, s3)"
proof -
  let ?fr = "\<lparr>frame_fin = True, frame_op = Text, frame_payload = bs ''hi''\<rparr>" and ?w = "[0x81, 2] @ bs ''hi''"
  have w: "frame_wire ?fr ?w"
    by (auto simp: frame_wire_def first_byte_def len_wire_def is_control_def byte_simps)
  obtain s1 where s1: "sample_upgrade [Data (sample_accept @ ?w)] = (Inr [], s1)" "rx s1 = []"
    using sample_upgrade_run [of ?w "[]"] by (auto simp: byte_simps)
  then have "read_frame_split s1 = (Inl unexpected_eof, s1)"
    by (simp add: read_frame_split_def io_simps read_exact.simps read_def)
  moreover obtain s2 where s2: "sample_upgrade [Data sample_accept, Data ?w] = (Inr [], s2)" "rx s2 = [Data ?w]"
    using sample_upgrade_run [of "[]" "[Data ?w]"] by auto
  moreover from this have "flowing s2" "incoming s2 = ?w @ []"
    by (simp_all add: flowing_def incoming_def)
  from ws_frames.accepts [OF this(1) w this(2)] obtain s3 where "read_frame_split s2 = (Inr ?fr, s3)"
    by blast
  ultimately show ?thesis
    using w s1(1) by blast
qed

text \<open>
  C16. What the client sends is read back by a server as one final, masked frame with the same opcode
  and payload, and the frames a server sends are read by the client exactly as sent: however the bytes
  are segmented, a sequence of frames comes out as that sequence, leaving what follows.
\<close>

theorem ws_frames_roundtrip:
  assumes "length key = 4" "length p < 2 ^ 64" "is_control o1 \<longrightarrow> length p \<le> 125"
    and "list_all2 frame_wire frs ws" "flowing s" "incoming s = concat ws @ rest'"
  shows "(\<exists>w. encode_frame (Inr key) o1 p = Inr w \<and> decode_client_frame (w @ rest) = Some (True, o1, p, rest))
    \<and> (\<exists>s'. read_seq read_frame_split (length frs) s = (Inr frs, s') \<and> incoming s' = rest')"
proof
  obtain w where "encode_frame (Inr key) o1 p = Inr w"
    using assms(3) by (auto simp: encode_frame_def Let_def)
  with decode_encoded [OF this assms(2,1)]
  show "\<exists>w. encode_frame (Inr key) o1 p = Inr w \<and> decode_client_frame (w @ rest) = Some (True, o1, p, rest)"
    by blast
  from ws_frames.sequence_accepts [OF assms(4-6)] assms(6)
  show "\<exists>s'. read_seq read_frame_split (length frs) s = (Inr frs, s') \<and> incoming s' = rest'"
    by (auto simp: exchange_def)
qed

theorem ws_frames_roundtrip_witness:
  "(\<exists>w. encode_frame (Inr [1, 2, 3, 4]) Binary [7, 8, 9, 10, 11] = Inr w
      \<and> decode_client_frame (w @ [5]) = Some (True, Binary, [7, 8, 9, 10, 11], [5]))
   \<and> (\<exists>s'. read_seq read_frame_split (Suc (Suc 0)) \<lparr>rx = [Data [0x01, 1], Data [104, 0x80, 0], Data [9]], tx = [], wr = []\<rparr>
        = (Inr [\<lparr>frame_fin = False, frame_op = Text, frame_payload = [104]\<rparr>,
                \<lparr>frame_fin = True, frame_op = Continuation, frame_payload = []\<rparr>], s') \<and> incoming s' = [9])"
proof -
  have "list_all2 frame_wire [\<lparr>frame_fin = False, frame_op = Text, frame_payload = [104]\<rparr>,
      \<lparr>frame_fin = True, frame_op = Continuation, frame_payload = []\<rparr>] [[0x01, 1, 104], [0x80, 0]]"
    by (simp add: frame_wire_def first_byte_def len_wire_def is_control_def)
  from ws_frames_roundtrip [OF _ _ _ this, of "[1, 2, 3, 4]" "[7, 8, 9, 10, 11]" Binary
      "\<lparr>rx = [Data [0x01, 1], Data [104, 0x80, 0], Data [9]], tx = [], wr = []\<rparr>" "[9]" "[5]"]
  show ?thesis
    by (simp add: flowing_def incoming_def is_control_def del: read_seq.simps)
qed

end
