(* ===== verification/Ws_Client.thy ===== *)
theory Ws_Client
  imports Ws_Frame
begin

text \<open>
  The WebSocket client object of \<^verbatim>\<open>crates/zp-kernel-bundle/src/kernel/transport/ws_client.rs\<close>: the
  state shared by the JavaScript object, the reader task and the writer task, one definition per
  operation, and the step relation of their interleavings.

  A JavaScript callback is recorded in \<open>calls\<close>; whether one is installed is a flag. The callbacks of
  \<^verbatim>\<open>web/sw.js\<close> call back into the client only from the close callback, which every operation
  makes last, so that such a call is the next step. \<open>out_waker\<close> is the waker the writer has left,
  \<open>writer_woken\<close> whether its task is scheduled; \<open>pushed\<close> lists all that was ever queued and
  \<open>sent\<close> what was handed to the transport.
\<close>

subsection \<open>The shared state\<close>

datatype out_msg = OutText str | OutBinary "u8 list" | OutPong "u8 list" | OutClose "u8 list"

datatype js_data = JsString str | JsArrayBuffer "u8 list" | JsUint8Array "u8 list" | JsOther

datatype js_call = OnMessage js_data | OnClose u16 str | OnError "fmt list"

record ws_shared =
  on_message :: bool
  on_close :: bool
  on_error :: bool
  out_queue :: "out_msg list"
  out_waker :: bool
  writer_woken :: bool
  closed_local :: bool
  peer_close :: "(u16 \<times> str) option"
  out_buffered :: nat
  reader_abort :: bool
  writer_abort :: bool
  sub_protocol :: str
  ws_closed :: bool
  close_code :: u16
  close_reason :: str
  calls :: "js_call list"
  pushed :: "out_msg list"

definition ws_shared_new :: "str \<Rightarrow> ws_shared" where
  "ws_shared_new negotiated =
     \<lparr>on_message = False, on_close = False, on_error = False, out_queue = [], out_waker = False,
      writer_woken = True, closed_local = False, peer_close = None, out_buffered = 0,
      reader_abort = False, writer_abort = False, sub_protocol = negotiated, ws_closed = False,
      close_code = 1006, close_reason = [], calls = [], pushed = []\<rparr>"

definition wake :: "ws_shared \<Rightarrow> ws_shared" where
  "wake sh = (if out_waker sh then sh\<lparr>out_waker := False, writer_woken := True\<rparr> else sh)"

definition call_js :: "js_call \<Rightarrow> ws_shared \<Rightarrow> ws_shared" where
  "call_js c sh = sh\<lparr>calls := calls sh @ [c]\<rparr>"

definition push_back :: "out_msg \<Rightarrow> ws_shared \<Rightarrow> ws_shared" where
  "push_back m sh = sh\<lparr>out_queue := out_queue sh @ [m], pushed := pushed sh @ [m]\<rparr>"

definition surface_close :: "u16 \<Rightarrow> str \<Rightarrow> ws_shared \<Rightarrow> ws_shared" where
  "surface_close c r sh =
     (if ws_closed sh then sh
      else let sh = wake (sh\<lparr>ws_closed := True, close_code := c, close_reason := r, reader_abort := True,
                             writer_abort := True, out_queue := [], out_buffered := 0\<rparr>)
           in if on_close sh then call_js (OnClose c r) sh else sh)"

definition fail_connection :: "fmt list \<Rightarrow> ws_shared \<Rightarrow> ws_shared" where
  "fail_connection e sh =
     (if ws_closed sh then sh
      else surface_close 1006 [] (if on_error sh then call_js (OnError e) sh else sh))"

subsection \<open>The JavaScript object\<close>

definition buffered_amount :: "ws_shared \<Rightarrow> u32" where
  "buffered_amount sh = word_of_nat (out_buffered sh)"

text \<open>The handlers object: \<^const>\<open>None\<close> when missing, else which of its fields are functions.\<close>

definition set_handlers :: "(bool \<times> bool \<times> bool) option \<Rightarrow> ws_shared \<Rightarrow> (string + unit) \<times> ws_shared" where
  "set_handlers handlers sh =
     (case handlers of
        None \<Rightarrow> (Inl ''setHandlers: missing handlers object'', sh)
      | Some (m, c, e) \<Rightarrow>
          let sh = sh\<lparr>on_message := m, on_close := c, on_error := e\<rparr> in
          (Inr (), if ws_closed sh \<and> on_close sh then call_js (OnClose (close_code sh) (close_reason sh)) sh else sh))"

definition saturating_add :: "nat \<Rightarrow> nat \<Rightarrow> nat" where
  "saturating_add a b = min USIZE_MAX (a + b)"

definition send :: "js_data \<Rightarrow> ws_shared \<Rightarrow> (string + unit) \<times> ws_shared" where
  "send data sh =
     (if ws_closed sh \<or> closed_local sh then (Inl ''WS_BLOCKED: send after close'', sh)
      else case data of
             JsString s \<Rightarrow>
               (Inr (), wake (push_back (OutText s) (sh\<lparr>out_buffered := saturating_add (out_buffered sh) (length s)\<rparr>)))
           | JsArrayBuffer v \<Rightarrow>
               (Inr (), wake (push_back (OutBinary v) (sh\<lparr>out_buffered := saturating_add (out_buffered sh) (length v)\<rparr>)))
           | JsUint8Array v \<Rightarrow>
               (Inr (), wake (push_back (OutBinary v) (sh\<lparr>out_buffered := saturating_add (out_buffered sh) (length v)\<rparr>)))
           | JsOther \<Rightarrow> (Inl ''send: unsupported payload type'', sh))"

definition ws_close :: "u16 option \<Rightarrow> str option \<Rightarrow> ws_shared \<Rightarrow> ws_shared" where
  "ws_close code_arg reason_arg sh =
     (if ws_closed sh then sh
      else
        let c = (case code_arg of Some c \<Rightarrow> c | None \<Rightarrow> 1000);
            r = (case reason_arg of Some r \<Rightarrow> r | None \<Rightarrow> [])
        in if (c \<noteq> 1000 \<and> \<not> (3000 \<le> c \<and> c \<le> 4999)) \<or> 123 < length r
           then fail_connection [Lit ''invalid local close code or reason''] sh
           else if closed_local sh then sh
           else wake (push_back (OutClose (u16_to_be_bytes c @ r)) (sh\<lparr>closed_local := True\<rparr>)))"

definition ws_abort :: "ws_shared \<Rightarrow> ws_shared" where
  "ws_abort sh = surface_close 1006 [] sh"

subsection \<open>The reader task\<close>

definition decode_close_payload :: "u8 list \<Rightarrow> string + u16 \<times> str" where
  "decode_close_payload p =
     (case p of
        [] \<Rightarrow> Inr (1005, [])
      | [_] \<Rightarrow> Inl ''malformed close payload''
      | a # b # r \<Rightarrow>
          let c = u16_from_be_bytes a b in
          if \<not> ((1000 \<le> c \<and> c \<le> 1003) \<or> (1007 \<le> c \<and> c \<le> 1014) \<or> (3000 \<le> c \<and> c \<le> 4999))
          then Inl ''invalid close status code''
          else (case from_utf8 r of None \<Rightarrow> Inl ''invalid close reason UTF-8'' | Some s \<Rightarrow> Inr (c, s)))"

definition deliver_message :: "opcode \<Rightarrow> u8 list \<Rightarrow> ws_shared \<Rightarrow> ws_shared" where
  "deliver_message o1 p sh =
     (if \<not> on_message sh then sh
      else case o1 of
             Text \<Rightarrow>
               (case from_utf8 p of
                  Some s \<Rightarrow> call_js (OnMessage (JsString s)) sh
                | None \<Rightarrow> fail_connection [Lit ''invalid UTF-8 in text frame''] sh)
           | Binary \<Rightarrow> call_js (OnMessage (JsArrayBuffer p)) sh
           | _ \<Rightarrow> sh)"

datatype reader = Reading "opcode option" "u8 list" | ReaderDone

text \<open>The head of the loop: a closed connection ends the task.\<close>

definition read_on :: "opcode option \<Rightarrow> u8 list \<Rightarrow> ws_shared \<Rightarrow> reader \<times> ws_shared" where
  "read_on frag_op frag_buf sh = (if ws_closed sh then (ReaderDone, sh) else (Reading frag_op frag_buf, sh))"

definition reader_fail :: "string \<Rightarrow> ws_shared \<Rightarrow> reader \<times> ws_shared" where
  "reader_fail e sh = (ReaderDone, fail_connection [Lit e] sh)"

definition reader_data :: "frame \<Rightarrow> opcode option \<Rightarrow> u8 list \<Rightarrow> ws_shared \<Rightarrow> reader \<times> ws_shared" where
  "reader_data fr frag_op frag_buf sh =
     (if frag_op \<noteq> None then reader_fail ''new data frame mid-fragment'' sh
      else if MAX_WS_BUFFER_BYTES < length (frame_payload fr) then reader_fail ''message payload exceeds 32 MiB cap'' sh
      else if frame_fin fr then read_on frag_op frag_buf (deliver_message (frame_op fr) (frame_payload fr) sh)
      else read_on (Some (frame_op fr)) (frame_payload fr) sh)"

definition reader_continuation :: "frame \<Rightarrow> opcode option \<Rightarrow> u8 list \<Rightarrow> ws_shared \<Rightarrow> reader \<times> ws_shared" where
  "reader_continuation fr frag_op frag_buf sh =
     (case frag_op of
        None \<Rightarrow> reader_fail ''continuation without start'' sh
      | Some o1 \<Rightarrow>
          if MAX_WS_BUFFER_BYTES - length frag_buf < length (frame_payload fr)
          then reader_fail ''fragmented message exceeds 32 MiB cap'' sh
          else if frame_fin fr then read_on None [] (deliver_message o1 (frag_buf @ frame_payload fr) sh)
          else read_on frag_op (frag_buf @ frame_payload fr) sh)"

definition is_close :: "out_msg \<Rightarrow> bool" where
  "is_close m \<longleftrightarrow> (case m of OutClose _ \<Rightarrow> True | _ \<Rightarrow> False)"

definition peer_closed :: "u8 list \<Rightarrow> u16 \<times> str \<Rightarrow> ws_shared \<Rightarrow> ws_shared" where
  "peer_closed p close sh =
     (let sh = sh\<lparr>peer_close := Some close, out_queue := filter is_close (out_queue sh), out_buffered := 0\<rparr>;
          sh = (if closed_local sh then sh else push_back (OutClose p) (sh\<lparr>closed_local := True\<rparr>))
      in wake sh)"

definition reader_frame :: "frame io_result \<Rightarrow> opcode option \<Rightarrow> u8 list \<Rightarrow> ws_shared \<Rightarrow> reader \<times> ws_shared" where
  "reader_frame res frag_op frag_buf sh =
     (case res of
        Inl _ \<Rightarrow> reader_fail ''WebSocket transport ended without a Close frame'' sh
      | Inr fr \<Rightarrow>
          (case frame_op fr of
             Continuation \<Rightarrow> reader_continuation fr frag_op frag_buf sh
           | Text \<Rightarrow> reader_data fr frag_op frag_buf sh
           | Binary \<Rightarrow> reader_data fr frag_op frag_buf sh
           | Ping \<Rightarrow>
               read_on frag_op frag_buf (if closed_local sh then sh else wake (push_back (OutPong (frame_payload fr)) sh))
           | Pong \<Rightarrow> read_on frag_op frag_buf sh
           | Close \<Rightarrow>
               (case decode_close_payload (frame_payload fr) of
                  Inl e \<Rightarrow> reader_fail e sh
                | Inr close \<Rightarrow> (ReaderDone, peer_closed (frame_payload fr) close sh))))"

subsection \<open>The writer task\<close>

definition writer_poll :: "ws_shared \<Rightarrow> (out_msg option) poll \<times> ws_shared" where
  "writer_poll sh =
     (if ws_closed sh then (Ready None, sh)
      else case out_queue sh of
             m # q \<Rightarrow> (Ready (Some m), sh\<lparr>out_queue := q\<rparr>)
           | [] \<Rightarrow> if peer_close sh \<noteq> None then (Ready None, sh)
                   else (Pending, sh\<lparr>out_waker := True, writer_woken := False\<rparr>))"

fun out_frame :: "out_msg \<Rightarrow> opcode \<times> u8 list" where
  "out_frame (OutText s) = (Text, s)"
| "out_frame (OutBinary b) = (Binary, b)"
| "out_frame (OutPong b) = (Pong, b)"
| "out_frame (OutClose p) = (Close, p)"

datatype writer = Polling | Sending "u8 list" | ClosingConn "(u16 \<times> str) option" | WriterDone

definition writer_message :: "str + u8 list \<Rightarrow> out_msg \<Rightarrow> ws_shared \<Rightarrow> writer \<times> ws_shared" where
  "writer_message rand m sh =
     (case out_frame m of
        (o1, p) \<Rightarrow>
          (case encode_frame rand o1 p of
             Inl e \<Rightarrow> (WriterDone, fail_connection e sh)
           | Inr encoded \<Rightarrow> (Sending encoded, sh\<lparr>out_buffered := out_buffered sh - length p\<rparr>)))"

definition writer_written :: "bool \<Rightarrow> ws_shared \<Rightarrow> writer \<times> ws_shared" where
  "writer_written ok sh =
     (if ok then (Polling, sh) else (WriterDone, fail_connection [Lit ''WebSocket frame write failed''] sh))"

definition writer_finish :: "(u16 \<times> str) option \<Rightarrow> ws_shared \<Rightarrow> writer \<times> ws_shared" where
  "writer_finish close sh =
     (WriterDone, case close of Some (c, r) \<Rightarrow> surface_close c r sh | None \<Rightarrow> sh)"

subsection \<open>A session\<close>

record ws_session =
  shared :: ws_shared
  reader :: reader
  writer :: writer
  sent_msgs :: "out_msg list"

definition ws_start :: "str \<Rightarrow> ws_session" where
  "ws_start negotiated =
     \<lparr>shared = ws_shared_new negotiated, reader = Reading None [], writer = Polling, sent_msgs = []\<rparr>"

definition ws_open ::
    "(str \<Rightarrow> web_url option) \<Rightarrow> ('s, 't, 'h) net \<Rightarrow> string + str \<Rightarrow> str list \<Rightarrow> (('s, 't) pooled_conn \<Rightarrow> stream)
      \<Rightarrow> (ws_url \<Rightarrow> str list \<Rightarrow> header list \<Rightarrow> stream \<Rightarrow> (fmt list + str) \<times> stream)
      \<Rightarrow> str \<Rightarrow> str list \<Rightarrow> header list \<Rightarrow> str option \<Rightarrow> fmt list + ws_session \<times> stream" where
  "ws_open new w relay hosts as_stream shake url protocols identity_headers isolation =
     (case ws_url_parse new url of
        Inl e \<Rightarrow> Inl e
      | Inr u \<Rightarrow>
          (case open_target_stream w relay (ws_host u) (ws_port u) (secure u) isolation hosts of
             Inl e \<Rightarrow> Inl e
           | Inr c \<Rightarrow>
               (case shake u protocols identity_headers (as_stream c) of
                  (Inl e, _) \<Rightarrow> Inl e
                | (Inr negotiated, s) \<Rightarrow>
                    Inr (ws_start negotiated, s))))"

definition frame_limits :: "frame io_result \<Rightarrow> bool" where
  "frame_limits res \<longleftrightarrow>
     (case res of Inr fr \<Rightarrow> \<not> is_control (frame_op fr) \<or> length (frame_payload fr) \<le> 125 | Inl _ \<Rightarrow> True)"

text \<open>
  The interleavings: calls of the page, a frame or error for the reader, and the writer's turns. An
  aborted task takes no further step; a parked writer waits for its waker. \<open>frame_limits\<close> is what
  \<^const>\<open>read_frame_split\<close> guarantees.
\<close>

inductive ws_step :: "ws_session \<Rightarrow> ws_session \<Rightarrow> bool" where
  JsHandlers: "ws_step s (s\<lparr>shared := snd (set_handlers h (shared s))\<rparr>)"
| JsSend: "ws_step s (s\<lparr>shared := snd (send d (shared s))\<rparr>)"
| JsClose: "ws_step s (s\<lparr>shared := ws_close c r (shared s)\<rparr>)"
| JsAbort: "ws_step s (s\<lparr>shared := ws_abort (shared s)\<rparr>)"
| ReadFrame: "\<lbrakk>reader s = Reading frag_op frag_buf; \<not> reader_abort (shared s); frame_limits res;
    reader_frame res frag_op frag_buf (shared s) = (rd, sh)\<rbrakk>
    \<Longrightarrow> ws_step s (s\<lparr>reader := rd, shared := sh\<rparr>)"
| WriterTake: "\<lbrakk>writer s = Polling; \<not> writer_abort (shared s); writer_woken (shared s);
    writer_poll (shared s) = (Ready (Some m), sh); writer_message rand m sh = (wt, sh')\<rbrakk>
    \<Longrightarrow> ws_step s (s\<lparr>writer := wt, shared := sh', sent_msgs := sent_msgs s @ (if wt = WriterDone then [] else [m])\<rparr>)"
| WriterPark: "\<lbrakk>writer s = Polling; \<not> writer_abort (shared s); writer_woken (shared s);
    writer_poll (shared s) = (Pending, sh)\<rbrakk> \<Longrightarrow> ws_step s (s\<lparr>shared := sh\<rparr>)"
| WriterStop: "\<lbrakk>writer s = Polling; \<not> writer_abort (shared s); writer_woken (shared s);
    writer_poll (shared s) = (Ready None, sh)\<rbrakk>
    \<Longrightarrow> ws_step s (s\<lparr>writer := ClosingConn (peer_close sh), shared := sh\<lparr>peer_close := None\<rparr>\<rparr>)"
| WriterWritten: "\<lbrakk>writer s = Sending encoded; \<not> writer_abort (shared s); writer_written ok (shared s) = (wt, sh)\<rbrakk>
    \<Longrightarrow> ws_step s (s\<lparr>writer := wt, shared := sh\<rparr>)"
| WriterClosed: "\<lbrakk>writer s = ClosingConn close; \<not> writer_abort (shared s); writer_finish close (shared s) = (wt, sh)\<rbrakk>
    \<Longrightarrow> ws_step s (s\<lparr>writer := wt, shared := sh\<rparr>)"

inductive_cases ws_stepE: "ws_step s s'"

subsection \<open>The invariant\<close>

fun is_on_close :: "js_call \<Rightarrow> bool" where
  "is_on_close (OnClose _ _) = True"
| "is_on_close _ = False"

fun control_small :: "out_msg \<Rightarrow> bool" where
  "control_small (OutPong p) = (length p \<le> 125)"
| "control_small (OutClose p) = (length p \<le> 125)"
| "control_small _ = True"

definition calls_ok :: "ws_shared \<Rightarrow> bool" where
  "calls_ok sh \<longleftrightarrow> (\<exists>before n. calls sh = before @ replicate n (OnClose (close_code sh) (close_reason sh))
     \<and> list_all (Not \<circ> is_on_close) before \<and> (n = 0 \<or> ws_closed sh))"

definition queue_ok :: "out_msg list \<Rightarrow> ws_shared \<Rightarrow> bool" where
  "queue_ok done1 sh \<longleftrightarrow>
     list_all (Not \<circ> is_close) (butlast (done1 @ out_queue sh))
     \<and> (closed_local sh \<or> list_all (Not \<circ> is_close) (done1 @ out_queue sh))
     \<and> subseq (done1 @ out_queue sh) (pushed sh) \<and> list_all control_small (out_queue sh)"

definition abort_ok :: "ws_shared \<Rightarrow> bool" where
  "abort_ok sh \<longleftrightarrow> reader_abort sh = ws_closed sh \<and> writer_abort sh = ws_closed sh \<and> (ws_closed sh \<longrightarrow> out_queue sh = [])"

definition wake_ok :: "ws_shared \<Rightarrow> bool" where
  "wake_ok sh \<longleftrightarrow> writer_woken sh \<or> (out_waker sh \<and> out_queue sh = [] \<and> peer_close sh = None \<and> \<not> ws_closed sh)"

definition shared_inv :: "out_msg list \<Rightarrow> ws_shared \<Rightarrow> bool" where
  "shared_inv done1 sh \<longleftrightarrow> calls_ok sh \<and> queue_ok done1 sh \<and> abort_ok sh \<and> wake_ok sh"

lemmas shared_inv_defs = shared_inv_def calls_ok_def queue_ok_def abort_ok_def wake_ok_def

lemma wake_simps [simp]:
  "on_message (wake sh) = on_message sh" "on_close (wake sh) = on_close sh" "on_error (wake sh) = on_error sh"
  "out_queue (wake sh) = out_queue sh" "closed_local (wake sh) = closed_local sh" "peer_close (wake sh) = peer_close sh"
  "out_buffered (wake sh) = out_buffered sh" "reader_abort (wake sh) = reader_abort sh"
  "writer_abort (wake sh) = writer_abort sh" "ws_closed (wake sh) = ws_closed sh" "close_code (wake sh) = close_code sh"
  "close_reason (wake sh) = close_reason sh" "calls (wake sh) = calls sh" "pushed (wake sh) = pushed sh"
  "writer_woken (wake sh) \<longleftrightarrow> writer_woken sh \<or> out_waker sh"
  by (simp_all add: wake_def)

lemma calls_ok_open: "calls_ok sh \<Longrightarrow> \<not> ws_closed sh \<Longrightarrow> list_all (Not \<circ> is_on_close) (calls sh)"
  by (auto simp: calls_ok_def)

lemma calls_okI: "list_all (Not \<circ> is_on_close) (calls sh) \<Longrightarrow> calls_ok sh"
  unfolding calls_ok_def by (intro exI [of _ "calls sh"] exI [of _ 0]) simp

lemma calls_ok_closed:
  "\<lbrakk>calls sh = cs @ [OnClose (close_code sh) (close_reason sh)]; list_all (Not \<circ> is_on_close) cs; ws_closed sh\<rbrakk> \<Longrightarrow> calls_ok sh"
  unfolding calls_ok_def by (intro exI [of _ cs] exI [of _ "Suc 0"]) simp

lemma calls_ok_again:
  assumes "calls_ok sh" "ws_closed sh"
  shows "calls_ok (call_js (OnClose (close_code sh) (close_reason sh)) sh)"
proof -
  from assms obtain before n where "calls sh = before @ replicate n (OnClose (close_code sh) (close_reason sh))"
      "list_all (Not \<circ> is_on_close) before"
    by (auto simp: calls_ok_def)
  with assms(2) show ?thesis
    unfolding calls_ok_def by (intro exI [of _ before] exI [of _ "Suc n"]) (simp add: call_js_def replicate_append_same)
qed

lemma call_js_inv:
  "\<lbrakk>shared_inv d sh; \<not> ws_closed sh; \<not> is_on_close c\<rbrakk> \<Longrightarrow> shared_inv d (call_js c sh)"
  using calls_ok_open [of sh]
  by (auto simp: shared_inv_def queue_ok_def abort_ok_def wake_ok_def call_js_def intro!: calls_okI)

lemma surface_close_inv: 
  assumes "shared_inv d sh"
  shows "shared_inv d (surface_close c r sh)"
proof (cases "ws_closed sh")
  case False
  have "list_all (Not \<circ> is_close) (butlast d)"
    using assms by (cases "out_queue sh") (auto simp: shared_inv_def queue_ok_def butlast_append list_all_iff split: if_splits dest: in_set_butlastD)
  moreover have "closed_local sh \<or> list_all (Not \<circ> is_close) d" "subseq d (pushed sh)"
    using assms subseq_order.trans [of d "d @ out_queue sh" "pushed sh"] by (auto simp: shared_inv_def queue_ok_def)
  moreover have "list_all (Not \<circ> is_on_close) (calls sh)"
    using assms False calls_ok_open by (simp add: shared_inv_def)
  then have "calls_ok (surface_close c r sh)"
    using False by (cases "on_close sh")
      (auto simp: surface_close_def Let_def call_js_def intro: calls_okI calls_ok_closed [where cs = "calls sh"])
  ultimately show ?thesis
    using assms False
    by (auto simp: shared_inv_def queue_ok_def abort_ok_def wake_ok_def surface_close_def Let_def call_js_def)
qed (use assms in \<open>simp add: surface_close_def\<close>)

lemma fail_connection_inv: "shared_inv d sh \<Longrightarrow> shared_inv d (fail_connection e sh)"
  by (simp add: fail_connection_def surface_close_inv call_js_inv)

lemma push_inv:
  "\<lbrakk>shared_inv d sh; \<not> ws_closed sh; \<not> closed_local sh; \<not> is_close m; control_small m\<rbrakk> \<Longrightarrow> shared_inv d (wake (push_back m sh))"
  by (auto simp: shared_inv_defs push_back_def butlast_append list_all_iff
      simp flip: append_assoc dest: in_set_butlastD)

lemma push_close_inv:
  "\<lbrakk>shared_inv d sh; \<not> ws_closed sh; \<not> closed_local sh; length p \<le> 125\<rbrakk> \<Longrightarrow>
     shared_inv d (wake (push_back (OutClose p) (sh\<lparr>closed_local := True\<rparr>)))"
  by (auto simp: shared_inv_defs push_back_def butlast_append list_all_iff
      simp flip: append_assoc dest: in_set_butlastD)

lemma shared_inv_buffered [simp]: "shared_inv d (sh\<lparr>out_buffered := n\<rparr>) = shared_inv d sh"
  by (simp add: shared_inv_defs)

lemma set_handlers_inv:
  assumes "shared_inv d sh"
  shows "shared_inv d (snd (set_handlers h sh))"
proof -
  have h: "shared_inv d (sh\<lparr>on_message := m, on_close := c, on_error := e\<rparr>)" for m c e
    using assms by (simp add: shared_inv_defs)
  have again: "shared_inv d sh' \<Longrightarrow> ws_closed sh' \<Longrightarrow> shared_inv d (call_js (OnClose (close_code sh') (close_reason sh')) sh')" for sh'
    using calls_ok_again [of sh'] by (auto simp: shared_inv_def queue_ok_def abort_ok_def wake_ok_def call_js_def)
  show ?thesis
    using assms h again [OF h] by (auto simp: set_handlers_def Let_def split: option.splits)
qed

lemma send_inv: "shared_inv d sh \<Longrightarrow> shared_inv d (snd (send v sh))"
  by (auto simp: send_def is_close_def intro!: push_inv split: js_data.splits)

lemma ws_close_inv: "shared_inv d sh \<Longrightarrow> shared_inv d (ws_close c r sh)"
  by (auto simp: ws_close_def Let_def fail_connection_inv intro!: push_close_inv)

lemma deliver_message_inv: "shared_inv d sh \<Longrightarrow> \<not> ws_closed sh \<Longrightarrow> shared_inv d (deliver_message o1 p sh)"
  by (auto simp: deliver_message_def fail_connection_inv call_js_inv split: opcode.splits option.splits)

lemma subseq_filter_tail: "subseq (d @ xs) ys \<Longrightarrow> subseq (d @ filter P xs) ys"
  using subseq_order.trans [of "d @ filter P xs" "d @ xs" ys] by (simp add: list_emb_append_mono)

lemma close_last_filter:
  "list_all (Not \<circ> is_close) (butlast (d @ q)) \<Longrightarrow> list_all (Not \<circ> is_close) (butlast (d @ filter is_close q))"
proof (cases q rule: rev_cases)
  case (snoc q' m)
  moreover assume "list_all (Not \<circ> is_close) (butlast (d @ q))"
  ultimately have "list_all (Not \<circ> is_close) d" "filter is_close q' = []"
    by (auto simp: butlast_append list_all_iff filter_empty_conv)
  with snoc show ?thesis
    by (auto simp: butlast_append list_all_iff dest: in_set_butlastD)
qed simp

lemma peer_closed_inv:
  assumes "shared_inv d sh" "\<not> ws_closed sh" "length p \<le> 125"
  shows "shared_inv d (peer_closed p close sh)"
proof -
  let ?sh = "sh\<lparr>peer_close := Some close, out_queue := filter is_close (out_queue sh), out_buffered := 0\<rparr>"
  have q: "queue_ok d ?sh" "calls_ok ?sh" "abort_ok ?sh"
  proof -
    show "queue_ok d ?sh"
      unfolding queue_ok_def
    proof (intro conjI)
      have o: "queue_ok d sh"
        using assms(1) by (simp add: shared_inv_def)
      then show "list_all (Not \<circ> is_close) (butlast (d @ out_queue ?sh))"
        by (simp add: queue_ok_def close_last_filter)
      from o show "closed_local ?sh \<or> list_all (Not \<circ> is_close) (d @ out_queue ?sh)"
        by (auto simp: queue_ok_def list_all_iff)
      from o show "subseq (d @ out_queue ?sh) (pushed ?sh)"
        by (simp add: queue_ok_def subseq_filter_tail)
      from o show "list_all control_small (out_queue ?sh)"
        by (simp add: queue_ok_def list_all_iff)
    qed
    show "calls_ok ?sh"
      using assms(1) by (simp add: shared_inv_def calls_ok_def)
    show "abort_ok ?sh"
      using assms(1) by (simp add: shared_inv_def abort_ok_def)
  qed
  have w: "writer_woken (wake sh')" if "writer_woken sh' = writer_woken sh" "out_waker sh' = out_waker sh" for sh'
    using assms(1) that by (auto simp: shared_inv_def wake_ok_def)
  show ?thesis
  proof (cases "closed_local sh")
    case True
    with q w [of ?sh] show ?thesis
      by (simp add: peer_closed_def shared_inv_defs)
  next
    case False
    then have "filter is_close (out_queue sh) = []" "list_all (Not \<circ> is_close) d"
      using assms(1) by (auto simp: shared_inv_def queue_ok_def list_all_iff filter_empty_conv)
    with False q assms(2,3) w [of "push_back (OutClose p) (?sh\<lparr>closed_local := True\<rparr>)"] show ?thesis
      by (simp add: peer_closed_def shared_inv_defs push_back_def butlast_append)
  qed
qed

lemma reader_frame_inv:
  assumes "shared_inv d sh" "\<not> ws_closed sh" "frame_limits res" "reader_frame res fo fb sh = (rd, sh')"
  shows "shared_inv d sh'"
  using assms
  by (auto simp: reader_frame_def reader_continuation_def reader_data_def reader_fail_def read_on_def frame_limits_def
      is_control_def is_close_def fail_connection_inv deliver_message_inv push_inv peer_closed_inv
      split: sum.splits opcode.splits option.splits if_splits)

definition task_ok :: "ws_session \<Rightarrow> bool" where
  "task_ok s \<longleftrightarrow>
     (writer_woken (shared s) \<or> writer s = Polling)
     \<and> (peer_close (shared s) \<noteq> None \<longrightarrow> reader s = ReaderDone \<and> closed_local (shared s))
     \<and> (writer s = WriterDone \<longrightarrow> ws_closed (shared s))
     \<and> (\<forall>c. writer s = ClosingConn c \<longrightarrow> c \<noteq> None \<and> peer_close (shared s) = None \<and> reader s = ReaderDone)
     \<and> (reader s = ReaderDone \<longrightarrow>
          ws_closed (shared s) \<or> peer_close (shared s) \<noteq> None \<or> (\<exists>c. writer s = ClosingConn (Some c)))"

definition session_inv :: "ws_session \<Rightarrow> bool" where
  "session_inv s \<longleftrightarrow> shared_inv (sent_msgs s) (shared s) \<and> task_ok s"

text \<open>What every operation but the arrival of a Close frame keeps of the shared state.\<close>

definition keeps :: "ws_shared \<Rightarrow> ws_shared \<Rightarrow> bool" where
  "keeps sh sh' \<longleftrightarrow> peer_close sh' = peer_close sh \<and> (ws_closed sh \<longrightarrow> ws_closed sh')
     \<and> (closed_local sh \<longrightarrow> closed_local sh') \<and> (writer_woken sh \<longrightarrow> writer_woken sh')"

lemma keeps_refl [simp]: "keeps sh sh"
  by (simp add: keeps_def)

lemma keeps_basic [simp]:
  "keeps sh (wake sh') = (keeps sh sh' \<or> keeps sh (sh'\<lparr>writer_woken := True\<rparr>) \<and> out_waker sh')"
  "keeps sh (call_js c sh') = keeps sh sh'" "keeps sh (push_back m sh') = keeps sh sh'"
  "keeps sh (sh'\<lparr>out_buffered := n\<rparr>) = keeps sh sh'"
  by (auto simp: keeps_def call_js_def push_back_def wake_def)

lemma keeps_surface_close [simp]: "keeps sh (surface_close c r sh)"
  by (auto simp: surface_close_def Let_def keeps_def call_js_def)

lemma keeps_fail [simp]: "keeps sh (fail_connection e sh)"
  by (auto simp: fail_connection_def surface_close_def Let_def keeps_def call_js_def)

lemma keeps_api [simp]:
  "keeps sh (snd (set_handlers h sh))" "keeps sh (snd (send v sh))" "keeps sh (ws_close c r sh)" "keeps sh (ws_abort sh)"
  by (auto simp: set_handlers_def send_def ws_close_def ws_abort_def Let_def keeps_def call_js_def push_back_def
      fail_connection_def surface_close_def split: option.splits js_data.splits)

lemma keeps_deliver [simp]: "keeps sh (deliver_message o1 p sh)"
  by (auto simp: deliver_message_def keeps_def call_js_def fail_connection_def surface_close_def Let_def
      split: opcode.splits option.splits)

lemma closed_surface [simp]: "ws_closed (surface_close c r sh)" "ws_closed (fail_connection e sh)"
  by (auto simp: fail_connection_def surface_close_def Let_def call_js_def)

lemma task_ok_keeps:
  "task_ok s \<Longrightarrow> keeps (shared s) sh \<Longrightarrow> task_ok (s\<lparr>shared := sh\<rparr>)"
  by (auto simp: task_ok_def keeps_def)

lemma reader_frame_keeps:
  assumes "reader_frame res fo fb sh = (rd, sh')"
  shows "keeps sh sh' \<and> (rd = ReaderDone \<longrightarrow> ws_closed sh')
    \<or> rd = ReaderDone \<and> peer_close sh' \<noteq> None \<and> closed_local sh' \<and> (writer_woken sh \<longrightarrow> writer_woken sh')"
proof (cases res)
  case (Inl e)
  with assms show ?thesis by (auto simp: reader_frame_def reader_fail_def)
next
  case (Inr fr)
  show ?thesis
  proof (cases "frame_op fr = Close")
    case True
    then show ?thesis
      using assms Inr by (auto simp: reader_frame_def reader_fail_def peer_closed_def Let_def push_back_def split: sum.splits)
  next
    case False
    have "keeps sh sh' \<and> (rd = ReaderDone \<longrightarrow> ws_closed sh')"
      using assms Inr False
      by (cases "frame_op fr")
        (auto simp: reader_frame_def reader_fail_def reader_data_def reader_continuation_def read_on_def
          split: option.splits if_splits)
    then show ?thesis ..
  qed
qed

lemma writer_poll_cases:
  assumes "writer_poll sh = (r, sh')"
  obtains "r = Ready None" "sh' = sh" "ws_closed sh \<or> peer_close sh \<noteq> None"
  | m where "r = Ready (Some m)" "out_queue sh = m # out_queue sh'" "sh' = sh\<lparr>out_queue := out_queue sh'\<rparr>" "\<not> ws_closed sh"
  | "r = Pending" "sh' = sh\<lparr>out_waker := True, writer_woken := False\<rparr>" "out_queue sh = []" "peer_close sh = None" "\<not> ws_closed sh"
  using assms by (fastforce simp: writer_poll_def split: if_splits list.splits)

lemma take_inv:
  "\<lbrakk>shared_inv d sh; out_queue sh = m # q\<rbrakk> \<Longrightarrow> shared_inv (d @ [m]) (sh\<lparr>out_queue := q\<rparr>)"
  by (auto simp: shared_inv_defs)

lemma drop_inv:
  assumes "shared_inv d sh" "out_queue sh = m # q"
  shows "shared_inv d (sh\<lparr>out_queue := q\<rparr>)"
proof -
  have "subseq (d @ q) (d @ m # q)"
    by (rule list_emb_append_mono) auto
  then have "subseq (d @ q) (pushed sh)"
    using assms subseq_order.trans [of "d @ q" "d @ m # q" "pushed sh"] by (auto simp: shared_inv_def queue_ok_def)
  moreover have "list_all (Not \<circ> is_close) (butlast (d @ q))"
    using assms by (auto simp: shared_inv_def queue_ok_def butlast_append list_all_iff split: if_splits dest: in_set_butlastD)
  ultimately show ?thesis
    using assms by (auto simp: shared_inv_def queue_ok_def calls_ok_def abort_ok_def wake_ok_def)
qed

lemma writer_message_cases:
  assumes "writer_message rand m sh = (wt, sh')"
  obtains e where "wt = WriterDone" "sh' = fail_connection e sh"
  | encoded n where "wt = Sending encoded" "sh' = sh\<lparr>out_buffered := n\<rparr>"
  using assms by (auto simp: writer_message_def split: prod.splits sum.splits)

lemma task_ok_writer:
  "\<lbrakk>task_ok s; keeps (shared s) sh; writer_woken sh; wt = WriterDone \<and> ws_closed sh \<or> wt = Polling \<or> wt = Sending b;
    \<forall>c. writer s \<noteq> ClosingConn (Some c) \<or> ws_closed sh\<rbrakk> \<Longrightarrow> task_ok (s\<lparr>writer := wt, shared := sh, sent_msgs := ms\<rparr>)"
  by (fastforce simp: task_ok_def keeps_def)

lemma session_inv_step:
  assumes "ws_step s s'" "session_inv s"
  shows "session_inv s'"
  using assms
proof cases
  case (JsHandlers h)
  then show ?thesis using assms(2) by (simp add: session_inv_def set_handlers_inv task_ok_keeps)
next
  case (JsSend d)
  then show ?thesis using assms(2) by (simp add: session_inv_def send_inv task_ok_keeps)
next
  case (JsClose c r)
  then show ?thesis using assms(2) by (simp add: session_inv_def ws_close_inv task_ok_keeps)
next
  case JsAbort
  then show ?thesis using assms(2) by (simp add: session_inv_def ws_abort_def surface_close_inv task_ok_keeps)
next
  case (ReadFrame fo fb res rd sh)
  then have o: "\<not> ws_closed (shared s)"
    using assms(2) by (simp add: session_inv_def shared_inv_def abort_ok_def)
  have "shared_inv (sent_msgs s) sh"
    using reader_frame_inv [OF _ o] ReadFrame assms(2) by (simp add: session_inv_def)
  moreover have n: "peer_close (shared s) = None"
    using assms(2) ReadFrame(2) by (cases "peer_close (shared s)") (auto simp: session_inv_def task_ok_def)
  have "task_ok s'"
    using reader_frame_keeps [OF ReadFrame(5)] assms(2) ReadFrame o n by (auto simp: session_inv_def task_ok_def keeps_def)
  ultimately show ?thesis using ReadFrame(1) by (simp add: session_inv_def)
next
  case (WriterTake m sh rand wt sh')
  from WriterTake(5) obtain q where q: "out_queue (shared s) = m # q" "sh = (shared s)\<lparr>out_queue := q\<rparr>"
    by (cases rule: writer_poll_cases) auto
  have k: "keeps (shared s) sh" "writer_woken sh"
    using WriterTake(4) q(2) by (simp_all add: keeps_def)
  from WriterTake(6) show ?thesis
  proof (cases rule: writer_message_cases)
    case (1 e)
    have "shared_inv (sent_msgs s) sh'"
      using assms(2) drop_inv [OF _ q(1)] by (simp add: session_inv_def 1 q(2) fail_connection_inv)
    moreover have "keeps (shared s) sh'" "writer_woken sh'" "ws_closed sh'"
      using k keeps_fail [of sh e] by (auto simp: 1 keeps_def)
    ultimately show ?thesis
      using assms(2) WriterTake(1,2) 1 task_ok_writer [of s sh' wt "[]" "sent_msgs s"] by (simp add: session_inv_def)
  next
    case (2 encoded n)
    then show ?thesis
      using assms(2) WriterTake(1,2) k take_inv [OF _ q(1)] task_ok_writer [of s sh' wt encoded]
      by (simp add: session_inv_def q(2))
  qed
next
  case (WriterPark sh)
  from WriterPark(5) show ?thesis
    by (cases rule: writer_poll_cases)
      (use WriterPark assms(2) in \<open>auto simp: session_inv_def shared_inv_defs task_ok_def\<close>)
next
  case (WriterStop sh)
  from WriterStop(5) show ?thesis
    by (cases rule: writer_poll_cases)
      (use WriterStop assms(2) in \<open>auto simp: session_inv_def shared_inv_defs task_ok_def\<close>)
next
  case (WriterWritten encoded ok wt sh)
  have w: "writer_woken (shared s)"
    using assms(2) WriterWritten(2) by (auto simp: session_inv_def task_ok_def)
  show ?thesis
  proof (cases ok)
    case True
    then show ?thesis
      using assms(2) WriterWritten w task_ok_writer [of s "shared s" wt "[]" "sent_msgs s"]
      by (simp add: session_inv_def writer_written_def)
  next
    case False
    then show ?thesis
      using assms(2) WriterWritten w keeps_fail [of "shared s" "[Lit ''WebSocket frame write failed'']"]
        task_ok_writer [of s sh wt "[]" "sent_msgs s"]
      by (auto simp: session_inv_def writer_written_def fail_connection_inv keeps_def)
  qed
next
  case (WriterClosed close wt sh)
  then obtain c r where c: "close = Some (c, r)" "wt = WriterDone" "sh = surface_close c r (shared s)"
    using assms(2) by (cases close) (auto simp: session_inv_def task_ok_def writer_finish_def)
  have "writer_woken (shared s)"
    using assms(2) WriterClosed(2) by (auto simp: session_inv_def task_ok_def)
  then show ?thesis
    using assms(2) WriterClosed(1) c keeps_surface_close [of "shared s" c r] task_ok_writer [of s sh wt "[]" "sent_msgs s"]
    by (auto simp: session_inv_def surface_close_inv keeps_def)
qed

lemma session_inv_start: "session_inv (ws_start negotiated)"
  unfolding session_inv_def shared_inv_def
  by (auto simp: ws_start_def ws_shared_new_def queue_ok_def abort_ok_def wake_ok_def task_ok_def intro: calls_okI)

lemma session_inv_reach: "ws_step\<^sup>*\<^sup>* (ws_start negotiated) s \<Longrightarrow> session_inv s"
  by (induction rule: rtranclp_induct) (auto intro: session_inv_start session_inv_step)

subsection \<open>The closing handshake\<close>

text \<open>A turn of the writer when the transport accepts everything.\<close>

definition writer_turn :: "u8 list \<Rightarrow> ws_session \<Rightarrow> ws_session" where
  "writer_turn key s =
     (case writer s of
        Polling \<Rightarrow>
          (case writer_poll (shared s) of
             (Pending, sh) \<Rightarrow> s\<lparr>shared := sh\<rparr>
           | (Ready None, sh) \<Rightarrow> s\<lparr>writer := ClosingConn (peer_close sh), shared := sh\<lparr>peer_close := None\<rparr>\<rparr>
           | (Ready (Some m), sh) \<Rightarrow>
               (case writer_message (Inr key) m sh of
                  (wt, sh') \<Rightarrow> s\<lparr>writer := wt, shared := sh', sent_msgs := sent_msgs s @ (if wt = WriterDone then [] else [m])\<rparr>))
      | Sending _ \<Rightarrow> (case writer_written True (shared s) of (wt, sh) \<Rightarrow> s\<lparr>writer := wt, shared := sh\<rparr>)
      | ClosingConn close \<Rightarrow> (case writer_finish close (shared s) of (wt, sh) \<Rightarrow> s\<lparr>writer := wt, shared := sh\<rparr>)
      | WriterDone \<Rightarrow> s)"

lemma writer_turn_step:
  assumes "session_inv s" "\<not> ws_closed (shared s)" "peer_close (shared s) \<noteq> None \<or> writer s \<noteq> Polling"
  shows "ws_step s (writer_turn key s)"
proof -
  have s: "\<not> writer_abort (shared s)" "writer_woken (shared s)" "writer s \<noteq> WriterDone"
    using assms by (auto simp: session_inv_def task_ok_def shared_inv_def abort_ok_def wake_ok_def)
  show ?thesis
  proof (cases "writer s")
    case Polling
    obtain p sh where p: "writer_poll (shared s) = (p, sh)" by fastforce
    show ?thesis
    proof (cases p)
      case Pending
      then show ?thesis
        using Polling s p by (auto simp: writer_turn_def intro: ws_step.WriterPark)
    next
      case (Ready x)
      obtain wt sh' where m: "writer_message (Inr key) (the x) sh = (wt, sh')" by fastforce
      show ?thesis
      proof (cases x)
        case None
        then show ?thesis
          using Polling s p Ready by (auto simp: writer_turn_def intro: ws_step.WriterStop)
      next
        case (Some m')
        then show ?thesis
          using ws_step.WriterTake [OF Polling s(1,2), of m' sh "Inr key" wt sh'] p m Ready Polling
          by (simp add: writer_turn_def)
      qed
    qed
  qed (use s in \<open>auto simp: writer_turn_def split: prod.splits intro: ws_step.WriterWritten ws_step.WriterClosed\<close>)
qed

lemma encode_small: "control_small m \<Longrightarrow> \<exists>b. encode_frame (Inr key) (fst (out_frame m)) (snd (out_frame m)) = Inr b"
  by (cases m) (auto simp: encode_frame_def Let_def is_control_def)

lemma writer_turn_take:
  assumes "session_inv s" "\<not> ws_closed (shared s)" "writer s = Polling" "out_queue (shared s) = m # q"
  shows "\<exists>b n. writer_turn key s
    = s\<lparr>writer := Sending b, shared := (shared s)\<lparr>out_queue := q, out_buffered := n\<rparr>, sent_msgs := sent_msgs s @ [m]\<rparr>"
proof -
  have "control_small m"
    using assms(1,4) by (simp add: session_inv_def shared_inv_def queue_ok_def)
  from encode_small [OF this, of key] assms(2-) show ?thesis
    by (auto simp: writer_turn_def writer_poll_def writer_message_def split: prod.splits intro!: exI)
qed

definition reported :: "u16 \<Rightarrow> str \<Rightarrow> ws_session \<Rightarrow> bool" where
  "reported c r s \<longleftrightarrow> ws_closed (shared s) \<and> close_code (shared s) = c \<and> close_reason (shared s) = r
     \<and> (on_close (shared s) \<longrightarrow> calls (shared s) \<noteq> [] \<and> last (calls (shared s)) = OnClose c r)"

lemma close_reported:
  assumes "session_inv s" "\<not> ws_closed (shared s)" "peer_close (shared s) = Some (c, r)"
  shows "\<exists>n \<le> 2 * length (out_queue (shared s)) + 3. reported c r ((writer_turn key ^^ n) s) \<and> ws_step\<^sup>*\<^sup>* s ((writer_turn key ^^ n) s)"
proof -
  have "\<exists>n \<le> 2 * length (out_queue (shared s)) + (if writer s = Polling then 0 else 1) + 2.
      reported c r ((writer_turn key ^^ n) s) \<and> ws_step\<^sup>*\<^sup>* s ((writer_turn key ^^ n) s)"
    using assms
  proof (induction "2 * length (out_queue (shared s)) + (if writer s = Polling then 0 else 1)" arbitrary: s rule: less_induct)
    case less
    let ?t = "writer_turn key s"
    have step: "ws_step s ?t"
      using less.prems by (intro writer_turn_step) auto
    have inv: "session_inv ?t"
      using session_inv_step [OF step less.prems(1)] .
    have more: ?case if t: "\<not> ws_closed (shared ?t)" "peer_close (shared ?t) = Some (c, r)"
        "2 * length (out_queue (shared ?t)) + (if writer ?t = Polling then 0 else 1)
         < 2 * length (out_queue (shared s)) + (if writer s = Polling then 0 else 1)"
    proof -
      from less.hyps [OF t(3) inv t(1,2)] obtain n where n:
        "n \<le> 2 * length (out_queue (shared ?t)) + (if writer ?t = Polling then 0 else 1) + 2"
        "reported c r ((writer_turn key ^^ n) ?t)" "ws_step\<^sup>*\<^sup>* ?t ((writer_turn key ^^ n) ?t)"
        by blast
      then show ?thesis
        using t(3) step by (intro exI [of _ "Suc n"]) (auto simp: funpow_Suc_right simp del: funpow.simps)
    qed
    show ?case
    proof (cases "writer s")
      case Polling
      show ?thesis
      proof (cases "out_queue (shared s)")
        case (Cons m q)
        from writer_turn_take [OF less.prems(1,2) Polling Cons, of key] show ?thesis
          using less.prems Polling Cons by (intro more) auto
      next
        case Nil
        then have t: "?t = s\<lparr>writer := ClosingConn (Some (c, r)), shared := (shared s)\<lparr>peer_close := None\<rparr>\<rparr>"
          using less.prems Polling by (simp add: writer_turn_def writer_poll_def)
        then have "ws_step ?t (writer_turn key ?t)"
          using less.prems inv by (intro writer_turn_step) auto
        moreover have "reported c r (writer_turn key ?t)"
          using less.prems(2) unfolding t
          by (auto simp: reported_def writer_turn_def writer_finish_def surface_close_def Let_def call_js_def)
        ultimately show ?thesis
          using step by (intro exI [of _ "Suc (Suc 0)"]) auto
      qed
    next
      case (Sending b)
      then show ?thesis
        using less.prems by (intro more) (auto simp: writer_turn_def writer_written_def)
    next
      case (ClosingConn x)
      then show ?thesis
        using less.prems by (auto simp: session_inv_def task_ok_def)
    next
      case WriterDone
      then show ?thesis
        using less.prems by (auto simp: session_inv_def task_ok_def)
    qed
  qed
  then show ?thesis
    by (elim exE conjE) (rule exI, intro conjI, auto split: if_splits)
qed

subsection \<open>Reassembly of fragmented messages\<close>

text \<open>A message as its parts, and the frames that carry it.\<close>

fun continuations :: "u8 list list \<Rightarrow> frame list" where
  "continuations [] = []"
| "continuations (p # ps) = \<lparr>frame_fin = (ps = []), frame_op = Continuation, frame_payload = p\<rparr> # continuations ps"

fun data_frames :: "opcode \<times> u8 list list \<Rightarrow> frame list" where
  "data_frames (o1, []) = []"
| "data_frames (o1, p # ps) = \<lparr>frame_fin = (ps = []), frame_op = o1, frame_payload = p\<rparr> # continuations ps"

fun message_ok :: "opcode \<times> u8 list list \<Rightarrow> bool" where
  "message_ok (o1, parts) \<longleftrightarrow> (o1 = Text \<and> utf8_valid (concat parts) \<or> o1 = Binary) \<and> parts \<noteq> []
     \<and> length (concat parts) \<le> MAX_WS_BUFFER_BYTES"

fun js_message :: "opcode \<times> u8 list list \<Rightarrow> js_call" where
  "js_message (o1, parts) = OnMessage (if o1 = Text then JsString (concat parts) else JsArrayBuffer (concat parts))"

fun reader_run :: "frame list \<Rightarrow> reader \<times> ws_shared \<Rightarrow> reader \<times> ws_shared" where
  "reader_run (fr # frs) (Reading frag_op frag_buf, sh) = reader_run frs (reader_frame (Inr fr) frag_op frag_buf sh)"
| "reader_run frs st = st"

text \<open>The data frames still to come, given what has been gathered of the current message.\<close>

fun frames_await :: "opcode option \<Rightarrow> u8 list \<Rightarrow> frame list \<Rightarrow> (opcode \<times> u8 list list) list \<Rightarrow> bool" where
  "frames_await None got frs msgs \<longleftrightarrow> got = [] \<and> frs = concat (map data_frames msgs)"
| "frames_await (Some o1) got frs msgs \<longleftrightarrow>
     (\<exists>parts ps rest. msgs = (o1, parts) # rest \<and> ps \<noteq> [] \<and> concat parts = got @ concat ps
        \<and> frs = continuations ps @ concat (map data_frames rest))"

definition answers :: "frame list \<Rightarrow> ws_shared \<Rightarrow> out_msg list" where
  "answers frs sh = (if closed_local sh then [] else map (OutPong \<circ> frame_payload) (filter (\<lambda>fr. frame_op fr = Ping) frs))"

lemma deliver_ok:
  "\<lbrakk>message_ok (o1, parts); on_message sh\<rbrakk> \<Longrightarrow> deliver_message o1 (concat parts) sh = call_js (js_message (o1, parts)) sh"
  by (auto simp: deliver_message_def from_utf8_def)

lemma call_js_simps [simp]:
  "ws_closed (call_js c sh) = ws_closed sh" "on_message (call_js c sh) = on_message sh" "closed_local (call_js c sh) = closed_local sh"
  "out_queue (call_js c sh) = out_queue sh" "calls (call_js c sh) = calls sh @ [c]"
  by (simp_all add: call_js_def)

lemma data_frames_not_Nil: "message_ok m \<Longrightarrow> data_frames m \<noteq> []"
  by (cases m rule: data_frames.cases) auto

lemma reader_data_frame:
  assumes "frames_await fo got (fr # frs) msgs" "list_all message_ok msgs" "\<not> ws_closed sh" "on_message sh"
  shows "\<exists>fo' got' msgs' delivered sh'. reader_frame (Inr fr) fo got sh = (Reading fo' got', sh')
    \<and> frames_await fo' got' frs msgs' \<and> msgs = delivered @ msgs' \<and> calls sh' = calls sh @ map js_message delivered
    \<and> \<not> ws_closed sh' \<and> on_message sh' \<and> out_queue sh' = out_queue sh \<and> closed_local sh' = closed_local sh"
proof (cases fo)
  case None
  with assms(1,2) obtain o1 p ps rest where m: "msgs = (o1, p # ps) # rest" "got = []"
      "fr = \<lparr>frame_fin = (ps = []), frame_op = o1, frame_payload = p\<rparr>" "frs = continuations ps @ concat (map data_frames rest)"
    by (cases msgs; cases "snd (hd msgs)"; cases "hd msgs") auto
  have ok: "message_ok (o1, p # ps)"
    using assms(2) m(1) by simp
  then have l: "length p \<le> MAX_WS_BUFFER_BYTES" "o1 = Text \<or> o1 = Binary"
    by auto
  show ?thesis
  proof (cases "ps = []")
    case True
    have "reader_frame (Inr fr) fo got sh = (Reading None [], call_js (js_message (o1, [p])) sh)"
      using None m l True assms(3,4) deliver_ok [OF ok assms(4)]
      by (auto simp: reader_frame_def reader_data_def read_on_def)
    then show ?thesis
      using m True assms(3,4) by (intro exI [of _ None] exI [of _ "[]"] exI [of _ rest] exI [of _ "[(o1, [p])]"]) simp
  next
    case False
    have "reader_frame (Inr fr) fo got sh = (Reading (Some o1) p, sh)"
      using None m l False assms(3) by (auto simp: reader_frame_def reader_data_def read_on_def)
    then show ?thesis
      using m False assms(3,4)
      by (intro exI [of _ "Some o1"] exI [of _ p] exI [of _ msgs] exI [of _ "[]"]) (auto intro!: exI [of _ ps])
  qed
next
  case (Some o1)
  with assms(1) obtain parts p ps rest where m: "msgs = (o1, parts) # rest" "concat parts = got @ p @ concat ps"
      "fr = \<lparr>frame_fin = (ps = []), frame_op = Continuation, frame_payload = p\<rparr>" "frs = continuations ps @ concat (map data_frames rest)"
    by (auto simp: neq_Nil_conv)
  have ok: "message_ok (o1, parts)"
    using assms(2) m(1) by simp
  then have l: "length got + length p \<le> MAX_WS_BUFFER_BYTES"
    by (simp add: m(2))
  show ?thesis
  proof (cases "ps = []")
    case True
    have "reader_frame (Inr fr) fo got sh = (Reading None [], call_js (js_message (o1, parts)) sh)"
      using Some m l True assms(3,4) deliver_ok [OF ok assms(4)]
      by (auto simp: reader_frame_def reader_continuation_def read_on_def)
    then show ?thesis
      using m True assms(3,4) by (intro exI [of _ None] exI [of _ "[]"] exI [of _ rest] exI [of _ "[(o1, parts)]"]) simp
  next
    case False
    have "reader_frame (Inr fr) fo got sh = (Reading (Some o1) (got @ p), sh)"
      using Some m l False assms(3) by (auto simp: reader_frame_def reader_continuation_def read_on_def)
    then show ?thesis
      using m False assms(3,4)
      by (intro exI [of _ "Some o1"] exI [of _ "got @ p"] exI [of _ msgs] exI [of _ "[]"]) (auto intro!: exI [of _ ps])
  qed
qed

lemma reader_control_frame:
  assumes "is_control (frame_op fr)" "frame_op fr \<noteq> Close" "\<not> ws_closed sh"
  shows "\<exists>sh'. reader_frame (Inr fr) fo got sh = (Reading fo got, sh') \<and> calls sh' = calls sh \<and> \<not> ws_closed sh'
    \<and> on_message sh' = on_message sh \<and> closed_local sh' = closed_local sh \<and> out_queue sh' = out_queue sh @ answers [fr] sh"
  using assms by (auto simp: is_control_def reader_frame_def read_on_def answers_def push_back_def)

lemma reader_run_frames:
  assumes "frames_await fo got (filter (\<lambda>fr. \<not> is_control (frame_op fr)) frs) msgs" "list_all message_ok msgs"
    "list_all (\<lambda>fr. frame_op fr \<noteq> Close) frs" "\<not> ws_closed sh" "on_message sh"
  shows "\<exists>sh'. reader_run frs (Reading fo got, sh) = (Reading None [], sh') \<and> calls sh' = calls sh @ map js_message msgs
    \<and> out_queue sh' = out_queue sh @ answers frs sh \<and> \<not> ws_closed sh'"
  using assms
proof (induction frs arbitrary: fo got msgs sh)
  case Nil
  have "continuations ps \<noteq> []" if "ps \<noteq> []" for ps
    using that by (cases ps) auto
  then have fo: "fo = None" "got = []"
    using Nil by (cases fo; fastforce)+
  moreover have "msgs = []"
    using Nil fo data_frames_not_Nil by (cases msgs) auto
  ultimately show ?case using Nil by (simp add: answers_def)
next
  case (Cons fr frs)
  show ?case
  proof (cases "is_control (frame_op fr)")
    case True
    from reader_control_frame [OF True, of sh fo got] Cons.prems obtain sh1 where
      1: "reader_frame (Inr fr) fo got sh = (Reading fo got, sh1)" "calls sh1 = calls sh" "\<not> ws_closed sh1" "on_message sh1"
        "closed_local sh1 = closed_local sh" "out_queue sh1 = out_queue sh @ answers [fr] sh"
      by auto
    with Cons.IH [of fo got msgs sh1] Cons.prems True show ?thesis
      by (auto simp: answers_def)
  next
    case False
    with reader_data_frame [of fo got fr "filter (\<lambda>fr. \<not> is_control (frame_op fr)) frs" msgs sh] Cons.prems
    obtain fo' got' msgs' delivered sh1 where
      1: "reader_frame (Inr fr) fo got sh = (Reading fo' got', sh1)"
        "frames_await fo' got' (filter (\<lambda>fr. \<not> is_control (frame_op fr)) frs) msgs'" "msgs = delivered @ msgs'"
        "calls sh1 = calls sh @ map js_message delivered" "\<not> ws_closed sh1" "on_message sh1" "out_queue sh1 = out_queue sh"
        "closed_local sh1 = closed_local sh"
      by auto
    with Cons.IH [OF 1(2), of sh1] Cons.prems False show ?thesis
      by (auto simp: answers_def is_control_def)
  qed
qed

subsection \<open>Properties\<close>

text \<open>
  C20. In every interleaving of page calls, incoming frames and writer turns, the messages handed to the
  transport are a subsequence of those queued, in order; at most one of them is a Close, and nothing is
  sent after it.
\<close>

theorem ws_close_frame_last:
  assumes "ws_step\<^sup>*\<^sup>* (ws_start negotiated) s"
  shows "\<exists>data close. sent_msgs s = data @ close \<and> list_all (Not \<circ> is_close) data
      \<and> (close = [] \<or> (\<exists>p. close = [OutClose p])) \<and> subseq (sent_msgs s) (pushed (shared s))"
proof -
  have q: "queue_ok (sent_msgs s) (shared s)"
    using session_inv_reach [OF assms] by (simp add: session_inv_def shared_inv_def)
  then have "list_all (Not \<circ> is_close) (butlast (sent_msgs s))"
    by (auto simp: queue_ok_def butlast_append list_all_iff split: if_splits dest: in_set_butlastD)
  moreover have "subseq (sent_msgs s) (pushed (shared s))"
    using q subseq_order.trans [of "sent_msgs s" "sent_msgs s @ out_queue (shared s)"] by (auto simp: queue_ok_def)
  moreover have "\<exists>data close. ms = data @ close \<and> list_all (Not \<circ> is_close) data \<and> (close = [] \<or> (\<exists>p. close = [OutClose p]))"
    if "list_all (Not \<circ> is_close) (butlast ms)" for ms
  proof (cases ms rule: rev_cases)
    case (snoc ys m)
    show ?thesis
    proof (cases "is_close m")
      case True
      with snoc that show ?thesis
        by (intro exI [of _ ys] exI [of _ "[m]"]) (auto simp: is_close_def split: out_msg.splits)
    next
      case False
      with snoc that show ?thesis
        by (intro exI [of _ ms] exI [of _ "[]"]) simp
    qed
  qed simp
  ultimately show ?thesis
    by blast
qed

definition sample_closing :: ws_session where
  "sample_closing =
     (let s = ws_start []; s = s\<lparr>shared := snd (send (JsString (bs ''a'')) (shared s))\<rparr>
      in s\<lparr>shared := ws_close None None (shared s)\<rparr>)"

lemma sample_closing_reach: "ws_step\<^sup>*\<^sup>* (ws_start []) sample_closing"
  unfolding sample_closing_def Let_def
  by (rule rtranclp.rtrancl_into_rtrancl [OF r_into_rtranclp [of ws_step, OF ws_step.JsSend] ws_step.JsClose])

theorem ws_close_frame_last_witness:
  "\<exists>s. ws_step\<^sup>*\<^sup>* (ws_start []) s \<and> sent_msgs s = [OutText (bs ''a'')] \<and> out_queue (shared s) = [OutClose [3, 232]]
     \<and> (\<exists>data close. sent_msgs s = data @ close \<and> list_all (Not \<circ> is_close) data)"
proof -
  let ?w = "writer_message (Inr [0, 0, 0, 0]) (OutText (bs ''a'')) ((shared sample_closing)\<lparr>out_queue := [OutClose [3, 232]]\<rparr>)"
  obtain wt sh' where w: "?w = (wt, sh')" by fastforce
  then have "wt \<noteq> WriterDone" "out_queue sh' = [OutClose [3, 232]]"
    by (auto simp: writer_message_def encode_frame_def is_control_def Let_def)
  moreover have "writer_poll (shared sample_closing)
      = (Ready (Some (OutText (bs ''a''))), (shared sample_closing)\<lparr>out_queue := [OutClose [3, 232]]\<rparr>)"
      "writer sample_closing = Polling" "\<not> writer_abort (shared sample_closing)" "writer_woken (shared sample_closing)"
      "sent_msgs sample_closing = []"
    by (simp_all add: sample_closing_def ws_start_def ws_shared_new_def send_def ws_close_def push_back_def wake_def
        writer_poll_def u16_to_be_bytes_def Let_def)
  ultimately have s: "ws_step sample_closing (sample_closing\<lparr>writer := wt, shared := sh', sent_msgs := [OutText (bs ''a'')]\<rparr>)"
    using ws_step.WriterTake [OF _ _ _ _ w, of sample_closing] by simp
  let ?s = "sample_closing\<lparr>writer := wt, shared := sh', sent_msgs := [OutText (bs ''a'')]\<rparr>"
  have "ws_step\<^sup>*\<^sup>* (ws_start []) ?s"
    using sample_closing_reach s by (rule rtranclp.rtrancl_into_rtrancl)
  from this ws_close_frame_last [OF this] \<open>out_queue sh' = _\<close> show ?thesis
    by (intro exI [of _ ?s]) auto
qed

text \<open>
  C35. The page is told of the end of the connection once and consistently: no message and no error is
  delivered after a close notification, all close notifications (later ones come only from installing
  handlers again) carry the same code and reason, and there is one only when the connection is closed.
\<close>

theorem ws_page_told_once:
  assumes "ws_step\<^sup>*\<^sup>* (ws_start negotiated) s"
  shows "\<exists>before n. calls (shared s) = before @ replicate n (OnClose (close_code (shared s)) (close_reason (shared s)))
    \<and> list_all (Not \<circ> is_on_close) before \<and> (n = 0 \<or> ws_closed (shared s))"
  using session_inv_reach [OF assms] by (simp add: session_inv_def shared_inv_def calls_ok_def)

theorem ws_page_told_once_witness:
  "\<exists>s before n. ws_step\<^sup>*\<^sup>* (ws_start []) s \<and> calls (shared s) = [OnClose 1006 []]
     \<and> calls (shared s) = before @ replicate n (OnClose 1006 [])"
proof -
  let ?s1 = "(ws_start [])\<lparr>shared := snd (set_handlers (Some (True, True, True)) (shared (ws_start [])))\<rparr>"
  let ?s = "?s1\<lparr>shared := ws_abort (shared ?s1)\<rparr>"
  have r: "ws_step\<^sup>*\<^sup>* (ws_start []) ?s"
    by (rule rtranclp.rtrancl_into_rtrancl [OF r_into_rtranclp [of ws_step, OF ws_step.JsHandlers] ws_step.JsAbort])
  have c: "calls (shared ?s) = [OnClose 1006 []]" "close_code (shared ?s) = 1006" "close_reason (shared ?s) = []"
    by (simp_all add: ws_start_def ws_shared_new_def set_handlers_def ws_abort_def surface_close_def call_js_def wake_def Let_def)
  from ws_page_told_once [OF r] c r show ?thesis
    by (intro exI [of _ ?s]) auto
qed

text \<open>
  C25. A peer's Close is answered and reported: once it has been received, the writer, taking its turns
  with a transport that accepts what it is given, ends the session after at most two turns per queued
  message and three more, with the peer's code and reason reported to the page's close handler.
\<close>

theorem ws_peer_close_reported:
  assumes "ws_step\<^sup>*\<^sup>* (ws_start negotiated) s" "\<not> ws_closed (shared s)" "peer_close (shared s) = Some (c, r)"
  shows "\<exists>n \<le> 2 * length (out_queue (shared s)) + 3.
    reported c r ((writer_turn key ^^ n) s) \<and> ws_step\<^sup>*\<^sup>* s ((writer_turn key ^^ n) s)"
  using close_reported [OF session_inv_reach [OF assms(1)] assms(2,3)] .

theorem ws_peer_close_reported_witness:
  "\<exists>s n. ws_step\<^sup>*\<^sup>* (ws_start []) s \<and> peer_close (shared s) = Some (1000, []) \<and> reported 1000 [] ((writer_turn [1, 2, 3, 4] ^^ n) s)"
proof -
  let ?sh = "peer_closed [3, 232] (1000, []) (shared (ws_start []))"
  let ?s = "(ws_start [])\<lparr>reader := ReaderDone, shared := ?sh\<rparr>"
  have "reader_frame (Inr \<lparr>frame_fin = True, frame_op = Close, frame_payload = [3, 232]\<rparr>) None [] (shared (ws_start [])) = (ReaderDone, ?sh)"
    by (simp add: reader_frame_def decode_close_payload_def u16_from_be_bytes_def from_utf8_def)
  then have s: "ws_step\<^sup>*\<^sup>* (ws_start []) ?s"
    by (intro r_into_rtranclp ws_step.ReadFrame) (auto simp: ws_start_def ws_shared_new_def frame_limits_def)
  have p: "peer_close (shared ?s) = Some (1000, [])" "\<not> ws_closed (shared ?s)"
    by (simp_all add: peer_closed_def ws_start_def ws_shared_new_def push_back_def Let_def)
  from ws_peer_close_reported [OF s p(2,1), of "[1, 2, 3, 4]"] s p(1) show ?thesis
    by blast
qed

text \<open>
  C19. A server may fragment its messages and interleave pings at will: as long as text is UTF-8 and no
  message exceeds 32 MiB, the page receives exactly the messages sent, whole and in order, and every
  ping is answered with its payload unless the client is closing.
\<close>

theorem ws_messages_reassembled:
  assumes "filter (\<lambda>fr. \<not> is_control (frame_op fr)) frs = concat (map data_frames msgs)" "list_all message_ok msgs"
    "list_all (\<lambda>fr. frame_op fr \<noteq> Close) frs" "\<not> ws_closed sh" "on_message sh"
  shows "\<exists>sh'. reader_run frs (Reading None [], sh) = (Reading None [], sh') \<and> calls sh' = calls sh @ map js_message msgs
    \<and> out_queue sh' = out_queue sh @ answers frs sh \<and> \<not> ws_closed sh'"
  by (rule reader_run_frames) (use assms in simp_all)

theorem ws_messages_reassembled_witness:
  "\<exists>sh'. reader_run
       [\<lparr>frame_fin = False, frame_op = Text, frame_payload = [104]\<rparr>, \<lparr>frame_fin = True, frame_op = Ping, frame_payload = [7]\<rparr>,
        \<lparr>frame_fin = True, frame_op = Continuation, frame_payload = [105]\<rparr>]
       (Reading None [], (ws_shared_new [])\<lparr>on_message := True\<rparr>) = (Reading None [], sh')
     \<and> calls sh' = [OnMessage (JsString [104, 105])] \<and> out_queue sh' = [OutPong [7]]"
  using ws_messages_reassembled [where msgs = "[(Text, [[104], [105]])]" and sh = "(ws_shared_new [])\<lparr>on_message := True\<rparr>"
      and frs = "[\<lparr>frame_fin = False, frame_op = Text, frame_payload = [104]\<rparr>, \<lparr>frame_fin = True, frame_op = Ping, frame_payload = [7]\<rparr>,
        \<lparr>frame_fin = True, frame_op = Continuation, frame_payload = [105]\<rparr>]"]
  by (auto simp: is_control_def ws_shared_new_def answers_def MAX_WS_BUFFER_BYTES_def utf8_valid_ascii)

text \<open>
  The queue counts only data, but the writer subtracts the payload of every message: a pong ahead of a
  queued text makes \<^verbatim>\<open>bufferedAmount\<close> zero while the text is still queued.
\<close>

theorem ws_buffered_undercount:
  "\<exists>sh wt sh'. snd (reader_frame (Inr \<lparr>frame_fin = True, frame_op = Ping, frame_payload = [1, 2, 3]\<rparr>) None [] (ws_shared_new []))
       = sh
     \<and> out_queue (snd (send (JsString (bs ''abc'')) sh)) = [OutPong [1, 2, 3], OutText (bs ''abc'')]
     \<and> writer_message (Inr [0, 0, 0, 0]) (OutPong [1, 2, 3]) (snd (writer_poll (snd (send (JsString (bs ''abc'')) sh)))) = (wt, sh')
     \<and> buffered_amount sh' = 0 \<and> out_queue sh' = [OutText (bs ''abc'')]"
  by (simp add: reader_frame_def read_on_def ws_shared_new_def push_back_def wake_def send_def saturating_add_def
      writer_poll_def writer_message_def encode_frame_def is_control_def buffered_amount_def USIZE_MAX_def Let_def byte_simps)

text \<open>A message that arrives before the page has installed its handlers is lost.\<close>

theorem ws_message_before_handlers:
  "snd (reader_frame (Inr \<lparr>frame_fin = True, frame_op = Binary, frame_payload = p\<rparr>) None [] (ws_shared_new [])) = ws_shared_new []
   \<or> MAX_WS_BUFFER_BYTES < length p"
  by (auto simp: reader_frame_def reader_data_def read_on_def deliver_message_def ws_shared_new_def)

subsection \<open>Strings handed to the page\<close>

fun call_utf8 :: "js_call \<Rightarrow> bool" where
  "call_utf8 (OnMessage (JsString s)) = utf8_valid s"
| "call_utf8 (OnClose _ r) = utf8_valid r"
| "call_utf8 _ = True"

definition close_utf8 :: "(u16 \<times> str) option \<Rightarrow> bool" where
  "close_utf8 close \<longleftrightarrow> (case close of Some (_, r) \<Rightarrow> utf8_valid r | None \<Rightarrow> True)"

definition strings_ok :: "ws_shared \<Rightarrow> bool" where
  "strings_ok sh \<longleftrightarrow> list_all call_utf8 (calls sh) \<and> utf8_valid (close_reason sh) \<and> close_utf8 (peer_close sh)"

lemma strings_ok_updates [simp]:
  "strings_ok (wake sh) = strings_ok sh" "strings_ok (push_back m sh) = strings_ok sh"
  "strings_ok (sh\<lparr>out_buffered := n\<rparr>) = strings_ok sh" "strings_ok (sh\<lparr>closed_local := b\<rparr>) = strings_ok sh"
  "strings_ok (sh\<lparr>out_queue := q\<rparr>) = strings_ok sh"
  "strings_ok (call_js c sh) \<longleftrightarrow> strings_ok sh \<and> call_utf8 c"
  by (auto simp: strings_ok_def push_back_def call_js_def)

lemma strings_ok_surface: "strings_ok sh \<Longrightarrow> utf8_valid r \<Longrightarrow> strings_ok (surface_close c r sh)"
  by (auto simp: surface_close_def Let_def strings_ok_def call_js_def)

lemma strings_ok_fail [simp]: "strings_ok sh \<Longrightarrow> strings_ok (fail_connection e sh)"
  by (simp add: fail_connection_def strings_ok_surface)

lemma strings_ok_api:
  "strings_ok sh \<Longrightarrow> strings_ok (snd (set_handlers h sh))" "strings_ok sh \<Longrightarrow> strings_ok (snd (send v sh))"
  "strings_ok sh \<Longrightarrow> strings_ok (ws_close c r sh)" "strings_ok sh \<Longrightarrow> strings_ok (ws_abort sh)"
  by (auto simp: set_handlers_def send_def ws_close_def ws_abort_def Let_def strings_ok_surface split: option.splits js_data.splits)
     (auto simp: strings_ok_def)

lemma strings_ok_deliver: "strings_ok sh \<Longrightarrow> strings_ok (deliver_message o1 p sh)"
  by (auto simp: deliver_message_def from_utf8_def split: opcode.splits option.splits if_splits)

lemma decode_close_utf8: "decode_close_payload p = Inr close \<Longrightarrow> close_utf8 (Some close)"
  by (auto simp: decode_close_payload_def close_utf8_def from_utf8_def Let_def split: list.splits if_splits option.splits)

lemma strings_ok_peer_closed: "strings_ok sh \<Longrightarrow> close_utf8 (Some close) \<Longrightarrow> strings_ok (peer_closed p close sh)"
  by (auto simp: peer_closed_def Let_def) (auto simp: strings_ok_def)

lemma strings_ok_reader:
  assumes "reader_frame res fo fb sh = (rd, sh')" "strings_ok sh"
  shows "strings_ok sh'"
proof (cases res)
  case (Inr fr)
  with assms show ?thesis
    by (cases "frame_op fr")
      (auto simp: reader_frame_def reader_fail_def reader_data_def reader_continuation_def read_on_def strings_ok_deliver
        strings_ok_peer_closed decode_close_utf8 split: option.splits if_splits sum.splits)
qed (use assms in \<open>auto simp: reader_frame_def reader_fail_def\<close>)

definition session_strings :: "ws_session \<Rightarrow> bool" where
  "session_strings s \<longleftrightarrow> strings_ok (shared s) \<and> (\<forall>close. writer s = ClosingConn close \<longrightarrow> close_utf8 close)"

lemma session_strings_step:
  assumes "ws_step s s'" "session_strings s"
  shows "session_strings s'"
  using assms
proof cases
  case (ReadFrame fo fb res rd sh)
  with assms(2) show ?thesis by (simp add: session_strings_def strings_ok_reader)
next
  case (WriterTake m sh rand wt sh')
  then have "strings_ok sh"
    using assms(2) by (auto simp: session_strings_def writer_poll_def split: if_splits list.splits)
  with WriterTake(6) WriterTake(1) show ?thesis
    by (auto simp: session_strings_def writer_message_def split: prod.splits sum.splits)
next
  case (WriterStop sh)
  then show ?thesis
    using assms(2) by (auto simp: session_strings_def writer_poll_def strings_ok_def close_utf8_def split: if_splits list.splits)
next
  case (WriterPark sh)
  then show ?thesis
    using assms(2) by (auto simp: session_strings_def writer_poll_def strings_ok_def split: if_splits list.splits)
next
  case (WriterWritten encoded ok wt sh)
  then show ?thesis
    using assms(2) by (auto simp: session_strings_def writer_written_def split: if_splits)
next
  case (WriterClosed close wt sh)
  then show ?thesis
    using assms(2)
    by (auto simp: session_strings_def writer_finish_def close_utf8_def strings_ok_surface split: option.splits)
qed (use assms(2) in \<open>simp_all add: session_strings_def strings_ok_api\<close>)

text \<open>
  Every string the client hands to the page, a text message or a close reason, is well-formed UTF-8,
  whatever the peer sends.
\<close>

theorem ws_page_strings_utf8:
  assumes "ws_step\<^sup>*\<^sup>* (ws_start negotiated) s"
  shows "list_all call_utf8 (calls (shared s)) \<and> utf8_valid (close_reason (shared s))"
proof -
  from assms have "session_strings s"
  proof (induction rule: rtranclp_induct)
    case base
    show ?case
      by (simp add: session_strings_def ws_start_def ws_shared_new_def strings_ok_def close_utf8_def)
  qed (rule session_strings_step)
  then show ?thesis by (simp add: session_strings_def strings_ok_def)
qed

theorem ws_page_strings_utf8_witness:
  "\<exists>s. ws_step\<^sup>*\<^sup>* (ws_start []) s \<and> calls (shared s) = [OnMessage (JsString (bs ''hi''))] \<and> utf8_valid (bs ''hi'')"
proof -
  let ?s1 = "(ws_start [])\<lparr>shared := snd (set_handlers (Some (True, True, True)) (shared (ws_start [])))\<rparr>"
  let ?sh = "call_js (OnMessage (JsString (bs ''hi''))) (shared ?s1)"
  let ?s = "?s1\<lparr>reader := Reading None [], shared := ?sh\<rparr>"
  have "reader_frame (Inr \<lparr>frame_fin = True, frame_op = Text, frame_payload = bs ''hi''\<rparr>) None [] (shared ?s1) = (Reading None [], ?sh)"
    by (simp add: reader_frame_def reader_data_def read_on_def deliver_message_def from_utf8_def utf8_valid_ascii MAX_WS_BUFFER_BYTES_def
        set_handlers_def ws_start_def ws_shared_new_def byte_simps)
  then have "ws_step ?s1 ?s"
    by (intro ws_step.ReadFrame)
      (auto simp: ws_start_def ws_shared_new_def set_handlers_def frame_limits_def is_control_def)
  with r_into_rtranclp [of ws_step, OF ws_step.JsHandlers] have r: "ws_step\<^sup>*\<^sup>* (ws_start []) ?s"
    by (rule rtranclp.rtrancl_into_rtrancl)
  have c: "calls (shared ?s) = [OnMessage (JsString (bs ''hi''))]"
    by (simp add: ws_start_def ws_shared_new_def set_handlers_def)
  from ws_page_strings_utf8 [OF r] c r show ?thesis
    by (intro exI [of _ ?s]) simp
qed

end
