(* ===== verification/Kernel.thy ===== *)
theory Kernel
  imports Ws_Client
begin

text \<open>
  The entry points of the kernel module, \<^verbatim>\<open>crates/zp-kernel-bundle/src/kernel/mod.rs\<close>: reading a
  request out of a JavaScript object, promoting and stripping its headers, the trace ring, the captured
  TLS fingerprint and the two exported calls.

  A JavaScript value is a primitive or an object with its own and inherited properties; a property whose
  getter throws is \<^const>\<open>None\<close>. A function is the outcomes of its successive calls, \<^const>\<open>None\<close> for one
  that throws, and throws once they are used up. Rust's debug rendering of a value is a parameter.
\<close>

subsection \<open>JavaScript values\<close>

datatype js =
    Undefined
  | Null
  | JsBool bool
  | JsNumber
  | JsText str
  | Object js_kind "(str \<times> js option) list"
  and js_kind = PlainObject | JsArray "js list" | Buffer "u8 list" | Callable "js option list" | Promised "js option"

definition reflect_get :: "js \<Rightarrow> string \<Rightarrow> js option" where
  "reflect_get v key =
     (case v of
        Object _ ps \<Rightarrow> (case map_of ps (bs key) of Some p \<Rightarrow> p | None \<Rightarrow> Some Undefined)
      | _ \<Rightarrow> None)"

definition as_string :: "js \<Rightarrow> str option" where
  "as_string v = (case v of JsText s \<Rightarrow> Some s | _ \<Rightarrow> None)"

definition as_array :: "js \<Rightarrow> js list option" where
  "as_array v = (case v of Object (JsArray xs) _ \<Rightarrow> Some xs | _ \<Rightarrow> None)"

definition as_function :: "js \<Rightarrow> js option list option" where
  "as_function v = (case v of Object (Callable outcomes) _ \<Rightarrow> Some outcomes | _ \<Rightarrow> None)"

definition array_get :: "js list \<Rightarrow> nat \<Rightarrow> js" where
  "array_get xs i = (if i < length xs then xs ! i else Undefined)"

definition js_to_string :: "(js \<Rightarrow> str) \<Rightarrow> js \<Rightarrow> str" where
  "js_to_string debug v = (case as_string v of Some s \<Rightarrow> s | None \<Rightarrow> debug v)"

definition get_string_prop :: "(js \<Rightarrow> str) \<Rightarrow> js \<Rightarrow> string \<Rightarrow> str option" where
  "get_string_prop debug obj key =
     (case reflect_get obj key of
        None \<Rightarrow> None
      | Some v \<Rightarrow> if v = Undefined \<or> v = Null then None else Some (js_to_string debug v))"

definition unwrap_or_default :: "str option \<Rightarrow> str" where
  "unwrap_or_default v = (case v of Some s \<Rightarrow> s | None \<Rightarrow> [])"

fun collect_pairs :: "(js \<Rightarrow> str) \<Rightarrow> js option list \<Rightarrow> header list" where
  "collect_pairs debug [] = []"
| "collect_pairs debug (None # _) = []"
| "collect_pairs debug (Some st # steps) =
     (if (case reflect_get st ''done'' of Some (JsBool d) \<Rightarrow> d | _ \<Rightarrow> True) then []
      else case reflect_get st ''value'' of
             None \<Rightarrow> []
           | Some v \<Rightarrow>
               (case as_array v of
                  Some xs \<Rightarrow>
                    (if 2 \<le> length xs then [(js_to_string debug (array_get xs 0), js_to_string debug (array_get xs 1))] else [])
                | None \<Rightarrow> []) @ collect_pairs debug steps)"

definition collect_iter_pairs :: "(js \<Rightarrow> str) \<Rightarrow> js \<Rightarrow> header list" where
  "collect_iter_pairs debug iter =
     (case reflect_get iter ''next'' of
        None \<Rightarrow> []
      | Some f \<Rightarrow> (case as_function f of None \<Rightarrow> [] | Some outcomes \<Rightarrow> collect_pairs debug outcomes))"

definition extract_body_bytes :: "js \<Rightarrow> u8 list" where
  "extract_body_bytes req =
     (case reflect_get req ''arrayBuffer'' of
        None \<Rightarrow> []
      | Some f \<Rightarrow>
          (case as_function f of
             Some (Some (Object (Promised (Some (Object (Buffer b) _))) _) # _) \<Rightarrow> b
           | _ \<Rightarrow> []))"

subsection \<open>The request headers\<close>

definition header_entries :: "js \<Rightarrow> header list" where
  "header_entries req =
     (case reflect_get req ''headerEntries'' of
        None \<Rightarrow> []
      | Some arr \<Rightarrow>
          (case as_array arr of
             None \<Rightarrow> []
           | Some xs \<Rightarrow>
               concat (map (\<lambda>pair. case as_array pair of
                   None \<Rightarrow> []
                 | Some kv \<Rightarrow>
                     let k = unwrap_or_default (as_string (array_get kv 0));
                         v = unwrap_or_default (as_string (array_get kv 1))
                     in if k = [] then [] else [(k, v)]) xs)))"

definition fallback_headers :: "(js \<Rightarrow> str) \<Rightarrow> js \<Rightarrow> header list" where
  "fallback_headers debug req =
     (case reflect_get req ''headers'' of
        None \<Rightarrow> []
      | Some h \<Rightarrow>
          if h = Undefined \<or> h = Null then []
          else (case reflect_get h ''entries'' of
                  None \<Rightarrow> []
                | Some f \<Rightarrow>
                    (case as_function f of
                       Some (Some iter # _) \<Rightarrow> collect_iter_pairs debug iter
                     | _ \<Rightarrow> [])))"

definition captured_headers :: "(js \<Rightarrow> str) \<Rightarrow> js \<Rightarrow> header list" where
  "captured_headers debug req = (if header_entries req = [] then fallback_headers debug req else header_entries req)"

record promoted =
  promoted_referer :: "str option"
  promoted_origin :: "str option"
  promoted_ua :: "str option"
  armed_challenge_compat :: bool
  promoted_cookie :: "str option"
  sw_order :: "str list option"
  isolation :: "str option"

definition promoted_none :: promoted where
  "promoted_none = \<lparr>promoted_referer = None, promoted_origin = None, promoted_ua = None,
     armed_challenge_compat = False, promoted_cookie = None, sw_order = None, isolation = None\<rparr>"

definition stripped_names :: "str list" where
  "stripped_names = [bs ''host'', bs ''origin'', bs ''referer'', bs ''accept-encoding'', bs ''connection'',
     bs ''content-length'', bs ''transfer-encoding'']"

definition retain_header :: "header \<Rightarrow> promoted \<Rightarrow> bool \<times> promoted" where
  "retain_header h p =
     (let kl = to_ascii_lowercase (fst h); v = snd h in
      if kl = bs ''x-zp-header-order'' then (False, p\<lparr>sw_order := Some (parse_header_order v)\<rparr>)
      else if kl = bs ''x-zp-referer'' then (False, p\<lparr>promoted_referer := Some v\<rparr>)
      else if kl = bs ''x-zp-origin'' then (False, p\<lparr>promoted_origin := Some v\<rparr>)
      else if kl = bs ''x-zp-user-agent'' then (False, p\<lparr>promoted_ua := Some v\<rparr>)
      else if kl = bs ''x-zp-arm-challenge-compat'' then
        (False, if trim v = bs ''1'' then p\<lparr>armed_challenge_compat := True\<rparr> else p)
      else if kl = bs ''x-zp-stream-isolation-key'' then
        (False, if trim v = [] then p else p\<lparr>isolation := Some (trim v)\<rparr>)
      else if starts_with (bs ''x-zp-'') kl then (False, p)
      else if kl = bs ''cookie'' then (False, p\<lparr>promoted_cookie := Some v\<rparr>)
      else if kl \<in> set stripped_names then (False, p)
      else (True, p))"

fun retain_headers :: "header list \<Rightarrow> promoted \<Rightarrow> header list \<times> promoted" where
  "retain_headers [] p = ([], p)"
| "retain_headers (h # hs) p =
     (case retain_header h p of
        (keep, p) \<Rightarrow> (case retain_headers hs p of (kept, p) \<Rightarrow> (if keep then h # kept else kept, p)))"

definition push_promoted :: "string \<Rightarrow> str option \<Rightarrow> header list" where
  "push_promoted name v = (case v of Some s \<Rightarrow> [(bs name, s)] | None \<Rightarrow> [])"

definition outgoing_headers :: "header list \<Rightarrow> header list \<times> promoted" where
  "outgoing_headers hs =
     (case retain_headers hs promoted_none of
        (kept, p) \<Rightarrow>
          (order_request_headers (sw_order p)
             (kept @ push_promoted ''Referer'' (promoted_referer p) @ push_promoted ''Origin'' (promoted_origin p)
              @ push_promoted ''User-Agent'' (promoted_ua p)
              @ [(bs ''Accept-Encoding'', bs ''gzip, deflate, br, zstd'')]
              @ push_promoted ''Cookie'' (promoted_cookie p)), p))"

subsection \<open>The exported calls\<close>

text \<open>The trace ring.\<close>

definition push_trace :: "str \<Rightarrow> str list \<Rightarrow> str list" where
  "push_trace msg arr = (if 512 \<le> length arr then drop 1 arr else arr) @ [msg]"

definition kernel_fetch ::
    "(js \<Rightarrow> str) \<Rightarrow> browser \<Rightarrow> (str \<Rightarrow> header list \<Rightarrow> u8 list \<Rightarrow> str \<Rightarrow> str \<Rightarrow> str \<Rightarrow> ('s, 't, 'h) net)
      \<Rightarrow> (pool_key list \<Rightarrow> nat) \<Rightarrow> js \<Rightarrow> ('s, 't, 'h) kernel \<Rightarrow> (fmt list + js_response) \<times> ('s, 't, 'h) kernel" where
  "kernel_fetch debug b w pick req k =
     (let url = unwrap_or_default (get_string_prop debug req ''url'');
          verb = (case get_string_prop debug req ''method'' of Some m \<Rightarrow> m | None \<Rightarrow> bs ''GET'')
      in case outgoing_headers (captured_headers debug req) of
           (hs, p) \<Rightarrow>
             if url = [] then (Inl [Lit ''MALFORMED_ROUTE: missing url''], k)
             else
               let content = (if to_ascii_uppercase verb \<noteq> bs ''GET'' \<and> to_ascii_uppercase verb \<noteq> bs ''HEAD''
                              then extract_body_bytes req else [])
               in fetch b (w verb hs content) pick url (armed_challenge_compat p) (isolation p) k)"

definition require :: "string \<Rightarrow> str option \<Rightarrow> fmt list + str" where
  "require what v = (case v of Some s \<Rightarrow> if s = [] then Inl [Lit what] else Inr s | None \<Rightarrow> Inl [Lit what])"

definition kernel_stream ::
    "(js \<Rightarrow> str) \<Rightarrow> browser \<Rightarrow> ('s, 't, 'h) net \<Rightarrow> str list \<Rightarrow> (('s, 't) pooled_conn \<Rightarrow> stream)
      \<Rightarrow> (ws_url \<Rightarrow> str list \<Rightarrow> header list \<Rightarrow> stream \<Rightarrow> (fmt list + str) \<times> stream)
      \<Rightarrow> js \<Rightarrow> fmt list + ws_session \<times> stream" where
  "kernel_stream debug b w hosts as_stream shake arg =
     (case Option.bind (reflect_get arg ''url'') as_string of
        None \<Rightarrow> Inl [Lit ''MALFORMED_ROUTE: kernel_stream missing url'']
      | Some url \<Rightarrow>
          let protocols = (case Option.bind (reflect_get arg ''protocols'') as_array of
                             Some xs \<Rightarrow> List.map_filter as_string xs | None \<Rightarrow> []) in
          (case require ''MALFORMED_ROUTE: kernel_stream missing userAgent'' (get_string_prop debug arg ''userAgent'') of
             Inl e \<Rightarrow> Inl e
           | Inr user_agent \<Rightarrow>
               (case require ''MALFORMED_ROUTE: kernel_stream missing origin'' (get_string_prop debug arg ''origin'') of
                  Inl e \<Rightarrow> Inl e
                | Inr origin \<Rightarrow>
                    ws_open (url_new b) w (pick_relay_url (location b)) hosts as_stream shake url protocols
                      [(bs ''Origin'', origin), (bs ''User-Agent'', user_agent),
                       (bs ''Cookie'', unwrap_or_default (get_string_prop debug arg ''cookie''))]
                      (case Option.bind (reflect_get arg ''isolationKey'') as_string of
                         Some s \<Rightarrow> if s = [] then None else Some s | None \<Rightarrow> None))))"

subsection \<open>The captured fingerprint\<close>

text \<open>A JSON value; a number is its value when it is an unsigned 64-bit integer.\<close>

datatype json = JNull | JBool bool | JNumber "u64 option" | JString str | JArray "json list" | JObject "(str \<times> json) list"

record captured_spec =
  versions :: "u16 list"
  cipher_suites :: "u16 list"
  extensions :: "u16 list"
  named_groups :: "u16 list"
  ec_point_formats :: "u8 list"
  signature_schemes :: "u16 list"
  alpn_protocols :: "u8 list list"

definition json_get :: "json \<Rightarrow> string \<Rightarrow> json option" where
  "json_get j key = (case j of JObject fs \<Rightarrow> map_of fs (bs key) | _ \<Rightarrow> None)"

definition arr_u16 :: "json \<Rightarrow> string \<Rightarrow> u16 list" where
  "arr_u16 j key =
     (case json_get j key of
        Some (JArray xs) \<Rightarrow> List.map_filter (\<lambda>x. case x of JNumber (Some n) \<Rightarrow> Some (ucast n) | _ \<Rightarrow> None) xs
      | _ \<Rightarrow> [])"

definition captured_spec_from_json :: "(str \<Rightarrow> str + u8 list) \<Rightarrow> json \<Rightarrow> captured_spec option" where
  "captured_spec_from_json base64_decode j =
     Some \<lparr>versions = arr_u16 j ''supportedVersions'', cipher_suites = arr_u16 j ''cipherSuites'',
       extensions = arr_u16 j ''extensions'', named_groups = arr_u16 j ''supportedCurves'',
       ec_point_formats = (case json_get j ''supportedPoints'' of
           Some (JString s) \<Rightarrow> (case base64_decode s of Inr b \<Rightarrow> b | Inl _ \<Rightarrow> [])
         | _ \<Rightarrow> []),
       signature_schemes = arr_u16 j ''signatureSchemes'',
       alpn_protocols = (case json_get j ''alpnProtocols'' of
           Some (JArray xs) \<Rightarrow> List.map_filter (\<lambda>x. case x of JString s \<Rightarrow> Some s | _ \<Rightarrow> None) xs
         | _ \<Rightarrow> [])\<rparr>"

text \<open>The process-wide state it sets: the entropy seed and the installed fingerprint.\<close>

record fingerprint =
  entropy :: "u64 option"
  installed :: "captured_spec option"

definition u64_from_le_bytes :: "u8 list \<Rightarrow> u64" where
  "u64_from_le_bytes b = word_of_nat (be_value (rev b))"

definition kernel_set_captured_spec ::
    "(str \<Rightarrow> str + u8 list) \<Rightarrow> (u8 list \<Rightarrow> str + json) \<Rightarrow> str + u8 list \<Rightarrow> str \<Rightarrow> fingerprint \<Rightarrow> fingerprint" where
  "kernel_set_captured_spec base64_decode parse_json rand b64_json fp =
     (let fp = (case rand of Inr seed \<Rightarrow> fp\<lparr>entropy := Some (u64_from_le_bytes seed)\<rparr> | Inl _ \<Rightarrow> fp) in
      case base64_decode b64_json of
        Inl _ \<Rightarrow> fp
      | Inr bytes \<Rightarrow>
          (case parse_json bytes of
             Inl _ \<Rightarrow> fp
           | Inr parsed \<Rightarrow>
               (case captured_spec_from_json base64_decode parsed of
                  None \<Rightarrow> fp
                | Some spec \<Rightarrow> fp\<lparr>installed := Some spec\<rparr>)))"

subsection \<open>Lemmas\<close>

definition named :: "str \<Rightarrow> header list \<Rightarrow> header list" where
  "named n hs = filter (\<lambda>(k, _). eq_ignore_ascii_case k n) hs"

definition last_value :: "string \<Rightarrow> header list \<Rightarrow> str option" where
  "last_value n hs = (if named (bs n) hs = [] then None else Some (snd (last (named (bs n) hs))))"

definition passes :: "str \<Rightarrow> bool" where
  "passes kl \<longleftrightarrow> \<not> starts_with (bs ''x-zp-'') kl \<and> kl \<noteq> bs ''cookie'' \<and> kl \<notin> set stripped_names"

definition or_else :: "str option \<Rightarrow> str option \<Rightarrow> str option" where
  "or_else a b = (case a of Some _ \<Rightarrow> a | None \<Rightarrow> b)"

lemma last_value_simps [simp]:
  "last_value n [] = None"
  "last_value n (h # hs) = or_else (last_value n hs) (if to_ascii_lowercase (fst h) = to_ascii_lowercase (bs n) then Some (snd h) else None)"
  by (auto simp: last_value_def named_def or_else_def eq_ignore_ascii_case_def split: prod.splits)

lemma or_else_assoc [simp]: "or_else (or_else a b) c = or_else a (or_else b c)" "or_else None a = a" "or_else (Some x) a = Some x"
    "or_else a None = a" "or_else (if c' then Some x else None) a = (if c' then Some x else a)"
  by (auto simp: or_else_def split: option.splits)

lemma retain_header_passes: "fst (retain_header h p) = passes (to_ascii_lowercase (fst h))"
  by (auto simp: retain_header_def passes_def Let_def starts_with_def stripped_names_def byte_simps)

lemma retain_headers_spec:
  "retain_headers hs p = (kept, p') \<Longrightarrow>
     kept = filter (\<lambda>(k, _). passes (to_ascii_lowercase k)) hs
     \<and> promoted_referer p' = or_else (last_value ''x-zp-referer'' hs) (promoted_referer p)
     \<and> promoted_origin p' = or_else (last_value ''x-zp-origin'' hs) (promoted_origin p)
     \<and> promoted_ua p' = or_else (last_value ''x-zp-user-agent'' hs) (promoted_ua p)
     \<and> promoted_cookie p' = or_else (last_value ''cookie'' hs) (promoted_cookie p)"
proof (induction hs arbitrary: p kept p')
  case Nil
  then show ?case by simp
next
  case (Cons h hs)
  obtain keep p1 where h: "retain_header h p = (keep, p1)" by fastforce
  obtain kept1 p2 where r: "retain_headers hs p1 = (kept1, p2)" by fastforce
  have k: "keep = passes (to_ascii_lowercase (fst h))"
    using retain_header_passes [of h p] h by simp
  have p1: "promoted_referer p1 = (if to_ascii_lowercase (fst h) = bs ''x-zp-referer'' then Some (snd h) else promoted_referer p)"
      "promoted_origin p1 = (if to_ascii_lowercase (fst h) = bs ''x-zp-origin'' then Some (snd h) else promoted_origin p)"
      "promoted_ua p1 = (if to_ascii_lowercase (fst h) = bs ''x-zp-user-agent'' then Some (snd h) else promoted_ua p)"
      "promoted_cookie p1 = (if to_ascii_lowercase (fst h) = bs ''cookie'' then Some (snd h) else promoted_cookie p)"
    using h by (auto simp: retain_header_def Let_def bs_def starts_with_def split: if_splits)
  have lower: "to_ascii_lowercase (bs ''x-zp-referer'') = bs ''x-zp-referer''" "to_ascii_lowercase (bs ''x-zp-origin'') = bs ''x-zp-origin''"
      "to_ascii_lowercase (bs ''x-zp-user-agent'') = bs ''x-zp-user-agent''" "to_ascii_lowercase (bs ''cookie'') = bs ''cookie''"
    by (simp_all add: byte_simps)
  have "kept = (if keep then h # kept1 else kept1)" "p' = p2"
    using Cons.prems h r by simp_all
  then show ?case
    using Cons.IH [OF r] by (cases h) (simp add: k p1 lower)
qed

lemma named_simps [simp]:
  "named n [] = []" "named n (h # hs) = (if eq_ignore_ascii_case (fst h) n then [h] else []) @ named n hs"
  "named n (xs @ ys) = named n xs @ named n ys"
  by (auto simp: named_def)

lemma named_push: "named n (push_promoted m v) = (if eq_ignore_ascii_case (bs m) n then push_promoted m v else [])"
  by (auto simp: named_def push_promoted_def split: option.splits)

lemma named_kept:
  "named n (filter (\<lambda>(k, _). passes (to_ascii_lowercase k)) hs) = (if passes (to_ascii_lowercase n) then named n hs else [])"
  by (induction hs) (auto simp: named_def eq_ignore_ascii_case_def split: if_splits)

lemma outgoing_named:
  "named n (fst (outgoing_headers hs)) =
     (if passes (to_ascii_lowercase n) then named n hs else [])
     @ (if eq_ignore_ascii_case (bs ''Referer'') n then push_promoted ''Referer'' (last_value ''x-zp-referer'' hs) else [])
     @ (if eq_ignore_ascii_case (bs ''Origin'') n then push_promoted ''Origin'' (last_value ''x-zp-origin'' hs) else [])
     @ (if eq_ignore_ascii_case (bs ''User-Agent'') n then push_promoted ''User-Agent'' (last_value ''x-zp-user-agent'' hs) else [])
     @ (if eq_ignore_ascii_case (bs ''Accept-Encoding'') n then [(bs ''Accept-Encoding'', bs ''gzip, deflate, br, zstd'')] else [])
     @ (if eq_ignore_ascii_case (bs ''Cookie'') n then push_promoted ''Cookie'' (last_value ''cookie'' hs) else [])"
proof -
  obtain kept p where r: "retain_headers hs promoted_none = (kept, p)" by fastforce
  have "named n (order_request_headers so xs) = named n xs" for so xs
    by (simp add: named_def order_request_headers_named)
  with r retain_headers_spec [OF r] show ?thesis
    by (simp add: outgoing_headers_def named_push named_kept promoted_none_def)
qed

text \<open>
  C7. Which headers a request carries upstream: none of the service worker's \<^verbatim>\<open>X-ZP-*\<close> side channel,
  no \<^verbatim>\<open>Host\<close> or framing header; \<^verbatim>\<open>Referer\<close>, \<^verbatim>\<open>Origin\<close> and \<^verbatim>\<open>Cookie\<close> at most once
  and only as the worker set them; the accepted codings exactly once; and all others as given, those of
  the same name in their order.
\<close>

theorem outgoing_headers_clean:
  "(if starts_with (bs ''x-zp-'') (to_ascii_lowercase n)
       \<or> to_ascii_lowercase n \<in> set [bs ''host'', bs ''connection'', bs ''content-length'', bs ''transfer-encoding'']
     then named n (fst (outgoing_headers hs)) = [] else True)
   \<and> named (bs ''referer'') (fst (outgoing_headers hs)) = push_promoted ''Referer'' (last_value ''x-zp-referer'' hs)
   \<and> named (bs ''origin'') (fst (outgoing_headers hs)) = push_promoted ''Origin'' (last_value ''x-zp-origin'' hs)
   \<and> named (bs ''cookie'') (fst (outgoing_headers hs)) = push_promoted ''Cookie'' (last_value ''cookie'' hs)
   \<and> named (bs ''accept-encoding'') (fst (outgoing_headers hs)) = [(bs ''Accept-Encoding'', bs ''gzip, deflate, br, zstd'')]
   \<and> named (bs ''user-agent'') (fst (outgoing_headers hs))
       = named (bs ''user-agent'') hs @ push_promoted ''User-Agent'' (last_value ''x-zp-user-agent'' hs)
   \<and> (if passes (to_ascii_lowercase n) \<and> to_ascii_lowercase n \<noteq> bs ''user-agent''
      then named n (fst (outgoing_headers hs)) = named n hs else True)"
proof -
  have p: "passes (bs ''user-agent'')" "\<not> passes (bs ''referer'')" "\<not> passes (bs ''origin'')" "\<not> passes (bs ''cookie'')"
      "\<not> passes (bs ''accept-encoding'')"
    by (simp_all add: passes_def starts_with_def stripped_names_def byte_simps)
  have promoted:
    "named (bs ''referer'') (fst (outgoing_headers hs)) = push_promoted ''Referer'' (last_value ''x-zp-referer'' hs)"
    "named (bs ''origin'') (fst (outgoing_headers hs)) = push_promoted ''Origin'' (last_value ''x-zp-origin'' hs)"
    "named (bs ''cookie'') (fst (outgoing_headers hs)) = push_promoted ''Cookie'' (last_value ''cookie'' hs)"
    "named (bs ''accept-encoding'') (fst (outgoing_headers hs)) = [(bs ''Accept-Encoding'', bs ''gzip, deflate, br, zstd'')]"
    "named (bs ''user-agent'') (fst (outgoing_headers hs))
       = named (bs ''user-agent'') hs @ push_promoted ''User-Agent'' (last_value ''x-zp-user-agent'' hs)"
    using p by (simp_all add: outgoing_named byte_simps)
  have none: "named n (fst (outgoing_headers hs)) = []"
    if "starts_with (bs ''x-zp-'') (to_ascii_lowercase n)
       \<or> to_ascii_lowercase n \<in> set [bs ''host'', bs ''connection'', bs ''content-length'', bs ''transfer-encoding'']"
    using that by (auto simp: outgoing_named passes_def stripped_names_def eq_ignore_ascii_case_def starts_with_def byte_simps)
  have others: "named n (fst (outgoing_headers hs)) = named n hs"
    if "passes (to_ascii_lowercase n)" "to_ascii_lowercase n \<noteq> bs ''user-agent''"
    using that by (auto simp: outgoing_named passes_def stripped_names_def eq_ignore_ascii_case_def byte_simps)
  show ?thesis
    by (intro conjI promoted) (use none others in \<open>auto\<close>)
qed

lemma push_trace_fold: "fold push_trace msgs arr = drop (length (arr @ msgs) - 512) (arr @ msgs)" if "length arr \<le> 512"
  using that
proof (induction msgs arbitrary: arr)
  case (Cons m msgs)
  then have "length (push_trace m arr) \<le> 512"
    by (auto simp: push_trace_def)
  from Cons.IH [OF this] Cons.prems show ?case
    by (cases "length arr = 512"; cases arr) (auto simp: push_trace_def Suc_diff_le)
qed simp

text \<open>The trace keeps exactly the last 512 messages.\<close>

theorem trace_ring: "fold push_trace msgs [] = drop (length msgs - 512) msgs"
  using push_trace_fold [of "[]" msgs] by simp

text \<open>
  The fingerprint is installed from any JSON value, even one with none of the arrays; integers are cut to
  16 bits.
\<close>

theorem captured_spec_total:
  "captured_spec_from_json base64_decode JNull
     = Some \<lparr>versions = [], cipher_suites = [], extensions = [], named_groups = [], ec_point_formats = [],
             signature_schemes = [], alpn_protocols = []\<rparr>
   \<and> arr_u16 (JObject [(bs ''extensions'', JArray [JNumber (Some 65537)])]) ''extensions'' = [1]"
  by (simp add: captured_spec_from_json_def arr_u16_def json_get_def map_filter_simps)

end
