(* ===== verification/Patches.thy ===== *)
theory Patches
  imports Utf8 "HOL-Library.Product_Lexorder"
begin

text \<open>
  The patches of the script rewriter (\<^verbatim>\<open>src/crates/zp-rewriter/src/lib.rs\<close>): the visitor that
  walks the parsed script leaves a list of patches, each a byte range of the source and its replacement,
  and \<^verbatim>\<open>apply_patches\<close> builds the rewritten script from them. A replacement is plain text or a
  \<^emph>\<open>marker\<close>, a record of fields between bytes 1, which is rendered when it is applied: its fields
  are names and byte ranges of the source, and a range is rewritten by the patches that lie inside it.

  The parser and the visitor are not part of this theory; their patches are the argument. Offsets are
  natural numbers (\<^verbatim>\<open>u32\<close> and \<^verbatim>\<open>usize\<close> in the code, which only ever subtracts a
  smaller one); a string slice that is out of range or cuts a character panics, and so does the empty
  operator of a compound assignment.
\<close>

subsection \<open>Slices, numbers and quoted strings\<close>

record patch =
  patch_start :: nat
  patch_end :: nat
  replacement :: str

definition is_char_boundary :: "str \<Rightarrow> nat \<Rightarrow> bool" where
  "is_char_boundary s i \<longleftrightarrow> i = 0 \<or> i = length s \<or> i < length s \<and> \<not> is_cont (s ! i)"

definition str_slice :: "str \<Rightarrow> nat \<Rightarrow> nat \<Rightarrow> str outcome" where
  "str_slice s a b =
     (if a \<le> b \<and> is_char_boundary s a \<and> is_char_boundary s b then Return (take (b - a) (drop a s)) else Panic)"

fun and_then :: "'a outcome \<Rightarrow> ('a \<Rightarrow> 'b outcome) \<Rightarrow> 'b outcome" where
  "and_then Panic f = Panic"
| "and_then (Return x) f = f x"

definition num :: "str \<Rightarrow> nat option" where
  "num s = from_str_radix 32 10 s"

definition num_or_0 :: "str \<Rightarrow> nat" where
  "num_or_0 s = (case num s of Some v \<Rightarrow> v | None \<Rightarrow> 0)"

definition part :: "'a list \<Rightarrow> nat \<Rightarrow> 'a option" where
  "part xs i = (if i < length xs then Some (xs ! i) else None)"

definition num_at :: "str list \<Rightarrow> nat \<Rightarrow> nat option" where
  "num_at parts i = (case part parts i of Some s \<Rightarrow> num s | None \<Rightarrow> None)"

text \<open>
  The \<^verbatim>\<open>{:?}\<close> form of a string. Which characters beyond ASCII are printed as they are is a table
  of the Unicode database in Rust's library: the parameter \<open>pr\<close>.
\<close>

fun to_hex :: "nat \<Rightarrow> str" where
  "to_hex n =
     (let d = n mod 16; c = (if d < 10 then word_of_nat (48 + d) else word_of_nat (87 + d))
      in if n < 16 then [c] else to_hex (n div 16) @ [c])"

declare to_hex.simps [simp del]

fun code_point :: "u8 list \<Rightarrow> nat" where
  "code_point [a] = unat a"
| "code_point [a, b] = (unat a mod 32) * 64 + unat b mod 64"
| "code_point [a, b, c] = (unat a mod 16) * 4096 + (unat b mod 64) * 64 + unat c mod 64"
| "code_point [a, b, c, d] =
     (unat a mod 8) * 262144 + (unat b mod 64) * 4096 + (unat c mod 64) * 64 + unat d mod 64"
| "code_point _ = 0"

definition debug_char :: "(str \<Rightarrow> bool) \<Rightarrow> str \<Rightarrow> str" where
  "debug_char pr c =
     (if c = [0] then [92, 48]
      else if c = [9] then [92, 116]
      else if c = [13] then [92, 114]
      else if c = [10] then [92, 110]
      else if c = [92] then [92, 92]
      else if c = [34] then [92, 34]
      else if (if length c = 1 then 32 \<le> hd c \<and> hd c < 127 else pr c) then c
      else [92] @ bs ''u{'' @ to_hex (code_point c) @ bs ''}'')"

function debug_chars :: "(str \<Rightarrow> bool) \<Rightarrow> str \<Rightarrow> str" where
  "debug_chars pr s =
     (if s = [] then []
      else case utf8_step s of
             Inr n \<Rightarrow> debug_char pr (take n s) @ debug_chars pr (drop n s)
           | Inl n \<Rightarrow> take n s @ debug_chars pr (drop n s))"
  by pat_completeness auto
termination
  by (relation "measure (length \<circ> snd)") (auto dest: utf8_step_Inr utf8_step_Inl)

declare debug_chars.simps [simp del]

definition debug_str :: "(str \<Rightarrow> bool) \<Rightarrow> str \<Rightarrow> str" where
  "debug_str pr s = [34] @ debug_chars pr s @ [34]"

subsection \<open>Markers\<close>

definition marker :: "string \<Rightarrow> str" where
  "marker name = [1] @ bs name @ [1]"

definition shift_pos :: "nat \<Rightarrow> str \<Rightarrow> str" where
  "shift_pos offset s = (case num s of Some v \<Rightarrow> to_string (v - offset) | None \<Rightarrow> s)"

definition shift_indices :: "(string \<times> nat list) list" where
  "shift_indices =
     [(''GLOBAL_GET'', []), (''THIS_MAP'', []), (''GLOBAL_SET'', [3, 4]), (''GLOBAL_ASSIGN'', [4, 5]),
      (''GLOBAL_UPDATE'', []), (''GLOBAL_DESTR'', []), (''MEMBER_GET'', [2, 3]), (''MEMBER_REF'', [2, 3]),
      (''MEMBER_REF_STMT'', [2, 3]), (''MEMBER_SET'', [2, 3, 5, 6]), (''MEMBER_A'', [2, 3, 6, 7]),
      (''MEMBER_A_STMT'', [2, 3, 6, 7]), (''METHOD_CALL'', [2, 3, 5, 6]), (''MODULE_URL'', [2, 3]),
      (''VAR_SET'', [4, 5]), (''VAR_WSET'', [4, 5]), (''WTREF'', []), (''WTREF_STMT'', []),
      (''WITH_OBJ'', [3, 4]), (''WITH_SET'', [3, 4]), (''WITH_ASSIGN'', [4, 5]), (''CGET'', [2, 3, 4, 5]),
      (''CSET'', [2, 3, 4, 5, 6, 7]), (''CASSIGN'', [2, 3, 4, 5, 7, 8]), (''CASSIGN_STMT'', [2, 3, 4, 5, 7, 8]),
      (''CREF'', [2, 3, 4, 5]), (''CREF_STMT'', [2, 3, 4, 5]), (''OGET'', [2, 3, 5, 6]),
      (''OCALL'', [2, 3, 6, 7, 8, 9]), (''CCALL'', [2, 3, 4, 5, 6, 7]), (''DEVAL'', [2, 3]),
      (''RGET'', [2, 3, 4, 5, 7, 8]), (''RSET'', [2, 3, 4, 5, 6, 7, 9, 10]), (''GOPD'', [2, 3, 4, 5]),
      (''GOPDS'', [2, 3]), (''GOWN'', [2, 3]), (''OKEYS'', [2, 3]), (''RHAS'', [2, 3, 4, 5]),
      (''ROWK'', [2, 3]), (''CDELE'', [2, 3, 4, 5]), (''SDELE'', [2, 3]), (''FOR_CAP'', [3, 4])]"

definition shift_chain_part :: "nat \<Rightarrow> nat \<Rightarrow> str \<Rightarrow> str" where
  "shift_chain_part offset i s =
     (if i = 2 \<or> i = 3 then shift_pos offset s
      else if 4 \<le> i \<and> 44 \<in> set s
      then join [44] (map (\<lambda>(j, f). if j = 0 then f else shift_pos offset f) (enumerate 0 (split_on 44 s)))
      else s)"

definition shift_marker_positions :: "str \<Rightarrow> nat \<Rightarrow> str" where
  "shift_marker_positions r offset =
     (if starts_with (marker ''OCHAIN'') r
      then join [1] (map (\<lambda>(i, s). shift_chain_part offset i s) (enumerate 0 (split_on 1 r)))
      else case find (\<lambda>(name, _). starts_with (marker name) r) shift_indices of
             Some (_, is) \<Rightarrow>
               join [1] (map (\<lambda>(i, s). if i \<in> set is then shift_pos offset s else s) (enumerate 0 (split_on 1 r)))
           | None \<Rightarrow> r)"

definition inner_patches :: "patch list \<Rightarrow> nat \<Rightarrow> patch \<Rightarrow> nat \<Rightarrow> nat \<Rightarrow> patch list" where
  "inner_patches patches i p a b =
     map (\<lambda>(_, q). \<lparr>patch_start = patch_start q - a, patch_end = patch_end q - a,
                      replacement = shift_marker_positions (replacement q) a\<rparr>)
       (filter (\<lambda>(j, q). a \<le> patch_start q \<and> patch_end q \<le> b \<and> j \<noteq> i
                  \<and> \<not> (patch_start q = patch_end q \<and> (patch_start q = patch_start p \<or> patch_start q = patch_end p)))
          (enumerate 0 patches))"

subsection \<open>Nested helper calls\<close>

definition with_chain :: "str \<Rightarrow> str list" where
  "with_chain chain = filter (\<lambda>t. t \<noteq> []) (split_on 2 chain)"

definition with_d_chain :: "(str \<Rightarrow> bool) \<Rightarrow> str \<Rightarrow> str \<Rightarrow> str" where
  "with_d_chain pr chain name =
     fold (\<lambda>t e. bs ''__zp_with_d('' @ t @ bs '','' @ debug_str pr name @ bs '','' @ e @ bs '')'')
       (with_chain chain) (bs ''__zp_get.d'')"

definition with_set_chain :: "(str \<Rightarrow> bool) \<Rightarrow> str \<Rightarrow> str \<Rightarrow> str \<Rightarrow> str" where
  "with_set_chain pr chain name v =
     fold (\<lambda>t e. bs ''__zp_with_set('' @ t @ bs '','' @ debug_str pr name @ bs '',('' @ v @ bs ''),(v)=>('' @ e @ bs ''))'')
       (with_chain chain) (bs ''__zp_set(globalThis,'' @ debug_str pr name @ bs '',('' @ v @ bs ''))'')"

definition with_assign_chain :: "(str \<Rightarrow> bool) \<Rightarrow> str \<Rightarrow> str \<Rightarrow> str \<Rightarrow> str \<Rightarrow> str" where
  "with_assign_chain pr chain name op v =
     fold (\<lambda>t e. bs ''__zp_with_assign('' @ t @ bs '','' @ debug_str pr name @ bs '','' @ debug_str pr op @ bs '',''
               @ v @ bs '',()=>('' @ e @ bs ''))'')
       (with_chain chain)
       (bs ''__zp_assign(globalThis,'' @ debug_str pr name @ bs '','' @ debug_str pr op @ bs '','' @ v @ bs '')'')"

subsection \<open>The text before a patch\<close>

definition ident_byte :: "u8 \<Rightarrow> bool" where
  "ident_byte b \<longleftrightarrow> is_ascii_alphanumeric b \<or> b = 95 \<or> b = 36"

definition stmt_zero :: "str \<Rightarrow> nat \<Rightarrow> str" where
  "stmt_zero bytes i = (if 0 < i \<and> (ident_byte (bytes ! (i - 1)) \<or> 0x80 \<le> bytes ! (i - 1)) then bs '' 0,'' else bs ''0,'')"

fun skip_ws_back :: "str \<Rightarrow> nat \<Rightarrow> nat" where
  "skip_ws_back bytes 0 = 0"
| "skip_ws_back bytes (Suc i) = (if bytes ! i \<in> {32, 9, 10, 13} then skip_ws_back bytes i else Suc i)"

definition needs_paren_prefix :: "str \<Rightarrow> nat \<Rightarrow> bool" where
  "needs_paren_prefix bytes i =
     (if i = 0 then False
      else if ident_byte (bytes ! (i - 1)) then True
      else let k = skip_ws_back bytes i
           in 3 \<le> k \<and> take 3 (drop (k - 3) bytes) = bs ''new'' \<and> (k = 3 \<or> \<not> ident_byte (bytes ! (k - 4))))"

definition paren :: "bool \<Rightarrow> str \<Rightarrow> str" where
  "paren np e = (if np then bs ''('' @ e @ bs '')'' else e)"


subsection \<open>Rendering the markers of global names\<close>

text \<open>
  What a marker's branch of \<^verbatim>\<open>apply_patches\<close> sees: the length of the source, whether the text
  before the patch asks for parentheses, the \<open>0,\<close> a statement starts with, and the closures that
  rewrite a range of the source. A branch either pushes a text or falls through, \<^term>\<open>None\<close>, and then
  the replacement itself is pushed.
\<close>

record site =
  src_len :: nat
  np :: bool
  zero :: str
  rewrite_range :: "nat \<Rightarrow> nat \<Rightarrow> str outcome"
  rewrite_range_ov :: "nat \<Rightarrow> nat \<Rightarrow> (nat \<times> nat) option \<Rightarrow> str outcome"

type_synonym rendered = "str option outcome"

abbreviation pushed :: "str \<Rightarrow> rendered" where "pushed e \<equiv> Return (Some e)"
abbreviation falls :: rendered where "falls \<equiv> Return None"

definition render_global_set :: "(str \<Rightarrow> bool) \<Rightarrow> site \<Rightarrow> str list \<Rightarrow> rendered" where
  "render_global_set pr c parts =
     (if 6 \<le> length parts
      then let vs = num_or_0 (parts ! 3); ve = num_or_0 (parts ! 4)
           in if vs < ve \<and> ve \<le> src_len c
              then and_then (rewrite_range c vs ve) (\<lambda>v.
                     pushed (bs ''__zp_set(globalThis,'' @ debug_str pr (parts ! 2) @ bs '',('' @ v @ bs ''))''))
              else falls
      else falls)"

definition render_global_assign :: "(str \<Rightarrow> bool) \<Rightarrow> site \<Rightarrow> str list \<Rightarrow> rendered" where
  "render_global_assign pr c parts =
     (if 8 \<le> length parts
      then let name = parts ! 2; op = parts ! 3; vs = num_or_0 (parts ! 4); ve = num_or_0 (parts ! 5);
               logical = (parts ! 6 = bs ''1'')
           in if vs < ve \<and> ve \<le> src_len c
              then and_then (rewrite_range c vs ve) (\<lambda>v.
                     if op = [] then Panic
                     else let bin = butlast op; get = bs ''__zp_get(globalThis,'' @ debug_str pr name @ bs '')'';
                              set = bs ''__zp_set(globalThis,'' @ debug_str pr name @ bs '',''
                          in if logical then pushed (bs ''('' @ get @ bin @ set @ bs ''('' @ v @ bs '')))'')
                             else pushed (set @ get @ bin @ bs ''('' @ v @ bs ''))''))
              else falls
      else falls)"

definition render_global_update :: "(str \<Rightarrow> bool) \<Rightarrow> site \<Rightarrow> str list \<Rightarrow> rendered" where
  "render_global_update pr c parts =
     (if 6 \<le> length parts
      then pushed (bs ''__zp_update(globalThis,'' @ debug_str pr (parts ! 2) @ bs '','' @ debug_str pr (parts ! 3) @ bs '',''
             @ bs (if parts ! 4 = bs ''1'' then ''true'' else ''false'') @ bs '')'')
      else falls)"

definition render_global_destr :: "(str \<Rightarrow> bool) \<Rightarrow> site \<Rightarrow> str list \<Rightarrow> rendered" where
  "render_global_destr pr c parts =
     (if 4 \<le> length parts
      then let name = parts ! 2;
               sink = (if 5 \<le> length parts \<and> parts ! 3 \<noteq> [] then with_d_chain pr (parts ! 3) name @ bs ''.v''
                       else bs ''__zp_get.d.'' @ name)
           in pushed (name @ bs '': '' @ sink)
      else falls)"

definition render_shorthand_global_get :: "(str \<Rightarrow> bool) \<Rightarrow> site \<Rightarrow> str list \<Rightarrow> rendered" where
  "render_shorthand_global_get pr c parts =
     (if 4 \<le> length parts
      then pushed (parts ! 2 @ bs '':__zp_get(globalThis,'' @ debug_str pr (parts ! 2) @ bs '')'')
      else falls)"

definition render_global_get :: "(str \<Rightarrow> bool) \<Rightarrow> site \<Rightarrow> str list \<Rightarrow> rendered" where
  "render_global_get pr c parts =
     (if 4 \<le> length parts
      then pushed (paren (np c) (bs ''__zp_get(globalThis,'' @ debug_str pr (parts ! 2) @ bs '')''))
      else falls)"

definition render_this_map :: "site \<Rightarrow> rendered" where
  "render_this_map c = pushed (paren (np c) (bs ''__zp_this(this)''))"

subsection \<open>Rendering the markers of static members\<close>

definition adapter :: "str \<Rightarrow> str \<Rightarrow> str" where
  "adapter obj prop =
     bs ''({b:('' @ obj @ bs ''),get v(){return __zp_get(this.b,'' @ prop @ bs '')},set v(v){__zp_set(this.b,'' @ prop
       @ bs '',v)}}).v''"

definition render_member_get :: "(str \<Rightarrow> bool) \<Rightarrow> site \<Rightarrow> str list \<Rightarrow> rendered" where
  "render_member_get pr c parts =
     (if 6 \<le> length parts
      then let os = num_or_0 (parts ! 2); oe = num_or_0 (parts ! 3)
           in if os < oe \<and> oe \<le> src_len c
              then and_then (rewrite_range c os oe) (\<lambda>obj.
                     pushed (paren (np c) (bs ''__zp_get('' @ obj @ bs '','' @ debug_str pr (parts ! 4) @ bs '')'')))
              else falls
      else falls)"

definition render_member_ref :: "(str \<Rightarrow> bool) \<Rightarrow> site \<Rightarrow> str list \<Rightarrow> rendered" where
  "render_member_ref pr c parts =
     (if 6 \<le> length parts
      then let os = num_or_0 (parts ! 2); oe = num_or_0 (parts ! 3)
           in if os < oe \<and> oe \<le> src_len c
              then and_then (rewrite_range c os oe) (\<lambda>obj.
                     pushed ((if parts ! 1 = bs ''MEMBER_REF_STMT'' then zero c else [])
                       @ adapter obj (debug_str pr (parts ! 4))))
              else falls
      else falls)"

definition render_member_set :: "(str \<Rightarrow> bool) \<Rightarrow> site \<Rightarrow> str list \<Rightarrow> rendered" where
  "render_member_set pr c parts =
     (if 8 \<le> length parts
      then let os = num_or_0 (parts ! 2); oe = num_or_0 (parts ! 3);
               vs = num_or_0 (parts ! 5); ve = num_or_0 (parts ! 6)
           in if os < oe \<and> vs \<le> ve \<and> ve \<le> src_len c
              then and_then (rewrite_range c os oe) (\<lambda>obj. and_then (rewrite_range c vs ve) (\<lambda>v.
                     pushed (paren (np c) (bs ''__zp_set('' @ obj @ bs '','' @ debug_str pr (parts ! 4) @ bs '','' @ v @ bs '')''))))
              else falls
      else falls)"

definition render_member_assign :: "(str \<Rightarrow> bool) \<Rightarrow> site \<Rightarrow> str list \<Rightarrow> rendered" where
  "render_member_assign pr c parts =
     (if 10 \<le> length parts
      then let os = num_or_0 (parts ! 2); oe = num_or_0 (parts ! 3);
               vs = num_or_0 (parts ! 6); ve = num_or_0 (parts ! 7)
           in if os < oe \<and> vs < ve \<and> ve \<le> src_len c
              then and_then (rewrite_range c os oe) (\<lambda>obj. and_then (rewrite_range c vs ve) (\<lambda>v.
                     let e = adapter obj (debug_str pr (parts ! 4)) @ parts ! 5 @ bs ''('' @ v @ bs '')''
                     in if np c then pushed (paren True e)
                        else pushed ((if parts ! 1 = bs ''MEMBER_A_STMT'' then zero c else []) @ e)))
              else falls
      else falls)"

definition render_method_call :: "(str \<Rightarrow> bool) \<Rightarrow> site \<Rightarrow> str list \<Rightarrow> rendered" where
  "render_method_call pr c parts =
     (if 8 \<le> length parts
      then let os = num_or_0 (parts ! 2); oe = num_or_0 (parts ! 3);
               as = num_or_0 (parts ! 5); ae = num_or_0 (parts ! 6)
           in if os < oe
              then and_then (rewrite_range c os oe) (\<lambda>obj.
                   and_then (if as < ae \<and> ae \<le> src_len c then rewrite_range c as ae else Return []) (\<lambda>args.
                     pushed (paren (np c)
                       (bs ''__zp_call('' @ obj @ bs '','' @ debug_str pr (parts ! 4) @ bs '',['' @ args @ bs ''])''))))
              else falls
      else falls)"

definition render_module_url :: "site \<Rightarrow> str list \<Rightarrow> rendered" where
  "render_module_url c parts =
     (if 6 \<le> length parts
      then let ss = num_or_0 (parts ! 2); se = num_or_0 (parts ! 3)
           in if ss < se \<and> se \<le> src_len c
              then and_then (rewrite_range c ss se) (\<lambda>s.
                     pushed (bs ''__zp_module_url('' @ s @ bs '','' @ [34] @ parts ! 4 @ [34] @ bs '')''))
              else falls
      else falls)"

subsection \<open>Rendering the markers of \<open>with\<close> bodies and declarations\<close>

definition render_var_set :: "(str \<Rightarrow> bool) \<Rightarrow> site \<Rightarrow> str list \<Rightarrow> rendered" where
  "render_var_set pr c parts =
     (if 7 \<le> length parts
      then let tmp = parts ! 2; name = parts ! 3; vs = num_or_0 (parts ! 4); ve = num_or_0 (parts ! 5)
           in if vs < ve \<and> ve \<le> src_len c
              then and_then (rewrite_range c vs ve) (\<lambda>v.
                     let w = (if parts ! 1 = bs ''VAR_WSET'' \<and> 8 \<le> length parts
                              then with_set_chain pr (parts ! 6) name v
                              else bs ''__zp_set(globalThis,'' @ debug_str pr name @ bs '',('' @ v @ bs ''))'')
                     in pushed (tmp @ bs ''=('' @ w @ bs '',void 0)''))
              else falls
      else falls)"

definition render_wtref :: "(str \<Rightarrow> bool) \<Rightarrow> site \<Rightarrow> str list \<Rightarrow> rendered" where
  "render_wtref pr c parts =
     (if 5 \<le> length parts
      then pushed ((if parts ! 1 = bs ''WTREF_STMT'' then zero c else []) @ with_d_chain pr (parts ! 2) (parts ! 3) @ bs ''.v'')
      else falls)"

definition render_with_obj :: "site \<Rightarrow> str list \<Rightarrow> rendered" where
  "render_with_obj c parts =
     (if 6 \<le> length parts
      then let os = num_or_0 (parts ! 3); oe = num_or_0 (parts ! 4)
           in if os < oe \<and> oe \<le> src_len c
              then and_then (rewrite_range c os oe) (\<lambda>obj. pushed (parts ! 2 @ bs ''=('' @ obj @ bs '')''))
              else falls
      else falls)"

definition render_with_set :: "(str \<Rightarrow> bool) \<Rightarrow> site \<Rightarrow> str list \<Rightarrow> rendered" where
  "render_with_set pr c parts =
     (if 7 \<le> length parts
      then let vs = num_or_0 (parts ! 3); ve = num_or_0 (parts ! 4)
           in if vs < ve \<and> ve \<le> src_len c
              then and_then (rewrite_range c vs ve) (\<lambda>v. pushed (with_set_chain pr (parts ! 5) (parts ! 2) v))
              else falls
      else falls)"

definition render_with_assign :: "(str \<Rightarrow> bool) \<Rightarrow> site \<Rightarrow> str list \<Rightarrow> rendered" where
  "render_with_assign pr c parts =
     (if 9 \<le> length parts
      then let vs = num_or_0 (parts ! 4); ve = num_or_0 (parts ! 5)
           in if vs < ve \<and> ve \<le> src_len c
              then and_then (rewrite_range c vs ve) (\<lambda>v.
                     pushed (with_assign_chain pr (parts ! 7) (parts ! 2) (parts ! 3) (bs ''()=>('' @ v @ bs '')'')))
              else falls
      else falls)"

subsection \<open>Rendering the markers of computed members\<close>

definition obj_key ::
    "str list \<Rightarrow> nat \<Rightarrow> site \<Rightarrow> ((str \<times> str) option) outcome" where
  "obj_key parts i c =
     (if length parts < i + 4 then Return None
      else case (num (parts ! i), num (parts ! (i + 1)), num (parts ! (i + 2)), num (parts ! (i + 3))) of
             (Some os, Some oe, Some ks, Some ke) \<Rightarrow>
               (if oe \<le> os \<or> src_len c < oe \<or> ke \<le> ks \<or> src_len c < ke then Return None
                else and_then (rewrite_range c os oe) (\<lambda>obj. and_then (rewrite_range c ks ke) (\<lambda>key.
                       Return (Some (obj, key)))))
           | _ \<Rightarrow> Return None)"

definition obj_key_val ::
    "str list \<Rightarrow> nat \<Rightarrow> site \<Rightarrow> ((str \<times> str) \<times> str option) option outcome" where
  "obj_key_val parts vi c =
     and_then (obj_key parts 2 c) (\<lambda>r. case r of
       None \<Rightarrow> Return None
     | Some ok \<Rightarrow>
         (if length parts < vi + 2 then Return (Some (ok, None))
          else case (num (parts ! vi), num (parts ! (vi + 1))) of
                 (Some vs, Some ve) \<Rightarrow>
                   (if ve \<le> vs \<or> src_len c < ve then Return (Some (ok, None))
                    else and_then (rewrite_range c vs ve) (\<lambda>v. Return (Some (ok, Some v))))
               | _ \<Rightarrow> Return None))"

definition obj_only :: "str list \<Rightarrow> site \<Rightarrow> str option outcome" where
  "obj_only parts c =
     (if length parts < 4 then Return None
      else case (num (parts ! 2), num (parts ! 3)) of
             (Some os, Some oe) \<Rightarrow>
               (if oe \<le> os \<or> src_len c < oe then Return None
                else and_then (rewrite_range c os oe) (\<lambda>obj. Return (Some obj)))
           | _ \<Rightarrow> Return None)"

definition guard_fields :: "str list \<Rightarrow> nat \<Rightarrow> nat \<times> bool" where
  "guard_fields parts i =
     (case num_at parts i of Some g \<Rightarrow> g | None \<Rightarrow> 0, part parts (i + 1) = Some (bs ''S''))"

definition temp_name :: "u32 \<Rightarrow> str" where
  "temp_name c = bs ''__zp_t_'' @ to_string (unat c)"

definition guard_temps :: "nat \<Rightarrow> (str \<times> str \<times> str) option" where
  "guard_temps grp =
     (if grp = 0 then None
      else let c = word_of_nat grp * 3 in Some (temp_name (c - 2), temp_name (c - 1), temp_name c))"

text \<open>A guarded form at the start of a statement begins with \<open>0,\<close>; elsewhere it may need parentheses.\<close>

definition push_guarded :: "site \<Rightarrow> bool \<Rightarrow> str \<Rightarrow> rendered" where
  "push_guarded c at_stmt e = pushed (if at_stmt then zero c @ e else paren (np c) e)"

definition render_cget :: "site \<Rightarrow> str list \<Rightarrow> rendered" where
  "render_cget c parts =
     and_then (obj_key parts 2 c) (\<lambda>r. case r of
       None \<Rightarrow> falls
     | Some (obj, key) \<Rightarrow>
         (let (grp, at_stmt) = guard_fields parts 6;
              e = (case guard_temps grp of
                     Some (a, b, _) \<Rightarrow>
                       bs ''('' @ a @ bs ''=(0,'' @ obj @ bs ''),'' @ b @ bs ''=(0,'' @ key @ bs ''),__zp_fast('' @ a @ bs '','' @ b
                         @ bs '')?'' @ a @ bs ''['' @ b @ bs '']:__zp_get('' @ a @ bs '','' @ b @ bs ''))''
                   | None \<Rightarrow> bs ''__zp_get(('' @ obj @ bs ''),('' @ key @ bs ''))'')
          in push_guarded c (0 < grp \<and> at_stmt) e))"

definition render_cset :: "site \<Rightarrow> str list \<Rightarrow> rendered" where
  "render_cset c parts =
     and_then (obj_key_val parts 6 c) (\<lambda>r. case r of
       Some ((obj, key), Some v) \<Rightarrow>
         (let (grp, at_stmt) = guard_fields parts 8;
              e = (case guard_temps grp of
                     Some (a, b, t) \<Rightarrow>
                       bs ''('' @ a @ bs ''=(0,'' @ obj @ bs ''),'' @ b @ bs ''=(0,'' @ key @ bs ''),'' @ t @ bs ''=(0,'' @ v
                         @ bs ''),__zp_fastset('' @ a @ bs '','' @ b @ bs '')?'' @ a @ bs ''['' @ b @ bs '']='' @ t
                         @ bs '':__zp_set('' @ a @ bs '','' @ b @ bs '','' @ t @ bs ''))''
                   | None \<Rightarrow> bs ''__zp_set(('' @ obj @ bs ''),('' @ key @ bs ''),('' @ v @ bs ''))'')
          in push_guarded c (0 < grp \<and> at_stmt) e)
     | _ \<Rightarrow> falls)"

definition key_adapter :: "str \<Rightarrow> str \<Rightarrow> str" where
  "key_adapter obj key =
     bs ''({b:('' @ obj @ bs ''),k:('' @ key
       @ bs ''),get v(){return __zp_get(this.b,this.k)},set v(v){__zp_set(this.b,this.k,v)}}).v''"

definition render_cassign :: "site \<Rightarrow> str list \<Rightarrow> rendered" where
  "render_cassign c parts =
     (if 11 \<le> length parts
      then and_then (obj_key parts 2 c) (\<lambda>r. case r of
             None \<Rightarrow> falls
           | Some (obj, key) \<Rightarrow>
               (let vs = num_or_0 (parts ! 7); ve = num_or_0 (parts ! 8)
                in if vs < ve \<and> ve \<le> src_len c
                   then and_then (rewrite_range c vs ve) (\<lambda>v.
                          let e = key_adapter obj key @ parts ! 6 @ bs ''('' @ v @ bs '')''
                          in if np c then pushed (paren True e)
                             else pushed ((if parts ! 1 = bs ''CASSIGN_STMT'' then zero c else []) @ e))
                   else falls))
      else falls)"

definition render_cref :: "site \<Rightarrow> str list \<Rightarrow> rendered" where
  "render_cref c parts =
     and_then (obj_key parts 2 c) (\<lambda>r. case r of
       None \<Rightarrow> falls
     | Some (obj, key) \<Rightarrow> pushed ((if parts ! 1 = bs ''CREF_STMT'' then zero c else []) @ key_adapter obj key))"

subsection \<open>Rendering the markers of optional members and calls\<close>

definition render_oget :: "(str \<Rightarrow> bool) \<Rightarrow> site \<Rightarrow> str list \<Rightarrow> rendered" where
  "render_oget pr c parts =
     (if 6 \<le> length parts
      then let os = num_or_0 (parts ! 2); oe = num_or_0 (parts ! 3)
           in if os < oe \<and> oe \<le> src_len c
              then and_then (rewrite_range c os oe) (\<lambda>obj.
                   and_then
                     (if parts ! 4 = bs ''L'' then Return (debug_str pr (parts ! 5))
                      else if parts ! 4 = bs ''E'' \<and> 8 \<le> length parts
                      then let ks = num_or_0 (parts ! 5); ke = num_or_0 (parts ! 6)
                           in if ks < ke \<and> ke \<le> src_len c
                              then and_then (rewrite_range c ks ke) (\<lambda>k. Return (bs ''('' @ k @ bs '')''))
                              else Return []
                      else Return [])
                     (\<lambda>key. if key \<noteq> [] then pushed (paren (np c) (bs ''__zp_oget(('' @ obj @ bs ''),'' @ key @ bs '')'')) else falls))
              else falls
      else falls)"

text \<open>The key of a call and the index of the field that holds the start of its arguments.\<close>

definition call_key :: "(str \<Rightarrow> bool) \<Rightarrow> site \<Rightarrow> str list \<Rightarrow> bool \<Rightarrow> (str \<times> nat) outcome" where
  "call_key pr c parts optional =
     (let span = (\<lambda>ki ai. let ks = num_or_0 (parts ! ki); ke = num_or_0 (parts ! (ki + 1))
                           in if ks < ke \<and> ke \<le> src_len c
                              then and_then (rewrite_range c ks ke) (\<lambda>k. Return (bs ''('' @ k @ bs '')'', ai))
                              else Return ([], 0))
      in if optional
         then (if parts ! 5 = bs ''L'' then Return (debug_str pr (parts ! 6), 7)
               else if 9 < length parts then span 6 8
               else Return ([], 0))
         else span 4 6)"

definition u8_or_0 :: "str \<Rightarrow> nat" where
  "u8_or_0 s = (case from_str_radix 8 10 s of Some v \<Rightarrow> v | None \<Rightarrow> 0)"

definition render_call :: "(str \<Rightarrow> bool) \<Rightarrow> site \<Rightarrow> str list \<Rightarrow> rendered" where
  "render_call pr c parts =
     (if 7 \<le> length parts
      then let optional = (parts ! 1 = bs ''OCALL''); os = num_or_0 (parts ! 2); oe = num_or_0 (parts ! 3)
           in if os < oe \<and> oe \<le> src_len c
              then and_then (rewrite_range c os oe) (\<lambda>obj.
                   let flags = (if optional then u8_or_0 (parts ! 4) else 0)
                   in and_then (call_key pr c parts optional) (\<lambda>(key, ai).
                        if key \<noteq> [] \<and> ai + 1 < length parts
                        then let as = num_or_0 (parts ! ai); ae = num_or_0 (parts ! (ai + 1))
                             in and_then (if as < ae \<and> ae \<le> src_len c then rewrite_range c as ae else Return []) (\<lambda>args.
                                  let (grp, at_stmt) = (if optional then (0, False) else guard_fields parts (ai + 2));
                                      guard = (if length args \<le> 512 \<and> find_sub (bs ''__zp_t_'') args = None
                                               then guard_temps grp else None);
                                      e = (if optional
                                           then bs ''__zp_ocall(('' @ obj @ bs ''),'' @ key @ bs '',['' @ args @ bs ''],'' @ to_string flags @ bs '')''
                                           else case guard of
                                                  Some (a, b, _) \<Rightarrow>
                                                    bs ''('' @ a @ bs ''=(0,'' @ obj @ bs ''),'' @ b @ bs ''=(0,'' @ key @ bs ''),__zp_fast('' @ a
                                                      @ bs '','' @ b @ bs '')?'' @ a @ bs ''['' @ b @ bs '']('' @ args @ bs ''):__zp_call('' @ a
                                                      @ bs '','' @ b @ bs '',['' @ args @ bs '']))''
                                                | None \<Rightarrow> bs ''__zp_call(('' @ obj @ bs ''),'' @ key @ bs '',['' @ args @ bs ''])'')
                                  in push_guarded c (guard \<noteq> None \<and> at_stmt) e)
                        else falls))
              else falls
      else falls)"

subsection \<open>Rendering the other markers\<close>

definition splitn :: "nat \<Rightarrow> 'a \<Rightarrow> 'a list \<Rightarrow> 'a list list" where
  "splitn n sep s =
     (let ps = split_on sep s in if length ps \<le> n then ps else take (n - 1) ps @ [join [sep] (drop (n - 1) ps)])"

definition trim_end_matches :: "'a \<Rightarrow> 'a list \<Rightarrow> 'a list" where
  "trim_end_matches x s = rev (dropWhile (\<lambda>y. y = x) (rev s))"

definition render_deval :: "site \<Rightarrow> str \<Rightarrow> rendered" where
  "render_deval c r =
     (let parts = splitn 7 1 r
      in if 7 \<le> length parts
         then let as = num_or_0 (parts ! 2); ae = num_or_0 (parts ! 3)
              in and_then (if as < ae \<and> ae \<le> src_len c then rewrite_range c as ae else Return []) (\<lambda>args.
                   let strict = (if parts ! 5 = bs ''1'' \<and> parts ! 4 = bs ''0'' then parts ! 4 @ bs '',1'' else parts ! 4);
                       desc = trim_end_matches 1 (parts ! 6)
                   in pushed (paren (np c)
                        (bs ''__zp_eval.call(this,__zp_get(globalThis,'' @ [34] @ bs ''eval'' @ [34] @ bs ''),['' @ args @ bs ''],''
                          @ desc @ bs '','' @ strict @ bs '')'')))
         else falls)"

definition render_rget :: "site \<Rightarrow> str list \<Rightarrow> rendered" where
  "render_rget c parts =
     and_then (obj_key parts 2 c) (\<lambda>r. case r of
       None \<Rightarrow> falls
     | Some (obj, key) \<Rightarrow>
         (if 10 \<le> length parts
          then let rs = num_or_0 (parts ! 7); re = num_or_0 (parts ! 8)
               in and_then (if parts ! 6 = bs ''1'' \<and> rs < re \<and> re \<le> src_len c
                            then and_then (rewrite_range c rs re) (\<lambda>x. Return (bs '',('' @ x @ bs '')'')) else Return []) (\<lambda>recv.
                    pushed (paren (np c) (bs ''__zp_rget(('' @ obj @ bs ''),('' @ key @ bs '')'' @ recv @ bs '')'')))
          else falls))"

definition render_rset :: "site \<Rightarrow> str list \<Rightarrow> rendered" where
  "render_rset c parts =
     and_then (obj_key parts 2 c) (\<lambda>r. case r of
       None \<Rightarrow> falls
     | Some (obj, key) \<Rightarrow>
         (if 12 \<le> length parts
          then let vs = num_or_0 (parts ! 6); ve = num_or_0 (parts ! 7);
                   rs = num_or_0 (parts ! 9); re = num_or_0 (parts ! 10)
               in if vs < ve \<and> ve \<le> src_len c
                  then and_then (rewrite_range c vs ve) (\<lambda>v.
                       and_then (if parts ! 8 = bs ''1'' \<and> rs < re \<and> re \<le> src_len c
                                 then and_then (rewrite_range c rs re) (\<lambda>x. Return (bs '',('' @ x @ bs '')'')) else Return []) (\<lambda>recv.
                         pushed (paren (np c)
                           (bs ''__zp_rset(('' @ obj @ bs ''),('' @ key @ bs ''),('' @ v @ bs '')'' @ recv @ bs '')''))))
                  else falls
          else falls))"

text \<open>The helpers that take an object, or an object and a key, and nothing else.\<close>

definition render_unary :: "string \<Rightarrow> site \<Rightarrow> str list \<Rightarrow> rendered" where
  "render_unary helper c parts =
     and_then (obj_only parts c) (\<lambda>r. case r of
       None \<Rightarrow> falls
     | Some obj \<Rightarrow> pushed (bs helper @ bs ''(('' @ obj @ bs ''))''))"

definition render_binary :: "string \<Rightarrow> site \<Rightarrow> str list \<Rightarrow> rendered" where
  "render_binary helper c parts =
     and_then (obj_key parts 2 c) (\<lambda>r. case r of
       None \<Rightarrow> falls
     | Some (obj, key) \<Rightarrow> pushed (bs helper @ bs ''(('' @ obj @ bs ''),('' @ key @ bs ''))''))"

definition render_cdele :: "site \<Rightarrow> str list \<Rightarrow> rendered" where
  "render_cdele c parts =
     render_binary (if part parts 6 = Some (bs ''1'') then ''__zp_odelete'' else ''__zp_delete'') c parts"

definition render_sdele :: "(str \<Rightarrow> bool) \<Rightarrow> site \<Rightarrow> str list \<Rightarrow> rendered" where
  "render_sdele pr c parts =
     (if 7 \<le> length parts
      then let os = num_or_0 (parts ! 2); oe = num_or_0 (parts ! 3)
           in if os < oe \<and> oe \<le> src_len c
              then and_then (rewrite_range c os oe) (\<lambda>obj.
                     pushed (bs (if parts ! 5 = bs ''1'' then ''__zp_odelete'' else ''__zp_delete'') @ bs ''(('' @ obj @ bs ''),''
                       @ debug_str pr (parts ! 4) @ bs '')''))
              else falls
      else falls)"

definition render_for_cap :: "site \<Rightarrow> str list \<Rightarrow> rendered" where
  "render_for_cap c parts =
     (if 6 \<le> length parts
      then let rs = num_or_0 (parts ! 3); re = num_or_0 (parts ! 4)
           in if rs < re \<and> re \<le> src_len c
              then and_then (rewrite_range c rs re) (\<lambda>mid.
                     case position (\<lambda>b. b = 59) mid of
                       Some semi \<Rightarrow>
                         pushed (take (Suc semi) mid @ parts ! 2 @ bs ''++<10000000||(console.warn('' @ [39]
                           @ bs ''[ZeroProxy] infinite-loop cap reached'' @ [39] @ bs ''),false)'' @ drop (Suc semi) mid)
                     | None \<Rightarrow> falls)
              else falls
      else falls)"

subsection \<open>Rendering an optional chain\<close>

definition chain_end :: "str list \<Rightarrow> nat option" where
  "chain_end f =
     (if f ! 0 = bs ''M'' \<or> f ! 0 = bs ''P'' then num_at f 1
      else if f ! 0 = bs ''S'' \<or> f ! 0 = bs ''K'' then num_at f 2
      else None)"

definition chain_base ::
    "(str \<Rightarrow> bool) \<Rightarrow> site \<Rightarrow> nat \<Rightarrow> nat list \<Rightarrow> str list list \<Rightarrow> nat \<Rightarrow> rendered" where
  "chain_base pr c cs ends splits i =
     (let prev = (if i = 0 then None else Some (cs, ends ! (i - 1))); f = splits ! i
      in if f ! 0 = bs ''M'' \<or> f ! 0 = bs ''P''
         then and_then (rewrite_range_ov c cs (ends ! i) prev) (\<lambda>b. Return (Some b))
         else case num_at f 1 of
                None \<Rightarrow> Return None
              | Some oe \<Rightarrow>
                  (if f ! 0 = bs ''S''
                   then and_then (rewrite_range_ov c cs oe prev) (\<lambda>b. case part f 3 of
                          None \<Rightarrow> Return None
                        | Some nm \<Rightarrow> Return (Some (bs ''__zp_ocallv(('' @ b @ bs ''),'' @ debug_str pr nm @ bs '')'')))
                   else if f ! 0 = bs ''K''
                   then (case (num_at f 3, num_at f 4) of
                           (Some ks, Some ke) \<Rightarrow>
                             (if ke \<le> ks \<or> src_len c < ke then Return None
                              else and_then (rewrite_range_ov c cs oe prev) (\<lambda>b. and_then (rewrite_range c ks ke) (\<lambda>k.
                                     Return (Some (bs ''__zp_ocallv(('' @ b @ bs ''),('' @ k @ bs ''))'')))))
                         | _ \<Rightarrow> Return None)
                   else Return None))"

fun chain_wrap ::
    "(str \<Rightarrow> bool) \<Rightarrow> site \<Rightarrow> nat \<Rightarrow> nat list \<Rightarrow> str list list \<Rightarrow> nat \<Rightarrow> str \<Rightarrow> rendered" where
  "chain_wrap pr c cs ends splits 0 acc = Return (Some acc)"
| "chain_wrap pr c cs ends splits (Suc i) acc =
     and_then (chain_base pr c cs ends splits i) (\<lambda>r. case r of
       None \<Rightarrow> Return None
     | Some b \<Rightarrow> chain_wrap pr c cs ends splits i (bs ''__zp_ochain(('' @ b @ bs ''),__zp_oc=>'' @ acc @ bs '')''))"

definition render_ochain :: "(str \<Rightarrow> bool) \<Rightarrow> site \<Rightarrow> patch \<Rightarrow> str list \<Rightarrow> rendered" where
  "render_ochain pr c p parts =
     (let splits = map (split_on 44) (filter (\<lambda>s. s \<noteq> []) (drop 4 parts))
      in and_then
           (case (num_at parts 2, num_at parts 3, those (map chain_end splits)) of
              (Some cs, Some ce, Some ends) \<Rightarrow>
                (if ce \<le> cs \<or> src_len c < ce \<or> ends = [] then Return None
                 else and_then (rewrite_range_ov c cs ce (Some (cs, last ends))) (\<lambda>acc.
                        chain_wrap pr c cs ends splits (length ends) acc))
            | _ \<Rightarrow> Return None)
           (\<lambda>r. case r of
              Some acc \<Rightarrow> pushed (paren (np c) acc)
            | None \<Rightarrow> and_then (rewrite_range c (patch_start p) (patch_end p)) (\<lambda>t. pushed t)))"

subsection \<open>Applying the patches\<close>

definition render_marker :: "(str \<Rightarrow> bool) \<Rightarrow> site \<Rightarrow> patch \<Rightarrow> rendered" where
  "render_marker pr c p =
     (let r = replacement p; is = (\<lambda>name. starts_with (marker name) r); parts = split_on 1 r
      in if is ''OCHAIN'' then render_ochain pr c p parts
         else if is ''GLOBAL_SET'' then render_global_set pr c parts
         else if is ''GLOBAL_ASSIGN'' then render_global_assign pr c parts
         else if is ''GLOBAL_UPDATE'' then render_global_update pr c parts
         else if is ''GLOBAL_DESTR'' then render_global_destr pr c parts
         else if is ''SHORTHAND_GLOBAL_GET'' then render_shorthand_global_get pr c parts
         else if is ''GLOBAL_GET'' then render_global_get pr c parts
         else if r = marker ''THIS_MAP'' then render_this_map c
         else if is ''MEMBER_GET'' then render_member_get pr c parts
         else if is ''MEMBER_REF'' \<or> is ''MEMBER_REF_STMT'' then render_member_ref pr c parts
         else if is ''MEMBER_SET'' then render_member_set pr c parts
         else if is ''MODULE_URL'' then render_module_url c parts
         else if is ''METHOD_CALL'' then render_method_call pr c parts
         else if is ''VAR_SET'' \<or> is ''VAR_WSET'' then render_var_set pr c parts
         else if is ''WTREF'' \<or> is ''WTREF_STMT'' then render_wtref pr c parts
         else if is ''WITH_OBJ'' then render_with_obj c parts
         else if is ''WITH_SET'' then render_with_set pr c parts
         else if is ''WITH_ASSIGN'' then render_with_assign pr c parts
         else if is ''CGET'' then render_cget c parts
         else if is ''CSET'' then render_cset c parts
         else if is ''CASSIGN'' \<or> is ''CASSIGN_STMT'' then render_cassign c parts
         else if is ''CREF'' \<or> is ''CREF_STMT'' then render_cref c parts
         else if is ''OGET'' then render_oget pr c parts
         else if is ''OCALL'' \<or> is ''CCALL'' then render_call pr c parts
         else if is ''DEVAL'' then render_deval c r
         else if is ''RGET'' then render_rget c parts
         else if is ''RSET'' then render_rset c parts
         else if is ''GOPD'' then render_binary ''__zp_getOwnPropertyDescriptor'' c parts
         else if is ''GOPDS'' then render_unary ''__zp_getOwnPropertyDescriptors'' c parts
         else if is ''GOWN'' then render_unary ''__zp_getOwnPropertyNames'' c parts
         else if is ''OKEYS'' then render_unary ''__zp_okeys'' c parts
         else if is ''RHAS'' then render_binary ''__zp_has'' c parts
         else if is ''ROWK'' then render_unary ''__zp_ownKeys'' c parts
         else if is ''CDELE'' then render_cdele c parts
         else if is ''SDELE'' then render_sdele pr c parts
         else if is ''MEMBER_A'' \<or> is ''MEMBER_A_STMT'' then render_member_assign pr c parts
         else if is ''FOR_CAP'' then render_for_cap c parts
         else falls)"

text \<open>The text a patch is replaced by; a replacement that does not start with byte 1 is no marker.\<close>

definition patch_text :: "(str \<Rightarrow> bool) \<Rightarrow> site \<Rightarrow> patch \<Rightarrow> str outcome" where
  "patch_text pr c p =
     and_then (render_marker pr c p) (\<lambda>r. case r of Some e \<Rightarrow> Return e | None \<Rightarrow> Return (replacement p))"

definition is_marker :: "patch \<Rightarrow> bool" where
  "is_marker p \<longleftrightarrow> starts_with [1] (replacement p)"

text \<open>
  Patches are sorted by their start, an insertion before the others and then the longest first, and a patch
  that starts inside the one before it is left to that one. A patch carries its index in the list, its
  identity in the code (\<^verbatim>\<open>std::ptr::eq\<close>).
\<close>

definition sort_patches :: "(nat \<times> patch) list \<Rightarrow> (nat \<times> patch) list" where
  "sort_patches = sort_key (\<lambda>(_, p). (patch_start p, if patch_end p = patch_start p then 0 else 1 :: nat, - int (patch_end p)))"

fun choose_patches :: "nat \<Rightarrow> (nat \<times> patch) list \<Rightarrow> (nat \<times> patch) list" where
  "choose_patches last_end [] = []"
| "choose_patches last_end ((i, p) # ps) =
     (if patch_start p < last_end then choose_patches last_end ps else (i, p) # choose_patches (patch_end p) ps)"

fun emit_patches :: "(nat \<times> patch \<Rightarrow> str outcome) \<Rightarrow> str \<Rightarrow> nat \<Rightarrow> (nat \<times> patch) list \<Rightarrow> str outcome" where
  "emit_patches text source cursor [] = str_slice source cursor (length source)"
| "emit_patches text source cursor (x # ps) =
     (let a = patch_start (snd x); b = patch_end (snd x)
      in if a < cursor \<or> length source < b \<or> b < a then emit_patches text source cursor ps
         else and_then (str_slice source cursor a) (\<lambda>kept.
              and_then (text x) (\<lambda>t.
              and_then (emit_patches text source b ps) (\<lambda>rest. Return (kept @ t @ rest)))))"

definition chain_patch :: "nat \<Rightarrow> nat \<times> nat \<Rightarrow> patch" where
  "chain_patch a ov = \<lparr>patch_start = fst ov - a, patch_end = snd ov - a, replacement = bs ''__zp_oc''\<rparr>"


lemma emit_patches_cong [fundef_cong]:
  assumes "ps = ps'" "source = source'" "cursor = cursor'" "\<And>x. x \<in> set ps' \<Longrightarrow> f x = g x"
  shows "emit_patches f source cursor ps = emit_patches g source' cursor' ps'"
  using assms(4) unfolding assms(1-3)
  by (induction f source' cursor' ps' rule: emit_patches.induct) (simp_all add: Let_def)

text \<open>
  The recursion: a range of the source is rewritten by the patches inside it, all but the marker that
  asks for it, so the number of markers goes down.
\<close>

lemma shifted_marker:
  assumes "\<And>s. f 0 s = s"
  shows "starts_with [1] (join [1] (map (\<lambda>(i, s). f i s) (enumerate 0 (split_on 1 r)))) = starts_with [1] (r :: str)"
proof (cases r)
  case Nil
  then show ?thesis using assms by (simp add: enumerate_eq_zip)
next
  case (Cons b t)
  obtain x xs where "split_on 1 t = x # xs" by (cases "split_on 1 t") auto
  with Cons assms show ?thesis
    by (cases xs; cases "b = 1") (simp_all add: starts_with_def)
qed

lemma shift_indices_no_0: "(name, is) \<in> set shift_indices \<Longrightarrow> 0 \<notin> set is"
  by (auto simp: shift_indices_def)

lemma shift_marker_is_marker [simp]:
  "starts_with [1] (shift_marker_positions r offset) = starts_with [1] r"
proof (cases "starts_with (marker ''OCHAIN'') r")
  case True
  have "shift_chain_part offset 0 s = s" for s by (simp add: shift_chain_part_def)
  with True show ?thesis
    using shifted_marker [of "shift_chain_part offset" r] by (simp add: shift_marker_positions_def)
next
  case False
  show ?thesis
  proof (cases "find (\<lambda>(name, _). starts_with (marker name) r) shift_indices")
    case None
    with False show ?thesis by (simp add: shift_marker_positions_def)
  next
    case (Some e)
    obtain name "is" where e: "e = (name, is)" by fastforce
    with Some have "0 \<notin> set is"
      by (auto simp: find_Some_iff intro!: shift_indices_no_0 [of name] dest: nth_mem)
    with False Some e show ?thesis
      using shifted_marker [of "\<lambda>i s. if i \<in> set is then shift_pos offset s else s" r]
      by (simp add: shift_marker_positions_def)
  qed
qed

definition markers :: "patch list \<Rightarrow> nat" where
  "markers ps = length (filter is_marker ps)"

lemma filter_enumerate_except:
  "length (filter (\<lambda>(j, x). Q x \<and> j \<noteq> k + i) (enumerate k xs)) =
     (if i < length xs \<and> Q (xs ! i) then length (filter Q xs) - 1 else length (filter Q xs))"
proof (induction xs arbitrary: k i)
  case Nil
  then show ?case by simp
next
  case (Cons x xs)
  show ?case
  proof (cases i)
    case 0
    have "filter (\<lambda>(j, x). Q x \<and> j \<noteq> k) (enumerate (Suc k) xs) = filter (\<lambda>(j, x). Q x) (enumerate (Suc k) xs)"
      by (rule filter_cong) (auto simp: in_set_enumerate_eq)
    moreover have "length (filter (\<lambda>(j, x). Q x) (enumerate (Suc k) xs)) = length (filter Q xs)"
      by (metis (mono_tags, lifting) case_prod_unfold comp_def filter_cong filter_map length_map map_snd_enumerate)
    ultimately show ?thesis using 0 by simp
  next
    case (Suc i')
    have "i' < length xs \<Longrightarrow> Q (xs ! i') \<Longrightarrow> filter Q xs \<noteq> []"
      by (auto simp: filter_empty_conv)
    with Suc show ?thesis using Cons.IH [of "Suc k" i'] by auto
  qed
qed

lemma length_filter_imp: "(\<And>x. x \<in> set xs \<Longrightarrow> P x \<Longrightarrow> Q x) \<Longrightarrow> length (filter P xs) \<le> length (filter Q xs)"
  by (induction xs) (auto simp: le_Suc_eq)

lemma markers_inner:
  assumes "i < length ps" "is_marker (ps ! i)"
  shows "markers (inner_patches ps i p a b) < markers ps"
proof -
  let ?q = "\<lambda>(j, q). a \<le> patch_start q \<and> patch_end q \<le> b \<and> j \<noteq> i
                  \<and> \<not> (patch_start q = patch_end q \<and> (patch_start q = patch_start p \<or> patch_start q = patch_end p))"
  have "markers (inner_patches ps i p a b) = length (filter (\<lambda>(j, q). is_marker q) (filter ?q (enumerate 0 ps)))"
    by (simp add: markers_def inner_patches_def filter_map comp_def is_marker_def case_prod_unfold)
  also have "\<dots> \<le> length (filter (\<lambda>(j, q). is_marker q \<and> j \<noteq> 0 + i) (enumerate 0 ps))"
    unfolding filter_filter by (rule length_filter_imp) auto
  also have "\<dots> = markers ps - 1"
    unfolding filter_enumerate_except using assms by (simp add: markers_def)
  also have "\<dots> < markers ps"
  proof -
    have "filter is_marker ps \<noteq> []"
      using assms nth_mem [OF assms(1)] by (auto simp: filter_empty_conv)
    then show ?thesis by (simp add: markers_def)
  qed
  finally show ?thesis .
qed

lemma markers_chain_patch [simp]: "markers (chain_patch a ov # ps) = markers ps"
  by (simp add: markers_def is_marker_def chain_patch_def starts_with_def bs_def)

lemma set_choose_patches: "set (choose_patches n xs) \<subseteq> set xs"
  by (induction n xs rule: choose_patches.induct) auto

lemma set_sort_patches [simp]: "set (sort_patches xs) = set xs"
  by (simp add: sort_patches_def)

definition chosen_patches :: "patch list \<Rightarrow> (nat \<times> patch) list" where
  "chosen_patches patches = choose_patches 0 (sort_patches (enumerate 0 patches))"

lemma chosen_patches_nth: "(i, p) \<in> set (chosen_patches ps) \<Longrightarrow> i < length ps \<and> ps ! i = p"
  using set_choose_patches [of 0 "sort_patches (enumerate 0 ps)"]
  by (auto simp: chosen_patches_def in_set_enumerate_eq)

function apply_patches :: "(str \<Rightarrow> bool) \<Rightarrow> str \<Rightarrow> patch list \<Rightarrow> str outcome" where
  "apply_patches pr source patches =
     emit_patches (\<lambda>(i, p).
       if is_marker p then
         let range = (\<lambda>a b.
               if b \<le> a \<or> length source < b then Return []
               else and_then (str_slice source a b) (\<lambda>sub.
                    let inner = inner_patches patches i p a b
                    in if inner = [] then Return sub else apply_patches pr sub inner))
         in patch_text pr
              \<lparr>src_len = length source, np = needs_paren_prefix source (patch_start p),
               zero = stmt_zero source (patch_start p), rewrite_range = range,
               rewrite_range_ov = (\<lambda>a b ov. case ov of
                   Some (os, oe) \<Rightarrow>
                     (if a \<le> os \<and> os < oe \<and> oe \<le> b
                      then if length source < b then Return []
                           else and_then (str_slice source a b) (\<lambda>sub.
                                apply_patches pr sub (chain_patch a (os, oe) # inner_patches patches i p a b))
                      else range a b)
                 | None \<Rightarrow> range a b)\<rparr> p
       else Return (replacement p))
     source 0 (chosen_patches patches)"
  by pat_completeness auto
termination
  by (relation "measure (\<lambda>(_, _, ps). markers ps)") (auto dest!: chosen_patches_nth intro!: markers_inner)

declare apply_patches.simps [simp del]

subsection \<open>A source with disjoint ranges replaced\<close>

fun disjoint_from :: "nat \<Rightarrow> patch list \<Rightarrow> bool" where
  "disjoint_from n [] \<longleftrightarrow> True"
| "disjoint_from n (p # ps) \<longleftrightarrow> n \<le> patch_start p \<and> disjoint_from (patch_end p) ps"

fun weave :: "str \<Rightarrow> nat \<Rightarrow> patch list \<Rightarrow> str list \<Rightarrow> str" where
  "weave source n (p # ps) (t # ts) = take (patch_start p - n) (drop n source) @ t @ weave source (patch_end p) ps ts"
| "weave source n _ _ = drop n source"

lemma and_then_Return: "and_then m f = Return y \<longleftrightarrow> (\<exists>x. m = Return x \<and> f x = Return y)"
  by (cases m) auto

end
