(* ===== verification/Patch_Markers.thy ===== *)
theory Patch_Markers
  imports Patches
begin

text \<open>
  The patches the visitor leaves (\<^verbatim>\<open>src/crates/zp-rewriter/src/lib.rs\<close>) and what
  \<^verbatim>\<open>apply_patches\<close> makes of them. The formats of the markers are stated once, as slots between
  bytes 1; a marker of one of them keeps its format when it is moved into a sub-range
  (\<^verbatim>\<open>shift_marker_positions\<close>), and is rendered to text without a byte 1.
\<close>

subsection \<open>Texts without a byte 1\<close>

lemma of_char_byte_eq [simp]: "(of_char c :: u8) = of_char d \<longleftrightarrow> c = d"
proof
  assume eq: "(of_char c :: u8) = of_char d"
  have unat: "unat (of_char x :: u8) = of_char x" for x
  proof -
    have "(of_char x :: u8) = of_nat (of_char x)" by (simp add: of_nat_of_char)
    also have "unat \<dots> = of_char x mod 256" by (simp add: unat_of_nat)
    finally show ?thesis by simp
  qed
  from eq have "(of_char c :: nat) = of_char d" using unat by metis
  then show "c = d" by simp
qed simp

lemma bs_inject [simp]: "bs s = bs t \<longleftrightarrow> s = t"
  by (simp add: bs_def inj_map_eq_map inj_def)

lemma bs_eq_Nil [simp]: "bs s = [] \<longleftrightarrow> s = []"
  by (simp add: bs_def)

lemma one_in_bs [simp]: "1 \<in> set (bs s) \<longleftrightarrow> CHR 0x01 \<in> set s"
proof -
  have "(1 :: u8) = of_char (CHR 0x01)" by simp
  then show ?thesis
    unfolding bs_def set_map image_iff by (metis of_char_byte_eq)
qed

lemma one_in_to_string [simp]: "1 \<notin> set (to_string n)"
proof
  assume "1 \<in> set (to_string n)"
  then have "is_ascii_digit 1" using to_string_digits by blast
  then show False by (simp add: is_ascii_digit_def word_le_nat_alt)
qed

lemma one_in_to_hex [simp]: "1 \<notin> set (to_hex n)"
proof (induction n rule: to_hex.induct)
  case (1 n)
  define d where "d = n mod 16"
  then have d: "d < 16" by simp
  have "unat (word_of_nat (48 + d) :: u8) = 48 + d" "unat (word_of_nat (87 + d) :: u8) = 87 + d"
    using d by (simp_all add: unat_of_nat del: of_nat_add)
  then have "(word_of_nat (48 + d) :: u8) \<noteq> 1" "(word_of_nat (87 + d) :: u8) \<noteq> 1"
    by (auto simp del: of_nat_add)
  with 1 show ?case
    by (subst to_hex.simps) (auto simp: Let_def d_def)
qed

lemma one_in_debug_char: "1 \<notin> set c \<Longrightarrow> 1 \<notin> set (debug_char pr c)"
  by (simp add: debug_char_def)

lemma one_in_debug_chars: "1 \<notin> set s \<Longrightarrow> 1 \<notin> set (debug_chars pr s)"
proof (induction pr s rule: debug_chars.induct)
  case (1 pr s)
  have "1 \<notin> set (take n s)" "1 \<notin> set (drop n s)" for n
    using "1.prems" by (auto dest: in_set_takeD in_set_dropD)
  with 1 show ?case
    by (subst debug_chars.simps) (auto split: sum.splits dest: one_in_debug_char [THEN notE, rotated])
qed

lemma one_in_debug_str [simp]: "1 \<notin> set s \<Longrightarrow> 1 \<notin> set (debug_str pr s)"
  by (simp add: debug_str_def one_in_debug_chars)

lemma set_split_on: "t \<in> set (split_on c xs) \<Longrightarrow> set t \<subseteq> set xs"
proof (induction xs arbitrary: t)
  case (Cons x xs)
  obtain y ys where "split_on c xs = y # ys" by (cases "split_on c xs") auto
  with Cons.IH [of y] Cons.IH [of t] Cons.prems show ?case by (auto split: if_splits)
qed simp

lemma set_with_chain: "t \<in> set (with_chain chain) \<Longrightarrow> set t \<subseteq> set chain"
  unfolding with_chain_def using set_split_on by fastforce

lemma one_in_fold:
  "(\<And>t e. t \<in> set ts \<Longrightarrow> 1 \<notin> set e \<Longrightarrow> 1 \<notin> set (f t e)) \<Longrightarrow> 1 \<notin> set e \<Longrightarrow> 1 \<notin> set (fold f ts e)"
  by (induction ts arbitrary: e) auto

lemma one_in_with_d_chain [simp]:
  "1 \<notin> set chain \<Longrightarrow> 1 \<notin> set name \<Longrightarrow> 1 \<notin> set (with_d_chain pr chain name)"
  unfolding with_d_chain_def by (rule one_in_fold) (auto dest: set_with_chain)

lemma one_in_with_set_chain [simp]:
  "1 \<notin> set chain \<Longrightarrow> 1 \<notin> set name \<Longrightarrow> 1 \<notin> set v \<Longrightarrow> 1 \<notin> set (with_set_chain pr chain name v)"
  unfolding with_set_chain_def by (rule one_in_fold) (auto dest: set_with_chain)

lemma one_in_with_assign_chain [simp]:
  "1 \<notin> set chain \<Longrightarrow> 1 \<notin> set name \<Longrightarrow> 1 \<notin> set op \<Longrightarrow> 1 \<notin> set v \<Longrightarrow>
     1 \<notin> set (with_assign_chain pr chain name op v)"
  unfolding with_assign_chain_def by (rule one_in_fold) (auto dest: set_with_chain)

lemma one_in_paren [simp]: "1 \<in> set (paren b e) \<longleftrightarrow> 1 \<in> set e"
  by (simp add: paren_def)

lemma one_in_stmt_zero [simp]: "1 \<notin> set (stmt_zero bytes i)"
  by (simp add: stmt_zero_def)

lemma one_in_adapter [simp]: "1 \<in> set (adapter obj prop) \<longleftrightarrow> 1 \<in> set obj \<or> 1 \<in> set prop"
  by (auto simp: adapter_def)

lemma one_in_key_adapter [simp]: "1 \<in> set (key_adapter obj key) \<longleftrightarrow> 1 \<in> set obj \<or> 1 \<in> set key"
  by (auto simp: key_adapter_def)

lemma one_in_temps: "guard_temps g = Some (a, b, c) \<Longrightarrow> 1 \<notin> set a \<and> 1 \<notin> set b \<and> 1 \<notin> set c"
  by (auto simp: guard_temps_def temp_name_def Let_def split: if_splits)

subsection \<open>The formats of the markers\<close>

text \<open>
  The fields between the bytes 1 of a marker: a byte range, which lies inside the patch; a range that may be
  empty (the arguments of a call, a missing receiver); a name or a number that is never moved; an operator; a
  name in a field that holds a position in another format; and a fixed letter.
\<close>

datatype slot = Span | OptSpan | Word | Op | Ident | Lit string

datatype field = Pos nat | Txt str

fun show_field :: "field \<Rightarrow> str" where
  "show_field (Pos v) = to_string v"
| "show_field (Txt t) = t"

definition print_marker :: "string \<Rightarrow> field list \<Rightarrow> str" where
  "print_marker name fs = marker name @ concat (map (\<lambda>f. show_field f @ [1]) fs)"

fun shift_field :: "nat \<Rightarrow> field \<Rightarrow> field" where
  "shift_field offset (Pos v) = Pos (v - offset)"
| "shift_field offset (Txt t) = Txt t"

fun fits :: "(nat \<Rightarrow> bool) \<Rightarrow> nat \<Rightarrow> nat \<Rightarrow> slot list \<Rightarrow> field list \<Rightarrow> bool" where
  "fits bnd a b [] [] \<longleftrightarrow> True"
| "fits bnd a b (Span # ss) (Pos s # Pos e # fs) \<longleftrightarrow> a \<le> s \<and> s < e \<and> e \<le> b \<and> bnd s \<and> bnd e \<and> fits bnd a b ss fs"
| "fits bnd a b (OptSpan # ss) (Pos s # Pos e # fs) \<longleftrightarrow>
     s < 2 ^ 32 \<and> e < 2 ^ 32 \<and> (e \<le> s \<or> a \<le> s \<and> e \<le> b \<and> bnd s \<and> bnd e) \<and> fits bnd a b ss fs"
| "fits bnd a b (Word # ss) (Txt t # fs) \<longleftrightarrow> 1 \<notin> set t \<and> fits bnd a b ss fs"
| "fits bnd a b (Op # ss) (Txt t # fs) \<longleftrightarrow> 1 \<notin> set t \<and> t \<noteq> [] \<and> fits bnd a b ss fs"
| "fits bnd a b (Ident # ss) (Txt t # fs) \<longleftrightarrow> 1 \<notin> set t \<and> num t = None \<and> fits bnd a b ss fs"
| "fits bnd a b (Lit l # ss) (Txt t # fs) \<longleftrightarrow> t = bs l \<and> CHR 0x01 \<notin> set l \<and> fits bnd a b ss fs"
| "fits bnd a b _ _ \<longleftrightarrow> False"

definition marker_formats :: "(string \<times> slot list) list" where
  "marker_formats =
     [(''GLOBAL_SET'', [Word, Span]), (''GLOBAL_ASSIGN'', [Word, Op, Span, Word]),
      (''GLOBAL_UPDATE'', [Word, Word, Word]), (''GLOBAL_DESTR'', [Word]), (''GLOBAL_DESTR'', [Word, Word]),
      (''SHORTHAND_GLOBAL_GET'', [Word]), (''GLOBAL_GET'', [Word]), (''THIS_MAP'', []),
      (''MEMBER_GET'', [Span, Word]), (''MEMBER_REF'', [Span, Word]), (''MEMBER_REF_STMT'', [Span, Word]),
      (''MEMBER_SET'', [Span, Word, Span]), (''MEMBER_A'', [Span, Word, Op, Span, Word]),
      (''MEMBER_A_STMT'', [Span, Word, Op, Span, Word]), (''MODULE_URL'', [Span, Word]),
      (''METHOD_CALL'', [Span, Word, OptSpan]), (''VAR_SET'', [Word, Word, Span]),
      (''VAR_WSET'', [Word, Word, Span, Word]), (''WTREF'', [Word, Word]), (''WTREF_STMT'', [Word, Word]),
      (''WITH_OBJ'', [Word, Span]), (''WITH_SET'', [Word, Span, Word]),
      (''WITH_ASSIGN'', [Word, Op, Span, Word, Word]), (''CGET'', [Span, Span, Word]),
      (''CGET'', [Span, Span, Word, Lit ''S'']), (''CSET'', [Span, Span, Span, Word]),
      (''CSET'', [Span, Span, Span, Word, Lit ''S'']), (''CASSIGN'', [Span, Span, Op, Span, Word]),
      (''CASSIGN_STMT'', [Span, Span, Op, Span, Word]), (''CREF'', [Span, Span]), (''CREF_STMT'', [Span, Span]),
      (''OGET'', [Span, Lit ''L'', Ident]), (''OGET'', [Span, Lit ''E'', Span]),
      (''OCALL'', [Span, Word, Lit ''L'', Ident, OptSpan]), (''OCALL'', [Span, Word, Lit ''E'', Span, OptSpan]),
      (''CCALL'', [Span, Span, OptSpan, Word]), (''CCALL'', [Span, Span, OptSpan, Word, Lit ''S'']),
      (''DEVAL'', [OptSpan, Word, Word, Word]), (''RGET'', [Span, Span, Word, OptSpan]),
      (''RSET'', [Span, Span, Span, Word, OptSpan]), (''GOPD'', [Span, Span]), (''GOPDS'', [Span]),
      (''GOWN'', [Span]), (''OKEYS'', [Span]), (''RHAS'', [Span, Span]), (''ROWK'', [Span]),
      (''CDELE'', [Span, Span, Word]), (''SDELE'', [Span, Word, Word])]"

text \<open>A for-loop cap covers its own patch.\<close>

definition cap_format :: "string \<times> slot list" where
  "cap_format = (''FOR_CAP'', [Word, Span])"

lemma fits_clean: "fits bnd a b slots fs \<Longrightarrow> f \<in> set fs \<Longrightarrow> 1 \<notin> set (show_field f)"
  by (induction bnd a b slots fs rule: fits.induct) auto

lemma formats_names: "(name, slots) \<in> set (cap_format # marker_formats) \<Longrightarrow> CHR 0x01 \<notin> set name"
  unfolding marker_formats_def cap_format_def list.set insert_iff prod.inject by (elim disjE conjE emptyE; simp)

definition parts_of :: "string \<Rightarrow> field list \<Rightarrow> str list" where
  "parts_of name fs = [] # bs name # map show_field fs @ [[]]"

lemma split_fields:
  "\<forall>f \<in> set fs. 1 \<notin> set (show_field f) \<Longrightarrow>
     split_on 1 (concat (map (\<lambda>f. show_field f @ [1]) fs)) = map show_field fs @ [[]]"
  by (induction fs) (simp_all add: split_on_append_sep)

lemma split_print_marker:
  assumes "CHR 0x01 \<notin> set name" "\<forall>f \<in> set fs. 1 \<notin> set (show_field f)"
  shows "split_on 1 (print_marker name fs) = parts_of name fs"
  using assms split_fields [OF assms(2)]
  by (simp add: print_marker_def marker_def parts_of_def split_on_append_sep)

lemma join_fields: "join [1] (x # map show_field fs @ [[]]) = x @ [1] @ concat (map (\<lambda>f. show_field f @ [1]) fs)"
  by (induction fs arbitrary: x) simp_all

lemma join_parts_of: "join [1] (parts_of name fs) = print_marker name fs"
  by (simp add: parts_of_def print_marker_def marker_def join_fields)

lemma starts_marker:
  assumes "CHR 0x01 \<notin> set name" "CHR 0x01 \<notin> set m"
  shows "starts_with (marker m) (print_marker name fs) \<longleftrightarrow> m = name"
proof
  assume "starts_with (marker m) (print_marker name fs)"
  then obtain u where "bs name @ 1 # concat (map (\<lambda>f. show_field f @ [1]) fs) = bs m @ 1 # u"
    by (auto simp: starts_with_iff_prefix prefix_def print_marker_def marker_def)
  then have "hd (split_on 1 (bs name @ 1 # concat (map (\<lambda>f. show_field f @ [1]) fs))) = hd (split_on 1 (bs m @ 1 # u))"
    by simp
  then show "m = name" using assms by (simp add: split_on_append_sep)
qed (simp add: print_marker_def)

subsection \<open>Moving a marker into a sub-range\<close>

text \<open>
  The table of \<^verbatim>\<open>shift_marker_positions\<close> covers a format when it lists exactly the fields that are
  positions; a field that is a name here and a position in another format of the same marker is left alone
  because it is no number.
\<close>

fun covers :: "nat list \<Rightarrow> nat \<Rightarrow> slot list \<Rightarrow> bool" where
  "covers is k [] \<longleftrightarrow> True"
| "covers is k (Span # ss) \<longleftrightarrow> k \<in> set is \<and> Suc k \<in> set is \<and> covers is (Suc (Suc k)) ss"
| "covers is k (OptSpan # ss) \<longleftrightarrow> k \<in> set is \<and> Suc k \<in> set is \<and> covers is (Suc (Suc k)) ss"
| "covers is k (Ident # ss) \<longleftrightarrow> covers is (Suc k) ss"
| "covers is k (s # ss) \<longleftrightarrow> k \<notin> set is \<and> covers is (Suc k) ss"

definition indices_of :: "string \<Rightarrow> nat list" where
  "indices_of name = (case find (\<lambda>(n, _). n = name) shift_indices of Some (_, is) \<Rightarrow> is | None \<Rightarrow> [])"

lemma num_to_string [simp]: "v < 4294967296 \<Longrightarrow> num (to_string v) = Some v"
  using parse_to_string [of v 32] by (simp add: num_def)

lemma shift_pos_Some [simp]: "num s = Some v \<Longrightarrow> shift_pos offset s = to_string (v - offset)"
  by (simp add: shift_pos_def)

lemma shift_pos_None [simp]: "num s = None \<Longrightarrow> shift_pos offset s = s"
  by (simp add: shift_pos_def)

lemma num_Nil [simp]: "num [] = None"
  by (simp add: num_def from_str_radix_def)

lemma shift_fields:
  assumes "fits bnd a b slots fs" "covers is k slots" "b < 2 ^ 32"
  shows "map (\<lambda>(i, s). if i \<in> set is then shift_pos offset s else s) (enumerate k (map show_field fs @ [[]]))
           = map show_field (map (shift_field offset) fs) @ [[]]"
  using assms
  by (induction bnd a b slots fs arbitrary: k rule: fits.induct)
    auto

lemma no_positions: "fits bnd a b slots fs \<Longrightarrow> covers [] k slots \<Longrightarrow> map (shift_field offset) fs = fs"
  by (induction bnd a b slots fs arbitrary: k rule: fits.induct) auto

lemma formats_covered: "list_all (\<lambda>(name, slots). covers (indices_of name) 2 slots) (cap_format # marker_formats)"
  by code_simp

lemma shift_indices_names: "(name, is) \<in> set shift_indices \<Longrightarrow> CHR 0x01 \<notin> set name \<and> 0 \<notin> set is \<and> 1 \<notin> set is \<and> name \<noteq> ''OCHAIN''"
  unfolding shift_indices_def list.set insert_iff prod.inject by (elim disjE conjE emptyE; simp)

lemma find_print:
  assumes "CHR 0x01 \<notin> set name"
  shows "find (\<lambda>(n, _). starts_with (marker n) (print_marker name fs)) shift_indices
           = find (\<lambda>(n, _). n = name) shift_indices"
  by (rule find_cong) (use assms shift_indices_names in \<open>auto simp: starts_marker\<close>)

lemma shift_print_marker:
  assumes "(name, slots) \<in> set (cap_format # marker_formats)" "fits bnd a b slots fs" "b < 2 ^ 32"
  shows "shift_marker_positions (print_marker name fs) offset = print_marker name (map (shift_field offset) fs)"
proof -
  have name: "CHR 0x01 \<notin> set name" "name \<noteq> ''OCHAIN''"
    using formats_names [OF assms(1)] assms(1) by (auto simp: marker_formats_def cap_format_def)
  have split: "split_on 1 (print_marker name fs) = parts_of name fs"
    using name assms(2) by (intro split_print_marker) (auto dest: fits_clean)
  have cov: "covers (indices_of name) 2 slots"
    using bspec [OF formats_covered [unfolded list_all_iff] assms(1)] by simp
  show ?thesis
  proof (cases "find (\<lambda>(n, _). n = name) shift_indices")
    case None
    with cov have "covers [] 2 slots" by (simp add: indices_of_def)
    with no_positions [OF assms(2)] None name show ?thesis
      by (simp add: shift_marker_positions_def starts_marker find_print)
  next
    case (Some e)
    then obtain "is" where e: "e = (name, is)" by (auto simp: find_Some_iff)
    with Some have mem: "(name, is) \<in> set shift_indices" by (auto simp: find_Some_iff) (metis nth_mem)
    from Some e cov have "covers is 2 slots" by (simp add: indices_of_def)
    then have "map (\<lambda>(i, s). if i \<in> set is then shift_pos offset s else s) (enumerate 0 (parts_of name fs))
        = parts_of name (map (shift_field offset) fs)"
      using shift_fields [OF assms(2) _ assms(3), of "is" 2 offset] shift_indices_names [OF mem]
      by (simp add: parts_of_def numeral_2_eq_2)
    with Some e name split show ?thesis
      by (simp add: shift_marker_positions_def starts_marker find_print join_parts_of)
  qed
qed

subsection \<open>Rendering a marker\<close>

definition yields :: "str outcome \<Rightarrow> bool" where
  "yields m \<longleftrightarrow> (\<exists>t. m = Return t \<and> 1 \<notin> set t)"

definition renders :: "rendered \<Rightarrow> bool" where
  "renders m \<longleftrightarrow> (\<exists>t. m = pushed t \<and> 1 \<notin> set t)"

text \<open>
  What a marker relies on: every range of the source between two character boundaries is rewritten to a
  text without a byte 1.
\<close>

definition site_ok :: "(nat \<Rightarrow> bool) \<Rightarrow> site \<Rightarrow> bool" where
  "site_ok bnd c \<longleftrightarrow> 1 \<notin> set (zero c) \<and> src_len c < 2 ^ 32
     \<and> (\<forall>s e. (s < e \<longrightarrow> bnd s \<and> bnd e) \<longrightarrow> yields (rewrite_range c s e))"

lemma yields_Return [simp]: "yields (Return t) \<longleftrightarrow> 1 \<notin> set t"
  by (simp add: yields_def)

lemma renders_pushed [simp]: "renders (pushed t) \<longleftrightarrow> 1 \<notin> set t"
  by (simp add: renders_def)

lemma renders_and_then: "yields m \<Longrightarrow> (\<And>t. 1 \<notin> set t \<Longrightarrow> renders (f t)) \<Longrightarrow> renders (and_then m f)"
  by (auto simp: yields_def)

lemma yields_and_then: "yields m \<Longrightarrow> (\<And>t. 1 \<notin> set t \<Longrightarrow> yields (f t)) \<Longrightarrow> yields (and_then m f)"
  by (auto simp: yields_def)

lemma range_yields: "site_ok bnd c \<Longrightarrow> (s < e \<Longrightarrow> bnd s \<and> bnd e) \<Longrightarrow> yields (rewrite_range c s e)"
  by (simp add: site_ok_def)

lemma site_zero: "site_ok bnd c \<Longrightarrow> 1 \<notin> set (zero c)"
  by (simp add: site_ok_def)

lemma num_or_0_to_string [simp]: "v < 4294967296 \<Longrightarrow> num_or_0 (to_string v) = v"
  by (simp add: num_or_0_def)

lemma fits_Nil: "fits bnd a b [] fs \<longleftrightarrow> fs = []"
  by (cases fs) simp_all

lemma fits_Span:
  "fits bnd a b (Span # ss) fs \<longleftrightarrow>
     (\<exists>s e gs. fs = Pos s # Pos e # gs \<and> a \<le> s \<and> s < e \<and> e \<le> b \<and> bnd s \<and> bnd e \<and> fits bnd a b ss gs)"
  by (induction bnd a b "Span # ss" fs rule: fits.induct) auto

lemma fits_OptSpan:
  "fits bnd a b (OptSpan # ss) fs \<longleftrightarrow>
     (\<exists>s e gs. fs = Pos s # Pos e # gs \<and> s < 2 ^ 32 \<and> e < 2 ^ 32
        \<and> (e \<le> s \<or> a \<le> s \<and> e \<le> b \<and> bnd s \<and> bnd e) \<and> fits bnd a b ss gs)"
  by (induction bnd a b "OptSpan # ss" fs rule: fits.induct) auto

lemma fits_texts:
  "fits bnd a b (Word # ss) fs \<longleftrightarrow> (\<exists>t gs. fs = Txt t # gs \<and> 1 \<notin> set t \<and> fits bnd a b ss gs)"
  "fits bnd a b (Op # ss) fs \<longleftrightarrow> (\<exists>t gs. fs = Txt t # gs \<and> 1 \<notin> set t \<and> t \<noteq> [] \<and> fits bnd a b ss gs)"
  "fits bnd a b (Ident # ss) fs \<longleftrightarrow> (\<exists>t gs. fs = Txt t # gs \<and> 1 \<notin> set t \<and> num t = None \<and> fits bnd a b ss gs)"
  "fits bnd a b (Lit l # ss) fs \<longleftrightarrow> (\<exists>gs. fs = Txt (bs l) # gs \<and> CHR 0x01 \<notin> set l \<and> fits bnd a b ss gs)"
  by (cases fs; cases "hd fs"; auto)+

lemmas fits_simps = fits_Nil fits_Span fits_OptSpan fits_texts

lemma site_len: "site_ok bnd c \<Longrightarrow> src_len c < 4294967296"
  by (simp add: site_ok_def)

lemma one_in_butlast: "1 \<notin> set s \<Longrightarrow> 1 \<notin> set (butlast s)"
  by (auto dest: in_set_butlastD)

lemmas site_intros = renders_and_then yields_and_then

lemma render_global_set_ok:
  assumes "site_ok bnd c" "b \<le> src_len c" "fits bnd a b [Word, Span] fs"
  shows "renders (render_global_set pr c (parts_of name fs))"
  using assms(2,3) site_len [OF assms(1)] site_zero [OF assms(1)]
  by (auto simp: render_global_set_def parts_of_def Let_def fits_simps one_in_butlast intro!: site_intros range_yields [OF assms(1)])

lemma render_global_assign_ok:
  assumes "site_ok bnd c" "b \<le> src_len c" "fits bnd a b [Word, Op, Span, Word] fs"
  shows "renders (render_global_assign pr c (parts_of name fs))"
  using assms(2,3) site_len [OF assms(1)] site_zero [OF assms(1)]
  by (auto simp: render_global_assign_def parts_of_def Let_def fits_simps one_in_butlast intro!: site_intros range_yields [OF assms(1)])

lemma render_global_update_ok:
  assumes "site_ok bnd c" "b \<le> src_len c" "fits bnd a b [Word, Word, Word] fs"
  shows "renders (render_global_update pr c (parts_of name fs))"
  using assms(2,3) site_len [OF assms(1)] site_zero [OF assms(1)]
  by (auto simp: render_global_update_def parts_of_def Let_def fits_simps one_in_butlast intro!: site_intros range_yields [OF assms(1)])

lemma render_global_destr_ok:
  assumes "site_ok bnd c" "b \<le> src_len c" "fits bnd a b [Word] fs \<or> fits bnd a b [Word, Word] fs"
  shows "renders (render_global_destr pr c (parts_of name fs))"
  using assms(2,3) site_len [OF assms(1)] site_zero [OF assms(1)]
  by (auto simp: render_global_destr_def parts_of_def Let_def fits_simps one_in_butlast intro!: site_intros range_yields [OF assms(1)])

lemma render_shorthand_global_get_ok:
  assumes "site_ok bnd c" "b \<le> src_len c" "fits bnd a b [Word] fs"
  shows "renders (render_shorthand_global_get pr c (parts_of name fs))"
  using assms(2,3) site_len [OF assms(1)] site_zero [OF assms(1)]
  by (auto simp: render_shorthand_global_get_def parts_of_def Let_def fits_simps one_in_butlast intro!: site_intros range_yields [OF assms(1)])

lemma render_global_get_ok:
  assumes "site_ok bnd c" "b \<le> src_len c" "fits bnd a b [Word] fs"
  shows "renders (render_global_get pr c (parts_of name fs))"
  using assms(2,3) site_len [OF assms(1)] site_zero [OF assms(1)]
  by (auto simp: render_global_get_def parts_of_def Let_def fits_simps one_in_butlast intro!: site_intros range_yields [OF assms(1)])

lemma render_member_get_ok:
  assumes "site_ok bnd c" "b \<le> src_len c" "fits bnd a b [Span, Word] fs"
  shows "renders (render_member_get pr c (parts_of name fs))"
  using assms(2,3) site_len [OF assms(1)] site_zero [OF assms(1)]
  by (auto simp: render_member_get_def parts_of_def Let_def fits_simps one_in_butlast intro!: site_intros range_yields [OF assms(1)])

lemma render_member_ref_ok:
  assumes "site_ok bnd c" "b \<le> src_len c" "fits bnd a b [Span, Word] fs"
  shows "renders (render_member_ref pr c (parts_of name fs))"
  using assms(2,3) site_len [OF assms(1)] site_zero [OF assms(1)]
  by (auto simp: render_member_ref_def parts_of_def Let_def fits_simps one_in_butlast intro!: site_intros range_yields [OF assms(1)])

lemma render_member_set_ok:
  assumes "site_ok bnd c" "b \<le> src_len c" "fits bnd a b [Span, Word, Span] fs"
  shows "renders (render_member_set pr c (parts_of name fs))"
  using assms(2,3) site_len [OF assms(1)] site_zero [OF assms(1)]
  by (auto simp: render_member_set_def parts_of_def Let_def fits_simps one_in_butlast intro!: site_intros range_yields [OF assms(1)])

lemma render_member_assign_ok:
  assumes "site_ok bnd c" "b \<le> src_len c" "fits bnd a b [Span, Word, Op, Span, Word] fs"
  shows "renders (render_member_assign pr c (parts_of name fs))"
  using assms(2,3) site_len [OF assms(1)] site_zero [OF assms(1)]
  by (auto simp: render_member_assign_def parts_of_def Let_def fits_simps one_in_butlast intro!: site_intros range_yields [OF assms(1)])

lemma render_module_url_ok:
  assumes "site_ok bnd c" "b \<le> src_len c" "fits bnd a b [Span, Word] fs"
  shows "renders (render_module_url c (parts_of name fs))"
  using assms(2,3) site_len [OF assms(1)] site_zero [OF assms(1)]
  by (auto simp: render_module_url_def parts_of_def Let_def fits_simps one_in_butlast intro!: site_intros range_yields [OF assms(1)])

lemma render_method_call_ok:
  assumes "site_ok bnd c" "b \<le> src_len c" "fits bnd a b [Span, Word, OptSpan] fs"
  shows "renders (render_method_call pr c (parts_of name fs))"
  using assms(2,3) site_len [OF assms(1)] site_zero [OF assms(1)]
  by (auto simp: render_method_call_def parts_of_def Let_def fits_simps one_in_butlast intro!: site_intros range_yields [OF assms(1)])

lemma render_var_set_ok:
  assumes "site_ok bnd c" "b \<le> src_len c" "fits bnd a b [Word, Word, Span] fs \<or> fits bnd a b [Word, Word, Span, Word] fs"
  shows "renders (render_var_set pr c (parts_of name fs))"
  using assms(2,3) site_len [OF assms(1)] site_zero [OF assms(1)]
  by (auto simp: render_var_set_def parts_of_def Let_def fits_simps one_in_butlast intro!: site_intros range_yields [OF assms(1)])

lemma render_wtref_ok:
  assumes "site_ok bnd c" "b \<le> src_len c" "fits bnd a b [Word, Word] fs"
  shows "renders (render_wtref pr c (parts_of name fs))"
  using assms(2,3) site_len [OF assms(1)] site_zero [OF assms(1)]
  by (auto simp: render_wtref_def parts_of_def Let_def fits_simps one_in_butlast intro!: site_intros range_yields [OF assms(1)])

lemma render_with_obj_ok:
  assumes "site_ok bnd c" "b \<le> src_len c" "fits bnd a b [Word, Span] fs"
  shows "renders (render_with_obj c (parts_of name fs))"
  using assms(2,3) site_len [OF assms(1)] site_zero [OF assms(1)]
  by (auto simp: render_with_obj_def parts_of_def Let_def fits_simps one_in_butlast intro!: site_intros range_yields [OF assms(1)])

lemma render_with_set_ok:
  assumes "site_ok bnd c" "b \<le> src_len c" "fits bnd a b [Word, Span, Word] fs"
  shows "renders (render_with_set pr c (parts_of name fs))"
  using assms(2,3) site_len [OF assms(1)] site_zero [OF assms(1)]
  by (auto simp: render_with_set_def parts_of_def Let_def fits_simps one_in_butlast intro!: site_intros range_yields [OF assms(1)])

lemma render_with_assign_ok:
  assumes "site_ok bnd c" "b \<le> src_len c" "fits bnd a b [Word, Op, Span, Word, Word] fs"
  shows "renders (render_with_assign pr c (parts_of name fs))"
  using assms(2,3) site_len [OF assms(1)] site_zero [OF assms(1)]
  by (auto simp: render_with_assign_def parts_of_def Let_def fits_simps one_in_butlast intro!: site_intros range_yields [OF assms(1)])

lemma render_sdele_ok:
  assumes "site_ok bnd c" "b \<le> src_len c" "fits bnd a b [Span, Word, Word] fs"
  shows "renders (render_sdele pr c (parts_of name fs))"
  using assms(2,3) site_len [OF assms(1)] site_zero [OF assms(1)]
  by (auto simp: render_sdele_def parts_of_def Let_def fits_simps one_in_butlast intro!: site_intros range_yields [OF assms(1)])

lemma obj_key_ok:
  assumes "site_ok bnd c" "b \<le> src_len c" "fits bnd a b (Span # Span # ss) fs"
  obtains obj key where "obj_key (parts_of name fs) 2 c = Return (Some (obj, key))" "1 \<notin> set obj" "1 \<notin> set key"
proof -
  obtain os oe ks ke gs where fs: "fs = Pos os # Pos oe # Pos ks # Pos ke # gs"
      and spans: "os < oe" "oe \<le> b" "bnd os" "bnd oe" "ks < ke" "ke \<le> b" "bnd ks" "bnd ke"
    using assms(3) by (auto simp: fits_simps)
  obtain obj where obj: "rewrite_range c os oe = Return obj" "1 \<notin> set obj"
    using range_yields [OF assms(1), of os oe] spans by (auto simp: yields_def)
  obtain key where key: "rewrite_range c ks ke = Return key" "1 \<notin> set key"
    using range_yields [OF assms(1), of ks ke] spans by (auto simp: yields_def)
  have "obj_key (parts_of name fs) 2 c = Return (Some (obj, key))"
    using fs spans obj key assms(2) site_len [OF assms(1)] by (simp add: obj_key_def parts_of_def)
  with obj key show thesis by (auto intro: that)
qed

lemma obj_only_ok:
  assumes "site_ok bnd c" "b \<le> src_len c" "fits bnd a b (Span # ss) fs"
  obtains obj where "obj_only (parts_of name fs) c = Return (Some obj)" "1 \<notin> set obj"
proof -
  obtain os oe gs where fs: "fs = Pos os # Pos oe # gs" and spans: "os < oe" "oe \<le> b" "bnd os" "bnd oe"
    using assms(3) by (auto simp: fits_simps)
  obtain obj where obj: "rewrite_range c os oe = Return obj" "1 \<notin> set obj"
    using range_yields [OF assms(1), of os oe] spans by (auto simp: yields_def)
  have "obj_only (parts_of name fs) c = Return (Some obj)"
    using fs spans obj assms(2) site_len [OF assms(1)] by (simp add: obj_only_def parts_of_def)
  with obj show thesis by (auto intro: that)
qed

lemma push_guarded_ok: "site_ok bnd c \<Longrightarrow> 1 \<notin> set e \<Longrightarrow> renders (push_guarded c at_stmt e)"
  by (simp add: push_guarded_def site_zero)

lemma render_unary_ok:
  assumes "site_ok bnd c" "b \<le> src_len c" "fits bnd a b (Span # ss) fs" "CHR 0x01 \<notin> set helper"
  shows "renders (render_unary helper c (parts_of name fs))"
proof -
  obtain obj where "obj_only (parts_of name fs) c = Return (Some obj)" "1 \<notin> set obj"
    by (rule obj_only_ok [OF assms(1-3)])
  with assms(4) show ?thesis by (simp add: render_unary_def)
qed

lemma render_binary_ok:
  assumes "site_ok bnd c" "b \<le> src_len c" "fits bnd a b (Span # Span # ss) fs" "CHR 0x01 \<notin> set helper"
  shows "renders (render_binary helper c (parts_of name fs))"
proof -
  obtain obj key where "obj_key (parts_of name fs) 2 c = Return (Some (obj, key))" "1 \<notin> set obj" "1 \<notin> set key"
    by (rule obj_key_ok [OF assms(1-3)])
  with assms(4) show ?thesis by (simp add: render_binary_def)
qed

lemma render_cdele_ok:
  assumes "site_ok bnd c" "b \<le> src_len c" "fits bnd a b (Span # Span # ss) fs"
  shows "renders (render_cdele c (parts_of name fs))"
  unfolding render_cdele_def by (rule render_binary_ok [OF assms]) simp

lemma render_cref_ok:
  assumes "site_ok bnd c" "b \<le> src_len c" "fits bnd a b (Span # Span # ss) fs"
  shows "renders (render_cref c (parts_of name fs))"
proof -
  obtain obj key where "obj_key (parts_of name fs) 2 c = Return (Some (obj, key))" "1 \<notin> set obj" "1 \<notin> set key"
    by (rule obj_key_ok [OF assms])
  with site_zero [OF assms(1)] show ?thesis by (simp add: render_cref_def)
qed

lemma render_cget_ok:
  assumes "site_ok bnd c" "b \<le> src_len c" "fits bnd a b (Span # Span # ss) fs"
  shows "renders (render_cget c (parts_of name fs))"
proof -
  obtain obj key where "obj_key (parts_of name fs) 2 c = Return (Some (obj, key))" "1 \<notin> set obj" "1 \<notin> set key"
    by (rule obj_key_ok [OF assms])
  then show ?thesis
    by (auto simp: render_cget_def Let_def dest!: one_in_temps intro!: push_guarded_ok [OF assms(1)] split: prod.splits option.splits)
qed

lemma render_cset_ok:
  assumes "site_ok bnd c" "b \<le> src_len c" "fits bnd a b (Span # Span # Span # ss) fs"
  shows "renders (render_cset c (parts_of name fs))"
proof -
  obtain obj key where ok: "obj_key (parts_of name fs) 2 c = Return (Some (obj, key))" "1 \<notin> set obj" "1 \<notin> set key"
    by (rule obj_key_ok [OF assms])
  obtain os oe ks ke vs ve gs where fs: "fs = Pos os # Pos oe # Pos ks # Pos ke # Pos vs # Pos ve # gs"
      and spans: "vs < ve" "ve \<le> b" "bnd vs" "bnd ve"
    using assms(3) by (auto simp: fits_simps)
  obtain v where v: "rewrite_range c vs ve = Return v" "1 \<notin> set v"
    using range_yields [OF assms(1), of vs ve] spans by (auto simp: yields_def)
  have "obj_key_val (parts_of name fs) 6 c = Return (Some ((obj, key), Some v))"
    using ok fs spans v assms(2) site_len [OF assms(1)] by (simp add: obj_key_val_def parts_of_def)
  with ok v show ?thesis
    by (auto simp: render_cset_def Let_def dest!: one_in_temps intro!: push_guarded_ok [OF assms(1)] split: prod.splits option.splits)
qed

lemma render_cassign_ok:
  assumes "site_ok bnd c" "b \<le> src_len c" "fits bnd a b [Span, Span, Op, Span, Word] fs"
  shows "renders (render_cassign c (parts_of name fs))"
proof -
  obtain obj key where "obj_key (parts_of name fs) 2 c = Return (Some (obj, key))" "1 \<notin> set obj" "1 \<notin> set key"
    by (rule obj_key_ok [OF assms])
  then show ?thesis
    using assms(2,3) site_len [OF assms(1)] site_zero [OF assms(1)]
    by (auto simp: render_cassign_def parts_of_def Let_def fits_simps intro!: site_intros range_yields [OF assms(1)])
qed

lemma render_rget_ok:
  assumes "site_ok bnd c" "b \<le> src_len c" "fits bnd a b [Span, Span, Word, OptSpan] fs"
  shows "renders (render_rget c (parts_of name fs))"
proof -
  obtain obj key where "obj_key (parts_of name fs) 2 c = Return (Some (obj, key))" "1 \<notin> set obj" "1 \<notin> set key"
    by (rule obj_key_ok [OF assms])
  then show ?thesis
    using assms(2,3) site_len [OF assms(1)]
    by (auto simp: render_rget_def parts_of_def Let_def fits_simps intro!: site_intros range_yields [OF assms(1)])
qed

lemma render_rset_ok:
  assumes "site_ok bnd c" "b \<le> src_len c" "fits bnd a b [Span, Span, Span, Word, OptSpan] fs"
  shows "renders (render_rset c (parts_of name fs))"
proof -
  obtain obj key where "obj_key (parts_of name fs) 2 c = Return (Some (obj, key))" "1 \<notin> set obj" "1 \<notin> set key"
    by (rule obj_key_ok [OF assms])
  then show ?thesis
    using assms(2,3) site_len [OF assms(1)]
    by (auto simp: render_rset_def parts_of_def Let_def fits_simps intro!: site_intros range_yields [OF assms(1)])
qed

lemma key_span:
  assumes "site_ok bnd c" "bnd s" "bnd e"
  obtains t where "rewrite_range c s e = Return t" "1 \<notin> set t"
  using range_yields [OF assms(1), of s e] assms(2,3) by (auto simp: yields_def)

lemma opt_span:
  assumes "site_ok bnd c" "s < e \<Longrightarrow> bnd s \<and> bnd e"
  obtains t where "(if s < e \<and> e \<le> src_len c then rewrite_range c s e else Return []) = Return t" "1 \<notin> set t"
  using range_yields [OF assms(1), of s e] assms(2) by (cases "s < e \<and> e \<le> src_len c") (auto simp: yields_def)

lemma render_oget_ok:
  assumes "site_ok bnd c" "b \<le> src_len c" "fits bnd a b [Span, Lit ''L'', Ident] fs \<or> fits bnd a b [Span, Lit ''E'', Span] fs"
  shows "renders (render_oget pr c (parts_of name fs))"
  using assms(3)
proof
  assume "fits bnd a b [Span, Lit ''L'', Ident] fs"
  then show ?thesis
    using assms(2) site_len [OF assms(1)]
    by (auto simp: render_oget_def parts_of_def Let_def fits_simps debug_str_def intro!: renders_and_then range_yields [OF assms(1)]
        one_in_debug_chars)
next
  assume "fits bnd a b [Span, Lit ''E'', Span] fs"
  then obtain os oe ks ke where fs: "fs = [Pos os, Pos oe, Txt (bs ''E''), Pos ks, Pos ke]"
      and spans: "os < oe" "oe \<le> b" "bnd os" "bnd oe" "ks < ke" "ke \<le> b" "bnd ks" "bnd ke"
    by (auto simp: fits_simps)
  obtain obj where obj: "rewrite_range c os oe = Return obj" "1 \<notin> set obj"
    by (rule key_span [OF assms(1) spans(3,4)])
  obtain key where key: "rewrite_range c ks ke = Return key" "1 \<notin> set key"
    by (rule key_span [OF assms(1) spans(7,8)])
  show ?thesis
    using spans obj key assms(2) site_len [OF assms(1)] by (simp add: render_oget_def parts_of_def fs)
qed

lemma dropWhile_absent: "x \<notin> set xs \<Longrightarrow> dropWhile (\<lambda>y. y = x) xs = xs"
  by (induction xs) auto

lemma render_deval_ok:
  assumes "site_ok bnd c" "b \<le> src_len c" "fits bnd a b [OptSpan, Word, Word, Word] fs"
  shows "renders (render_deval c (print_marker ''DEVAL'' fs))"
proof -
  obtain as ae t1 t2 t3 where fs: "fs = [Pos as, Pos ae, Txt t1, Txt t2, Txt t3]"
      and t: "1 \<notin> set t1" "1 \<notin> set t2" "1 \<notin> set t3" "as < 4294967296" "ae < 4294967296"
      and span: "as < ae \<Longrightarrow> bnd as \<and> bnd ae"
    using assms(3) by (auto simp: fits_simps)
  have "split_on 1 (print_marker ''DEVAL'' fs) = parts_of ''DEVAL'' fs"
    using fits_clean [OF assms(3)] by (intro split_print_marker) auto
  then have "splitn 7 1 (print_marker ''DEVAL'' fs) =
      [[], bs ''DEVAL'', to_string as, to_string ae, t1, t2, t3 @ [1]]"
    by (simp add: splitn_def parts_of_def fs Let_def)
  moreover have "trim_end_matches 1 (t3 @ [1]) = t3"
    using t(3) by (simp add: trim_end_matches_def dropWhile_absent)
  moreover obtain args where
    "(if as < ae \<and> ae \<le> src_len c then rewrite_range c as ae else Return []) = Return args" "1 \<notin> set args"
    by (rule opt_span [OF assms(1) span])
  ultimately show ?thesis
    using t by (simp add: render_deval_def Let_def)
qed

lemma render_ccall_ok:
  assumes "site_ok bnd c" "b \<le> src_len c" "fits bnd a b (Span # Span # OptSpan # Word # ss) fs"
  shows "renders (render_call pr c (parts_of ''CCALL'' fs))"
proof -
  obtain os oe ks ke as ae g gs where fs: "fs = Pos os # Pos oe # Pos ks # Pos ke # Pos as # Pos ae # Txt g # gs"
      and spans: "os < oe" "oe \<le> b" "bnd os" "bnd oe" "ks < ke" "ke \<le> b" "bnd ks" "bnd ke"
      and args: "as < 4294967296" "ae < 4294967296" "as < ae \<Longrightarrow> bnd as \<and> bnd ae"
    using assms(3) by (auto simp: fits_simps)
  obtain obj where obj: "rewrite_range c os oe = Return obj" "1 \<notin> set obj"
    by (rule key_span [OF assms(1) spans(3,4)])
  obtain key where key: "rewrite_range c ks ke = Return key" "1 \<notin> set key"
    by (rule key_span [OF assms(1) spans(7,8)])
  obtain ars where ars:
    "(if as < ae \<and> ae \<le> src_len c then rewrite_range c as ae else Return []) = Return ars" "1 \<notin> set ars"
    by (rule opt_span [OF assms(1) args(3)])
  obtain grp at_stmt where grp: "guard_fields (parts_of ''CCALL'' fs) 8 = (grp, at_stmt)" by fastforce
  have "call_key pr c (parts_of ''CCALL'' fs) False = Return (bs ''('' @ key @ bs '')'', 6)"
    using spans key assms(2) site_len [OF assms(1)] by (simp add: call_key_def parts_of_def fs Let_def)
  then show ?thesis
    using spans(1,2) obj key ars args(1,2) grp assms(2) site_len [OF assms(1)]
    by (auto simp: render_call_def parts_of_def fs Let_def dest!: one_in_temps intro!: push_guarded_ok [OF assms(1)]
        split: option.splits)
qed

lemma render_ocall_ok:
  assumes "site_ok bnd c" "b \<le> src_len c"
    "fits bnd a b [Span, Word, Lit ''L'', Ident, OptSpan] fs \<or> fits bnd a b [Span, Word, Lit ''E'', Span, OptSpan] fs"
  shows "renders (render_call pr c (parts_of ''OCALL'' fs))"
proof -
  have known: "renders (render_call pr c (parts_of ''OCALL'' fs))"
    if fs: "parts_of ''OCALL'' fs ! 2 = to_string os" "parts_of ''OCALL'' fs ! 3 = to_string oe"
        "parts_of ''OCALL'' fs ! ai = to_string as" "parts_of ''OCALL'' fs ! (ai + 1) = to_string ae"
        "ai + 1 < length (parts_of ''OCALL'' fs)" "7 \<le> length (parts_of ''OCALL'' fs)"
      and spans: "os < oe" "oe \<le> b" "bnd os" "bnd oe"
      and args: "as < 4294967296" "ae < 4294967296" "as < ae \<Longrightarrow> bnd as \<and> bnd ae"
      and key: "call_key pr c (parts_of ''OCALL'' fs) True = Return (key, ai)" "key \<noteq> []" "1 \<notin> set key"
    for os oe as ae ai key
  proof -
    obtain obj where obj: "rewrite_range c os oe = Return obj" "1 \<notin> set obj"
      by (rule key_span [OF assms(1) spans(3,4)])
    obtain ars where ars:
      "(if as < ae \<and> ae \<le> src_len c then rewrite_range c as ae else Return []) = Return ars" "1 \<notin> set ars"
      by (rule opt_span [OF assms(1) args(3)])
    have "parts_of ''OCALL'' fs ! 1 = bs ''OCALL''" by (simp add: parts_of_def)
    then show ?thesis
      using fs spans(1,2) obj ars args(1,2) key assms(2) site_len [OF assms(1)]
      by (simp add: render_call_def Let_def push_guarded_ok [OF assms(1)])
  qed
  from assms(3) show ?thesis
  proof
    assume "fits bnd a b [Span, Word, Lit ''L'', Ident, OptSpan] fs"
    then obtain os oe g nm as ae where fs: "fs = [Pos os, Pos oe, Txt g, Txt (bs ''L''), Txt nm, Pos as, Pos ae]"
        and "os < oe" "oe \<le> b" "bnd os" "bnd oe" "1 \<notin> set nm"
          "as < 4294967296" "ae < 4294967296" "as < ae \<Longrightarrow> bnd as \<and> bnd ae"
      by (auto simp: fits_simps)
    then show ?thesis
      by (intro known [of os oe 7 as ae "debug_str pr nm"]) (simp_all add: parts_of_def call_key_def debug_str_def one_in_debug_chars)
  next
    assume "fits bnd a b [Span, Word, Lit ''E'', Span, OptSpan] fs"
    then obtain os oe g ks ke as ae where fs: "fs = [Pos os, Pos oe, Txt g, Txt (bs ''E''), Pos ks, Pos ke, Pos as, Pos ae]"
        and spans: "os < oe" "oe \<le> b" "bnd os" "bnd oe" "ks < ke" "ke \<le> b" "bnd ks" "bnd ke"
          "as < 4294967296" "ae < 4294967296" "as < ae \<Longrightarrow> bnd as \<and> bnd ae"
      by (auto simp: fits_simps)
    obtain key where "rewrite_range c ks ke = Return key" "1 \<notin> set key"
      by (rule key_span [OF assms(1) spans(7,8)])
    with fs spans assms(2) site_len [OF assms(1)] show ?thesis
      by (intro known [of os oe 8 as ae "bs ''('' @ key @ bs '')''"]) (simp_all add: parts_of_def call_key_def Let_def)
  qed
qed

lemma render_for_cap_ok:
  assumes "rewrite_range c s e = Return mid" "59 \<in> set mid" "1 \<notin> set mid" "1 \<notin> set t" "s < e" "e \<le> src_len c" "e < 4294967296"
  shows "renders (render_for_cap c (parts_of name [Txt t, Pos s, Pos e]))"
proof -
  obtain i where "position (\<lambda>b. b = 59) mid = Some i"
    using assms(2) by (cases "position (\<lambda>b. b = 59) mid") (auto simp: position_None_iff)
  moreover have "1 \<notin> set (take k mid)" "1 \<notin> set (drop k mid)" for k
    using assms(3) by (auto dest: in_set_takeD in_set_dropD)
  ultimately show ?thesis
    using assms by (simp add: render_for_cap_def parts_of_def)
qed

lemma not_this_map: "CHR 0x01 \<notin> set name \<Longrightarrow> name \<noteq> ''THIS_MAP'' \<Longrightarrow> print_marker name fs \<noteq> marker ''THIS_MAP''"
  using starts_marker [of name "''THIS_MAP''" fs] by (auto simp: starts_with_def)

text \<open>The dispatch of \<^const>\<open>render_marker\<close> by the name of a marker.\<close>

lemma print_is_this_map:
  assumes "CHR 0x01 \<notin> set name" "\<forall>f \<in> set fs. 1 \<notin> set (show_field f)"
  shows "print_marker name fs = marker ''THIS_MAP'' \<longleftrightarrow> name = ''THIS_MAP'' \<and> fs = []"
proof
  assume eq: "print_marker name fs = marker ''THIS_MAP''"
  have "split_on 1 (print_marker name fs) = split_on 1 (print_marker ''THIS_MAP'' [])"
    using eq by (simp add: print_marker_def)
  then have "parts_of name fs = parts_of ''THIS_MAP'' []"
    using split_print_marker [OF assms] split_print_marker [of "''THIS_MAP''" "[]"] by simp
  then show "name = ''THIS_MAP'' \<and> fs = []" by (simp add: parts_of_def)
qed (simp add: print_marker_def)

lemma render_marker_name:
  assumes "CHR 0x01 \<notin> set name" "\<forall>f \<in> set fs. 1 \<notin> set (show_field f)" "replacement p = print_marker name fs"
  shows "render_marker pr c p =
     (if name = ''OCHAIN'' then render_ochain pr c p (parts_of name fs)
      else if name = ''GLOBAL_SET'' then render_global_set pr c (parts_of name fs)
      else if name = ''GLOBAL_ASSIGN'' then render_global_assign pr c (parts_of name fs)
      else if name = ''GLOBAL_UPDATE'' then render_global_update pr c (parts_of name fs)
      else if name = ''GLOBAL_DESTR'' then render_global_destr pr c (parts_of name fs)
      else if name = ''SHORTHAND_GLOBAL_GET'' then render_shorthand_global_get pr c (parts_of name fs)
      else if name = ''GLOBAL_GET'' then render_global_get pr c (parts_of name fs)
      else if name = ''THIS_MAP'' \<and> fs = [] then render_this_map c
      else if name = ''MEMBER_GET'' then render_member_get pr c (parts_of name fs)
      else if name = ''MEMBER_REF'' \<or> name = ''MEMBER_REF_STMT'' then render_member_ref pr c (parts_of name fs)
      else if name = ''MEMBER_SET'' then render_member_set pr c (parts_of name fs)
      else if name = ''MODULE_URL'' then render_module_url c (parts_of name fs)
      else if name = ''METHOD_CALL'' then render_method_call pr c (parts_of name fs)
      else if name = ''VAR_SET'' \<or> name = ''VAR_WSET'' then render_var_set pr c (parts_of name fs)
      else if name = ''WTREF'' \<or> name = ''WTREF_STMT'' then render_wtref pr c (parts_of name fs)
      else if name = ''WITH_OBJ'' then render_with_obj c (parts_of name fs)
      else if name = ''WITH_SET'' then render_with_set pr c (parts_of name fs)
      else if name = ''WITH_ASSIGN'' then render_with_assign pr c (parts_of name fs)
      else if name = ''CGET'' then render_cget c (parts_of name fs)
      else if name = ''CSET'' then render_cset c (parts_of name fs)
      else if name = ''CASSIGN'' \<or> name = ''CASSIGN_STMT'' then render_cassign c (parts_of name fs)
      else if name = ''CREF'' \<or> name = ''CREF_STMT'' then render_cref c (parts_of name fs)
      else if name = ''OGET'' then render_oget pr c (parts_of name fs)
      else if name = ''OCALL'' \<or> name = ''CCALL'' then render_call pr c (parts_of name fs)
      else if name = ''DEVAL'' then render_deval c (print_marker name fs)
      else if name = ''RGET'' then render_rget c (parts_of name fs)
      else if name = ''RSET'' then render_rset c (parts_of name fs)
      else if name = ''GOPD'' then render_binary ''__zp_getOwnPropertyDescriptor'' c (parts_of name fs)
      else if name = ''GOPDS'' then render_unary ''__zp_getOwnPropertyDescriptors'' c (parts_of name fs)
      else if name = ''GOWN'' then render_unary ''__zp_getOwnPropertyNames'' c (parts_of name fs)
      else if name = ''OKEYS'' then render_unary ''__zp_okeys'' c (parts_of name fs)
      else if name = ''RHAS'' then render_binary ''__zp_has'' c (parts_of name fs)
      else if name = ''ROWK'' then render_unary ''__zp_ownKeys'' c (parts_of name fs)
      else if name = ''CDELE'' then render_cdele c (parts_of name fs)
      else if name = ''SDELE'' then render_sdele pr c (parts_of name fs)
      else if name = ''MEMBER_A'' \<or> name = ''MEMBER_A_STMT'' then render_member_assign pr c (parts_of name fs)
      else if name = ''FOR_CAP'' then render_for_cap c (parts_of name fs)
      else falls)"
proof -
  have is_name: "CHR 0x01 \<notin> set m \<Longrightarrow> starts_with (marker m) (print_marker name fs) \<longleftrightarrow> name = m" for m
    using starts_marker [OF assms(1), of m] by auto
  have names: "starts_with (marker ''OCHAIN'') (print_marker name fs) \<longleftrightarrow> name = ''OCHAIN''"
    "starts_with (marker ''GLOBAL_SET'') (print_marker name fs) \<longleftrightarrow> name = ''GLOBAL_SET''"
    "starts_with (marker ''GLOBAL_ASSIGN'') (print_marker name fs) \<longleftrightarrow> name = ''GLOBAL_ASSIGN''"
    "starts_with (marker ''GLOBAL_UPDATE'') (print_marker name fs) \<longleftrightarrow> name = ''GLOBAL_UPDATE''"
    "starts_with (marker ''GLOBAL_DESTR'') (print_marker name fs) \<longleftrightarrow> name = ''GLOBAL_DESTR''"
    "starts_with (marker ''SHORTHAND_GLOBAL_GET'') (print_marker name fs) \<longleftrightarrow> name = ''SHORTHAND_GLOBAL_GET''"
    "starts_with (marker ''GLOBAL_GET'') (print_marker name fs) \<longleftrightarrow> name = ''GLOBAL_GET''"
    "starts_with (marker ''MEMBER_GET'') (print_marker name fs) \<longleftrightarrow> name = ''MEMBER_GET''"
    "starts_with (marker ''MEMBER_REF'') (print_marker name fs) \<longleftrightarrow> name = ''MEMBER_REF''"
    "starts_with (marker ''MEMBER_REF_STMT'') (print_marker name fs) \<longleftrightarrow> name = ''MEMBER_REF_STMT''"
    "starts_with (marker ''MEMBER_SET'') (print_marker name fs) \<longleftrightarrow> name = ''MEMBER_SET''"
    "starts_with (marker ''MODULE_URL'') (print_marker name fs) \<longleftrightarrow> name = ''MODULE_URL''"
    "starts_with (marker ''METHOD_CALL'') (print_marker name fs) \<longleftrightarrow> name = ''METHOD_CALL''"
    "starts_with (marker ''VAR_SET'') (print_marker name fs) \<longleftrightarrow> name = ''VAR_SET''"
    "starts_with (marker ''VAR_WSET'') (print_marker name fs) \<longleftrightarrow> name = ''VAR_WSET''"
    "starts_with (marker ''WTREF'') (print_marker name fs) \<longleftrightarrow> name = ''WTREF''"
    "starts_with (marker ''WTREF_STMT'') (print_marker name fs) \<longleftrightarrow> name = ''WTREF_STMT''"
    "starts_with (marker ''WITH_OBJ'') (print_marker name fs) \<longleftrightarrow> name = ''WITH_OBJ''"
    "starts_with (marker ''WITH_SET'') (print_marker name fs) \<longleftrightarrow> name = ''WITH_SET''"
    "starts_with (marker ''WITH_ASSIGN'') (print_marker name fs) \<longleftrightarrow> name = ''WITH_ASSIGN''"
    "starts_with (marker ''CGET'') (print_marker name fs) \<longleftrightarrow> name = ''CGET''"
    "starts_with (marker ''CSET'') (print_marker name fs) \<longleftrightarrow> name = ''CSET''"
    "starts_with (marker ''CASSIGN'') (print_marker name fs) \<longleftrightarrow> name = ''CASSIGN''"
    "starts_with (marker ''CASSIGN_STMT'') (print_marker name fs) \<longleftrightarrow> name = ''CASSIGN_STMT''"
    "starts_with (marker ''CREF'') (print_marker name fs) \<longleftrightarrow> name = ''CREF''"
    "starts_with (marker ''CREF_STMT'') (print_marker name fs) \<longleftrightarrow> name = ''CREF_STMT''"
    "starts_with (marker ''OGET'') (print_marker name fs) \<longleftrightarrow> name = ''OGET''"
    "starts_with (marker ''OCALL'') (print_marker name fs) \<longleftrightarrow> name = ''OCALL''"
    "starts_with (marker ''CCALL'') (print_marker name fs) \<longleftrightarrow> name = ''CCALL''"
    "starts_with (marker ''DEVAL'') (print_marker name fs) \<longleftrightarrow> name = ''DEVAL''"
    "starts_with (marker ''RGET'') (print_marker name fs) \<longleftrightarrow> name = ''RGET''"
    "starts_with (marker ''RSET'') (print_marker name fs) \<longleftrightarrow> name = ''RSET''"
    "starts_with (marker ''GOPD'') (print_marker name fs) \<longleftrightarrow> name = ''GOPD''"
    "starts_with (marker ''GOPDS'') (print_marker name fs) \<longleftrightarrow> name = ''GOPDS''"
    "starts_with (marker ''GOWN'') (print_marker name fs) \<longleftrightarrow> name = ''GOWN''"
    "starts_with (marker ''OKEYS'') (print_marker name fs) \<longleftrightarrow> name = ''OKEYS''"
    "starts_with (marker ''RHAS'') (print_marker name fs) \<longleftrightarrow> name = ''RHAS''"
    "starts_with (marker ''ROWK'') (print_marker name fs) \<longleftrightarrow> name = ''ROWK''"
    "starts_with (marker ''CDELE'') (print_marker name fs) \<longleftrightarrow> name = ''CDELE''"
    "starts_with (marker ''SDELE'') (print_marker name fs) \<longleftrightarrow> name = ''SDELE''"
    "starts_with (marker ''MEMBER_A'') (print_marker name fs) \<longleftrightarrow> name = ''MEMBER_A''"
    "starts_with (marker ''MEMBER_A_STMT'') (print_marker name fs) \<longleftrightarrow> name = ''MEMBER_A_STMT''"
    "starts_with (marker ''FOR_CAP'') (print_marker name fs) \<longleftrightarrow> name = ''FOR_CAP''"
    by (rule is_name; simp)+
  show ?thesis
    unfolding render_marker_def assms(3) Let_def split_print_marker [OF assms(1,2)] names print_is_this_map [OF assms(1,2)]
    by (rule refl)
qed

lemma render_format_ok:
  assumes "(name, slots) \<in> set marker_formats" "fits bnd a b slots fs" "site_ok bnd c" "b \<le> src_len c"
    and p: "replacement p = print_marker name fs"
  shows "renders (render_marker pr c p)"
proof -
  have name: "CHR 0x01 \<notin> set name"
    using formats_names [of name slots] assms(1) by simp
  note eq = render_marker_name [OF name _ p, of pr c]
  note rules = render_global_set_ok render_global_assign_ok render_global_update_ok
    render_global_destr_ok [OF _ _ disjI1] render_global_destr_ok [OF _ _ disjI2]
    render_shorthand_global_get_ok render_global_get_ok render_member_get_ok render_member_ref_ok
    render_member_set_ok render_member_assign_ok render_module_url_ok render_method_call_ok
    render_var_set_ok [OF _ _ disjI1] render_var_set_ok [OF _ _ disjI2] render_wtref_ok render_with_obj_ok
    render_with_set_ok render_with_assign_ok render_sdele_ok render_cdele_ok render_cref_ok render_cget_ok
    render_cset_ok render_cassign_ok render_rget_ok render_rset_ok render_oget_ok [OF _ _ disjI1]
    render_oget_ok [OF _ _ disjI2] render_deval_ok render_ccall_ok render_ocall_ok [OF _ _ disjI1]
    render_ocall_ok [OF _ _ disjI2]
  have clean: "\<forall>f \<in> set fs. 1 \<notin> set (show_field f)"
    using fits_clean [OF assms(2)] by blast
  show ?thesis
    unfolding eq [OF clean]
    using assms(1,2) unfolding marker_formats_def list.set insert_iff prod.inject
    apply (elim disjE conjE emptyE)
    apply (simp_all add: fits_Nil render_this_map_def)
    apply (erule rules [OF assms(3,4)] | (rule render_unary_ok [OF assms(3,4)] render_binary_ok [OF assms(3,4)], assumption, simp))+
    done
qed

subsection \<open>Optional chains\<close>

datatype chain_key = KeyName str | KeyExpr nat nat

datatype chain_split =
    Member nat
  | Plain_Call nat
  | Method nat chain_key nat

fun encode :: "chain_split \<Rightarrow> str" where
  "encode (Member base_end) = bs ''M,'' @ to_string base_end"
| "encode (Plain_Call callee_end) = bs ''P,'' @ to_string callee_end"
| "encode (Method obj_end (KeyName n) callee_end) =
     bs ''S,'' @ to_string obj_end @ bs '','' @ to_string callee_end @ bs '','' @ n"
| "encode (Method obj_end (KeyExpr ks ke) callee_end) =
     bs ''K,'' @ to_string obj_end @ bs '','' @ to_string callee_end @ bs '','' @ to_string ks @ bs '','' @ to_string ke"

fun base_end :: "chain_split \<Rightarrow> nat" where
  "base_end (Member e) = e"
| "base_end (Plain_Call e) = e"
| "base_end (Method _ _ e) = e"

definition print_chain :: "nat \<Rightarrow> nat \<Rightarrow> chain_split list \<Rightarrow> str" where
  "print_chain cs ce splits = print_marker ''OCHAIN'' (Pos cs # Pos ce # map (Txt \<circ> encode) splits)"

fun shift_split :: "nat \<Rightarrow> chain_split \<Rightarrow> chain_split" where
  "shift_split off (Member e) = Member (e - off)"
| "shift_split off (Plain_Call e) = Plain_Call (e - off)"
| "shift_split off (Method oe (KeyName n) e) = Method (oe - off) (KeyName n) (e - off)"
| "shift_split off (Method oe (KeyExpr ks ke) e) = Method (oe - off) (KeyExpr (ks - off) (ke - off)) (e - off)"

fun split_ok :: "(nat \<Rightarrow> bool) \<Rightarrow> nat \<Rightarrow> nat \<Rightarrow> chain_split \<Rightarrow> bool" where
  "split_ok bnd a b (Member e) \<longleftrightarrow> a < e \<and> e \<le> b \<and> bnd e"
| "split_ok bnd a b (Plain_Call e) \<longleftrightarrow> a < e \<and> e \<le> b \<and> bnd e"
| "split_ok bnd a b (Method oe (KeyName n) e) \<longleftrightarrow>
     a < oe \<and> oe \<le> b \<and> bnd oe \<and> a < e \<and> e \<le> b \<and> bnd e \<and> 1 \<notin> set n \<and> 44 \<notin> set n \<and> num n = None"
| "split_ok bnd a b (Method oe (KeyExpr ks ke) e) \<longleftrightarrow>
     a < oe \<and> oe \<le> b \<and> bnd oe \<and> a < e \<and> e \<le> b \<and> bnd e \<and> a \<le> ks \<and> ks < ke \<and> ke \<le> b \<and> bnd ks \<and> bnd ke"

fun split_parts :: "chain_split \<Rightarrow> str list" where
  "split_parts (Member e) = [bs ''M'', to_string e]"
| "split_parts (Plain_Call e) = [bs ''P'', to_string e]"
| "split_parts (Method oe (KeyName n) e) = [bs ''S'', to_string oe, to_string e, n]"
| "split_parts (Method oe (KeyExpr ks ke) e) = [bs ''K'', to_string oe, to_string e, to_string ks, to_string ke]"

lemma comma_in_to_string [simp]: "44 \<notin> set (to_string n)"
proof
  assume "44 \<in> set (to_string n)"
  then have "is_ascii_digit 44" using to_string_digits by blast
  then show False by (simp add: is_ascii_digit_def word_le_nat_alt)
qed

lemma split_on_letter: "x \<noteq> c \<Longrightarrow> split_on c (x # c # xs) = [x] # split_on c xs"
  by simp

lemma split_encode: "split_ok bnd a b sp \<Longrightarrow> split_on 44 (encode sp) = split_parts sp"
  by (induction bnd a b sp rule: split_ok.induct) (simp_all add: bs_def split_on_append_sep split_on_absent)

lemma join_split_parts: "join [44] (split_parts sp) = encode sp"
  by (induction sp rule: encode.induct) (simp_all add: bs_def)

lemma encode_clean: "split_ok bnd a b sp \<Longrightarrow> 1 \<notin> set (encode sp)"
  by (induction bnd a b sp rule: split_ok.induct) simp_all

lemma encode_comma: "44 \<in> set (encode sp)"
  by (induction sp rule: encode.induct) (simp_all add: bs_def)

lemma encode_not_Nil [simp]: "encode sp \<noteq> []"
  by (induction sp rule: encode.induct) simp_all

lemma shift_encode:
  assumes "split_ok bnd a b sp" "b < 2 ^ 32" "4 \<le> i"
  shows "shift_chain_part off i (encode sp) = encode (shift_split off sp)"
proof -
  have "map (\<lambda>(j, f). if j = 0 then f else shift_pos off f) (enumerate 0 (split_parts sp)) = split_parts (shift_split off sp)"
    using assms(1,2) by (induction bnd a b sp rule: split_ok.induct) simp_all
  then show ?thesis
    using assms encode_comma [of sp]
    by (simp add: shift_chain_part_def split_encode [OF assms(1)] join_split_parts)
qed

lemma shift_splits:
  assumes "\<forall>sp \<in> set splits. split_ok bnd a b sp" "b < 2 ^ 32" "4 \<le> k"
  shows "map (\<lambda>(i, s). shift_chain_part off i s) (enumerate k (map encode splits @ [[]]))
           = map encode (map (shift_split off) splits) @ [[]]"
  using assms
proof (induction splits arbitrary: k)
  case Nil
  then show ?case by (simp add: shift_chain_part_def)
next
  case (Cons sp splits)
  then have "shift_chain_part off k (encode sp) = encode (shift_split off sp)"
    by (intro shift_encode [of bnd a b]) auto
  with Cons show ?case by simp
qed

lemma shift_chain_part_head:
  "shift_chain_part off 0 s = s" "shift_chain_part off (Suc 0) s = s"
  "shift_chain_part off (Suc (Suc 0)) s = shift_pos off s" "shift_chain_part off (Suc (Suc (Suc 0))) s = shift_pos off s"
  by (simp_all add: shift_chain_part_def)

lemma chain_clean:
  "\<forall>sp \<in> set splits. split_ok bnd a b sp \<Longrightarrow>
     \<forall>f \<in> set (Pos cs # Pos ce # map (Txt \<circ> encode) splits). 1 \<notin> set (show_field f)"
  by (auto dest: encode_clean)

lemma parts_of_chain:
  "parts_of ''OCHAIN'' (Pos cs # Pos ce # map (Txt \<circ> encode) splits)
     = [] # bs ''OCHAIN'' # to_string cs # to_string ce # map encode splits @ [[]]"
  by (simp add: parts_of_def comp_def)

lemma shift_print_chain:
  assumes "\<forall>sp \<in> set splits. split_ok bnd a b sp" "a < b" "b < 2 ^ 32"
  shows "shift_marker_positions (print_chain a b splits) off = print_chain (a - off) (b - off) (map (shift_split off) splits)"
proof -
  have "split_on 1 (print_chain a b splits) = [] # bs ''OCHAIN'' # to_string a # to_string b # map encode splits @ [[]]"
    unfolding print_chain_def parts_of_chain [symmetric] by (rule split_print_marker) (use chain_clean [OF assms(1)] in auto)
  moreover have "map (\<lambda>(i, s). shift_chain_part off i s)
      (enumerate 0 ([] # bs ''OCHAIN'' # to_string a # to_string b # map encode splits @ [[]]))
      = parts_of ''OCHAIN'' (Pos (a - off) # Pos (b - off) # map (Txt \<circ> encode) (map (shift_split off) splits))"
    using shift_splits [OF assms(1,3), of "Suc (Suc (Suc (Suc 0)))" off] assms(2,3)
    by (simp add: parts_of_def comp_def shift_chain_part_head)
  ultimately show ?thesis
    by (simp add: shift_marker_positions_def print_chain_def starts_marker join_parts_of)
qed

lemma those_map_Some: "(\<And>x. x \<in> set xs \<Longrightarrow> f x = Some (g x)) \<Longrightarrow> those (map f xs) = Some (map g xs)"
  by (induction xs) auto

lemma chain_end_parts: "split_ok bnd a b sp \<Longrightarrow> b < 4294967296 \<Longrightarrow> chain_end (split_parts sp) = Some (base_end sp)"
  by (induction bnd a b sp rule: split_ok.induct) (simp_all add: chain_end_def num_at_def part_def)

lemma base_end_ok: "split_ok bnd a b sp \<Longrightarrow> a < base_end sp \<and> base_end sp \<le> b \<and> bnd (base_end sp)"
  by (induction bnd a b sp rule: split_ok.induct) simp_all

text \<open>The same for a prefix of the chain, with a shorter prefix standing for the parameter of its continuation.\<close>

definition chain_site_ok :: "(nat \<Rightarrow> bool) \<Rightarrow> nat \<Rightarrow> nat \<Rightarrow> site \<Rightarrow> bool" where
  "chain_site_ok bnd a b c \<longleftrightarrow>
     (\<forall>e ov. a < e \<longrightarrow> bnd e \<longrightarrow> (\<forall>x \<in> set_option ov. fst x = a \<and> bnd (snd x) \<and> snd x \<le> b) \<longrightarrow>
        yields (rewrite_range_ov c a e ov))"

lemma range_ov_yields:
  assumes "chain_site_ok bnd a b c" "a < e" "bnd e" "\<forall>x \<in> set_option ov. fst x = a \<and> bnd (snd x) \<and> snd x \<le> b"
  shows "yields (rewrite_range_ov c a e ov)"
  using assms unfolding chain_site_ok_def by blast

lemma chain_base_ok:
  assumes "site_ok bnd c" "b \<le> src_len c" "chain_site_ok bnd a b c" "\<forall>sp \<in> set splits. split_ok bnd a b sp" "i < length splits"
  shows "renders (chain_base pr c a (map base_end splits) (map split_parts splits) i)"
proof -
  define prev where "prev = (if i = 0 then None else Some (a, map base_end splits ! (i - 1)))"
  have len: "b < 4294967296" using assms(2) site_len [OF assms(1)] by simp
  have prev: "\<forall>x \<in> set_option prev. fst x = a \<and> bnd (snd x) \<and> snd x \<le> b"
    using assms(4,5) base_end_ok [of bnd a b "splits ! (i - 1)"] by (simp add: prev_def)
  have range: "yields (rewrite_range_ov c a e prev)" if "a < e" "bnd e" for e
    using that prev by (intro range_ov_yields [OF assms(3)])
  have sp: "split_ok bnd a b (splits ! i)" using assms(4,5) by simp
  show ?thesis
  proof (cases "splits ! i")
    case (Member e)
    with sp assms(5) show ?thesis
      unfolding chain_base_def Let_def prev_def [symmetric]
      by (auto intro!: renders_and_then range)
  next
    case (Plain_Call e)
    with sp assms(5) show ?thesis
      unfolding chain_base_def Let_def prev_def [symmetric]
      by (auto intro!: renders_and_then range)
  next
    case (Method oe key e)
    show ?thesis
    proof (cases key)
      case (KeyName n)
      with Method sp assms(5) len show ?thesis
        unfolding chain_base_def Let_def prev_def [symmetric]
        by (auto simp: num_at_def part_def intro!: renders_and_then range)
    next
      case (KeyExpr ks ke)
      with Method sp assms(2,5) len show ?thesis
        unfolding chain_base_def Let_def prev_def [symmetric]
        by (auto simp: num_at_def part_def intro!: renders_and_then range range_yields [OF assms(1)])
    qed
  qed
qed

lemma chain_wrap_ok:
  assumes "site_ok bnd c" "b \<le> src_len c" "chain_site_ok bnd a b c" "\<forall>sp \<in> set splits. split_ok bnd a b sp" "i \<le> length splits" "1 \<notin> set acc"
  shows "renders (chain_wrap pr c a (map base_end splits) (map split_parts splits) i acc)"
  using assms(5,6)
proof (induction i arbitrary: acc)
  case 0
  then show ?case by simp
next
  case (Suc i)
  then obtain t where "chain_base pr c a (map base_end splits) (map split_parts splits) i = pushed t" "1 \<notin> set t"
    using chain_base_ok [OF assms(1-4), of i pr] by (auto simp: renders_def)
  with Suc show ?case by simp
qed

lemma render_chain_ok:
  assumes "site_ok bnd c" "b \<le> src_len c" "chain_site_ok bnd a b c" "bnd b" "a < b" "\<forall>sp \<in> set splits. split_ok bnd a b sp" "splits \<noteq> []"
    and p: "replacement p = print_chain a b splits"
  shows "renders (render_marker pr c p)"
proof -
  let ?parts = "[] # bs ''OCHAIN'' # to_string a # to_string b # map encode splits @ [[]]"
  have len: "b < 4294967296" using assms(2) site_len [OF assms(1)] by simp
  have marker: "render_marker pr c p = render_ochain pr c p ?parts"
    using render_marker_name [OF _ chain_clean [OF assms(6)] p [unfolded print_chain_def], of pr c]
    by (simp add: parts_of_chain)
  have "filter (\<lambda>s. s \<noteq> []) (map encode splits @ [[]]) = map encode splits"
    by (simp add: filter_id_conv)
  then have splits: "map (split_on 44) (filter (\<lambda>s. s \<noteq> []) (drop 4 ?parts)) = map split_parts splits"
    using assms(6) by (auto simp: split_encode [of bnd a b])
  have ends: "those (map chain_end (map split_parts splits)) = Some (map base_end splits)"
    using assms(6) len those_map_Some [of splits "chain_end \<circ> split_parts" base_end]
    by (simp add: chain_end_parts [of bnd a b])
  have "last (map base_end splits) = base_end (last splits)" "split_ok bnd a b (last splits)"
    using assms(6,7) by (simp_all add: last_map)
  then have "yields (rewrite_range_ov c a b (Some (a, last (map base_end splits))))"
    using assms(4,5) base_end_ok by (intro range_ov_yields [OF assms(3)]) auto
  then obtain acc where acc: "rewrite_range_ov c a b (Some (a, last (map base_end splits))) = Return acc" "1 \<notin> set acc"
    by (auto simp: yields_def)
  obtain t where t: "chain_wrap pr c a (map base_end splits) (map split_parts splits) (length splits) acc = pushed t" "1 \<notin> set t"
    using chain_wrap_ok [OF assms(1-3,6) order_refl acc(2), of pr] by (auto simp: renders_def)
  show ?thesis
    unfolding marker render_ochain_def splits ends Let_def
    using assms(2,5,7) len acc t by (simp add: num_at_def part_def)
qed

subsection \<open>The patches the visitor leaves\<close>

definition is_cap :: "patch \<Rightarrow> bool" where
  "is_cap p \<longleftrightarrow> starts_with (marker ''FOR_CAP'') (replacement p)"

definition marker_ok :: "(nat \<Rightarrow> bool) \<Rightarrow> nat \<Rightarrow> nat \<Rightarrow> str \<Rightarrow> bool" where
  "marker_ok bnd a b r \<longleftrightarrow>
     1 \<notin> set r
     \<or> (\<exists>name slots fs. (name, slots) \<in> set marker_formats \<and> fits bnd a b slots fs \<and> r = print_marker name fs)
     \<or> (\<exists>splits. a < b \<and> splits \<noteq> [] \<and> (\<forall>sp \<in> set splits. split_ok bnd a b sp) \<and> r = print_chain a b splits)
     \<or> (\<exists>t. a < b \<and> 1 \<notin> set t \<and> r = print_marker ''FOR_CAP'' [Txt t, Pos a, Pos b])"

definition patch_ok :: "str \<Rightarrow> patch \<Rightarrow> bool" where
  "patch_ok source p \<longleftrightarrow>
     patch_start p \<le> patch_end p \<and> patch_end p \<le> length source
     \<and> is_char_boundary source (patch_start p) \<and> is_char_boundary source (patch_end p)
     \<and> marker_ok (is_char_boundary source) (patch_start p) (patch_end p) (replacement p)"

text \<open>
  The region a for-loop cap is spliced into holds the semicolons of an empty loop header, so no other
  patch starts in it, an insertion before it apart.
\<close>

definition starters :: "patch list \<Rightarrow> nat \<Rightarrow> nat \<Rightarrow> nat" where
  "starters ps a b = length (filter (\<lambda>q. a \<le> patch_start q \<and> patch_start q < b
     \<and> \<not> (patch_start q = patch_end q \<and> patch_start q = a)) ps)"

definition cap_ok :: "str \<Rightarrow> patch list \<Rightarrow> patch \<Rightarrow> bool" where
  "cap_ok source ps p \<longleftrightarrow>
     59 \<in> set (take (patch_end p - patch_start p) (drop (patch_start p) source))
     \<and> starters ps (patch_start p) (patch_end p) \<le> 1"

definition patches_ok :: "str \<Rightarrow> patch list \<Rightarrow> bool" where
  "patches_ok source ps \<longleftrightarrow> list_all (patch_ok source) ps \<and> list_all (cap_ok source ps) (filter is_cap ps)"

lemma boundary_slice:
  assumes "is_char_boundary s v" "a \<le> v" "v \<le> b" "b \<le> length s"
  shows "is_char_boundary (take (b - a) (drop a s)) (v - a)"
proof -
  have len: "length (take (b - a) (drop a s)) = b - a" using assms by simp
  show ?thesis
  proof (cases "v = b \<or> v = a")
    case True
    with len show ?thesis by (auto simp: is_char_boundary_def)
  next
    case False
    with assms have "v < b" "v \<noteq> 0" "v < length s" "\<not> is_cont (s ! v)"
      by (auto simp: is_char_boundary_def)
    moreover from this assms have "take (b - a) (drop a s) ! (v - a) = s ! v" by simp
    moreover have "v - a < b - a" using \<open>v < b\<close> assms(2) by arith
    ultimately show ?thesis
      using assms len by (simp add: is_char_boundary_def)
  qed
qed

lemma fits_shift:
  assumes "fits bnd a b slots fs" "off \<le> a" "\<And>v. off \<le> v \<Longrightarrow> v \<le> b \<Longrightarrow> bnd v \<Longrightarrow> bnd' (v - off)"
  shows "fits bnd' (a - off) (b - off) slots (map (shift_field off) fs)"
  using assms
proof (induction bnd a b slots fs rule: fits.induct)
  case (3 bnd a b ss s e fs)
  then have "fits bnd' (a - off) (b - off) ss (map (shift_field off) fs)" by simp
  moreover have "s - off < 2 ^ 32" "e - off < 2 ^ 32" using 3 by auto
  moreover have "e - off \<le> s - off \<or> a - off \<le> s - off \<and> e - off \<le> b - off \<and> bnd' (s - off) \<and> bnd' (e - off)"
    using 3 by (cases "e \<le> s") auto
  ultimately show ?case by simp
qed auto

lemma split_ok_shift:
  assumes "split_ok bnd a b sp" "off \<le> a" "\<And>v. off \<le> v \<Longrightarrow> v \<le> b \<Longrightarrow> bnd v \<Longrightarrow> bnd' (v - off)"
  shows "split_ok bnd' (a - off) (b - off) (shift_split off sp)"
  using assms by (induction bnd a b sp rule: split_ok.induct) auto

lemma shift_clean:
  assumes "1 \<notin> set r"
  shows "shift_marker_positions r off = r"
proof -
  have no: "\<not> starts_with (marker m) r" for m
    using assms by (auto simp: starts_with_iff_prefix prefix_def marker_def)
  then have "find (\<lambda>(name, _). starts_with (marker name) r) shift_indices = None"
    by (auto simp: find_None_iff)
  with no show ?thesis by (simp add: shift_marker_positions_def)
qed

lemma marker_ok_shift:
  assumes ok: "marker_ok bnd a b r" and "off \<le> a" "b < 2 ^ 32"
    and bnd: "\<And>v. off \<le> v \<Longrightarrow> v \<le> b \<Longrightarrow> bnd v \<Longrightarrow> bnd' (v - off)"
  shows "marker_ok bnd' (a - off) (b - off) (shift_marker_positions r off)
    \<and> starts_with (marker ''FOR_CAP'') (shift_marker_positions r off) = starts_with (marker ''FOR_CAP'') r"
  using ok unfolding marker_ok_def [of bnd]
proof (elim disjE exE conjE)
  assume "1 \<notin> set r"
  then show ?thesis by (simp add: shift_clean marker_ok_def)
next
  fix name slots fs
  assume f: "(name, slots) \<in> set marker_formats" "fits bnd a b slots fs" and r: "r = print_marker name fs"
  have shift: "shift_marker_positions r off = print_marker name (map (shift_field off) fs)"
    unfolding r using f assms(3) by (intro shift_print_marker) auto
  moreover have "fits bnd' (a - off) (b - off) slots (map (shift_field off) fs)"
    using f(2) assms(2) bnd by (rule fits_shift)
  moreover have "CHR 0x01 \<notin> set name" using formats_names [of name slots] f(1) by simp
  ultimately show ?thesis
    unfolding marker_ok_def r using f(1) by (auto simp: starts_marker)
next
  fix splits
  assume s: "a < b" "splits \<noteq> []" "\<forall>sp \<in> set splits. split_ok bnd a b sp" and r: "r = print_chain a b splits"
  have shift: "shift_marker_positions r off = print_chain (a - off) (b - off) (map (shift_split off) splits)"
    unfolding r using s assms(3) by (intro shift_print_chain) auto
  moreover have "\<forall>sp \<in> set (map (shift_split off) splits). split_ok bnd' (a - off) (b - off) sp"
    using s(3) by (auto intro!: split_ok_shift [of bnd a b] assms(2) bnd)
  moreover have "a - off < b - off" using s assms(2) by simp
  ultimately have "marker_ok bnd' (a - off) (b - off) (shift_marker_positions r off)"
    unfolding marker_ok_def using s(2) by (metis list.map_disc_iff)
  with shift show ?thesis
    unfolding r print_chain_def by (simp add: starts_marker)
next
  fix t
  assume t: "a < b" "1 \<notin> set t" and r: "r = print_marker ''FOR_CAP'' [Txt t, Pos a, Pos b]"
  have "shift_marker_positions r off = print_marker ''FOR_CAP'' [Txt t, Pos (a - off), Pos (b - off)]"
    unfolding r using shift_print_marker [of "''FOR_CAP''" "[Word, Span]" "\<lambda>_. True" a b "[Txt t, Pos a, Pos b]" off] t assms(3)
    by (simp add: cap_format_def)
  moreover have "a - off < b - off" using t assms(2) by simp
  ultimately show ?thesis
    unfolding marker_ok_def r using t by (auto simp: starts_marker)
qed

subsection \<open>The patches of a sub-range\<close>

lemma map_snd_filter_enumerate:
  "length (filter (\<lambda>(_, q). Q q) (enumerate k ps)) = length (filter Q ps)"
  by (metis (mono_tags, lifting) case_prod_unfold comp_def filter_cong filter_map length_map map_snd_enumerate)

lemma inner_patchesE:
  assumes "q' \<in> set (inner_patches ps i p a b)"
  obtains q where "q \<in> set ps" "a \<le> patch_start q" "patch_end q \<le> b"
    "q' = \<lparr>patch_start = patch_start q - a, patch_end = patch_end q - a, replacement = shift_marker_positions (replacement q) a\<rparr>"
proof -
  obtain j q where "(j, q) \<in> set (enumerate 0 ps)" "a \<le> patch_start q" "patch_end q \<le> b"
    and q': "q' = \<lparr>patch_start = patch_start q - a, patch_end = patch_end q - a, replacement = shift_marker_positions (replacement q) a\<rparr>"
    using assms unfolding inner_patches_def set_map set_filter
    by (elim imageE CollectE conjE) (metis (no_types, lifting) case_prod_conv surj_pair)
  moreover from this(1) have "q \<in> set ps" by (auto simp: in_set_enumerate_eq)
  ultimately show thesis by (intro that)
qed

lemma starters_inner:
  assumes "a \<le> s"
  shows "starters (inner_patches ps i p a b) (s - a) (e - a) \<le> starters ps s e"
proof -
  let ?Q = "\<lambda>q. s \<le> patch_start q \<and> patch_start q < e \<and> \<not> (patch_start q = patch_end q \<and> patch_start q = s)"
  have "starters (inner_patches ps i p a b) (s - a) (e - a) \<le> length (filter (\<lambda>(_, q). ?Q q) (enumerate 0 ps))"
    unfolding starters_def inner_patches_def filter_map length_map filter_filter
    by (rule length_filter_imp) (use assms in \<open>auto simp: comp_def\<close>)
  then show ?thesis unfolding map_snd_filter_enumerate starters_def .
qed

lemma str_slice_ok:
  "a \<le> b \<Longrightarrow> b \<le> length s \<Longrightarrow> is_char_boundary s a \<Longrightarrow> is_char_boundary s b \<Longrightarrow>
     str_slice s a b = Return (take (b - a) (drop a s))"
  by (simp add: str_slice_def)

lemma patch_ok_inner:
  assumes "patch_ok source q" "a \<le> patch_start q" "patch_end q \<le> b" "b \<le> length source" "length source < 2 ^ 32"
  defines "q' \<equiv> \<lparr>patch_start = patch_start q - a, patch_end = patch_end q - a,
                  replacement = shift_marker_positions (replacement q) a\<rparr>"
  shows "patch_ok (take (b - a) (drop a source)) q' \<and> (is_cap q' \<longleftrightarrow> is_cap q)"
proof -
  have bnd: "is_char_boundary (take (b - a) (drop a source)) (v - a)"
    if "a \<le> v" "v \<le> patch_end q" "is_char_boundary source v" for v
    using that assms by (intro boundary_slice) auto
  have "marker_ok (is_char_boundary (take (b - a) (drop a source))) (patch_start q - a) (patch_end q - a)
          (shift_marker_positions (replacement q) a)
      \<and> starts_with (marker ''FOR_CAP'') (shift_marker_positions (replacement q) a)
          = starts_with (marker ''FOR_CAP'') (replacement q)"
    using assms(1-5) by (intro marker_ok_shift [where bnd = "is_char_boundary source"] bnd) (auto simp: patch_ok_def)
  then show ?thesis
    using assms(1-5) bnd by (auto simp: patch_ok_def q'_def is_cap_def)
qed

lemma patches_ok_inner:
  assumes ok: "patches_ok source ps" and "b \<le> length source" "length source < 2 ^ 32"
  shows "patches_ok (take (b - a) (drop a source)) (inner_patches ps i p a b)"
proof -
  let ?sub = "take (b - a) (drop a source)"
  have "patch_ok ?sub q' \<and> (is_cap q' \<longrightarrow> cap_ok ?sub (inner_patches ps i p a b) q')"
    if q': "q' \<in> set (inner_patches ps i p a b)" for q'
  proof -
    from q' obtain q where q: "q \<in> set ps" "a \<le> patch_start q" "patch_end q \<le> b"
      and eq: "q' = \<lparr>patch_start = patch_start q - a, patch_end = patch_end q - a,
                      replacement = shift_marker_positions (replacement q) a\<rparr>"
      by (rule inner_patchesE)
    from ok q(1) have qok: "patch_ok source q" and cap: "is_cap q \<Longrightarrow> cap_ok source ps q"
      by (auto simp: patches_ok_def list_all_iff)
    have "patch_ok ?sub q'" "is_cap q' = is_cap q"
      using patch_ok_inner [OF qok q(2,3) assms(2,3)] eq by auto
    moreover have "cap_ok ?sub (inner_patches ps i p a b) q'" if "is_cap q"
    proof -
      have len: "patch_start q \<le> patch_end q" using qok by (simp add: patch_ok_def)
      have "take (patch_end q - a - (patch_start q - a)) (drop (patch_start q - a) ?sub)
          = take (patch_end q - patch_start q) (drop (patch_start q) source)"
        using q(2,3) len by (simp add: drop_take min_def)
      with cap [OF that] starters_inner [OF q(2), of ps i p b "patch_end q"] eq show ?thesis
        by (simp add: cap_ok_def)
    qed
    ultimately show ?thesis by simp
  qed
  then show ?thesis by (auto simp: patches_ok_def list_all_iff)
qed

lemma two_starters:
  assumes "i < length ps" "j < length ps" "i \<noteq> j" "Q (ps ! i)" "Q (ps ! j)"
  shows "2 \<le> length (filter Q ps)"
proof -
  have "card {i, j} \<le> card {k. k < length ps \<and> Q (ps ! k)}"
    using assms by (intro card_mono) auto
  then show ?thesis using assms(3) by (simp add: length_filter_conv_card)
qed

lemma formats_no_cap: "(name, slots) \<in> set marker_formats \<Longrightarrow> name \<noteq> ''FOR_CAP''"
  by (auto simp: marker_formats_def)

lemma marker_cases:
  assumes "marker_ok bnd a b r"
  obtains (clean) "1 \<notin> set r" "\<not> starts_with (marker ''FOR_CAP'') r"
    | (format) name slots fs where "(name, slots) \<in> set marker_formats" "fits bnd a b slots fs"
        "r = print_marker name fs" "\<not> starts_with (marker ''FOR_CAP'') r"
    | (chain) splits where "a < b" "splits \<noteq> []" "\<forall>sp \<in> set splits. split_ok bnd a b sp"
        "r = print_chain a b splits" "\<not> starts_with (marker ''FOR_CAP'') r"
    | (cap) t where "a < b" "1 \<notin> set t" "r = print_marker ''FOR_CAP'' [Txt t, Pos a, Pos b]"
  using assms unfolding marker_ok_def
proof (elim disjE exE conjE)
  assume "1 \<notin> set r"
  then show thesis
    by (intro clean) (auto simp: starts_with_iff_prefix prefix_def marker_def)
next
  fix name slots fs
  assume f: "(name, slots) \<in> set marker_formats" "fits bnd a b slots fs" "r = print_marker name fs"
  then have "\<not> starts_with (marker ''FOR_CAP'') r"
    using formats_names [of name slots] formats_no_cap [of name slots] by (simp add: starts_marker)
  with f show thesis by (intro format)
next
  fix splits
  assume "a < b" "splits \<noteq> []" "\<forall>sp \<in> set splits. split_ok bnd a b sp" "r = print_chain a b splits"
  then show thesis by (intro chain) (simp_all add: print_chain_def starts_marker)
next
  fix t
  assume "a < b" "1 \<notin> set t" "r = print_marker ''FOR_CAP'' [Txt t, Pos a, Pos b]"
  then show thesis by (intro cap)
qed

lemma cap_marker: "marker_ok bnd a b r \<Longrightarrow> starts_with (marker ''FOR_CAP'') r \<Longrightarrow> a < b"
  by (erule marker_cases) auto

lemma no_inner_cap:
  assumes ok: "patches_ok source ps" and i: "i < length ps" "ps ! i = p" "is_cap p" "patch_start p < patch_end p"
  shows "inner_patches ps i p (patch_start p) (patch_end p) = []"
proof -
  have "q \<in> set ps \<Longrightarrow> patch_start q \<le> patch_end q" for q
    using ok by (auto simp: patches_ok_def list_all_iff patch_ok_def)
  moreover have "starters ps (patch_start p) (patch_end p) < 2"
    using ok i nth_mem [of i ps] by (auto simp: patches_ok_def list_all_iff cap_ok_def)
  ultimately have "\<not> (patch_start p \<le> patch_start (ps ! j) \<and> patch_end (ps ! j) \<le> patch_end p
      \<and> \<not> (patch_start (ps ! j) = patch_end (ps ! j)
          \<and> (patch_start (ps ! j) = patch_start p \<or> patch_start (ps ! j) = patch_end p)))"
    if "j < length ps" "j \<noteq> i" for j
    using two_starters [of i ps j "\<lambda>q. patch_start p \<le> patch_start q \<and> patch_start q < patch_end p
        \<and> \<not> (patch_start q = patch_end q \<and> patch_start q = patch_start p)"] that i nth_mem [of j ps]
    by (fastforce simp: starters_def)
  then show ?thesis
    unfolding inner_patches_def map_is_Nil_conv filter_empty_conv
    by (clarsimp simp: in_set_enumerate_eq) blast
qed

text \<open>Adding the chain prefix of a marker keeps the list well-formed: nothing of a cap's region starts with it.\<close>

lemma patches_ok_chain:
  assumes ok: "patches_ok source ps" and i: "i < length ps" "ps ! i = p" "\<not> is_cap p"
    and ov: "patch_start p = os" "os < oe" "oe \<le> patch_end p" "is_char_boundary source oe"
    and ab: "a \<le> os" "oe \<le> b" "b \<le> length source" "length source < 2 ^ 32" "is_char_boundary source a"
  shows "patches_ok (take (b - a) (drop a source)) (chain_patch a (os, oe) # inner_patches ps i p a b)"
proof -
  let ?sub = "take (b - a) (drop a source)" and ?cp = "chain_patch a (os, oe)" and ?inner = "inner_patches ps i p a b"
  have pok: "patch_ok source p" using ok i(1,2) nth_mem [of i ps] by (auto simp: patches_ok_def list_all_iff)
  have inner: "patches_ok ?sub ?inner" by (rule patches_ok_inner [OF ok ab(3,4)])
  have bnd: "is_char_boundary ?sub (os - a)" "is_char_boundary ?sub (oe - a)"
    using pok ov ab by (auto simp: patch_ok_def intro!: boundary_slice)
  have "patch_ok ?sub ?cp"
    using bnd ov ab by (simp add: patch_ok_def chain_patch_def marker_ok_def diff_le_mono)
  moreover have "\<not> is_cap ?cp"
    by (auto simp: is_cap_def chain_patch_def starts_with_def marker_def bs_def)
  moreover have "cap_ok ?sub (?cp # ?inner) q'" if q': "q' \<in> set ?inner" "is_cap q'" for q'
  proof -
    from q'(1) obtain q where q: "q \<in> set ps" "a \<le> patch_start q" "patch_end q \<le> b"
      and eq: "q' = \<lparr>patch_start = patch_start q - a, patch_end = patch_end q - a,
                      replacement = shift_marker_positions (replacement q) a\<rparr>"
      by (rule inner_patchesE)
    have qok: "patch_ok source q" using ok q(1) by (simp add: patches_ok_def list_all_iff)
    then have cap: "is_cap q" using patch_ok_inner [OF _ q(2,3) ab(3,4)] q'(2) eq by auto
    from q(1) obtain j where j: "j < length ps" "ps ! j = q" by (auto simp: in_set_conv_nth)
    with i cap have "j \<noteq> i" by auto
    have small: "starters ps (patch_start q) (patch_end q) < 2"
      using ok q(1) cap by (auto simp: patches_ok_def list_all_iff cap_ok_def)
    have qlen: "patch_start q < patch_end q"
      using qok cap cap_marker by (auto simp: patch_ok_def is_cap_def)
    have "\<not> (patch_start q \<le> os \<and> os < patch_end q)"
    proof
      assume "patch_start q \<le> os \<and> os < patch_end q"
      then have "2 \<le> starters ps (patch_start q) (patch_end q)"
        unfolding starters_def using i j \<open>j \<noteq> i\<close> ov qlen by (intro two_starters [of i _ j]) auto
      with small show False by simp
    qed
    then have "starters (?cp # ?inner) (patch_start q') (patch_end q') = starters ?inner (patch_start q') (patch_end q')"
      using ab(1) q(2) eq by (auto simp: starters_def chain_patch_def)
    with inner q' show ?thesis by (auto simp: patches_ok_def list_all_iff cap_ok_def)
  qed
  ultimately show ?thesis using inner by (auto simp: patches_ok_def list_all_iff)
qed

subsection \<open>Applying well-formed patches\<close>

lemma emit_yields:
  assumes "is_char_boundary source cursor" "1 \<notin> set source"
    "\<And>x. x \<in> set xs \<Longrightarrow> is_char_boundary source (patch_start (snd x)) \<and> is_char_boundary source (patch_end (snd x)) \<and> yields (f x)"
  shows "yields (emit_patches f source cursor xs)"
  using assms
proof (induction f source cursor xs rule: emit_patches.induct)
  case (1 f source cursor)
  then have "cursor \<le> length source" by (auto simp: is_char_boundary_def)
  with 1 show ?case by (auto simp: str_slice_def is_char_boundary_def dest: in_set_dropD)
next
  case (2 f source cursor x ps)
  let ?a = "patch_start (snd x)" and ?b = "patch_end (snd x)"
  show ?case
  proof (cases "?a < cursor \<or> length source < ?b \<or> ?b < ?a")
    case True
    with 2 show ?thesis by (simp add: Let_def)
  next
    case False
    have "str_slice source cursor ?a = Return (take (?a - cursor) (drop cursor source))"
      using False 2 by (simp add: str_slice_def)
    moreover have "1 \<notin> set (take (?a - cursor) (drop cursor source))"
      using 2 by (auto dest: in_set_takeD in_set_dropD)
    moreover have "yields (f x)" using 2 by simp
    moreover have "yields (emit_patches f source ?b ps)" using 2 False by (simp add: Let_def)
    ultimately show ?thesis using False by (auto simp: Let_def yields_def)
  qed
qed

definition site_of :: "(str \<Rightarrow> bool) \<Rightarrow> str \<Rightarrow> patch list \<Rightarrow> nat \<Rightarrow> patch \<Rightarrow> site" where
  "site_of pr source patches i p =
     (let range = (\<lambda>a b.
            if b \<le> a \<or> length source < b then Return []
            else and_then (str_slice source a b) (\<lambda>sub.
                 let inner = inner_patches patches i p a b in if inner = [] then Return sub else apply_patches pr sub inner))
      in \<lparr>src_len = length source, np = needs_paren_prefix source (patch_start p),
          zero = stmt_zero source (patch_start p), rewrite_range = range,
          rewrite_range_ov = (\<lambda>a b ov. case ov of
              Some (os, oe) \<Rightarrow>
                (if a \<le> os \<and> os < oe \<and> oe \<le> b
                 then if length source < b then Return []
                      else and_then (str_slice source a b) (\<lambda>sub.
                           apply_patches pr sub (chain_patch a (os, oe) # inner_patches patches i p a b))
                 else range a b)
            | None \<Rightarrow> range a b)\<rparr>)"

lemma apply_patches_site:
  "apply_patches pr source patches =
     emit_patches (\<lambda>(i, p). if is_marker p then patch_text pr (site_of pr source patches i p) p else Return (replacement p))
       source 0 (chosen_patches patches)"
  unfolding site_of_def Let_def apply_patches.simps [of pr source patches, unfolded Let_def] by (rule refl)

lemma range_of_site:
  assumes ok: "patches_ok source ps" "1 \<notin> set source" "length source < 2 ^ 32"
    and IH: "\<And>sub ps'. markers ps' < markers ps \<Longrightarrow> patches_ok sub ps' \<Longrightarrow> 1 \<notin> set sub \<Longrightarrow> length sub < 2 ^ 32 \<Longrightarrow>
               yields (apply_patches pr sub ps')"
    and i: "i < length ps" "ps ! i = p" "is_marker p"
    and ab: "a < b \<Longrightarrow> is_char_boundary source a \<and> is_char_boundary source b"
  shows "yields (rewrite_range (site_of pr source ps i p) a b)"
proof (cases "b \<le> a \<or> length source < b")
  case True
  then show ?thesis by (simp add: site_of_def Let_def)
next
  case False
  let ?sub = "take (b - a) (drop a source)"
  have sub: "1 \<notin> set ?sub" using ok(2) by (auto dest: in_set_takeD in_set_dropD)
  have "yields (apply_patches pr ?sub (inner_patches ps i p a b))"
  proof (rule IH)
    show "markers (inner_patches ps i p a b) < markers ps" using i by (intro markers_inner) auto
    show "patches_ok ?sub (inner_patches ps i p a b)" using False ok by (intro patches_ok_inner) auto
  qed (use sub ok(3) in auto)
  with False ab sub show ?thesis
    by (simp add: site_of_def Let_def str_slice_ok)
qed

lemma range_ov_of_site:
  assumes ok: "patches_ok source ps" "1 \<notin> set source" "length source < 2 ^ 32"
    and IH: "\<And>sub ps'. markers ps' < markers ps \<Longrightarrow> patches_ok sub ps' \<Longrightarrow> 1 \<notin> set sub \<Longrightarrow> length sub < 2 ^ 32 \<Longrightarrow>
               yields (apply_patches pr sub ps')"
    and i: "i < length ps" "ps ! i = p" "is_marker p" "\<not> is_cap p"
  shows "chain_site_ok (is_char_boundary source) (patch_start p) (patch_end p) (site_of pr source ps i p)"
  unfolding chain_site_ok_def
proof (intro allI impI)
  fix e and ov :: "(nat \<times> nat) option"
  let ?c = "site_of pr source ps i p" and ?a = "patch_start p"
  assume e: "?a < e" "is_char_boundary source e"
    and ov: "\<forall>x \<in> set_option ov. fst x = ?a \<and> is_char_boundary source (snd x) \<and> snd x \<le> patch_end p"
  have a: "is_char_boundary source ?a"
    using ok(1) i nth_mem [of i ps] by (auto simp: patches_ok_def list_all_iff patch_ok_def)
  have range: "yields (rewrite_range ?c ?a e)"
    using e a by (intro range_of_site [OF ok IH i(1-3)]) auto
  have range_eq: "rewrite_range_ov ?c ?a e ov = rewrite_range ?c ?a e"
    if "ov = None \<or> (\<exists>oe. ov = Some (?a, oe) \<and> \<not> (?a < oe \<and> oe \<le> e))"
    using that by (auto simp: site_of_def Let_def)
  show "yields (rewrite_range_ov ?c ?a e ov)"
  proof (cases "\<exists>oe. ov = Some (?a, oe) \<and> ?a < oe \<and> oe \<le> e")
    case False
    with ov have "ov = None \<or> (\<exists>oe. ov = Some (?a, oe) \<and> \<not> (?a < oe \<and> oe \<le> e))"
      by (cases ov) auto
    with range range_eq show ?thesis by simp
  next
    case True
    then obtain oe where oe: "ov = Some (?a, oe)" "?a < oe" "oe \<le> e" by blast
    let ?sub = "take (e - ?a) (drop ?a source)"
    have le: "e \<le> length source" using e(2) by (auto simp: is_char_boundary_def)
    have sub: "1 \<notin> set ?sub" using ok(2) by (auto dest: in_set_takeD in_set_dropD)
    have "yields (apply_patches pr ?sub (chain_patch ?a (?a, oe) # inner_patches ps i p ?a e))"
    proof (rule IH)
      show "markers (chain_patch ?a (?a, oe) # inner_patches ps i p ?a e) < markers ps"
        using i markers_inner [of i ps p ?a e] by simp
      show "patches_ok ?sub (chain_patch ?a (?a, oe) # inner_patches ps i p ?a e)"
        using ok i oe le ov a by (intro patches_ok_chain) auto
    qed (use sub ok(3) in auto)
    with oe le e a show ?thesis
      by (simp add: site_of_def Let_def str_slice_ok)
  qed
qed

lemma patch_text_yields: "renders (render_marker pr c p) \<Longrightarrow> yields (patch_text pr c p)"
  by (auto simp: renders_def patch_text_def)

lemma patch_of_site:
  assumes ok: "patches_ok source ps" "1 \<notin> set source" "length source < 2 ^ 32"
    and IH: "\<And>sub ps'. markers ps' < markers ps \<Longrightarrow> patches_ok sub ps' \<Longrightarrow> 1 \<notin> set sub \<Longrightarrow> length sub < 2 ^ 32 \<Longrightarrow>
               yields (apply_patches pr sub ps')"
    and i: "i < length ps" "ps ! i = p" "is_marker p"
  shows "yields (patch_text pr (site_of pr source ps i p) p)"
proof -
  let ?c = "site_of pr source ps i p" and ?bnd = "is_char_boundary source"
  have p: "patch_ok source p" "is_cap p \<Longrightarrow> cap_ok source ps p"
    using ok(1) i nth_mem [of i ps] by (auto simp: patches_ok_def list_all_iff)
  have site: "site_ok ?bnd ?c" "patch_end p \<le> src_len ?c"
    using range_of_site [OF ok IH i] ok(3) p(1) by (auto simp: site_ok_def site_of_def Let_def patch_ok_def)
  have m: "marker_ok ?bnd (patch_start p) (patch_end p) (replacement p)" using p(1) by (simp add: patch_ok_def)
  then show ?thesis
  proof (cases rule: marker_cases)
    case clean
    with i(3) show ?thesis by (auto simp: is_marker_def starts_with_iff_prefix prefix_def)
  next
    case (format name slots fs)
    with site show ?thesis by (intro patch_text_yields render_format_ok)
  next
    case (chain splits)
    have "chain_site_ok ?bnd (patch_start p) (patch_end p) ?c"
      using chain(5) by (intro range_ov_of_site [OF ok IH i]) (auto simp: is_cap_def)
    with chain site p(1) show ?thesis
      by (intro patch_text_yields render_chain_ok [of ?bnd]) (auto simp: patch_ok_def)
  next
    case (cap t)
    let ?mid = "take (patch_end p - patch_start p) (drop (patch_start p) source)"
    have is_cap: "is_cap p" using cap by (simp add: is_cap_def starts_marker)
    have "inner_patches ps i p (patch_start p) (patch_end p) = []"
      using ok(1) i(1,2) is_cap cap(1) by (rule no_inner_cap)
    then have "rewrite_range ?c (patch_start p) (patch_end p) = Return ?mid"
      using cap(1) p(1) by (simp add: site_of_def Let_def patch_ok_def str_slice_ok)
    moreover have "59 \<in> set ?mid" using p(2) [OF is_cap] by (simp add: cap_ok_def)
    moreover have "1 \<notin> set ?mid" using ok(2) by (auto dest: in_set_takeD in_set_dropD)
    ultimately have "renders (render_for_cap ?c (parts_of ''FOR_CAP'' [Txt t, Pos (patch_start p), Pos (patch_end p)]))"
      using cap(1,2) site p(1) ok(3) by (intro render_for_cap_ok) (auto simp: patch_ok_def)
    moreover have "render_marker pr ?c p
        = render_for_cap ?c (parts_of ''FOR_CAP'' [Txt t, Pos (patch_start p), Pos (patch_end p)])"
      using render_marker_name [OF _ _ cap(3), of pr ?c] cap(2) by simp
    ultimately show ?thesis by (intro patch_text_yields) simp
  qed
qed

lemma apply_patches_yields:
  "patches_ok source ps \<Longrightarrow> 1 \<notin> set source \<Longrightarrow> length source < 2 ^ 32 \<Longrightarrow> yields (apply_patches pr source ps)"
proof (induction "markers ps" arbitrary: source ps rule: less_induct)
  case less
  have "yields (if is_marker p then patch_text pr (site_of pr source ps i p) p else Return (replacement p))"
    if "i < length ps" "ps ! i = p" for i p
  proof (cases "is_marker p")
    case True
    with less that show ?thesis by (auto intro!: patch_of_site)
  next
    case False
    have "marker_ok (is_char_boundary source) (patch_start p) (patch_end p) (replacement p)"
      using less.prems(1) that nth_mem [of i ps] by (auto simp: patches_ok_def list_all_iff patch_ok_def)
    then have "1 \<notin> set (replacement p)"
      using False by (cases rule: marker_cases) (auto simp: is_marker_def print_chain_def print_marker_def marker_def starts_with_def)
    with False show ?thesis by simp
  qed
  moreover have "is_char_boundary source (patch_start p) \<and> is_char_boundary source (patch_end p)" if "p \<in> set ps" for p
    using less.prems(1) that by (auto simp: patches_ok_def list_all_iff patch_ok_def)
  ultimately show ?case
    unfolding apply_patches_site using less.prems(2)
    by (intro emit_yields) (auto simp: is_char_boundary_def [of _ 0] dest!: chosen_patches_nth)
qed

subsection \<open>The text between the patches\<close>

lemma disjoint_choose: "disjoint_from n (map snd (choose_patches n xs))"
  by (induction n xs rule: choose_patches.induct) auto

lemma choose_complete:
  assumes "sorted (map (patch_start \<circ> snd) xs)" "x \<in> set xs"
  shows "x \<in> set (choose_patches n xs) \<or> patch_start (snd x) < n
    \<or> (\<exists>y \<in> set (choose_patches n xs). patch_start (snd y) \<le> patch_start (snd x) \<and> patch_start (snd x) < patch_end (snd y))"
  using assms
proof (induction n xs rule: choose_patches.induct)
  case (1 n)
  then show ?case by simp
next
  case (2 n i p ps)
  show ?case
  proof (cases "patch_start p < n")
    case True
    with 2 show ?thesis by auto
  next
    case False
    show ?thesis
    proof (cases "x = (i, p)")
      case True
      with False show ?thesis by simp
    next
      case other: False
      with 2 have "patch_start p \<le> patch_start (snd x)" by auto
      with other False 2 show ?thesis by auto
    qed
  qed
qed

lemma sorted_sort_patches: "sorted (map (patch_start \<circ> snd) (sort_patches xs))"
proof -
  let ?key = "\<lambda>(_ :: nat, p). (patch_start p, if patch_end p = patch_start p then 0 else 1 :: nat, - int (patch_end p))"
  have "sorted (map ?key (sort_patches xs))" by (simp add: sort_patches_def)
  then show ?thesis
    unfolding sorted_map by (rule sorted_wrt_mono_rel [rotated]) (auto simp: less_eq_prod_def)
qed

lemma emit_weave:
  assumes "emit_patches f source n xs = Return out" "n \<le> length source" "disjoint_from n (map snd xs)"
    "\<forall>x \<in> set xs. patch_start (snd x) \<le> patch_end (snd x) \<and> patch_end (snd x) \<le> length source"
  shows "\<exists>ts. list_all2 (\<lambda>x t. f x = Return t) xs ts \<and> out = weave source n (map snd xs) ts"
  using assms
proof (induction f source n xs arbitrary: out rule: emit_patches.induct)
  case (1 f source n)
  then show ?case by (auto simp: str_slice_def split: if_splits)
next
  case (2 f source n x ps)
  let ?a = "patch_start (snd x)" and ?b = "patch_end (snd x)"
  have go: "\<not> (?a < n \<or> length source < ?b \<or> ?b < ?a)" using 2 by auto
  with 2 obtain kept t rest where r: "str_slice source n ?a = Return kept" "f x = Return t"
      "emit_patches f source ?b ps = Return rest" "out = kept @ t @ rest"
    by (auto simp: Let_def and_then_Return)
  have "kept = take (?a - n) (drop n source)" using r(1) by (auto simp: str_slice_def split: if_splits)
  moreover have "\<exists>ts. list_all2 (\<lambda>x t. f x = Return t) ps ts \<and> rest = weave source ?b (map snd ps) ts"
    by (rule "2.IH"(2) [OF refl refl go r(3)]) (use "2.prems" in auto)
  then obtain ts where "list_all2 (\<lambda>x t. f x = Return t) ps ts" "rest = weave source ?b (map snd ps) ts" by blast
  ultimately show ?case
    using r by (intro exI [of _ "t # ts"]) simp
qed

subsection \<open>Properties\<close>

text \<open>
  C10. Applying patches changes nothing but the patched ranges: the result is the source with the ranges of
  pairwise disjoint patches of the list replaced, in order, a plain replacement by itself; every other patch of
  the list starts inside one of them.
\<close>

theorem patches_spliced:
  assumes "apply_patches pr source patches = Return out"
    and "\<forall>p \<in> set patches. patch_start p \<le> patch_end p \<and> patch_end p \<le> length source"
  shows "\<exists>applied texts. set applied \<subseteq> set patches \<and> disjoint_from 0 applied
    \<and> (\<forall>p \<in> set patches. p \<in> set applied \<or> (\<exists>q \<in> set applied. patch_start q \<le> patch_start p \<and> patch_start p < patch_end q))
    \<and> list_all2 (\<lambda>p t. is_marker p \<or> t = replacement p) applied texts
    \<and> out = weave source 0 applied texts"
proof -
  let ?chosen = "chosen_patches patches"
  have mem: "set (map snd ?chosen) \<subseteq> set patches"
    by (auto dest!: chosen_patches_nth)
  have all: "p \<in> set (map snd ?chosen)
      \<or> (\<exists>q \<in> set (map snd ?chosen). patch_start q \<le> patch_start p \<and> patch_start p < patch_end q)"
    if "p \<in> set patches" for p
  proof -
    from that obtain i where "i < length patches" "patches ! i = p" by (auto simp: in_set_conv_nth)
    then have "(i, p) \<in> set (sort_patches (enumerate 0 patches))" by (simp add: in_set_enumerate_eq)
    from choose_complete [OF sorted_sort_patches this, of 0] show ?thesis
      unfolding chosen_patches_def by force
  qed
  obtain ts where ts: "list_all2 (\<lambda>x t. (case x of (i, p) \<Rightarrow> if is_marker p
        then patch_text pr (site_of pr source patches i p) p else Return (replacement p)) = Return t) ?chosen ts"
      "out = weave source 0 (map snd ?chosen) ts"
    using emit_weave [OF assms(1) [unfolded apply_patches_site]] assms(2) mem disjoint_choose
    by (auto simp: chosen_patches_def)
  have "list_all2 (\<lambda>p t. is_marker p \<or> t = replacement p) (map snd ?chosen) ts"
    unfolding list_all2_map1 by (rule list_all2_mono [OF ts(1)]) (auto split: if_splits)
  with mem all ts(2) disjoint_choose show ?thesis
    unfolding chosen_patches_def by blast
qed

text \<open>
  C4. No marker reaches the page: for patches in the formats of the visitor, with ranges inside the patch and at
  character boundaries, the rewrite never panics and the rewritten script holds no byte 1, however the
  markers nest.
\<close>

theorem markers_rendered:
  assumes "patches_ok source patches" "1 \<notin> set source" "length source < 2 ^ 32"
  shows "\<exists>out. apply_patches pr source patches = Return out \<and> 1 \<notin> set out"
  using apply_patches_yields [OF assms] by (simp add: yields_def)

text \<open>\<open>x=location.href\<close>: the member read and, inside it, the read of the global.\<close>

definition sample_source :: str where
  "sample_source = bs ''x=location.href''"

definition sample_get :: patch where
  "sample_get = \<lparr>patch_start = 2, patch_end = 10, replacement = print_marker ''GLOBAL_GET'' [Txt (bs ''location'')]\<rparr>"

definition sample_member :: patch where
  "sample_member = \<lparr>patch_start = 2, patch_end = 15,
     replacement = print_marker ''MEMBER_GET'' [Pos 2, Pos 10, Txt (bs ''href'')]\<rparr>"

lemma marker_ok_format:
  "(name, slots) \<in> set marker_formats \<Longrightarrow> fits bnd a b slots fs \<Longrightarrow> marker_ok bnd a b (print_marker name fs)"
  unfolding marker_ok_def by blast

lemma sample_patch_facts:
  "patch_ok sample_source sample_get" "patch_ok sample_source sample_member"
  "\<not> is_cap sample_get" "\<not> is_cap sample_member" "is_marker sample_get" "is_marker sample_member"
proof -
  have bnd: "is_char_boundary sample_source 2" "is_char_boundary sample_source 10" "is_char_boundary sample_source 15"
    by (simp_all add: is_char_boundary_def sample_source_def bs_def is_cont_def word_le_nat_alt)
  have "(''GLOBAL_GET'', [Word]) \<in> set marker_formats" "(''MEMBER_GET'', [Span, Word]) \<in> set marker_formats"
    by (simp_all add: marker_formats_def)
  moreover have "fits (is_char_boundary sample_source) 2 10 [Word] [Txt (bs ''location'')]"
      "fits (is_char_boundary sample_source) 2 15 [Span, Word] [Pos 2, Pos 10, Txt (bs ''href'')]"
    using bnd by simp_all
  moreover have "length sample_source = 15" by (simp add: sample_source_def bs_def)
  ultimately show "patch_ok sample_source sample_get" "patch_ok sample_source sample_member"
    using bnd by (auto simp: patch_ok_def sample_get_def sample_member_def intro!: marker_ok_format)
  show "\<not> is_cap sample_get" "\<not> is_cap sample_member"
    by (simp_all add: is_cap_def sample_get_def sample_member_def starts_marker)
  show "is_marker sample_get" "is_marker sample_member"
    by (simp_all add: is_marker_def sample_get_def sample_member_def print_marker_def marker_def starts_with_def)
qed

theorem markers_rendered_witness:
  "patches_ok sample_source [sample_get, sample_member]
   \<and> (\<exists>out. apply_patches (\<lambda>_. False) sample_source [sample_get, sample_member] = Return out \<and> 1 \<notin> set out)"
proof -
  have ok: "patches_ok sample_source [sample_get, sample_member]"
    by (simp add: patches_ok_def sample_patch_facts)
  have "1 \<notin> set sample_source" "length sample_source < 2 ^ 32"
    by (simp_all add: sample_source_def) (simp add: bs_def)
  from markers_rendered [OF ok this] ok show ?thesis by blast
qed

lemma sample_chosen: "chosen_patches [sample_get, sample_member] = [(1, sample_member)]"
  by (simp add: chosen_patches_def sort_patches_def sample_get_def sample_member_def)

lemma sample_inner:
  "inner_patches [sample_get, sample_member] 1 sample_member 2 10
     = [\<lparr>patch_start = 0, patch_end = 8, replacement = print_marker ''GLOBAL_GET'' [Txt (bs ''location'')]\<rparr>]"
  using shift_print_marker [of "''GLOBAL_GET''" "[Word]" "\<lambda>_. True" 0 0 "[Txt (bs ''location'')]" 2]
  by (simp add: inner_patches_def sample_get_def sample_member_def marker_formats_def)

lemma debug_ascii: "\<forall>b \<in> set s. 32 \<le> b \<and> b < 127 \<and> b \<noteq> 34 \<and> b \<noteq> 92 \<Longrightarrow> debug_chars pr s = s"
proof (induction s)
  case (Cons b s)
  then have "utf8_step (b # s) = Inr 1" by (auto simp: lead_extra_def word_less_nat_alt word_le_nat_alt)
  with Cons show ?case by (auto simp: debug_chars.simps [of pr "b # s"] debug_char_def)
qed (simp add: debug_chars.simps)

lemma sample_names: "debug_str pr (bs ''location'') = [34] @ bs ''location'' @ [34]" "debug_str pr (bs ''href'') = [34] @ bs ''href'' @ [34]"
  by (simp_all add: debug_str_def debug_ascii bs_def)

lemma sample_output:
  "apply_patches pr sample_source [sample_get, sample_member]
     = Return (bs ''x=__zp_get(__zp_get(globalThis,'' @ [34] @ bs ''location'' @ [34] @ bs ''),'' @ [34] @ bs ''href'' @ [34] @ bs '')'')"
proof -
  let ?p = "\<lparr>patch_start = 0, patch_end = 8, replacement = print_marker ''GLOBAL_GET'' [Txt (bs ''location'')]\<rparr>"
  have "render_marker pr (site_of pr (bs ''location'') [?p] 0 ?p) ?p
    = pushed (bs ''__zp_get(globalThis,'' @ [34] @ bs ''location'' @ [34] @ bs '')'')"
    using render_marker_name [of "''GLOBAL_GET''" "[Txt (bs ''location'')]" ?p pr "site_of pr (bs ''location'') [?p] 0 ?p"]
    by (simp add: render_global_get_def parts_of_def site_of_def Let_def needs_paren_prefix_def paren_def sample_names)
  moreover have "chosen_patches [?p] = [(0, ?p)]" "is_marker ?p"
    by (simp_all add: chosen_patches_def sort_patches_def is_marker_def print_marker_def marker_def starts_with_def)
  ultimately have inner: "apply_patches pr (bs ''location'') [?p]
      = Return (bs ''__zp_get(globalThis,'' @ [34] @ bs ''location'' @ [34] @ bs '')'')"
    by (simp add: apply_patches_site patch_text_def str_slice_def is_char_boundary_def) (simp add: bs_def)
  let ?c = "site_of pr sample_source [sample_get, sample_member] 1 sample_member"
  have "skip_ws_back sample_source (Suc (Suc 0)) = Suc (Suc 0)" by (simp add: sample_source_def bs_def)
  then have "skip_ws_back sample_source 2 = 2" by (simp add: numeral_2_eq_2)
  then have len: "src_len ?c = 15" "\<not> np ?c"
    by (simp_all add: site_of_def Let_def sample_member_def needs_paren_prefix_def)
      (simp_all add: sample_source_def ident_byte_def bs_def byte_simps)
  have "str_slice sample_source 2 10 = Return (bs ''location'')"
    by (simp add: str_slice_def is_char_boundary_def sample_source_def bs_def is_cont_def word_le_nat_alt)
  then have "rewrite_range ?c 2 10 = Return (bs ''__zp_get(globalThis,'' @ [34] @ bs ''location'' @ [34] @ bs '')'')"
    using inner sample_inner by (simp add: site_of_def Let_def) (simp add: sample_source_def bs_def)
  then have "patch_text pr ?c sample_member
     = Return (bs ''__zp_get(__zp_get(globalThis,'' @ [34] @ bs ''location'' @ [34] @ bs ''),'' @ [34] @ bs ''href'' @ [34] @ bs '')'')"
    using render_marker_name [of "''MEMBER_GET''" "[Pos 2, Pos 10, Txt (bs ''href'')]" sample_member pr ?c] len
    by (simp add: patch_text_def render_member_get_def parts_of_def Let_def paren_def sample_names sample_member_def) (simp add: bs_def)
  moreover have "str_slice sample_source 0 2 = Return (bs ''x='')" "str_slice sample_source 15 15 = Return []"
    by (simp_all add: str_slice_def is_char_boundary_def sample_source_def bs_def is_cont_def word_le_nat_alt)
  moreover have "patch_start sample_member = 2" "patch_end sample_member = 15" "length sample_source = 15"
    by (simp_all add: sample_member_def sample_source_def bs_def)
  ultimately show ?thesis
    using sample_chosen sample_patch_facts(6) by (simp add: apply_patches_site) (simp add: bs_def)
qed

theorem patches_spliced_witness:
  "\<exists>out applied texts. apply_patches (\<lambda>_. False) sample_source [sample_get, sample_member] = Return out
     \<and> disjoint_from 0 applied \<and> out = weave sample_source 0 applied texts"
proof -
  have "\<forall>p \<in> set [sample_get, sample_member]. patch_start p \<le> patch_end p \<and> patch_end p \<le> length sample_source"
    using sample_patch_facts(1,2) by (simp add: patch_ok_def)
  from patches_spliced [OF sample_output [of "\<lambda>_. False"] this] sample_output [of "\<lambda>_. False"] show ?thesis by metis
qed

end
