(* ===== verification/Source_Map.thy ===== *)
theory Source_Map
  imports Patch_Markers
begin

text \<open>
  Source maps of rewritten scripts: the composer of \<^verbatim>\<open>src/crates/zp-rewriter/src/sourcemap.rs\<close>, and the
  removal of a stale map pragma and the entry point that calls the composer, both in
  \<^verbatim>\<open>src/crates/zp-rewriter/src/lib.rs\<close>. A reader of the format, a decoder of base64 VLQ segments and
  of JSON strings, is defined beside it as the reference the output is checked against.

  Chaining with the map of the target site is done by the \<^verbatim>\<open>sourcemap\<close> package and is not modelled.
\<close>

subsection \<open>Removing the pragma\<close>

fun rfind_sub :: "'a list \<Rightarrow> 'a list \<Rightarrow> nat option" where
  "rfind_sub p [] = None"
| "rfind_sub p (x # xs) =
     (case rfind_sub p xs of
        Some k \<Rightarrow> Some (Suc k)
      | None \<Rightarrow> if starts_with p (x # xs) then Some 0 else None)"

fun snap_back :: "str \<Rightarrow> nat \<Rightarrow> nat" where
  "snap_back s 0 = 0"
| "snap_back s (Suc i) = (if is_char_boundary s (Suc i) then Suc i else snap_back s i)"

definition pragma_needle :: str where
  "pragma_needle = bs ''sourceMappingURL=''"

definition strip_sourcemap_pragma :: "str \<Rightarrow> str" where
  "strip_sourcemap_pragma src =
     (let scan_from = snap_back src (length src - 4096)
      in case rfind_sub pragma_needle (drop scan_from src) of
           None \<Rightarrow> src
         | Some rel_idx \<Rightarrow>
             (let abs_idx = scan_from + rel_idx;
                  line_start = (case rfind_sub [LF] (take abs_idx src) of Some n \<Rightarrow> n + 1 | None \<Rightarrow> 0);
                  trimmed = trim_start (take (abs_idx - line_start) (drop line_start src));
                  comment_opens = (starts_with (bs ''//#'') trimmed \<or> starts_with (bs ''//@'') trimmed
                                   \<or> starts_with (bs ''/*#'') trimmed \<or> starts_with (bs ''/*@'') trimmed)
              in if \<not> comment_opens then src
                 else take (if 0 < line_start \<and> src ! (line_start - 1) = LF then line_start - 1 else line_start) src))"

subsection \<open>Base64 VLQ and JSON strings\<close>

definition BASE64_ALPHABET :: str where
  "BASE64_ALPHABET = bs ''ABCDEFGHIJKLMNOPQRSTUVWXYZabcdefghijklmnopqrstuvwxyz0123456789+/''"

text \<open>\<open>vlq_digits\<close> is the loop of \<^verbatim>\<open>vlq_encode_into\<close>, on its 64-bit accumulator.\<close>

function vlq_digits :: "u64 \<Rightarrow> str" where
  "vlq_digits vlq =
     (let digit = vlq AND 31; rest = drop_bit 5 vlq
      in if rest \<noteq> 0 then BASE64_ALPHABET ! unat (digit OR 32) # vlq_digits rest
         else [BASE64_ALPHABET ! unat digit])"
  by pat_completeness auto
termination
proof (relation "measure unat")
  fix vlq digit rest :: u64
  assume rest: "rest = drop_bit 5 vlq" "rest \<noteq> 0"
  then have "unat rest = unat vlq div 32" by (simp add: drop_bit_eq_div unat_div_distrib)
  moreover have "unat rest \<noteq> 0" using rest(2) by (simp add: unat_eq_0)
  ultimately show "(rest, vlq) \<in> measure unat" by simp
qed simp

declare vlq_digits.simps [simp del]

definition vlq_encode :: "int \<Rightarrow> str" where
  "vlq_encode v = vlq_digits (if v < 0 then push_bit 1 (word_of_int (- v)) OR 1 else push_bit 1 (word_of_int v))"

definition json_escape_byte :: "u8 \<Rightarrow> str" where
  "json_escape_byte c =
     (if c = 34 then [92, 34]
      else if c = 92 then [92, 92]
      else if c = 10 then [92, 110]
      else if c = 13 then [92, 114]
      else if c = 9 then [92, 116]
      else if c = 8 then [92, 98]
      else if c = 12 then [92, 102]
      else if c < 32 then [92, 117, 48, 48] @ [hd (to_hex (unat c div 16)), hd (to_hex (unat c mod 16))]
      else [c])"

definition json_escape :: "str \<Rightarrow> str" where
  "json_escape s = [34] @ concat (map json_escape_byte s) @ [34]"

subsection \<open>Positions\<close>

text \<open>
  Columns count UTF-16 code units: a character adds two when its encoding has four bytes and one
  otherwise, which its first byte tells.
\<close>

definition utf16_units :: "u8 \<Rightarrow> nat" where
  "utf16_units b = (if is_cont b then 0 else if 0xF0 \<le> b then 2 else 1)"

definition advance_pos :: "u8 \<Rightarrow> nat \<times> nat \<Rightarrow> nat \<times> nat" where
  "advance_pos b lc = (if b = LF then (fst lc + 1, 0) else (fst lc, snd lc + utf16_units b))"

definition line_col :: "str \<Rightarrow> nat \<times> nat" where
  "line_col s = fold advance_pos s (0, 0)"

definition offset_to_line_col :: "str \<Rightarrow> nat \<Rightarrow> (nat \<times> nat) outcome" where
  "offset_to_line_col source offset =
     and_then (str_slice source 0 (min offset (length source))) (\<lambda>s. Return (line_col s))"

subsection \<open>The composer\<close>

record mapper =
  mappings :: str
  prev_gen_col :: int
  prev_src_idx :: int
  prev_src_line :: int
  prev_src_col :: int
  gen_offset :: nat
  src_offset :: nat
  had_segment :: bool

definition emit_segment :: "bool \<Rightarrow> nat \<Rightarrow> nat \<times> nat \<Rightarrow> mapper \<Rightarrow> mapper" where
  "emit_segment needs_comma gen_col src m =
     (let g = int gen_col; sline = int (fst src); scol = int (snd src)
      in m\<lparr>mappings := mappings m @ (if needs_comma then [44] else []) @ vlq_encode (g - prev_gen_col m)
             @ vlq_encode (0 - prev_src_idx m) @ vlq_encode (sline - prev_src_line m) @ vlq_encode (scol - prev_src_col m),
           prev_gen_col := g, prev_src_idx := 0, prev_src_line := sline, prev_src_col := scol\<rparr>)"

definition new_line :: "mapper \<Rightarrow> mapper" where
  "new_line m = m\<lparr>mappings := mappings m @ [59], prev_gen_col := 0\<rparr>"

text \<open>The opening segment of the first line; the flag that would put a separator before it is never set.\<close>

definition open_line :: "str \<Rightarrow> str \<Rightarrow> mapper \<Rightarrow> mapper outcome" where
  "open_line source rewritten m =
     and_then (offset_to_line_col source (src_offset m)) (\<lambda>src.
     and_then (offset_to_line_col rewritten (gen_offset m)) (\<lambda>gen.
       Return (emit_segment False (snd gen) src m)))"

fun walk_unchanged :: "str \<Rightarrow> str \<Rightarrow> mapper \<Rightarrow> mapper outcome" where
  "walk_unchanged source [] m = Return m"
| "walk_unchanged source (c # cs) m =
     (if c = LF
      then let m = (new_line m)\<lparr>gen_offset := gen_offset m + 1, src_offset := src_offset m + 1\<rparr>
           in and_then (offset_to_line_col source (src_offset m)) (\<lambda>src.
                walk_unchanged source cs ((emit_segment False 0 src m)\<lparr>had_segment := True\<rparr>))
      else walk_unchanged source cs (m\<lparr>gen_offset := gen_offset m + 1, src_offset := src_offset m + 1\<rparr>))"

fun walk_replacement :: "nat \<times> nat \<Rightarrow> str \<Rightarrow> mapper \<Rightarrow> mapper" where
  "walk_replacement src [] m = m"
| "walk_replacement src (c # cs) m =
     (if c = LF
      then walk_replacement src cs
             ((emit_segment False 0 src ((new_line m)\<lparr>gen_offset := gen_offset m + 1\<rparr>))\<lparr>had_segment := True\<rparr>)
      else walk_replacement src cs (m\<lparr>gen_offset := gen_offset m + 1\<rparr>))"

definition map_patch :: "str \<Rightarrow> str \<Rightarrow> patch \<Rightarrow> mapper \<Rightarrow> mapper outcome" where
  "map_patch source rewritten p m =
     (if patch_start p < src_offset m then Panic
      else let unchanged_len = patch_start p - src_offset m
           in and_then (str_slice source (src_offset m) (src_offset m + unchanged_len)) (\<lambda>_.
              and_then (str_slice rewritten (gen_offset m) (gen_offset m + unchanged_len)) (\<lambda>unchanged_gen.
              and_then (if had_segment m then Return m
                        else and_then (open_line source rewritten m) (\<lambda>m. Return (m\<lparr>had_segment := True\<rparr>))) (\<lambda>m.
              and_then (walk_unchanged source unchanged_gen m) (\<lambda>m.
              and_then (offset_to_line_col source (patch_start p)) (\<lambda>src.
              and_then (offset_to_line_col rewritten (gen_offset m)) (\<lambda>gen.
                Return ((walk_replacement src (replacement p) (emit_segment True (snd gen) src m))
                          \<lparr>src_offset := patch_end p\<rparr>))))))))"

fun map_patches :: "str \<Rightarrow> str \<Rightarrow> patch list \<Rightarrow> mapper \<Rightarrow> mapper outcome" where
  "map_patches source rewritten [] m = Return m"
| "map_patches source rewritten (p # ps) m =
     and_then (map_patch source rewritten p m) (\<lambda>m. map_patches source rewritten ps m)"

text \<open>The tail is walked as an unchanged region; the code leaves the generated cursor and the flag, unread from here on, alone.\<close>

definition map_tail :: "str \<Rightarrow> str \<Rightarrow> mapper \<Rightarrow> mapper outcome" where
  "map_tail source rewritten m =
     and_then (str_slice source (src_offset m) (length source)) (\<lambda>_.
     and_then (str_slice rewritten (gen_offset m) (length rewritten)) (\<lambda>tail_gen.
     and_then (if \<not> had_segment m \<and> tail_gen \<noteq> []
               then and_then (open_line source rewritten m) (\<lambda>m. Return (m\<lparr>had_segment := True\<rparr>)) else Return m) (\<lambda>m.
       walk_unchanged source tail_gen m)))"

definition mapper0 :: mapper where
  "mapper0 = \<lparr>mappings = [], prev_gen_col = 0, prev_src_idx = 0, prev_src_line = 0, prev_src_col = 0,
              gen_offset = 0, src_offset = 0, had_segment = False\<rparr>"

definition map_document :: "str \<Rightarrow> str \<Rightarrow> str \<Rightarrow> str" where
  "map_document source_url source ms =
     bs ''{'' @ [34] @ bs ''version'' @ [34] @ bs '':3,'' @ [34] @ bs ''sources'' @ [34] @ bs '':['' @ json_escape source_url
       @ bs ''],'' @ [34] @ bs ''sourcesContent'' @ [34] @ bs '':['' @ json_escape source
       @ bs ''],'' @ [34] @ bs ''names'' @ [34] @ bs '':[],'' @ [34] @ bs ''mappings'' @ [34] @ bs '':'' @ json_escape ms @ bs ''}''"

definition compose_mappings :: "str \<Rightarrow> str \<Rightarrow> patch list \<Rightarrow> str outcome" where
  "compose_mappings source rewritten patches =
     and_then (map_patches source rewritten patches mapper0) (\<lambda>m.
     and_then (map_tail source rewritten m) (\<lambda>m. Return (mappings m)))"

definition compose_rewrite_map :: "str \<Rightarrow> str \<Rightarrow> patch list \<Rightarrow> str \<Rightarrow> str outcome" where
  "compose_rewrite_map source rewritten patches source_url =
     and_then (compose_mappings source rewritten patches) (\<lambda>ms. Return (map_document source_url source ms))"

text \<open>
  \<^verbatim>\<open>compose_source_map\<close>, with the patches of \<^verbatim>\<open>rewrite_script_patches\<close> (the visitor's, sorted by
  their start) as an argument.
\<close>

definition compose_source_map :: "(str \<Rightarrow> bool) \<Rightarrow> str \<Rightarrow> patch list \<Rightarrow> str \<Rightarrow> str outcome" where
  "compose_source_map pr source patches source_url =
     (let stripped = strip_sourcemap_pragma source
      in and_then (apply_patches pr stripped patches) (\<lambda>rewritten.
           compose_rewrite_map stripped rewritten patches source_url))"

subsection \<open>A reader of the format\<close>

definition base64_value :: "u8 \<Rightarrow> nat option" where
  "base64_value c = position (\<lambda>b. b = c) BASE64_ALPHABET"

fun vlq_read :: "str \<Rightarrow> (nat \<times> str) option" where
  "vlq_read [] = None"
| "vlq_read (c # s) =
     (case base64_value c of
        None \<Rightarrow> None
      | Some d \<Rightarrow>
          (if d < 32 then Some (d, s)
           else map_option (\<lambda>(n, rest). (d - 32 + 32 * n, rest)) (vlq_read s)))"

definition vlq_decode :: "str \<Rightarrow> (int \<times> str) option" where
  "vlq_decode s = map_option (\<lambda>(n, rest). (if odd n then - int (n div 2) else int (n div 2), rest)) (vlq_read s)"

text \<open>A segment: generated column, source index, source line and source column, each relative to the one before.\<close>

type_synonym seg = "int \<times> int \<times> int \<times> int"

definition decode_segment :: "seg \<Rightarrow> str \<Rightarrow> seg option" where
  "decode_segment prev s =
     (case prev of (g, i, l, c) \<Rightarrow>
      case vlq_decode s of None \<Rightarrow> None | Some (dg, s) \<Rightarrow>
      case vlq_decode s of None \<Rightarrow> None | Some (di, s) \<Rightarrow>
      case vlq_decode s of None \<Rightarrow> None | Some (dl, s) \<Rightarrow>
      case vlq_decode s of None \<Rightarrow> None | Some (dc, s) \<Rightarrow>
        if s = [] then Some (g + dg, i + di, l + dl, c + dc) else None)"

fun decode_segments :: "seg \<Rightarrow> str list \<Rightarrow> seg list option" where
  "decode_segments prev [] = Some []"
| "decode_segments prev (s # ss) =
     (case decode_segment prev s of
        None \<Rightarrow> None
      | Some seg \<Rightarrow> map_option ((#) seg) (decode_segments seg ss))"

fun decode_lines :: "seg \<Rightarrow> str list \<Rightarrow> seg list list option" where
  "decode_lines prev [] = Some []"
| "decode_lines prev (t # ts) =
     (case decode_segments (case prev of (_, r) \<Rightarrow> (0, r)) (if t = [] then [] else split_on 44 t) of
        None \<Rightarrow> None
      | Some segs \<Rightarrow> map_option ((#) segs) (decode_lines (if segs = [] then prev else last segs) ts))"

definition decode_mappings :: "str \<Rightarrow> seg list list option" where
  "decode_mappings m = decode_lines (0, 0, 0, 0) (split_on 59 m)"

fun json_unescape :: "str \<Rightarrow> (str \<times> str) option" where
  "json_unescape [] = None"
| "json_unescape (c # s) =
     (if c = 34 then Some ([], s)
      else if c \<noteq> 92 then (if c < 32 then None else map_option (\<lambda>(v, r). (c # v, r)) (json_unescape s))
      else case s of
             [] \<Rightarrow> None
           | e # s \<Rightarrow>
               (if e = 117
                then case s of
                       a # b # x # y # s \<Rightarrow>
                         (case (digits_value 16 0 [a, b, x, y]) of
                            None \<Rightarrow> None
                          | Some v \<Rightarrow> if v < 128 then map_option (\<lambda>(t, r). (word_of_nat v # t, r)) (json_unescape s) else None)
                     | _ \<Rightarrow> None
                else case map_of [(34, 34), (92, 92), (110, 10), (114, 13), (116, 9), (98, 8), (102, 12)] e of
                       None \<Rightarrow> None
                     | Some v \<Rightarrow> map_option (\<lambda>(t, r). (v # t, r)) (json_unescape s)))"

definition json_string :: "str \<Rightarrow> (str \<times> str) option" where
  "json_string s = (case s of [] \<Rightarrow> None | c # s \<Rightarrow> if c = 34 then json_unescape s else None)"

lemma hex_digit_read: "d < 16 \<Longrightarrow> digit_value 16 (hd (to_hex d)) = Some d"
proof (cases "d < 10")
  case True
  then show ?thesis
    using is_ascii_digit_digit [of d] unat_digit [of d] by (simp add: to_hex.simps [of d] digit_value_def)
next
  case False
  assume d: "d < 16"
  have u: "unat (word_of_nat (87 + d) :: u8) = 87 + d"
    using d by (simp add: unat_of_nat del: of_nat_add)
  then have "\<not> is_ascii_digit (word_of_nat (87 + d))" "97 \<le> (word_of_nat (87 + d) :: u8)" "(word_of_nat (87 + d) :: u8) \<le> 122"
    using d False by (simp_all add: is_ascii_digit_def word_le_nat_alt del: of_nat_add)
  with False d u show ?thesis
    by (simp add: to_hex.simps [of d] digit_value_def del: of_nat_add)
qed

lemma json_escape_read: "json_unescape (json_escape_byte c @ s) = map_option (\<lambda>(v, r). (c # v, r)) (json_unescape s)"
proof (cases "c < 32 \<and> c \<notin> {10, 13, 9, 8, 12}")
  case False
  then show ?thesis by (auto simp: json_escape_byte_def)
next
  case True
  then have c: "unat c < 32" by (simp add: word_less_nat_alt)
  have ne: "c \<noteq> 34" "c \<noteq> 92" using True by (auto simp: word_less_nat_alt)
  have "digit_value 16 48 = Some 0" using hex_digit_read [of 0] by (simp add: to_hex.simps)
  moreover have "digit_value 16 (hd (to_hex (unat c div 16))) = Some (unat c div 16)"
      "digit_value 16 (hd (to_hex (unat c mod 16))) = Some (unat c mod 16)"
    using c by (intro hex_digit_read; simp)+
  ultimately have "digits_value 16 0 [48, 48, hd (to_hex (unat c div 16)), hd (to_hex (unat c mod 16))] = Some (unat c)"
    by simp
  with True c ne show ?thesis
    by (simp add: json_escape_byte_def del: digits_value.simps)
qed

lemma json_unescape_escape: "json_unescape (concat (map json_escape_byte s) @ 34 # r) = Some (s, r)"
  by (induction s) (simp_all add: json_escape_read)

lemma json_string_escape: "json_string (json_escape s @ r) = Some (s, r)"
  by (simp add: json_string_def json_escape_def json_unescape_escape)

subsection \<open>The reader reads what the composer writes\<close>

lemma base64_value_nth: "i < 64 \<Longrightarrow> base64_value (BASE64_ALPHABET ! i) = Some i"
proof -
  have "distinct BASE64_ALPHABET" "length BASE64_ALPHABET = 64"
    by (simp_all add: BASE64_ALPHABET_def bs_def)
  moreover assume "i < 64"
  ultimately show ?thesis
    by (simp add: base64_value_def position_Some_iff nth_eq_iff_index_eq)
qed

lemma vlq_digit_values:
  "unat (v AND 31 :: u64) = unat v mod 32" "unat (v AND 31 OR 32 :: u64) = unat v mod 32 + 32"
proof -
  have mask: "(31 :: u64) = mask 5" by (simp add: mask_eq_exp_minus_1)
  show low: "unat (v AND 31) = unat v mod 32"
    unfolding mask take_bit_eq_mask [symmetric] by (simp add: take_bit_eq_mod unat_mod_distrib)
  have "(32 :: u64) = push_bit 5 1" by simp
  then have "\<not> bit (32 :: u64) n" if "n < 5" for n
    using that by (simp only: bit_push_bit_iff) simp
  then have "v AND 31 OR 32 = (v AND 31) + 32"
    unfolding mask by (intro disjunctive_add [symmetric]) (auto simp: bit_simps)
  then show "unat (v AND 31 OR 32) = unat v mod 32 + 32"
    using low by (simp add: unat_word_ariths(1))
qed

lemma vlq_read_digits: "vlq_read (vlq_digits v @ s) = Some (unat v, s)"
proof (induction v rule: vlq_digits.induct)
  case (1 v)
  have high: "unat (drop_bit 5 v) = unat v div 32"
    by (simp add: drop_bit_eq_div unat_div_distrib)
  show ?case
  proof (cases "drop_bit 5 v = 0")
    case True
    with high have "unat v < 32" by (simp add: div_eq_0_iff)
    with True show ?thesis
      by (simp add: vlq_digits.simps [of v] base64_value_nth vlq_digit_values)
  next
    case False
    with 1 high show ?thesis
      by (simp add: vlq_digits.simps [of v] base64_value_nth vlq_digit_values Let_def)
  qed
qed

lemma vlq_roundtrip:
  assumes "\<bar>v\<bar> < 2 ^ 62"
  shows "vlq_decode (vlq_encode v @ s) = Some (v, s)"
proof -
  define n where "n = nat \<bar>v\<bar>"
  have n: "n < 2 ^ 62" using assms by (simp add: n_def)
  have push: "push_bit 1 (word_of_nat n :: u64) = word_of_nat (2 * n)"
    by (simp add: push_bit_eq_mult)
  have unat: "unat (word_of_nat (2 * n) :: u64) = 2 * n" "unat (word_of_nat (2 * n + 1) :: u64) = 2 * n + 1"
    using n unfolding unat_of_nat by simp_all
  have "push_bit 1 (word_of_nat n :: u64) OR 1 = push_bit 1 (word_of_nat n) + 1"
    by (intro disjunctive_add [symmetric]) (simp only: bit_push_bit_iff bit_1_iff, auto)
  then have or: "push_bit 1 (word_of_nat n :: u64) OR 1 = word_of_nat (2 * n + 1)"
    using push by simp
  show ?thesis
  proof (cases "v < 0")
    case True
    then have "- v = int n" by (simp add: n_def)
    with True have "vlq_encode v = vlq_digits (word_of_nat (2 * n + 1))"
      unfolding vlq_encode_def using or by simp
    with True unat(2) \<open>- v = int n\<close> show ?thesis
      by (simp add: vlq_decode_def vlq_read_digits)
  next
    case False
    then have v: "v = int n" by (simp add: n_def)
    with False have "vlq_encode v = vlq_digits (word_of_nat (2 * n))"
      unfolding vlq_encode_def using push by (simp add: mult.commute)
    with v unat(1) show ?thesis
      by (simp add: vlq_decode_def vlq_read_digits)
  qed
qed

lemma vlq_alphabet: "set (vlq_digits v) \<subseteq> set BASE64_ALPHABET"
proof (induction v rule: vlq_digits.induct)
  case (1 v)
  have "unat (v AND 31) < 64" "unat (v AND 31 OR 32) < 64"
    unfolding vlq_digit_values by (simp_all add: less_trans [OF mod_less_divisor])
  then have "BASE64_ALPHABET ! unat (v AND 31) \<in> set BASE64_ALPHABET" "BASE64_ALPHABET ! unat (v AND 31 OR 32) \<in> set BASE64_ALPHABET"
    by (intro nth_mem; simp add: BASE64_ALPHABET_def bs_def)+
  with 1 show ?case by (subst vlq_digits.simps) (auto simp: Let_def)
qed

lemma vlq_separators: "44 \<notin> set (vlq_encode v)" "59 \<notin> set (vlq_encode v)" "vlq_encode v \<noteq> []"
proof -
  have "44 \<notin> set BASE64_ALPHABET" "59 \<notin> set BASE64_ALPHABET" by (simp_all add: BASE64_ALPHABET_def bs_def)
  with vlq_alphabet show "44 \<notin> set (vlq_encode v)" "59 \<notin> set (vlq_encode v)"
    unfolding vlq_encode_def by blast+
  show "vlq_encode v \<noteq> []"
    unfolding vlq_encode_def by (subst vlq_digits.simps) (simp add: Let_def)
qed

subsection \<open>Mappings as lines of segments\<close>

text \<open>
  The mappings as data: a list of generated lines, each a list of segments, and their text. The positions a
  segment is relative to are the generated column of the segment before it on the line and the source
  position of the segment before it in the file.
\<close>

type_synonym anchor = "nat \<times> nat \<times> nat"

definition seg_text :: "nat \<Rightarrow> nat \<times> nat \<Rightarrow> anchor \<Rightarrow> str" where
  "seg_text g lc s =
     vlq_encode (int (fst s) - int g) @ vlq_encode 0
       @ vlq_encode (int (fst (snd s)) - int (fst lc)) @ vlq_encode (int (snd (snd s)) - int (snd lc))"

fun seg_texts :: "nat \<Rightarrow> nat \<times> nat \<Rightarrow> anchor list \<Rightarrow> str list" where
  "seg_texts g lc [] = []"
| "seg_texts g lc (s # ss) = seg_text g lc s # seg_texts (fst s) (snd s) ss"

definition after_line :: "nat \<times> nat \<Rightarrow> anchor list \<Rightarrow> nat \<times> nat" where
  "after_line lc line = (if line = [] then lc else snd (last line))"

fun line_texts :: "nat \<times> nat \<Rightarrow> anchor list list \<Rightarrow> str list" where
  "line_texts lc [] = []"
| "line_texts lc (t # ts) = join [44] (seg_texts 0 lc t) # line_texts (after_line lc t) ts"

definition print_map :: "anchor list list \<Rightarrow> str" where
  "print_map lines = join [59] (line_texts (0, 0) lines)"

definition last_col :: "anchor list \<Rightarrow> nat" where
  "last_col line = (if line = [] then 0 else fst (last line))"

lemma seg_texts_snoc:
  "seg_texts g lc (line @ [s]) = seg_texts g lc line @ [seg_text (if line = [] then g else last_col line) (after_line lc line) s]"
  by (induction g lc line rule: seg_texts.induct) (auto simp: last_col_def after_line_def)

lemma join_snoc: "ts \<noteq> [] \<Longrightarrow> join sep (ts @ [t]) = join sep ts @ sep @ t"
  by (induction sep ts rule: join.induct) auto

lemma line_texts_append: "line_texts lc (as @ bs') = line_texts lc as @ line_texts (foldl after_line lc as) bs'"
  by (induction lc as rule: line_texts.induct) auto

lemma join_snoc_append: "join sep (ts @ [t @ u]) = join sep (ts @ [t]) @ u"
  by (cases "ts = []") (simp_all add: join_snoc)

definition tracks :: "mapper \<Rightarrow> anchor list list \<Rightarrow> bool" where
  "tracks m lines \<longleftrightarrow> lines \<noteq> [] \<and> mappings m = print_map lines \<and> prev_gen_col m = int (last_col (last lines))
     \<and> prev_src_idx m = 0
     \<and> prev_src_line m = int (fst (foldl after_line (0, 0) lines)) \<and> prev_src_col m = int (snd (foldl after_line (0, 0) lines))"

lemma tracks_emit:
  assumes "tracks m (ls @ [line])" "comma \<longleftrightarrow> line \<noteq> []"
  shows "tracks (emit_segment comma g src m) (ls @ [line @ [(g, src)]])"
proof -
  let ?lc = "foldl after_line (0, 0) ls"
  have "join [44] (seg_texts 0 ?lc (line @ [(g, src)]))
      = join [44] (seg_texts 0 ?lc line) @ (if comma then [44] else []) @ seg_text (last_col line) (after_line ?lc line) (g, src)"
  proof (cases "line = []")
    case False
    then have "seg_texts 0 ?lc line \<noteq> []" by (cases line) auto
    with False assms(2) show ?thesis by (simp add: seg_texts_snoc join_snoc)
  qed (use assms(2) in \<open>simp add: last_col_def after_line_def\<close>)
  then have "print_map (ls @ [line @ [(g, src)]])
      = print_map (ls @ [line]) @ (if comma then [44] else []) @ seg_text (last_col line) (after_line ?lc line) (g, src)"
    by (simp add: print_map_def line_texts_append join_snoc_append)
  with assms(1) show ?thesis
    by (auto simp: tracks_def emit_segment_def Let_def seg_text_def last_col_def after_line_def)
qed

lemma tracks_new_line:
  assumes "tracks m lines"
  shows "tracks (new_line m) (lines @ [[]])"
proof -
  have "line_texts (0, 0) lines \<noteq> []" using assms by (cases lines) (auto simp: tracks_def)
  then have "print_map (lines @ [[]]) = print_map lines @ [59]"
    by (simp add: print_map_def line_texts_append join_snoc)
  with assms show ?thesis
    by (simp add: tracks_def new_line_def last_col_def after_line_def)
qed

lemma tracks_fields [simp]:
  "tracks (m\<lparr>gen_offset := x\<rparr>) lines = tracks m lines" "tracks (m\<lparr>src_offset := x\<rparr>) lines = tracks m lines"
  "tracks (m\<lparr>had_segment := b\<rparr>) lines = tracks m lines"
  by (simp_all add: tracks_def)

lemma emit_segment_fields [simp]:
  "gen_offset (emit_segment comma g src m) = gen_offset m" "src_offset (emit_segment comma g src m) = src_offset m"
  "had_segment (emit_segment comma g src m) = had_segment m"
  by (simp_all add: emit_segment_def Let_def)

lemma new_line_fields [simp]:
  "gen_offset (new_line m) = gen_offset m" "src_offset (new_line m) = src_offset m" "had_segment (new_line m) = had_segment m"
  by (simp_all add: new_line_def)

lemma seg_text_separators: "44 \<notin> set (seg_text g lc s)" "59 \<notin> set (seg_text g lc s)" "seg_text g lc s \<noteq> []"
  by (simp_all add: seg_text_def vlq_separators)

definition small :: "nat \<times> nat \<Rightarrow> bool" where
  "small lc \<longleftrightarrow> fst lc < 2 ^ 61 \<and> snd lc < 2 ^ 61"

lemma decode_seg_text:
  assumes "small lc" "small (snd s)" "g < 2 ^ 61" "fst s < 2 ^ 61"
  shows "decode_segment (int g, 0, int (fst lc), int (snd lc)) (seg_text g lc s)
           = Some (int (fst s), 0, int (fst (snd s)), int (snd (snd s)))"
proof -
  have "\<bar>int (fst s) - int g\<bar> < 2 ^ 62" "\<bar>int (fst (snd s)) - int (fst lc)\<bar> < 2 ^ 62" "\<bar>int (snd (snd s)) - int (snd lc)\<bar> < 2 ^ 62"
    using assms by (auto simp: small_def)
  then show ?thesis
    using vlq_roundtrip [of "int (snd (snd s)) - int (snd lc)" "[]"]
    by (simp add: decode_segment_def seg_text_def vlq_roundtrip)
qed

definition as_seg :: "anchor \<Rightarrow> seg" where
  "as_seg s = (int (fst s), 0, int (fst (snd s)), int (snd (snd s)))"

definition small_line :: "anchor list \<Rightarrow> bool" where
  "small_line = list_all (\<lambda>s. fst s < 2 ^ 61 \<and> small (snd s))"

lemma decode_seg_texts:
  "small lc \<Longrightarrow> g < 2 ^ 61 \<Longrightarrow> small_line line \<Longrightarrow>
     decode_segments (int g, 0, int (fst lc), int (snd lc)) (seg_texts g lc line) = Some (map as_seg line)"
proof (induction line arbitrary: g lc)
  case (Cons s line)
  then show ?case
    by (simp add: decode_seg_text as_seg_def small_line_def)
qed simp

lemma seg_texts_separators: "t \<in> set (seg_texts g lc line) \<Longrightarrow> 44 \<notin> set t \<and> 59 \<notin> set t \<and> t \<noteq> []"
  by (induction g lc line rule: seg_texts.induct) (auto simp: seg_text_separators)

lemma join_eq_Nil: "\<forall>t \<in> set ts. t \<noteq> [] \<Longrightarrow> join sep ts = [] \<longleftrightarrow> ts = []"
  by (induction sep ts rule: join.induct) auto

lemma decode_line_text:
  assumes "small lc" "small_line line"
  shows "decode_segments (0, 0, int (fst lc), int (snd lc)) (if join [44] (seg_texts 0 lc line) = [] then []
      else split_on 44 (join [44] (seg_texts 0 lc line))) = Some (map as_seg line)"
proof -
  have "\<forall>t \<in> set (seg_texts 0 lc line). 44 \<notin> set t \<and> t \<noteq> []" by (auto dest: seg_texts_separators)
  then have "(if join [44] (seg_texts 0 lc line) = [] then [] else split_on 44 (join [44] (seg_texts 0 lc line)))
      = seg_texts 0 lc line"
    by (simp add: join_eq_Nil split_on_join)
  with decode_seg_texts [of lc 0 line] assms show ?thesis by simp
qed

lemma decode_line_texts:
  "small lc \<Longrightarrow> list_all small_line ls \<Longrightarrow>
     decode_lines (k, 0, int (fst lc), int (snd lc)) (line_texts lc ls) = Some (map (map as_seg) ls)"
proof (induction ls arbitrary: lc k)
  case (Cons line ls)
  have after: "small (after_line lc line)"
    using Cons.prems by (auto simp: after_line_def small_line_def list_all_iff)
  have "(if map as_seg line = [] then (k, 0, int (fst lc), int (snd lc)) else last (map as_seg line))
      = (if line = [] then k else int (last_col line), 0, int (fst (after_line lc line)), int (snd (after_line lc line)))"
    by (simp add: last_map as_seg_def after_line_def last_col_def)
  with Cons after decode_line_text [of lc line] show ?case
    by simp
qed simp

lemma decode_print_map:
  assumes "lines \<noteq> []" "list_all small_line lines"
  shows "decode_mappings (print_map lines) = Some (map (map as_seg) lines)"
proof -
  have "59 \<notin> set t" if "t \<in> set (line_texts lc ls)" for t lc ls
    using that
  proof (induction lc ls rule: line_texts.induct)
    case (2 lc line ls)
    have "59 \<notin> set (join [44] (seg_texts 0 lc line))"
      using set_join [of "[44]" "seg_texts 0 lc line"] by (auto dest: seg_texts_separators)
    with 2 show ?case by auto
  qed simp
  moreover have "line_texts (0, 0) lines \<noteq> []" using assms(1) by (cases lines) auto
  ultimately have "split_on 59 (print_map lines) = line_texts (0, 0) lines"
    unfolding print_map_def by (intro split_on_join) auto
  with decode_line_texts [of "(0, 0)" lines 0] assms(2) show ?thesis
    by (simp add: decode_mappings_def small_def)
qed

subsection \<open>Character boundaries\<close>

lemma boundaryI: "i \<le> length s \<Longrightarrow> drop i s = [] \<or> \<not> is_cont (hd (drop i s)) \<Longrightarrow> is_char_boundary s i"
  by (auto simp: is_char_boundary_def hd_drop_conv_nth)

lemma boundary_hd: "is_char_boundary s i \<Longrightarrow> 0 < i \<Longrightarrow> drop i s = [] \<or> \<not> is_cont (hd (drop i s))"
  by (auto simp: is_char_boundary_def hd_drop_conv_nth)

lemma utf8_valid_hd: "utf8_valid s \<Longrightarrow> s = [] \<or> \<not> is_cont (hd s)"
proof (cases s)
  case (Cons b t)
  assume "utf8_valid s"
  with Cons have "lead_extra b \<noteq> None"
    by (subst (asm) utf8_valid.simps) (auto split: option.splits)
  then have "\<not> is_cont b"
    by (auto simp: lead_extra_def is_cont_def word_le_nat_alt word_less_nat_alt split: if_splits)
  with Cons show ?thesis by simp
qed simp

lemma conts_all: "conts k t = k \<Longrightarrow> \<forall>b \<in> set (take k t). is_cont b"
  by (induction k t rule: conts.induct) (auto split: if_splits)

lemma second_ok_cont: "second_ok b c \<Longrightarrow> is_cont c"
  by (auto simp: second_ok_def is_cont_def word_le_nat_alt split: if_splits)

lemma char_bytes: "utf8_step s = Inr n \<Longrightarrow> i < n \<Longrightarrow> 1 < n \<Longrightarrow> 0x80 \<le> s ! i"
proof (cases s)
  case (Cons b t)
  assume step: "utf8_step s = Inr n" and i: "i < n" "1 < n"
  then obtain c r k where t: "t = c # r" and k: "n = Suc (Suc k)" "lead_extra b = Some (Suc k)" "second_ok b c" "conts k r = k"
    using Cons by (auto split: option.splits nat.splits list.splits if_splits)
  have "0x80 \<le> b" using k(2) by (auto simp: lead_extra_def not_less split: if_splits)
  moreover have "0x80 \<le> c" using second_ok_cont [OF k(3)] by (simp add: is_cont_def)
  moreover have "0x80 \<le> r ! j" if "j < k" for j
  proof -
    have "r ! j \<in> set (take k r)" using that conts_full_le [OF k(4)] by (auto simp: in_set_conv_nth)
    with conts_all [OF k(4)] show ?thesis by (auto simp: is_cont_def)
  qed
  ultimately show ?thesis
    using i k(1) Cons t by (auto simp: nth_Cons split: nat.splits)
qed simp

lemma ascii_boundary: "utf8_valid s \<Longrightarrow> i < length s \<Longrightarrow> s ! i < 0x80 \<Longrightarrow> is_char_boundary s (Suc i)"
proof (induction s arbitrary: i rule: utf8_valid.induct)
  case (1 s)
  then have "s \<noteq> []" by auto
  with "1.prems"(1) obtain n where n: "utf8_step s = Inr n"
    by (auto simp: utf8_valid.simps [of s] split: sum.splits)
  with "1.prems" have rest: "utf8_valid (drop n s)" by (simp add: utf8_valid_step)
  have le: "0 < n" "n \<le> length s" using utf8_step_Inr [OF n] by auto
  show ?case
  proof (cases "i < n")
    case True
    with char_bytes [OF n True] "1.prems"(3) have "\<not> 1 < n" by (auto simp: not_less [symmetric])
    with True le have "n = 1" "i = 0" by linarith+
    with utf8_valid_hd [OF rest] le show ?thesis by (intro boundaryI) auto
  next
    case False
    with "1.IH" \<open>s \<noteq> []\<close> n rest "1.prems" have "is_char_boundary (drop n s) (Suc (i - n))" by simp
    then have "drop (Suc (i - n)) (drop n s) = [] \<or> \<not> is_cont (hd (drop (Suc (i - n)) (drop n s)))"
      by (rule boundary_hd) simp
    moreover have "i - n + n = i" using False by simp
    ultimately show ?thesis using "1.prems" by (intro boundaryI) simp_all
  qed
qed

lemma weave_hd:
  assumes "is_char_boundary source n" "0 < n \<or> utf8_valid source"
    "\<forall>p \<in> set ps. is_char_boundary source (patch_end p) \<and> utf8_valid (replacement p)" "disjoint_from n ps"
    "\<forall>p \<in> set ps. patch_start p \<le> patch_end p \<and> patch_end p \<le> length source"
  shows "weave source n ps (map replacement ps) = [] \<or> \<not> is_cont (hd (weave source n ps (map replacement ps)))"
proof -
  have here: "drop n source = [] \<or> \<not> is_cont (hd (drop n source))"
    if "is_char_boundary source n" "0 < n \<or> utf8_valid source" for n
    using that boundary_hd utf8_valid_hd by (cases "n = 0") auto
  show ?thesis
    using assms
  proof (induction ps arbitrary: n)
    case Nil
    then show ?case using here by simp
  next
    case (Cons p ps)
    show ?case
    proof (cases "n < patch_start p")
      case True
      then have "n < length source" using Cons.prems by simp
      with True Cons.prems here [of n] show ?thesis by (simp add: hd_append hd_drop_conv_nth)
    next
      case False
      then have eq: "patch_start p - n = 0" by simp
      show ?thesis
      proof (cases "replacement p = []")
        case True
        have "0 < patch_end p \<or> utf8_valid source" using Cons.prems by (auto simp: False)
        with Cons.IH [of "patch_end p"] Cons.prems eq True show ?thesis by simp
      next
        case rep: False
        have "\<not> is_cont (hd (replacement p))" using utf8_valid_hd Cons.prems(3) rep by auto
        with eq rep show ?thesis by simp
      qed
    qed
  qed
qed

subsection \<open>Where a position of the rewritten script comes from\<close>

text \<open>
  A position of an unchanged region comes from the same position of the source, one of a replacement from
  the start of its patch.
\<close>

fun comes_from :: "patch list \<Rightarrow> nat \<Rightarrow> nat \<Rightarrow> nat \<Rightarrow> nat \<Rightarrow> bool" where
  "comes_from [] n g go so \<longleftrightarrow> g \<le> go \<and> so = n + (go - g)"
| "comes_from (p # ps) n g go so \<longleftrightarrow>
     (let g1 = g + (patch_start p - n); g2 = g1 + length (replacement p)
      in (g \<le> go \<and> go \<le> g1 \<and> so = n + (go - g)) \<or> (g1 \<le> go \<and> go \<le> g2 \<and> so = patch_start p)
         \<or> comes_from ps (patch_end p) g2 go so)"

definition newlines :: "str \<Rightarrow> nat" where
  "newlines s = length (filter (\<lambda>b. b = LF) s)"

lemma line_col_fst: "fst (line_col s) = newlines s"
proof -
  have "fst (fold advance_pos s lc) = fst lc + newlines s" for lc
    by (induction s arbitrary: lc) (simp_all add: advance_pos_def newlines_def)
  then show ?thesis by (simp add: line_col_def)
qed

lemma line_col_after_newline: "i < length s \<Longrightarrow> s ! i = LF \<Longrightarrow> line_col (take (Suc i) s) = (newlines (take (Suc i) s), 0)"
  by (simp add: take_Suc_conv_app_nth line_col_def advance_pos_def newlines_def flip: line_col_fst [unfolded line_col_def newlines_def])

lemma line_col_bound: "fst (line_col s) \<le> length s \<and> snd (line_col s) \<le> 2 * length s"
proof -
  have "fst (fold advance_pos s lc) \<le> fst lc + length s \<and> snd (fold advance_pos s lc) \<le> snd lc + 2 * length s" for lc
  proof (induction s arbitrary: lc)
    case (Cons b s)
    have "fst (advance_pos b lc) \<le> fst lc + 1" "snd (advance_pos b lc) \<le> snd lc + 2"
      by (simp_all add: advance_pos_def utf16_units_def)
    with Cons [of "advance_pos b lc"] show ?case by simp
  qed simp
  from this [of "(0, 0)"] show ?thesis by (simp add: line_col_def)
qed

lemma offset_ok: "is_char_boundary s i \<Longrightarrow> i \<le> length s \<Longrightarrow> offset_to_line_col s i = Return (line_col (take i s))"
  by (simp add: offset_to_line_col_def str_slice_def is_char_boundary_def [of s 0])

definition segs_of :: "anchor list list \<Rightarrow> (nat \<times> anchor) set" where
  "segs_of ls = {(k, s). k < length ls \<and> s \<in> set (ls ! k)}"

lemma segs_of_snoc_seg: "segs_of (ls @ [line @ [s]]) = insert (length ls, s) (segs_of (ls @ [line]))"
  by (auto simp: segs_of_def nth_append less_Suc_eq)

lemma segs_of_new_line: "segs_of (ls @ [[]]) = segs_of ls"
  by (auto simp: segs_of_def nth_append less_Suc_eq)

text \<open>
  The invariant of the composer: the text written so far is that of \<open>ls\<close>, one list per generated line so
  far, each opened at column 0, with every segment in \<open>Q\<close>.
\<close>

definition composed :: "(nat \<times> anchor) set \<Rightarrow> str \<Rightarrow> mapper \<Rightarrow> anchor list list \<Rightarrow> bool" where
  "composed Q rewritten m ls \<longleftrightarrow>
     tracks m ls \<and> had_segment m \<and> length ls = Suc (newlines (take (gen_offset m) rewritten))
     \<and> segs_of ls \<subseteq> Q \<and> list_all (\<lambda>line. line \<noteq> [] \<and> fst (hd line) = 0) ls"

lemma composed_next_line:
  assumes "composed Q rewritten m ls" "gen_offset m < length rewritten" "rewritten ! gen_offset m = LF"
    and "(newlines (take (Suc (gen_offset m)) rewritten), (0, src)) \<in> Q"
    and m': "m' = ((emit_segment False 0 src ((new_line m)\<lparr>gen_offset := Suc (gen_offset m), src_offset := n\<rparr>))\<lparr>had_segment := True\<rparr>)"
  shows "composed Q rewritten m' (ls @ [[(0, src)]])"
proof -
  have "tracks (new_line m) (ls @ [[]])" using assms(1) by (intro tracks_new_line) (simp add: composed_def)
  then have "tracks m' (ls @ [[] @ [(0, src)]])"
    unfolding m' tracks_fields by (intro tracks_emit) simp_all
  moreover have "newlines (take (Suc (gen_offset m)) rewritten) = Suc (newlines (take (gen_offset m) rewritten))"
    using assms(2,3) by (simp add: take_Suc_conv_app_nth newlines_def)
  moreover have "segs_of (ls @ [[] @ [(0, src)]]) = insert (length ls, (0, src)) (segs_of ls)"
    unfolding segs_of_snoc_seg segs_of_new_line ..
  ultimately show ?thesis
    using assms(1,4) m' by (simp add: composed_def)
qed

lemma composed_step:
  assumes "composed Q rewritten m ls" "gen_offset m < length rewritten" "rewritten ! gen_offset m \<noteq> LF"
  shows "composed Q rewritten (m\<lparr>gen_offset := Suc (gen_offset m), src_offset := n\<rparr>) ls"
  using assms by (simp add: composed_def take_Suc_conv_app_nth newlines_def)

definition extends :: "anchor list list \<Rightarrow> anchor list list \<Rightarrow> bool" where
  "extends ls ls' \<longleftrightarrow> segs_of ls \<subseteq> segs_of ls'"

lemma extends_refl [simp]: "extends ls ls" and extends_trans: "extends a b \<Longrightarrow> extends b c \<Longrightarrow> extends a c"
  by (auto simp: extends_def)

lemma extends_snoc: "extends ls (ls @ [line])"
  by (auto simp: extends_def segs_of_def nth_append)

lemma nth_of_slice: "take (length cs) (drop g rewritten) = cs \<Longrightarrow> i < length cs \<Longrightarrow> g + i < length rewritten \<and> rewritten ! (g + i) = cs ! i"
  by (metis add.commute length_drop length_take less_diff_conv min_less_iff_conj nth_drop nth_take order_less_imp_le le_less_trans drop_eq_Nil linorder_not_less list.size(3) not_less_zero take_Nil)

lemma walk_unchanged_composed:
  assumes "composed Q rewritten m ls" "gen_offset m = g" "src_offset m = n" "take (length cs) (drop g rewritten) = cs"
    "n + length cs \<le> length source"
    "\<And>i. i < length cs \<Longrightarrow> cs ! i = LF \<Longrightarrow> is_char_boundary source (n + Suc i)"
    "\<And>i. i < length cs \<Longrightarrow> cs ! i = LF \<Longrightarrow>
        (newlines (take (g + Suc i) rewritten), (0, line_col (take (n + Suc i) source))) \<in> Q"
  shows "\<exists>m' ls'. walk_unchanged source cs m = Return m' \<and> composed Q rewritten m' ls'
    \<and> gen_offset m' = g + length cs \<and> src_offset m' = n + length cs \<and> extends ls ls'"
  using assms
proof (induction cs arbitrary: m ls g n)
  case Nil
  then show ?case by auto
next
  case (Cons c cs)
  have here: "g < length rewritten" "rewritten ! g = c"
    using nth_of_slice [OF Cons.prems(4), of 0] by simp_all
  have rest: "take (length cs) (drop (Suc g) rewritten) = cs"
    using Cons.prems(4) here by (cases "drop g rewritten") (auto simp: drop_Suc drop_tl)
  have bnd: "is_char_boundary source (Suc n + Suc i)" if "i < length cs" "cs ! i = LF" for i
    using Cons.prems(6) [of "Suc i"] that by simp
  have inQ: "(newlines (take (Suc g + Suc i) rewritten), (0, line_col (take (Suc n + Suc i) source))) \<in> Q"
    if "i < length cs" "cs ! i = LF" for i
    using Cons.prems(7) [of "Suc i"] that by simp
  show ?case
  proof (cases "c = LF")
    case True
    let ?src = "line_col (take (Suc n) source)"
    define m1 where "m1 = (emit_segment False 0 ?src ((new_line m)\<lparr>gen_offset := Suc g, src_offset := Suc n\<rparr>))\<lparr>had_segment := True\<rparr>"
    have pos: "offset_to_line_col source (Suc n) = Return ?src"
      using Cons.prems(5) Cons.prems(6) [of 0] True by (intro offset_ok) auto
    have c1: "composed Q rewritten m1 (ls @ [[(0, ?src)]])"
      using Cons.prems(1,2) here True Cons.prems(7) [of 0] by (intro composed_next_line [of _ _ m _ _ _ "Suc n"]) (simp_all add: m1_def)
    have "gen_offset m1 = Suc g" "src_offset m1 = Suc n" by (simp_all add: m1_def)
    then have "\<exists>m' ls'. walk_unchanged source cs m1 = Return m' \<and> composed Q rewritten m' ls'
        \<and> gen_offset m' = Suc g + length cs \<and> src_offset m' = Suc n + length cs \<and> extends (ls @ [[(0, ?src)]]) ls'"
      using Cons.prems(5) by (intro Cons.IH [OF c1 _ _ rest _ bnd inQ]) simp_all
    then obtain m' ls' where
      "walk_unchanged source cs m1 = Return m'" "composed Q rewritten m' ls'"
      "gen_offset m' = Suc g + length cs" "src_offset m' = Suc n + length cs" "extends (ls @ [[(0, ?src)]]) ls'"
      by blast
    moreover have "walk_unchanged source (c # cs) m = walk_unchanged source cs m1"
      using True pos Cons.prems(2,3) by (simp add: m1_def Let_def)
    ultimately show ?thesis
      using extends_trans [OF extends_snoc [of ls "[(0, ?src)]"]] by (intro exI [of _ m'] exI [of _ ls']) simp
  next
    case False
    let ?m1 = "m\<lparr>gen_offset := Suc g, src_offset := Suc n\<rparr>"
    have c1: "composed Q rewritten ?m1 ls"
      using Cons.prems(1,2) here False composed_step [of Q rewritten m ls "Suc n"] by simp
    have "\<exists>m' ls'. walk_unchanged source cs ?m1 = Return m' \<and> composed Q rewritten m' ls'
        \<and> gen_offset m' = Suc g + length cs \<and> src_offset m' = Suc n + length cs \<and> extends ls ls'"
      using Cons.prems(5) by (intro Cons.IH [OF c1 _ _ rest _ bnd inQ]) simp_all
    then obtain m' ls' where
      "walk_unchanged source cs ?m1 = Return m'" "composed Q rewritten m' ls'"
      "gen_offset m' = Suc g + length cs" "src_offset m' = Suc n + length cs" "extends ls ls'"
      by blast
    moreover have "walk_unchanged source (c # cs) m = walk_unchanged source cs ?m1"
      using False Cons.prems(2,3) by simp
    ultimately show ?thesis by (intro exI [of _ m'] exI [of _ ls']) simp
  qed
qed

lemma walk_replacement_composed:
  assumes "composed Q rewritten m ls" "gen_offset m = g" "take (length cs) (drop g rewritten) = cs"
    "\<And>i. i < length cs \<Longrightarrow> cs ! i = LF \<Longrightarrow> (newlines (take (g + Suc i) rewritten), (0, src)) \<in> Q"
  shows "\<exists>ls'. composed Q rewritten (walk_replacement src cs m) ls'
    \<and> gen_offset (walk_replacement src cs m) = g + length cs \<and> extends ls ls'"
  using assms
proof (induction cs arbitrary: m ls g)
  case Nil
  then show ?case by auto
next
  case (Cons c cs)
  have here: "g < length rewritten" "rewritten ! g = c"
    using nth_of_slice [OF Cons.prems(3), of 0] by simp_all
  have rest: "take (length cs) (drop (Suc g) rewritten) = cs"
    using Cons.prems(3) here by (cases "drop g rewritten") (auto simp: drop_Suc drop_tl)
  have inQ: "(newlines (take (Suc g + Suc i) rewritten), (0, src)) \<in> Q" if "i < length cs" "cs ! i = LF" for i
    using Cons.prems(4) [of "Suc i"] that by simp
  show ?case
  proof (cases "c = LF")
    case True
    define m1 where "m1 = (emit_segment False 0 src ((new_line m)\<lparr>gen_offset := Suc g\<rparr>))\<lparr>had_segment := True\<rparr>"
    have "m1 = (emit_segment False 0 src ((new_line m)\<lparr>gen_offset := Suc (gen_offset m), src_offset := src_offset m\<rparr>))\<lparr>had_segment := True\<rparr>"
      using Cons.prems(2) by (simp add: m1_def new_line_def emit_segment_def Let_def)
    then have c1: "composed Q rewritten m1 (ls @ [[(0, src)]])"
      using Cons.prems(1,2) here True Cons.prems(4) [of 0] by (intro composed_next_line [of _ _ m]) simp_all
    have "gen_offset m1 = Suc g" by (simp add: m1_def)
    from Cons.IH [OF c1 this rest inQ] obtain ls' where
      "composed Q rewritten (walk_replacement src cs m1) ls'" "gen_offset (walk_replacement src cs m1) = Suc g + length cs"
      "extends (ls @ [[(0, src)]]) ls'"
      by blast
    moreover have "walk_replacement src (c # cs) m = walk_replacement src cs m1"
      using True Cons.prems(2) by (simp add: m1_def)
    ultimately show ?thesis
      using extends_trans [OF extends_snoc [of ls "[(0, src)]"]] by (intro exI [of _ ls']) simp
  next
    case False
    let ?m1 = "m\<lparr>gen_offset := Suc g\<rparr>"
    have c1: "composed Q rewritten ?m1 ls"
      using Cons.prems(1,2) here False composed_step [of Q rewritten m ls "src_offset m"] by simp
    have "gen_offset ?m1 = Suc g" by simp
    from Cons.IH [OF c1 this rest inQ] obtain ls' where
      "composed Q rewritten (walk_replacement src cs ?m1) ls'" "gen_offset (walk_replacement src cs ?m1) = Suc g + length cs"
      "extends ls ls'"
      by blast
    with False Cons.prems(2) show ?thesis by (intro exI [of _ ls']) simp
  qed
qed

subsection \<open>The patches and the tail\<close>

definition anchored :: "str \<Rightarrow> str \<Rightarrow> (nat \<Rightarrow> nat \<Rightarrow> bool) \<Rightarrow> (nat \<times> anchor) set" where
  "anchored source rewritten F =
     {(k, s). \<exists>go so. F go so \<and> go \<le> length rewritten \<and> so \<le> length source
        \<and> line_col (take go rewritten) = (k, fst s) \<and> line_col (take so source) = snd s}"

lemma anchoredI:
  "F go so \<Longrightarrow> go \<le> length rewritten \<Longrightarrow> so \<le> length source \<Longrightarrow> line_col (take go rewritten) = (k, g) \<Longrightarrow>
     line_col (take so source) = src \<Longrightarrow> (k, (g, src)) \<in> anchored source rewritten F"
  by (auto simp: anchored_def)

text \<open>Nothing written yet, or the invariant.\<close>

definition ready :: "(nat \<times> anchor) set \<Rightarrow> str \<Rightarrow> mapper \<Rightarrow> anchor list list \<Rightarrow> bool" where
  "ready Q rewritten m ls \<longleftrightarrow> composed Q rewritten m ls \<or> m = mapper0 \<and> ls = [[]]"

lemma open_line_composed:
  assumes "(0, (0, (0, 0))) \<in> Q"
  obtains m where "open_line source rewritten mapper0 = Return m" "composed Q rewritten (m\<lparr>had_segment := True\<rparr>) [[(0, (0, 0))]]"
    "gen_offset m = 0" "src_offset m = 0"
proof -
  let ?m = "emit_segment False 0 (0, 0) mapper0"
  have "tracks mapper0 [[]]"
    by (simp add: tracks_def mapper0_def print_map_def last_col_def after_line_def)
  then have "tracks ?m ([] @ [[] @ [(0, (0, 0))]])" by (intro tracks_emit) simp_all
  then have "composed Q rewritten (?m\<lparr>had_segment := True\<rparr>) [[(0, (0, 0))]]"
    using assms by (auto simp: composed_def newlines_def segs_of_def mapper0_def)
  moreover have "open_line source rewritten mapper0 = Return ?m"
    by (simp add: open_line_def offset_ok mapper0_def line_col_def is_char_boundary_def)
  moreover have "gen_offset ?m = 0" "src_offset ?m = 0"
    unfolding emit_segment_fields by (simp_all add: mapper0_def)
  ultimately show thesis by (intro that)
qed

lemma composed_patch_segment:
  assumes "composed Q rewritten m ls" "(newlines (take (gen_offset m) rewritten), (g, src)) \<in> Q"
  shows "\<exists>ls'. composed Q rewritten (emit_segment True g src m) ls' \<and> extends ls ls'
    \<and> (newlines (take (gen_offset m) rewritten), (g, src)) \<in> segs_of ls'"
proof -
  have ls: "ls \<noteq> []" "length ls = Suc (newlines (take (gen_offset m) rewritten))" "last ls \<noteq> []" "fst (hd (last ls)) = 0"
    using assms(1) by (auto simp: composed_def tracks_def list_all_iff)
  then have eq: "ls = butlast ls @ [last ls]" by simp
  let ?ls = "butlast ls @ [last ls @ [(g, src)]]"
  have "tracks (emit_segment True g src m) ?ls"
    using assms(1) eq ls(3) by (intro tracks_emit) (simp_all add: composed_def)
  moreover have segs: "segs_of ?ls = insert (newlines (take (gen_offset m) rewritten), (g, src)) (segs_of ls)"
    unfolding segs_of_snoc_seg using eq ls(2) by simp
  moreover have "list_all (\<lambda>line. line \<noteq> [] \<and> fst (hd line) = 0) ?ls"
    using assms(1) ls by (auto simp: composed_def list_all_iff dest: in_set_butlastD)
  ultimately have "composed Q rewritten (emit_segment True g src m) ?ls"
    using assms ls(2) by (simp add: composed_def)
  with segs show ?thesis by (auto simp: extends_def)
qed

definition patches_at_boundaries :: "str \<Rightarrow> patch list \<Rightarrow> bool" where
  "patches_at_boundaries source ps \<longleftrightarrow>
     list_all (\<lambda>p. patch_start p \<le> patch_end p \<and> patch_end p \<le> length source
        \<and> is_char_boundary source (patch_start p) \<and> is_char_boundary source (patch_end p) \<and> utf8_valid (replacement p)) ps"

lemma boundary_of_weave:
  assumes "utf8_valid source" "patches_at_boundaries source ps" "is_char_boundary source n" "disjoint_from n ps"
    "g \<le> length rewritten" "drop g rewritten = weave source n ps (map replacement ps)"
  shows "is_char_boundary rewritten g"
  using assms weave_hd [OF assms(3) disjI2 [OF assms(1)] _ assms(4)]
  by (intro boundaryI) (auto simp: patches_at_boundaries_def list_all_iff)

lemma slice_at: "drop g s = a @ b \<Longrightarrow> g \<le> length s \<Longrightarrow> take (length a) (drop g s) = a \<and> g + length a \<le> length s \<and> drop (g + length a) s = b"
proof -
  assume eq: "drop g s = a @ b" and g: "g \<le> length s"
  from eq have "length s - g = length a + length b" by (metis length_append length_drop)
  moreover have "drop (g + length a) s = drop (length a) (drop g s)" by (simp add: add.commute)
  ultimately show ?thesis using eq g by simp
qed

lemma open_if_needed:
  assumes "ready Q rewritten m ls" "(0, (0, (0, 0))) \<in> Q"
  shows "\<exists>m' ls'. (if had_segment m then Return m else and_then (open_line source rewritten m) (\<lambda>m. Return (m\<lparr>had_segment := True\<rparr>))) = Return m'
    \<and> composed Q rewritten m' ls' \<and> gen_offset m' = gen_offset m \<and> src_offset m' = src_offset m \<and> extends ls ls'"
proof (cases "composed Q rewritten m ls")
  case True
  then have "had_segment m" by (simp add: composed_def)
  with True show ?thesis by auto
next
  case False
  with assms(1) have m: "m = mapper0" "ls = [[]]" by (auto simp: ready_def)
  obtain m1 where "open_line source rewritten mapper0 = Return m1" "composed Q rewritten (m1\<lparr>had_segment := True\<rparr>) [[(0, (0, 0))]]"
    "gen_offset m1 = 0" "src_offset m1 = 0"
    by (rule open_line_composed [OF assms(2)])
  with m show ?thesis
    by (intro exI [of _ "m1\<lparr>had_segment := True\<rparr>"] exI [of _ "[[(0, (0, 0))]]"]) (auto simp: mapper0_def extends_def segs_of_def)
qed

lemma composed_src_offset [simp]: "composed Q rewritten (m\<lparr>src_offset := x\<rparr>) ls = composed Q rewritten m ls"
  by (simp add: composed_def)

lemma map_patch_composed:
  assumes ready: "ready Q rewritten m ls" and pos: "gen_offset m = g" "src_offset m = n"
    and Q: "Q = anchored source rewritten F" and start: "F 0 0"
    and valid: "utf8_valid source" and ps: "patches_at_boundaries source (p # ps)"
    and n: "is_char_boundary source n" "n \<le> length source" "disjoint_from n (p # ps)"
    and g: "g \<le> length rewritten" "drop g rewritten = weave source n (p # ps) (map replacement (p # ps))"
    and F: "\<And>go so. comes_from (p # ps) n g go so \<Longrightarrow> F go so"
  shows "\<exists>m' ls'. map_patch source rewritten p m = Return m' \<and> composed Q rewritten m' ls' \<and> src_offset m' = patch_end p
    \<and> gen_offset m' = g + (patch_start p - n) + length (replacement p) \<and> extends ls ls'
    \<and> (\<exists>k c. (k, (c, line_col (take (patch_start p) source))) \<in> segs_of ls')"
proof -
  let ?u = "patch_start p - n"
  let ?g1 = "g + ?u"
  let ?src = "line_col (take (patch_start p) source)"
  let ?rest = "weave source (patch_end p) ps (map replacement ps)"
  have p: "n \<le> patch_start p" "patch_start p \<le> patch_end p" "patch_end p \<le> length source"
      "is_char_boundary source (patch_start p)" "n + ?u = patch_start p"
    using ps n(3) by (auto simp: patches_at_boundaries_def)
  define mid where "mid = take ?u (drop n source)"
  have len: "length mid = ?u" using p by (simp add: mid_def)
  have "drop g rewritten = mid @ replacement p @ ?rest" using g(2) by (simp add: mid_def)
  from slice_at [OF this g(1)] have mid: "take (length mid) (drop g rewritten) = mid"
    and g1: "?g1 \<le> length rewritten" "drop ?g1 rewritten = replacement p @ ?rest"
    using len by simp_all
  from slice_at [OF g1(2,1)] have rep: "take (length (replacement p)) (drop ?g1 rewritten) = replacement p"
    and g2: "?g1 + length (replacement p) \<le> length rewritten" by simp_all
  have bg: "is_char_boundary rewritten g"
    using boundary_of_weave [OF valid ps n(1,3) g] .
  have bg1: "is_char_boundary rewritten ?g1"
    using g1 n(3) by (intro boundary_of_weave [OF valid ps p(4)]) auto
  have slices: "str_slice source n (n + ?u) = Return mid" "str_slice rewritten g ?g1 = Return mid"
    using p n(1) bg bg1 mid len by (simp_all add: str_slice_def mid_def)
  have inQ: "(newlines (take go rewritten), (0, line_col (take so source))) \<in> Q"
    if "F go so" "go \<le> length rewritten" "so \<le> length source" "0 < go" "rewritten ! (go - 1) = LF" for go so
    unfolding Q using that line_col_after_newline [of "go - 1" rewritten] by (intro anchoredI [of F go so]) auto
  have origin: "(0, (0, (0, 0))) \<in> Q"
    unfolding Q using start by (intro anchoredI [of F 0 0]) (auto simp: line_col_def)
  obtain m1 ls1 where m1: "(if had_segment m then Return m else and_then (open_line source rewritten m) (\<lambda>m. Return (m\<lparr>had_segment := True\<rparr>))) = Return m1"
      "composed Q rewritten m1 ls1" "gen_offset m1 = g" "src_offset m1 = n" "extends ls ls1"
    using open_if_needed [OF ready origin, of source] pos by auto
  have mid_nth: "source ! (n + i) = mid ! i" "rewritten ! (g + i) = mid ! i" if "i < length mid" for i
    using that len p nth_of_slice [OF mid that] by (simp_all add: mid_def)
  have "\<exists>m2 ls2. walk_unchanged source mid m1 = Return m2 \<and> composed Q rewritten m2 ls2
      \<and> gen_offset m2 = g + length mid \<and> src_offset m2 = n + length mid \<and> extends ls1 ls2"
  proof (rule walk_unchanged_composed [OF m1(2-4) mid])
    show "n + length mid \<le> length source" using p len by simp
    fix i
    assume i: "i < length mid" "mid ! i = LF"
    then show "is_char_boundary source (n + Suc i)"
      using ascii_boundary [OF valid, of "n + i"] mid_nth [OF i(1)] p len by simp
    have "F (g + Suc i) (n + Suc i)"
      using i len by (intro F) (unfold comes_from.simps Let_def, intro disjI1, simp)
    then show "(newlines (take (g + Suc i) rewritten), (0, line_col (take (n + Suc i) source))) \<in> Q"
      using i len p g1(1) mid_nth [OF i(1)] by (intro inQ) auto
  qed
  then obtain m2 ls2 where m2: "walk_unchanged source mid m1 = Return m2" "composed Q rewritten m2 ls2"
      "gen_offset m2 = ?g1" "extends ls1 ls2"
    using len by auto
  have F1: "F (?g1 + i) (patch_start p)" if "i \<le> length (replacement p)" for i
    using that by (intro F) (unfold comes_from.simps Let_def, rule disjI2, rule disjI1, simp)
  have "(newlines (take ?g1 rewritten), (snd (line_col (take ?g1 rewritten)), ?src)) \<in> Q"
    unfolding Q using F1 [of 0] g1(1) p
    by (intro anchoredI [of F ?g1 "patch_start p"]) (auto simp: line_col_fst [symmetric])
  then obtain ls3 where ls3: "composed Q rewritten (emit_segment True (snd (line_col (take ?g1 rewritten))) ?src m2) ls3"
      "extends ls2 ls3" "(newlines (take ?g1 rewritten), (snd (line_col (take ?g1 rewritten)), ?src)) \<in> segs_of ls3"
    using composed_patch_segment [OF m2(2)] m2(3) by metis
  define m3 where "m3 = walk_replacement ?src (replacement p) (emit_segment True (snd (line_col (take ?g1 rewritten))) ?src m2)"
  have "\<exists>ls4. composed Q rewritten m3 ls4 \<and> gen_offset m3 = ?g1 + length (replacement p) \<and> extends ls3 ls4"
    unfolding m3_def
  proof (rule walk_replacement_composed [OF ls3(1) _ rep])
    show "gen_offset (emit_segment True (snd (line_col (take ?g1 rewritten))) ?src m2) = ?g1" using m2(3) by simp
    fix i
    assume i: "i < length (replacement p)" "replacement p ! i = LF"
    with F1 [of "Suc i"] nth_of_slice [OF rep i(1)] g2 p show "(newlines (take (?g1 + Suc i) rewritten), (0, ?src)) \<in> Q"
      by (intro inQ) auto
  qed
  then obtain ls4 where ls4: "composed Q rewritten m3 ls4" "gen_offset m3 = ?g1 + length (replacement p)" "extends ls3 ls4"
    by blast
  have "map_patch source rewritten p m = Return (m3\<lparr>src_offset := patch_end p\<rparr>)"
    unfolding map_patch_def using p(1) pos slices m1(1) m2(1,3) offset_ok [OF p(4)] offset_ok [OF bg1 g1(1)] p(2,3)
    by (simp add: m3_def Let_def)
  moreover have "extends ls ls4" using m1(5) m2(4) ls3(2) ls4(3) extends_trans by blast
  moreover have "(newlines (take ?g1 rewritten), (snd (line_col (take ?g1 rewritten)), ?src)) \<in> segs_of ls4"
    using ls3(3) ls4(3) by (auto simp: extends_def)
  ultimately show ?thesis
    using ls4(1,2) by (intro exI [of _ "m3\<lparr>src_offset := patch_end p\<rparr>"] exI [of _ ls4]) auto
qed

lemma map_patches_composed:
  assumes "ready Q rewritten m ls" "gen_offset m = g" "src_offset m = n"
    and Q: "Q = anchored source rewritten F" and start: "F 0 0" and valid: "utf8_valid source"
    and "patches_at_boundaries source ps" "is_char_boundary source n" "n \<le> length source" "disjoint_from n ps"
    and "g \<le> length rewritten" "drop g rewritten = weave source n ps (map replacement ps)"
    and "\<And>go so. comes_from ps n g go so \<Longrightarrow> F go so"
  shows "\<exists>m' ls'. map_patches source rewritten ps m = Return m' \<and> ready Q rewritten m' ls' \<and> extends ls ls'
    \<and> (\<forall>p \<in> set ps. \<exists>k c. (k, (c, line_col (take (patch_start p) source))) \<in> segs_of ls')
    \<and> is_char_boundary source (src_offset m') \<and> src_offset m' \<le> length source
    \<and> gen_offset m' \<le> length rewritten \<and> drop (gen_offset m') rewritten = drop (src_offset m') source
    \<and> (\<forall>i. F (gen_offset m' + i) (src_offset m' + i))"
  using assms(1-3,7-)
proof (induction ps arbitrary: m ls g n)
  case Nil
  then have "F (g + i) (n + i)" for i using Nil.prems(10) [of "g + i" "n + i"] by simp
  with Nil show ?case by (intro exI [of _ m] exI [of _ ls]) auto
next
  case (Cons p ps)
  let ?g2 = "g + (patch_start p - n) + length (replacement p)"
  have ps: "patches_at_boundaries source ps" "is_char_boundary source (patch_end p)" "patch_end p \<le> length source"
    using Cons.prems(4) by (auto simp: patches_at_boundaries_def)
  have "\<exists>m1 ls1. map_patch source rewritten p m = Return m1 \<and> composed Q rewritten m1 ls1 \<and> src_offset m1 = patch_end p
      \<and> gen_offset m1 = ?g2 \<and> extends ls ls1 \<and> (\<exists>k c. (k, (c, line_col (take (patch_start p) source))) \<in> segs_of ls1)"
    using Cons.prems by (intro map_patch_composed [OF _ _ _ Q start valid]) auto
  then obtain m1 ls1 where m1: "map_patch source rewritten p m = Return m1" "ready Q rewritten m1 ls1" "src_offset m1 = patch_end p"
      "gen_offset m1 = ?g2" "extends ls ls1" "\<exists>k c. (k, (c, line_col (take (patch_start p) source))) \<in> segs_of ls1"
    by (auto simp: ready_def)
  have "drop g rewritten = (take (patch_start p - n) (drop n source) @ replacement p) @ weave source (patch_end p) ps (map replacement ps)"
    using Cons.prems(9) by simp
  moreover have "length (take (patch_start p - n) (drop n source) @ replacement p) = patch_start p - n + length (replacement p)"
    using Cons.prems(4,7) by (auto simp: patches_at_boundaries_def)
  ultimately have g2: "?g2 \<le> length rewritten" "drop ?g2 rewritten = weave source (patch_end p) ps (map replacement ps)"
    using slice_at [OF _ Cons.prems(8)] by (metis add.assoc)+
  have dis: "disjoint_from (patch_end p) ps" using Cons.prems(7) by simp
  have F: "F go so" if "comes_from ps (patch_end p) ?g2 go so" for go so
    using that by (intro Cons.prems(10)) (simp add: Let_def)
  from Cons.IH [OF m1(2,4,3) ps dis g2 F] m1(1) m1(5,6) show ?case
    by (auto simp: extends_def) blast
qed

lemma segs_of_small:
  assumes "segs_of ls \<subseteq> anchored source rewritten F" "length source < 2 ^ 32" "length rewritten < 2 ^ 32"
  shows "list_all small_line ls"
proof -
  have "fst s < 2 ^ 61 \<and> small (snd s)" if "line \<in> set ls" "s \<in> set line" for line s
  proof -
    from that obtain k where "(k, s) \<in> segs_of ls" by (auto simp: segs_of_def in_set_conv_nth)
    with assms(1) obtain go so where "line_col (take go rewritten) = (k, fst s)" "line_col (take so source) = snd s"
      by (auto simp: anchored_def)
    with line_col_bound [of "take go rewritten"] line_col_bound [of "take so source"] assms(2,3) show ?thesis
      by (auto simp: small_def)
  qed
  then show ?thesis by (auto simp: small_line_def list_all_iff)
qed

text \<open>What the composer writes, as lines of segments.\<close>

lemma compose_mappings_lines:
  assumes valid: "utf8_valid source" and ps: "patches_at_boundaries source patches" "disjoint_from 0 patches"
    and rewritten: "rewritten = weave source 0 patches (map replacement patches)" "rewritten \<noteq> []"
  shows "\<exists>ls. compose_mappings source rewritten patches = Return (print_map ls)
    \<and> length ls = Suc (newlines rewritten) \<and> list_all (\<lambda>line. line \<noteq> [] \<and> fst (hd line) = 0) ls
    \<and> segs_of ls \<subseteq> anchored source rewritten (comes_from patches 0 0)
    \<and> (\<forall>p \<in> set patches. \<exists>k c. (k, (c, line_col (take (patch_start p) source))) \<in> segs_of ls)"
proof -
  define Q where "Q = anchored source rewritten (comes_from patches 0 0)"
  have start: "comes_from patches 0 0 0 0" by (cases patches) (simp_all add: Let_def)
  have "ready Q rewritten mapper0 [[]]" by (simp add: ready_def)
  then obtain m ls where m: "map_patches source rewritten patches mapper0 = Return m" "ready Q rewritten m ls"
      "\<forall>p \<in> set patches. \<exists>k c. (k, (c, line_col (take (patch_start p) source))) \<in> segs_of ls"
      "is_char_boundary source (src_offset m)" "src_offset m \<le> length source" "gen_offset m \<le> length rewritten"
      "drop (gen_offset m) rewritten = drop (src_offset m) source"
      "\<And>i. comes_from patches 0 0 (gen_offset m + i) (src_offset m + i)"
    using map_patches_composed [OF _ _ _ Q_def start valid ps(1) _ _ ps(2), of mapper0 "[[]]" 0] rewritten(1)
    by (auto simp: mapper0_def is_char_boundary_def)
  define tail where "tail = drop (gen_offset m) rewritten"
  have tail: "tail = drop (src_offset m) source" using m(7) by (simp add: tail_def)
  have "drop (src_offset m) source = [] \<or> \<not> is_cont (hd (drop (src_offset m) source))"
    using boundary_hd [OF m(4)] utf8_valid_hd [OF valid] by (cases "src_offset m = 0") auto
  with m(6,7) have bg: "is_char_boundary rewritten (gen_offset m)"
    by (intro boundaryI) simp_all
  have slices: "str_slice source (src_offset m) (length source) = Return (drop (src_offset m) source)"
      "str_slice rewritten (gen_offset m) (length rewritten) = Return tail"
    using m(4-6) bg by (simp_all add: str_slice_def is_char_boundary_def tail_def)
  have origin: "(0, (0, (0, 0))) \<in> Q"
    unfolding Q_def using start by (intro anchoredI [of _ 0 0]) (auto simp: line_col_def)
  have need: "(\<not> had_segment m \<and> tail \<noteq> []) = (\<not> had_segment m)"
    using m(2) rewritten(2) by (auto simp: ready_def composed_def mapper0_def tail_def)
  obtain m1 ls1 where m1: "(if had_segment m then Return m else and_then (open_line source rewritten m) (\<lambda>m. Return (m\<lparr>had_segment := True\<rparr>))) = Return m1"
      "composed Q rewritten m1 ls1" "gen_offset m1 = gen_offset m" "src_offset m1 = src_offset m" "extends ls ls1"
    using open_if_needed [OF m(2) origin, of source] by auto
  have len: "src_offset m + length tail = length source" "gen_offset m + length tail = length rewritten"
    using m(5) m(6) by (simp add: tail, simp add: tail_def)
  have tail_nth: "source ! (src_offset m + i) = tail ! i" "rewritten ! (gen_offset m + i) = tail ! i" for i
    using m(5) m(6) by (simp add: tail, simp add: tail_def)
  have "\<exists>m2 ls2. walk_unchanged source tail m1 = Return m2 \<and> composed Q rewritten m2 ls2
      \<and> gen_offset m2 = gen_offset m + length tail \<and> src_offset m2 = src_offset m + length tail \<and> extends ls1 ls2"
  proof (rule walk_unchanged_composed [OF m1(2-4)])
    show "take (length tail) (drop (gen_offset m) rewritten) = tail" by (simp add: tail_def)
    show "src_offset m + length tail \<le> length source" using len by simp
    fix i
    assume i: "i < length tail" "tail ! i = LF"
    then show "is_char_boundary source (src_offset m + Suc i)"
      using ascii_boundary [OF valid, of "src_offset m + i"] tail_nth(1) [of i] len by simp
    show "(newlines (take (gen_offset m + Suc i) rewritten), (0, line_col (take (src_offset m + Suc i) source))) \<in> Q"
      unfolding Q_def using i len tail_nth(2) [of i] m(8) [of "Suc i"] line_col_after_newline [of "gen_offset m + i" rewritten]
      by (intro anchoredI [of _ "gen_offset m + Suc i" "src_offset m + Suc i"]) auto
  qed
  then obtain m2 ls2 where m2: "walk_unchanged source tail m1 = Return m2" "composed Q rewritten m2 ls2"
      "gen_offset m2 = gen_offset m + length tail" "extends ls1 ls2"
    by blast
  have "map_tail source rewritten m = Return m2"
    unfolding map_tail_def using slices m1(1) m2(1) need by (cases "had_segment m") simp_all
  then have "compose_mappings source rewritten patches = Return (print_map ls2)"
    using m(1) m2(2) by (simp add: compose_mappings_def composed_def tracks_def)
  moreover have "gen_offset m2 = length rewritten" using m2(3) len(2) by simp
  moreover have mono: "segs_of ls \<subseteq> segs_of ls2" using m1(5) m2(4) by (auto simp: extends_def)
  moreover from mono m(3) have "\<forall>p \<in> set patches. \<exists>k c. (k, (c, line_col (take (patch_start p) source))) \<in> segs_of ls2"
    by blast
  ultimately show ?thesis
    using m2(2) unfolding Q_def composed_def by (intro exI [of _ ls2]) simp
qed

subsection \<open>Properties\<close>

text \<open>A reading of the document: the source's URL, its text, and the mappings.\<close>

definition read_map :: "str \<Rightarrow> (str \<times> str \<times> str) option" where
  "read_map doc =
     (let q = [34] in
      if starts_with (bs ''{'' @ q @ bs ''version'' @ q @ bs '':3,'' @ q @ bs ''sources'' @ q @ bs '':['') doc
      then case json_string (drop 24 doc) of None \<Rightarrow> None | Some (url, s) \<Rightarrow>
           if starts_with (bs ''],'' @ q @ bs ''sourcesContent'' @ q @ bs '':['') s
           then case json_string (drop 20 s) of None \<Rightarrow> None | Some (content, s) \<Rightarrow>
                if starts_with (bs ''],'' @ q @ bs ''names'' @ q @ bs '':[],'' @ q @ bs ''mappings'' @ q @ bs '':'') s
                then case json_string (drop 24 s) of None \<Rightarrow> None | Some (ms, s) \<Rightarrow>
                     if s = bs ''}'' then Some (url, content, ms) else None
                else None
           else None
      else None)"

lemma read_map_document: "read_map (map_document url source ms) = Some (url, source, ms)"
proof -
  have drops: "drop (length a) (a @ b) = b" for a b :: str by simp
  let ?a = "bs ''{'' @ [34] @ bs ''version'' @ [34] @ bs '':3,'' @ [34] @ bs ''sources'' @ [34] @ bs '':['' :: str"
  let ?b = "bs ''],'' @ [34] @ bs ''sourcesContent'' @ [34] @ bs '':['' :: str"
  let ?c = "bs ''],'' @ [34] @ bs ''names'' @ [34] @ bs '':[],'' @ [34] @ bs ''mappings'' @ [34] @ bs '':'' :: str"
  have len: "length ?a = 24" "length ?b = 20" "length ?c = 24" by (simp_all add: bs_def)
  have doc: "map_document url source ms = ?a @ json_escape url @ ?b @ json_escape source @ ?c @ json_escape ms @ bs ''}''"
    by (simp add: map_document_def)
  note d = drops [of ?a, unfolded len] drops [of ?b, unfolded len] drops [of ?c, unfolded len]
  show ?thesis
    unfolding read_map_def Let_def doc
    by (simp only: starts_with_append d json_string_escape if_True option.case prod.case) simp
qed

lemma sort_disjoint:
  assumes "disjoint_from n (map snd xs)" "\<forall>x \<in> set xs. patch_start (snd x) \<le> patch_end (snd x)"
  shows "sort_patches xs = xs \<and> choose_patches n xs = xs"
proof -
  let ?key = "\<lambda>(_ :: nat, p). (patch_start p, if patch_end p = patch_start p then 0 else 1 :: nat, - int (patch_end p))"
  have later: "disjoint_from n ps \<Longrightarrow> \<forall>p \<in> set ps. patch_start p \<le> patch_end p \<Longrightarrow> \<forall>p \<in> set ps. n \<le> patch_start p" for n ps
    by (induction n ps rule: disjoint_from.induct) fastforce+
  have "sorted (map ?key xs)"
    using assms
  proof (induction xs arbitrary: n)
    case (Cons x xs)
    have "?key x \<le> ?key y" if "y \<in> set xs" for y
      using later [of "patch_end (snd x)" "map snd xs"] Cons.prems that
      by (cases x; cases y) (force simp: less_eq_prod_def less_prod_def)
    with Cons show ?case by auto
  qed simp
  then have "sort_patches xs = xs" unfolding sort_patches_def by (rule sort_key_id_if_sorted)
  moreover have "choose_patches n xs = xs"
    using assms by (induction n xs rule: choose_patches.induct) auto
  ultimately show ?thesis by simp
qed

lemma chosen_disjoint:
  assumes "disjoint_from 0 ps" "\<forall>p \<in> set ps. patch_start p \<le> patch_end p"
  shows "chosen_patches ps = enumerate 0 ps"
proof -
  have "patch_start (snd x) \<le> patch_end (snd x)" if "x \<in> set (enumerate 0 ps)" for x
    using that assms(2) nth_mem [of "fst x" ps] by (auto simp: in_set_enumerate_eq)
  with sort_disjoint [of 0 "enumerate 0 ps"] assms(1) show ?thesis
    by (simp add: chosen_patches_def)
qed

lemma apply_plain:
  assumes "disjoint_from 0 ps" "patches_at_boundaries source ps" "list_all (\<lambda>p. \<not> is_marker p) ps"
  shows "apply_patches pr source ps = Return (weave source 0 ps (map replacement ps))"
proof -
  have "emit_patches f source n xs = Return (weave source n (map snd xs) (map (replacement \<circ> snd) xs))"
    if "disjoint_from n (map snd xs)" "patches_at_boundaries source (map snd xs)" "is_char_boundary source n" "n \<le> length source"
      "\<And>x. x \<in> set xs \<Longrightarrow> f x = Return (replacement (snd x))" for f n xs
    using that
  proof (induction xs arbitrary: n)
    case Nil
    then show ?case by (simp add: str_slice_def is_char_boundary_def)
  next
    case (Cons x xs)
    then show ?case
      by (auto simp: Let_def str_slice_def patches_at_boundaries_def)
  qed
  note emit = this
  have chosen: "chosen_patches ps = enumerate 0 ps"
    using assms(1,2) by (intro chosen_disjoint) (auto simp: patches_at_boundaries_def list_all_iff)
  show ?thesis
    using assms unfolding apply_patches.simps [of pr source ps] chosen
    by (subst emit) (auto simp: is_char_boundary_def list_all_iff in_set_enumerate_eq simp flip: map_map)
qed

text \<open>
  C13. The map of a script rewritten by plain patches that do not overlap points every generated position to its
  origin: the composer returns, the document reads back as the URL, the source and the mappings, and the
  mappings decode to one list of segments per generated line, each opening at column 0, in which every
  segment takes a position of the rewritten script to the source position it comes from and every patch has a
  segment at its start.
\<close>

theorem source_map_origins:
  assumes "stripped = strip_sourcemap_pragma source" "utf8_valid stripped" "patches_at_boundaries stripped patches"
    "disjoint_from 0 patches" "list_all (\<lambda>p. \<not> is_marker p) patches"
    "rewritten = weave stripped 0 patches (map replacement patches)" "rewritten \<noteq> []"
    "length stripped < 2 ^ 32" "length rewritten < 2 ^ 32"
  shows "\<exists>doc ms ls. apply_patches pr stripped patches = Return rewritten
    \<and> compose_source_map pr source patches url = Return doc
    \<and> read_map doc = Some (url, stripped, ms) \<and> decode_mappings ms = Some (map (map as_seg) ls)
    \<and> length ls = Suc (newlines rewritten) \<and> list_all (\<lambda>line. line \<noteq> [] \<and> fst (hd line) = 0) ls
    \<and> (\<forall>k s. k < length ls \<longrightarrow> s \<in> set (ls ! k) \<longrightarrow>
         (\<exists>go so. comes_from patches 0 0 go so \<and> line_col (take go rewritten) = (k, fst s) \<and> line_col (take so stripped) = snd s))
    \<and> (\<forall>p \<in> set patches. \<exists>line \<in> set ls. \<exists>c. (c, line_col (take (patch_start p) stripped)) \<in> set line)"
proof -
  obtain ls where ls: "compose_mappings stripped rewritten patches = Return (print_map ls)" "length ls = Suc (newlines rewritten)"
      "list_all (\<lambda>line. line \<noteq> [] \<and> fst (hd line) = 0) ls" "segs_of ls \<subseteq> anchored stripped rewritten (comes_from patches 0 0)"
      "\<forall>p \<in> set patches. \<exists>k c. (k, (c, line_col (take (patch_start p) stripped))) \<in> segs_of ls"
    using compose_mappings_lines [OF assms(2,3,4,6,7)] by blast
  have applied: "apply_patches pr stripped patches = Return rewritten"
    using apply_plain [OF assms(4,3,5)] assms(6) by simp
  then have doc: "compose_source_map pr source patches url = Return (map_document url stripped (print_map ls))"
    using ls(1) assms(1) by (simp add: compose_source_map_def compose_rewrite_map_def Let_def)
  have "ls \<noteq> []" using ls(2) by auto
  then have "decode_mappings (print_map ls) = Some (map (map as_seg) ls)"
    using segs_of_small [OF ls(4) assms(8,9)] by (rule decode_print_map)
  moreover have "\<exists>go so. comes_from patches 0 0 go so \<and> line_col (take go rewritten) = (k, fst s) \<and> line_col (take so stripped) = snd s"
    if "k < length ls" "s \<in> set (ls ! k)" for k s
  proof -
    have "(k, s) \<in> segs_of ls" using that by (simp add: segs_of_def)
    with ls(4) have "(k, s) \<in> anchored stripped rewritten (comes_from patches 0 0)" by blast
    then show ?thesis by (auto simp: anchored_def)
  qed
  moreover have "\<forall>p \<in> set patches. \<exists>line \<in> set ls. \<exists>c. (c, line_col (take (patch_start p) stripped)) \<in> set line"
    using ls(5) unfolding segs_of_def by (auto dest!: bspec)
  ultimately show ?thesis
    using applied doc ls(2,3) read_map_document by blast
qed

text \<open>
  A patch that starts inside the one before it, as the visitor leaves for a member read of a rewritten global,
  makes the composer panic, whatever the rewritten script is.
\<close>

theorem nested_patch_panics:
  assumes "patch_start q < patch_end p"
  shows "compose_rewrite_map source rewritten (before @ p # q # after) url = Panic"
proof -
  have src: "src_offset m' = patch_end p" if "map_patch source rewritten p m = Return m'" for m m'
    using that by (auto simp: map_patch_def Let_def and_then_Return split: if_splits)
  have "map_patches source rewritten (before @ p # q # after) m = Panic" for m
  proof (induction before arbitrary: m)
    case Nil
    show ?case
    proof (cases "map_patch source rewritten p m")
      case (Return m')
      with src assms show ?thesis by (simp add: map_patch_def [of _ _ q])
    qed simp
  next
    case (Cons x before)
    then show ?case by (cases "map_patch source rewritten x m") simp_all
  qed
  then show ?thesis by (simp add: compose_rewrite_map_def compose_mappings_def)
qed

subsection \<open>The pragma\<close>

lemma rfind_sub_Some:
  assumes "rfind_sub p xs = Some k"
  shows "k < length xs \<and> starts_with p (drop k xs) \<and> rfind_sub p (drop (Suc k) xs) = None"
  using assms by (induction xs arbitrary: k) (auto split: option.splits if_splits)

lemma rfind_sub_None: "rfind_sub p xs = None \<Longrightarrow> i < length xs \<Longrightarrow> \<not> starts_with p (drop i xs)"
  by (induction xs arbitrary: i) (auto split: option.splits if_splits simp: drop_Cons' gr0_conv_Suc)

lemma rfind_sub_drop: "rfind_sub p xs = None \<Longrightarrow> rfind_sub p (drop n xs) = None"
  by (induction xs arbitrary: n) (auto split: option.splits if_splits simp: drop_Cons')

lemma rfind_sub_append: "rfind_sub p (tl ys) = None \<Longrightarrow> ys \<noteq> [] \<Longrightarrow> starts_with p ys \<Longrightarrow> rfind_sub p (xs @ ys) = Some (length xs)"
  by (induction xs) (auto simp: neq_Nil_conv)

lemma rfind_newline: "LF \<notin> set (drop (Suc k) s) \<Longrightarrow> k < length s \<Longrightarrow> s ! k = LF \<Longrightarrow> rfind_sub [LF] s = Some k"
proof -
  assume a: "LF \<notin> set (drop (Suc k) s)" "k < length s" "s ! k = LF"
  have none: "LF \<notin> set t \<Longrightarrow> rfind_sub [LF] t = None" for t :: str
    by (induction t) (auto simp: starts_with_def)
  have "s = take k s @ LF # drop (Suc k) s" using id_take_nth_drop [OF a(2)] a(3) by simp
  then show ?thesis
    using rfind_sub_append [of "[LF]" "LF # drop (Suc k) s" "take k s"] none [OF a(1)] a(2)
    by (simp add: starts_with_def)
qed

lemma rfind_newline_None: "rfind_sub [LF] s = None \<Longrightarrow> LF \<notin> set s"
  using rfind_sub_None [of "[LF]" s] by (auto simp: in_set_conv_nth starts_with_def hd_drop_conv_nth take_Suc)

definition comment_opens :: "str \<Rightarrow> bool" where
  "comment_opens t \<longleftrightarrow> starts_with (bs ''//#'') t \<or> starts_with (bs ''//@'') t \<or> starts_with (bs ''/*#'') t \<or> starts_with (bs ''/*@'') t"

text \<open>
  Stripping the pragma leaves the script alone or cuts it before the line of the last pragma in its tail, when
  that line starts with a comment; everything from there on goes, what follows the pragma included.
\<close>

theorem pragma_stripped:
  "strip_sourcemap_pragma s = s
   \<or> (\<exists>nl line after. s = strip_sourcemap_pragma s @ nl @ line @ pragma_needle @ after \<and> (nl = [] \<or> nl = [LF])
        \<and> LF \<notin> set line \<and> comment_opens (trim_start line) \<and> rfind_sub pragma_needle after = None)"
proof -
  define scan where "scan = snap_back s (length s - 4096)"
  show ?thesis
  proof (cases "rfind_sub pragma_needle (drop scan s)")
    case None
    then show ?thesis by (simp add: strip_sourcemap_pragma_def scan_def Let_def)
  next
    case (Some rel)
    define i where "i = scan + rel"
    define start where "start = (case rfind_sub [LF] (take i s) of Some n \<Rightarrow> n + 1 | None \<Rightarrow> 0)"
    define line where "line = take (i - start) (drop start s)"
    define cut where "cut = (if 0 < start \<and> s ! (start - 1) = LF then start - 1 else start)"
    have eq: "strip_sourcemap_pragma s = (if comment_opens (trim_start line) then take cut s else s)"
      using Some by (simp add: strip_sourcemap_pragma_def scan_def [symmetric] i_def [symmetric] start_def [symmetric]
          line_def [symmetric] cut_def comment_opens_def Let_def)
    have found: "i < length s" "starts_with pragma_needle (drop i s)" "rfind_sub pragma_needle (drop (Suc i) s) = None"
      using rfind_sub_Some [OF Some] by (auto simp: i_def add.commute)
    have after: "rfind_sub pragma_needle (drop (length pragma_needle) (drop i s)) = None"
      using rfind_sub_drop [OF found(3), of "length pragma_needle - 1"] by (simp add: pragma_needle_def bs_def)
    have start: "start \<le> i \<and> LF \<notin> set line \<and> take start s = take cut s @ (if 0 < start then [LF] else [])"
    proof (cases "rfind_sub [LF] (take i s)")
      case None
      then show ?thesis
        using rfind_newline_None [OF None] by (simp add: start_def line_def cut_def)
    next
      case n: (Some n)
      from rfind_sub_Some [OF n] found(1) have "n < i" "s ! n = LF" "rfind_sub [LF] (drop (Suc n) (take i s)) = None"
        by (auto simp: starts_with_def hd_drop_conv_nth take_Suc split: if_splits)
      moreover have "drop (Suc n) (take i s) = take (i - Suc n) (drop (Suc n) s)" by (simp add: drop_take)
      ultimately show ?thesis
        using n found(1) rfind_newline_None by (simp add: start_def line_def cut_def take_Suc_conv_app_nth)
    qed
    have "s = take start s @ take (i - start) (drop start s) @ drop i s"
      using start by (metis append_take_drop_id drop_drop le_add_diff_inverse2)
    moreover have "drop i s = pragma_needle @ drop (length pragma_needle) (drop i s)"
      using found(2) by (metis append_take_drop_id starts_with_def)
    ultimately have whole: "s = take cut s @ (if 0 < start then [LF] else []) @ line @ pragma_needle @ drop (length pragma_needle) (drop i s)"
      using start unfolding line_def by (metis append.assoc)
    show ?thesis
    proof (cases "comment_opens (trim_start line)")
      case True
      with eq whole have "s = strip_sourcemap_pragma s @ (if 0 < start then [LF] else []) @ line @ pragma_needle
          @ drop (length pragma_needle) (drop i s)" by simp
      moreover have "(if 0 < start then [LF] else []) = [] \<or> (if 0 < start then [LF] else []) = [LF]" by simp
      ultimately show ?thesis using True start after by blast
    qed (use eq in simp)
  qed
qed

text \<open>
  Code after the pragma is lost: a script of up to 4096 bytes with a pragma comment on a line of its own is cut
  before that line, whatever comes after it.
\<close>

theorem code_after_pragma_lost:
  assumes "length (code @ LF # bs ''//# '' @ pragma_needle @ after) \<le> 4096"
    and "rfind_sub pragma_needle (tl (pragma_needle @ after)) = None"
  shows "strip_sourcemap_pragma (code @ LF # bs ''//# '' @ pragma_needle @ after) = code"
proof -
  let ?s = "code @ LF # bs ''//# '' @ pragma_needle @ after"
  have "rfind_sub pragma_needle ((code @ LF # bs ''//# '') @ pragma_needle @ after) = Some (length (code @ LF # bs ''//# ''))"
    using assms(2) by (intro rfind_sub_append) (simp_all add: pragma_needle_def bs_def starts_with_def)
  then have found: "rfind_sub pragma_needle ?s = Some (length code + 5)"
    by (simp add: bs_def)
  have before: "take (length code + 5) ?s = code @ LF # bs ''//# ''" by (simp add: bs_def)
  have "rfind_sub [LF] (code @ LF # bs ''//# '') = Some (length code)"
    by (rule rfind_newline) (simp_all add: bs_def nth_append)
  moreover have "trim_start (bs ''//# '') = bs ''//# ''"
    by (simp add: bs_def trim_start_graphic graphic_def)
  ultimately show ?thesis
    using assms(1) found before
    by (simp add: strip_sourcemap_pragma_def Let_def nth_append) (simp add: bs_def starts_with_def)
qed

text \<open>Witnesses: a script of two lines with a replaced name, the member read of a global, and a pragma between two calls.\<close>

definition two_lines :: str where
  "two_lines = [97, 10, 98]"

definition name_patch :: patch where
  "name_patch = \<lparr>patch_start = 2, patch_end = 3, replacement = [99, 99]\<rparr>"

lemma no_needle:
  "rfind_sub pragma_needle two_lines = None" "rfind_sub pragma_needle sample_source = None"
  "rfind_sub pragma_needle (tl (pragma_needle @ [109, 10, 98, 40, 41])) = None"
  by (simp_all add: pragma_needle_def bs_def two_lines_def sample_source_def starts_with_def)

lemma strip_small: "length s \<le> 4096 \<Longrightarrow> rfind_sub pragma_needle s = None \<Longrightarrow> strip_sourcemap_pragma s = s"
  by (simp add: strip_sourcemap_pragma_def)

theorem source_map_origins_witness:
  "\<exists>doc ms ls. compose_source_map (\<lambda>_. False) two_lines [name_patch] (bs ''u'') = Return doc
     \<and> read_map doc = Some (bs ''u'', two_lines, ms) \<and> decode_mappings ms = Some (map (map as_seg) ls) \<and> length ls = 2"
proof -
  have strip: "two_lines = strip_sourcemap_pragma two_lines"
    using strip_small [OF _ no_needle(1)] by (simp add: two_lines_def)
  have valid: "utf8_valid two_lines" "utf8_valid [99, 99]" by (rule utf8_valid_ascii; simp add: two_lines_def)+
  have text_eq: "[97, 10, 99, 99] = weave two_lines 0 [name_patch] (map replacement [name_patch])"
    by (simp add: two_lines_def name_patch_def)
  have bnds: "patches_at_boundaries two_lines [name_patch]"
    using valid(2) by (simp add: patches_at_boundaries_def two_lines_def name_patch_def is_char_boundary_def is_cont_def word_le_nat_alt)
  have plain: "list_all (\<lambda>p. \<not> is_marker p) [name_patch]" "disjoint_from 0 [name_patch]"
    by (simp_all add: is_marker_def name_patch_def starts_with_def)
  have len: "length two_lines < 2 ^ 32" "length [97, 10, 99, 99 :: u8] < 2 ^ 32" "[97, 10, 99, 99 :: u8] \<noteq> []"
    "Suc (newlines [97, 10, 99, 99]) = 2"
    by (simp_all add: two_lines_def newlines_def)
  from source_map_origins [OF strip valid(1) bnds plain(2,1) text_eq len(3,1,2), of "\<lambda>_. False" "bs ''u''"]
  obtain doc ms ls where "compose_source_map (\<lambda>_. False) two_lines [name_patch] (bs ''u'') = Return doc"
      "read_map doc = Some (bs ''u'', two_lines, ms)" "decode_mappings ms = Some (map (map as_seg) ls)"
      "length ls = Suc (newlines [97, 10, 99, 99])"
    by (elim exE conjE) (rule that)
  with len(4) show ?thesis by (intro exI [of _ doc] exI [of _ ms] exI [of _ ls]) simp
qed

theorem nested_patch_panics_witness:
  "patches_ok sample_source [sample_get, sample_member]
   \<and> compose_source_map (\<lambda>_. False) sample_source [sample_get, sample_member] (bs ''u'') = Panic"
proof -
  have "patch_start sample_member < patch_end sample_get" by (simp add: sample_get_def sample_member_def)
  from nested_patch_panics [OF this, of sample_source _ "[]" "[]"]
  have "compose_rewrite_map sample_source rewritten [sample_get, sample_member] (bs ''u'') = Panic" for rewritten by simp
  moreover have "strip_sourcemap_pragma sample_source = sample_source"
    using strip_small [OF _ no_needle(2)] by (simp add: sample_source_def bs_def)
  ultimately show ?thesis
    using sample_output [of "\<lambda>_. False"] by (simp add: compose_source_map_def patches_ok_def sample_patch_facts)
qed

theorem code_after_pragma_lost_witness:
  "strip_sourcemap_pragma (bs ''a()'' @ LF # bs ''//# '' @ pragma_needle @ [109, 10, 98, 40, 41]) = bs ''a()''"
  by (rule code_after_pragma_lost [OF _ no_needle(3)]) (simp add: pragma_needle_def bs_def)

end
