(* ===== verification/Reserved_Names.thy ===== *)
theory Reserved_Names
  imports Source_Map
begin

text \<open>
  The names a page's script may not bind or write
  (\<^verbatim>\<open>src/crates/zp-rewriter/src/lib.rs\<close>): the runtime's helpers, which rewritten code
  calls by name. The scan for them is a visitor over the parser's syntax tree; the tree has a constructor for
  every kind of node the scan looks at, and any other node is \<open>Other\<close> with its children in the order in which the
  parser's walk visits them.

  The main result is that the scan finds a name exactly when a reserved name is bound or written anywhere in
  the program, the rewriter's own helper prefix apart.
\<close>

subsection \<open>Names\<close>

definition RUNTIME_HELPERS :: "str list" where
  "RUNTIME_HELPERS =
     map bs [''__zp_get'', ''__zp_set'', ''__zp_call'', ''__zp_this'', ''__zp_assign'', ''__zp_update'', ''__zp_delete'',
       ''__zp_eval'', ''__zp_has'', ''__zp_oget'', ''__zp_ocall'', ''__zp_ocallv'', ''__zp_ochain'', ''__zp_odelete'',
       ''__zp_okeys'', ''__zp_rget'', ''__zp_rset'', ''__zp_ownKeys'', ''__zp_getOwnPropertyDescriptor'',
       ''__zp_getOwnPropertyDescriptors'', ''__zp_getOwnPropertyNames'', ''__zp_module_url'', ''__zp_with_get'',
       ''__zp_with_set'', ''__zp_with_assign'', ''__zp_with_update'', ''__zp_with_delete'', ''__zp_with_d'',
       ''__zp_lex_decl'', ''__zp_lex_bind'', ''__zp_export_vars'', ''__zp_fast'', ''__zp_fastset'']"

definition is_runtime_helper :: "str \<Rightarrow> bool" where
  "is_runtime_helper name \<longleftrightarrow> name \<in> set RUNTIME_HELPERS"

definition wrapper_names :: "str list" where
  "wrapper_names =
     map bs [''bad'', ''oc'', ''dynamic__'', ''dyn__'', ''inner__'', ''scope'', ''args'', ''self'', ''env'', ''src'']"

definition temp_tags :: "str list" where
  "temp_tags = map bs [''w'', ''lc'', ''lbl'', ''vdcl'', ''dp'', ''sk'', ''t'']"

definition is_reserved_name :: "str \<Rightarrow> bool" where
  "is_reserved_name name =
     (if starts_with (bs ''__ZP_'') name then True
      else if \<not> starts_with (bs ''__zp_'') name then False
      else let rest = drop 5 name
           in if rest \<in> set wrapper_names then False
              else \<not> (case position (\<lambda>c. c = 95) rest of
                        None \<Rightarrow> False
                      | Some i \<Rightarrow> take i rest \<in> set temp_tags \<and> drop (i + 1) rest \<noteq> []
                                  \<and> list_all is_ascii_digit (drop (i + 1) rest)))"

definition with_helper_prefix :: str where
  "with_helper_prefix = bs ''const{'' @ join [44] RUNTIME_HELPERS @ bs ''}=(function(){return this})();''"

definition reserved_name_patch :: "nat \<Rightarrow> str \<Rightarrow> patch" where
  "reserved_name_patch slen name =
     \<lparr>patch_start = 0, patch_end = slen,
      replacement = bs ''throw new SyntaxError('' @ [34] @ bs ''Unexpected identifier '' @ [39] @ name @ [39, 34] @ bs '');''\<rparr>"

subsection \<open>Syntax trees\<close>

datatype declaration_kind = Kind_Var | Kind_Let | Kind_Const | Kind_Using | Kind_AwaitUsing

text \<open>
  A property of a binding pattern has its flags for a shorthand and a computed key, then the key and the pattern;
  a function expression its flags for generators and asynchronous functions, its name, its parameters, the rest
  parameter and its body; a call the callee, the arguments and the flag for an optional call. A target is an
  identifier that is assigned to, \<open>TargetPropertyIdentifier\<close> one in an object pattern of an assignment, with its
  default.
\<close>

datatype ast =
  BindingIdentifier str
| BindingProperty bool bool ast ast
| ObjectPattern "ast list" "ast option"
| TargetIdentifier str
| TargetPropertyIdentifier str "ast option"
| VariableDeclaration declaration_kind "ast list"
| VariableDeclarator ast "ast option"
| CallExpression ast "ast list" bool
| ParenthesizedExpression ast
| FunctionExpression bool bool "ast option" "ast list" "ast option" "ast option"
| FunctionBody "ast list" "ast list"
| ReturnStatement "ast option"
| ThisExpression
| Other "ast list"

definition opt_list :: "'a option \<Rightarrow> 'a list" where
  "opt_list x = (case x of Some y \<Rightarrow> [y] | None \<Rightarrow> [])"

fun children :: "ast \<Rightarrow> ast list" where
  "children (BindingProperty _ _ key v) = [key, v]"
| "children (ObjectPattern props rest) = props @ opt_list rest"
| "children (TargetPropertyIdentifier _ dflt) = opt_list dflt"
| "children (VariableDeclaration _ ds) = ds"
| "children (VariableDeclarator pattern init) = pattern # opt_list init"
| "children (CallExpression callee args _) = callee # args"
| "children (ParenthesizedExpression e) = [e]"
| "children (FunctionExpression _ _ nm params rest content) = opt_list nm @ params @ opt_list rest @ opt_list content"
| "children (FunctionBody directives statements) = directives @ statements"
| "children (ReturnStatement arg) = opt_list arg"
| "children (Other cs) = cs"
| "children _ = []"

lemma size_member: "c \<in> set cs \<Longrightarrow> size c \<le> size_list size cs"
  by (induction cs) auto

lemma size_children: "c \<in> set (children t) \<Longrightarrow> size c < size t"
  by (cases t) (auto simp: opt_list_def dest!: size_member split: option.splits)

subsection \<open>The scan\<close>

definition is_helper_property :: "ast \<Rightarrow> bool" where
  "is_helper_property p \<longleftrightarrow>
     (case p of
        BindingProperty shorthand computed _ (BindingIdentifier n) \<Rightarrow> shorthand \<and> \<not> computed \<and> is_runtime_helper n
      | _ \<Rightarrow> False)"

fun callee_function :: "ast \<Rightarrow> ast" where
  "callee_function (ParenthesizedExpression e) = callee_function e"
| "callee_function e = e"

definition is_helper_prefix_declaration :: "declaration_kind \<Rightarrow> ast list \<Rightarrow> bool" where
  "is_helper_prefix_declaration knd ds =
     (if knd \<noteq> Kind_Const then False
      else case ds of
        [VariableDeclarator (ObjectPattern props rest) init] \<Rightarrow>
          if rest \<noteq> None \<or> props = [] then False
          else if \<not> list_all is_helper_property props then False
          else (case init of
                  Some (CallExpression callee args optional) \<Rightarrow>
                    if optional \<or> args \<noteq> [] then False
                    else (case callee_function callee of
                            FunctionExpression generator async nm params param_rest content \<Rightarrow>
                              if generator \<or> async \<or> nm \<noteq> None \<or> params \<noteq> [] \<or> param_rest \<noteq> None then False
                              else (case content of
                                      Some (FunctionBody directives [ReturnStatement (Some ThisExpression)]) \<Rightarrow> directives = []
                                    | _ \<Rightarrow> False)
                          | _ \<Rightarrow> False)
                | _ \<Rightarrow> False)
      | _ \<Rightarrow> False)"

definition check_name :: "str \<Rightarrow> str option \<Rightarrow> str option" where
  "check_name name hit = (if hit = None \<and> is_reserved_name name then Some name else hit)"

function scan :: "ast \<Rightarrow> str option \<Rightarrow> str option" where
  "scan t hit =
     (case t of
        VariableDeclaration knd ds \<Rightarrow>
          if is_helper_prefix_declaration knd ds then hit else fold (\<lambda>c h. scan c h) (children t) hit
      | BindingIdentifier name \<Rightarrow> check_name name hit
      | TargetIdentifier name \<Rightarrow> fold (\<lambda>c h. scan c h) (children t) (check_name name hit)
      | TargetPropertyIdentifier name _ \<Rightarrow> fold (\<lambda>c h. scan c h) (children t) (check_name name hit)
      | _ \<Rightarrow> fold (\<lambda>c h. scan c h) (children t) hit)"
  by pat_completeness auto
termination
  by (relation "measure (\<lambda>(t, _). size t)") (auto dest!: size_children simp del: children.simps)

declare scan.simps [simp del]

definition reserved_name_violation :: "ast \<Rightarrow> str option" where
  "reserved_name_violation prog = scan prog None"

subsection \<open>What the scan finds\<close>

text \<open>The names a program binds or writes, and the rewriter's own prefix.\<close>

inductive returns_this :: "ast \<Rightarrow> bool" where
  plain: "returns_this (FunctionExpression False False None [] None (Some (FunctionBody [] [ReturnStatement (Some ThisExpression)])))"
| paren: "returns_this e \<Longrightarrow> returns_this (ParenthesizedExpression e)"

inductive helper_prefix :: "ast \<Rightarrow> bool" where
  "kvs \<noteq> [] \<Longrightarrow> snd ` set kvs \<subseteq> set RUNTIME_HELPERS \<Longrightarrow> returns_this f \<Longrightarrow>
   helper_prefix (VariableDeclaration Kind_Const [VariableDeclarator
     (ObjectPattern (map (\<lambda>(k, h). BindingProperty True False k (BindingIdentifier h)) kvs) None)
     (Some (CallExpression f [] False))])"

inductive bound_or_written :: "ast \<Rightarrow> str \<Rightarrow> bool" where
  binding: "bound_or_written (BindingIdentifier n) n"
| target: "bound_or_written (TargetIdentifier n) n"
| target_property: "bound_or_written (TargetPropertyIdentifier n dflt) n"
| inside: "c \<in> set (children t) \<Longrightarrow> \<not> helper_prefix t \<Longrightarrow> bound_or_written c n \<Longrightarrow> bound_or_written t n"

lemma callee_function_this:
  "returns_this f \<longleftrightarrow>
     callee_function f = FunctionExpression False False None [] None (Some (FunctionBody [] [ReturnStatement (Some ThisExpression)]))"
proof
  show "returns_this f \<Longrightarrow> callee_function f
      = FunctionExpression False False None [] None (Some (FunctionBody [] [ReturnStatement (Some ThisExpression)]))"
    by (induction rule: returns_this.induct) simp_all
  show "callee_function f = FunctionExpression False False None [] None (Some (FunctionBody [] [ReturnStatement (Some ThisExpression)]))
      \<Longrightarrow> returns_this f"
    by (induction f rule: callee_function.induct) (auto intro: returns_this.intros)
qed

lemma helper_property:
  "is_helper_property p \<longleftrightarrow> (\<exists>k h. p = BindingProperty True False k (BindingIdentifier h) \<and> h \<in> set RUNTIME_HELPERS)"
proof (cases p)
  case (BindingProperty s c k v)
  then show ?thesis by (cases v) (auto simp: is_helper_property_def is_runtime_helper_def)
qed (simp_all add: is_helper_property_def)

lemma helper_properties:
  assumes "list_all is_helper_property props"
  shows "\<exists>kvs. props = map (\<lambda>(k, h). BindingProperty True False k (BindingIdentifier h)) kvs \<and> snd ` set kvs \<subseteq> set RUNTIME_HELPERS"
  using assms
proof (induction props)
  case (Cons p props)
  then obtain k h kvs where "p = BindingProperty True False k (BindingIdentifier h)" "h \<in> set RUNTIME_HELPERS"
      "props = map (\<lambda>(k, h). BindingProperty True False k (BindingIdentifier h)) kvs" "snd ` set kvs \<subseteq> set RUNTIME_HELPERS"
    by (auto simp: helper_property)
  then show ?case by (intro exI [of _ "(k, h) # kvs"]) simp
qed simp

lemma helper_prefix_declaration: "is_helper_prefix_declaration knd ds \<longleftrightarrow> helper_prefix (VariableDeclaration knd ds)"
proof
  assume hp: "is_helper_prefix_declaration knd ds"
  then obtain d where d: "knd = Kind_Const" "ds = [d]"
    by (cases ds rule: remdups_adj.cases) (auto simp: is_helper_prefix_declaration_def split: if_splits ast.splits)
  with hp obtain pattern init where p: "d = VariableDeclarator pattern init"
    by (cases d) (auto simp: is_helper_prefix_declaration_def)
  with hp d obtain props rest where o: "pattern = ObjectPattern props rest"
    by (cases pattern) (auto simp: is_helper_prefix_declaration_def)
  with hp d p have props: "rest = None" "props \<noteq> []" "list_all is_helper_property props"
    by (auto simp: is_helper_prefix_declaration_def split: if_splits)
  with hp d p o obtain e where e: "init = Some e"
    by (cases init) (auto simp: is_helper_prefix_declaration_def)
  with hp d p o props obtain f where c: "e = CallExpression f [] False"
    by (cases e) (auto simp: is_helper_prefix_declaration_def split: if_splits)
  with hp d p o props e have "case callee_function f of
      FunctionExpression generator async nm params param_rest content \<Rightarrow>
        if generator \<or> async \<or> nm \<noteq> None \<or> params \<noteq> [] \<or> param_rest \<noteq> None then False
        else (case content of
                Some (FunctionBody directives [ReturnStatement (Some ThisExpression)]) \<Rightarrow> directives = []
              | _ \<Rightarrow> False)
    | _ \<Rightarrow> False"
    by (simp add: is_helper_prefix_declaration_def)
  then obtain content where b: "callee_function f = FunctionExpression False False None [] None (Some content)"
      "case content of FunctionBody directives [ReturnStatement (Some ThisExpression)] \<Rightarrow> directives = [] | _ \<Rightarrow> False"
    by (cases "callee_function f") (auto split: if_splits option.splits)
  then obtain directives stmts where s: "content = FunctionBody directives stmts"
    by (cases content) auto
  with b(2) obtain st more where st: "stmts = st # more"
    by (cases stmts) auto
  with b(2) s obtain r where r: "st = ReturnStatement (Some r)"
    by (cases st) (auto split: option.splits)
  with b(2) s st have "r = ThisExpression" "directives = []" "more = []"
    by (cases r; cases more; simp)+
  with d p o props e c b(1) s st r have f: "knd = Kind_Const"
      "ds = [VariableDeclarator (ObjectPattern props None) (Some (CallExpression f [] False))]"
      "props \<noteq> []" "list_all is_helper_property props"
      "callee_function f = FunctionExpression False False None [] None (Some (FunctionBody [] [ReturnStatement (Some ThisExpression)]))"
    by simp_all
  from helper_properties [OF f(4)] f(3) obtain kvs where
    "props = map (\<lambda>(k, h). BindingProperty True False k (BindingIdentifier h)) kvs" "snd ` set kvs \<subseteq> set RUNTIME_HELPERS" "kvs \<noteq> []"
    by auto
  with f(1,2,5) show "helper_prefix (VariableDeclaration knd ds)"
    by (auto intro!: helper_prefix.intros simp: callee_function_this)
next
  assume "helper_prefix (VariableDeclaration knd ds)"
  then show "is_helper_prefix_declaration knd ds"
  proof cases
    case (1 kvs f)
    moreover have "list_all is_helper_property (map (\<lambda>(k, h). BindingProperty True False k (BindingIdentifier h)) kvs)"
      using 1(4) by (auto simp: list_all_iff helper_property)
    ultimately show ?thesis
      by (simp add: is_helper_prefix_declaration_def callee_function_this)
  qed
qed


text \<open>The name a node itself binds or writes, and a node of the scan in one equation.\<close>

definition own_names :: "ast \<Rightarrow> str list" where
  "own_names t = (case t of BindingIdentifier n \<Rightarrow> [n] | TargetIdentifier n \<Rightarrow> [n] | TargetPropertyIdentifier n _ \<Rightarrow> [n] | _ \<Rightarrow> [])"

lemma not_helper_prefix: "helper_prefix t \<Longrightarrow> \<exists>knd ds. t = VariableDeclaration knd ds"
  by (auto elim: helper_prefix.cases)

lemma scan_node:
  "scan t hit = (if helper_prefix t then hit else fold scan (children t) (fold check_name (own_names t) hit))"
  by (subst scan.simps, cases t) (auto simp: own_names_def helper_prefix_declaration dest: not_helper_prefix)

lemma bound_or_written_node:
  "bound_or_written t n \<longleftrightarrow> \<not> helper_prefix t \<and> (n \<in> set (own_names t) \<or> (\<exists>c \<in> set (children t). bound_or_written c n))"
proof
  assume "bound_or_written t n"
  then show "\<not> helper_prefix t \<and> (n \<in> set (own_names t) \<or> (\<exists>c \<in> set (children t). bound_or_written c n))"
    by cases (auto simp: own_names_def dest: not_helper_prefix)
next
  assume "\<not> helper_prefix t \<and> (n \<in> set (own_names t) \<or> (\<exists>c \<in> set (children t). bound_or_written c n))"
  then show "bound_or_written t n"
    by (cases t) (auto simp: own_names_def intro: bound_or_written.intros)
qed

lemma scan_first: "scan t (Some n) = Some n"
proof (induction t rule: measure_induct_rule [of size])
  case (less t)
  have "fold check_name ns (Some n) = Some n" for ns
    by (induction ns) (simp_all add: check_name_def)
  moreover have "fold scan cs (Some n) = Some n" if "set cs \<subseteq> set (children t)" for cs
    using that less size_children by (induction cs) auto
  ultimately show ?case by (simp add: scan_node [of t])
qed

lemma scan_names:
  "(case scan t None of
      Some n \<Rightarrow> bound_or_written t n \<and> is_reserved_name n
    | None \<Rightarrow> \<forall>n. bound_or_written t n \<longrightarrow> \<not> is_reserved_name n)"
proof (induction t rule: measure_induct_rule [of size])
  case (less t)
  have own: "case fold check_name (own_names t) None of
      Some n \<Rightarrow> n \<in> set (own_names t) \<and> is_reserved_name n
    | None \<Rightarrow> \<forall>n \<in> set (own_names t). \<not> is_reserved_name n"
    by (cases t) (simp_all add: own_names_def check_name_def)
  have rest: "case fold scan cs None of
      Some n \<Rightarrow> (\<exists>c \<in> set cs. bound_or_written c n) \<and> is_reserved_name n
    | None \<Rightarrow> \<forall>c \<in> set cs. \<forall>n. bound_or_written c n \<longrightarrow> \<not> is_reserved_name n" if "set cs \<subseteq> set (children t)" for cs
    using that
  proof (induction cs)
    case (Cons c cs)
    have "fold scan cs (Some n) = Some n" for n
      by (induction cs) (simp_all add: scan_first)
    with Cons less [OF size_children, of c] show ?case
      by (auto split: option.splits)
  qed simp
  have "fold scan cs (Some n) = Some n" for n cs
    by (induction cs) (simp_all add: scan_first)
  with own rest [of "children t"] show ?case
    by (auto simp: scan_node [of t] bound_or_written_node [of t] split: option.splits)
qed

text \<open>What a reserved name is.\<close>

definition reserved :: "str \<Rightarrow> bool" where
  "reserved name \<longleftrightarrow>
     (\<exists>s. name = bs ''__ZP_'' @ s)
     \<or> (\<exists>s. name = bs ''__zp_'' @ s \<and> s \<notin> set wrapper_names
          \<and> \<not> (\<exists>tag digits. tag \<in> set temp_tags \<and> s = tag @ [95] @ digits \<and> digits \<noteq> [] \<and> list_all is_ascii_digit digits))"

lemma temp_tag_split:
  "(case position (\<lambda>c. c = 95) s of
      None \<Rightarrow> False
    | Some i \<Rightarrow> take i s \<in> set temp_tags \<and> drop (i + 1) s \<noteq> [] \<and> list_all is_ascii_digit (drop (i + 1) s))
   \<longleftrightarrow> (\<exists>tag digits. tag \<in> set temp_tags \<and> s = tag @ [95] @ digits \<and> digits \<noteq> [] \<and> list_all is_ascii_digit digits)"
  (is "?code \<longleftrightarrow> ?spec")
proof
  assume ?code
  then obtain i where i: "position (\<lambda>c. c = 95) s = Some i" "take i s \<in> set temp_tags" "drop (i + 1) s \<noteq> []"
      "list_all is_ascii_digit (drop (i + 1) s)"
    by (auto split: option.splits)
  then have "i < length s" "s ! i = 95"
    by (auto simp: position_Some_iff)
  then have "s = take i s @ [95] @ drop (i + 1) s"
    using id_take_nth_drop [of i s] by simp
  with i(2-) show ?spec by blast
next
  assume ?spec
  then obtain tag digits where s: "tag \<in> set temp_tags" "s = tag @ [95] @ digits" "digits \<noteq> []" "list_all is_ascii_digit digits"
    by blast
  have "95 \<notin> set tag" using s(1) by (auto simp: temp_tags_def bs_def)
  then have "position (\<lambda>c. c = 95) tag = None" by (auto simp: position_None_iff)
  with s show ?code by (simp add: position_append)
qed

lemma is_reserved_name_iff: "is_reserved_name name \<longleftrightarrow> reserved name"
proof -
  have sw: "starts_with p name \<longleftrightarrow> (\<exists>s. name = p @ s)" for p
    by (auto simp: starts_with_iff_prefix prefix_def)
  show ?thesis
  proof (cases "\<exists>s. name = bs ''__zp_'' @ s")
    case True
    then obtain s where s: "name = bs ''__zp_'' @ s" by blast
    have zp: "starts_with (bs ''__zp_'') name" "\<not> starts_with (bs ''__ZP_'') name" "\<nexists>t. name = bs ''__ZP_'' @ t" "drop 5 name = s"
      by (simp_all add: s bs_def starts_with_def)
    have u: "name = bs ''__zp_'' @ t \<longleftrightarrow> t = s" for t
      by (auto simp: s)
    show ?thesis
      unfolding is_reserved_name_def reserved_def zp(4) Let_def temp_tag_split u using zp(1-3) by simp
  next
    case False
    then show ?thesis by (auto simp: is_reserved_name_def reserved_def sw)
  qed
qed

lemma helpers_reserved: "h \<in> set RUNTIME_HELPERS \<Longrightarrow> reserved h"
proof -
  have "list_all is_reserved_name RUNTIME_HELPERS"
    by (simp add: RUNTIME_HELPERS_def is_reserved_name_def wrapper_names_def temp_tags_def bs_def starts_with_def byte_simps)
  then show "h \<in> set RUNTIME_HELPERS \<Longrightarrow> reserved h" by (simp add: list_all_iff is_reserved_name_iff)
qed

lemma reserved_name_violation_correct:
  "(case reserved_name_violation prog of
      Some n \<Rightarrow> bound_or_written prog n \<and> reserved n
    | None \<Rightarrow> \<forall>n. bound_or_written prog n \<longrightarrow> \<not> reserved n)"
  using scan_names [of prog] by (auto simp: reserved_name_violation_def is_reserved_name_iff split: option.splits)

end
