(* ===== verification/Html_Urls.thy ===== *)
theory Html_Urls
  imports Shared_Urls Patches
begin

text \<open>
  The URL and text helpers of the HTML transformer (\<^verbatim>\<open>src/crates/zp-htmltx/src/lib.rs\<close>,
  from \<^verbatim>\<open>inline_script_payload\<close> to \<^verbatim>\<open>is_javascript_type\<close>): resolving a reference
  against the target, the proxy routes it is replaced by, the lists of \<^verbatim>\<open>srcset\<close>, character
  references, percent decoding, and the literal that carries an inline script.

  The helpers cut strings only next to ASCII characters, so no cut falls inside a character and none
  panics. Percent encoding is the crate \<^verbatim>\<open>percent_encoding\<close>: the parameter \<open>enc\<close>, as in
  the theory of the shared URLs.
\<close>

subsection \<open>The literal of an inline script\<close>

definition MAX_PAGE_REWRITE_INLINE_BYTES :: nat where
  "MAX_PAGE_REWRITE_INLINE_BYTES = 256 * 1024"

definition hex4 :: "nat \<Rightarrow> str" where
  "hex4 n = replicate (4 - length (to_hex n)) 48 @ to_hex n"

definition payload_char :: "str \<Rightarrow> str" where
  "payload_char ch =
     (if ch = [92] then [92, 92]
      else if ch = [34] then [92, 34]
      else if ch = [10] then [92, 110]
      else if ch = [13] then [92, 114]
      else if ch = [9] then [92, 116]
      else if ch = [8] then [92, 98]
      else if ch = [12] then [92, 102]
      else if ch = [60] then [92] @ bs ''u003c''
      else if ch = [0xE2, 0x80, 0xA8] then [92] @ bs ''u2028''
      else if ch = [0xE2, 0x80, 0xA9] then [92] @ bs ''u2029''
      else if code_point ch < 0x20 then [92] @ bs ''u'' @ hex4 (code_point ch)
      else ch)"

text \<open>The characters of a string; a string is well formed, so the error case does not arise.\<close>

function chars :: "str \<Rightarrow> str list" where
  "chars s =
     (if s = [] then []
      else case utf8_step s of
             Inr n \<Rightarrow> take n s # chars (drop n s)
           | Inl n \<Rightarrow> take n s # chars (drop n s))"
  by pat_completeness auto
termination
  by (relation "measure length") (auto dest: utf8_step_Inr utf8_step_Inl)

declare chars.simps [simp del]

definition inline_script_payload :: "str \<Rightarrow> str" where
  "inline_script_payload src = [34] @ concat (map payload_char (chars src)) @ [34]"

subsection \<open>Resolving references\<close>

fun fold_segments :: "str list \<Rightarrow> str list \<Rightarrow> str list" where
  "fold_segments out [] = out"
| "fold_segments out (seg # segs) =
     (if seg = [] \<or> seg = [46] then fold_segments out segs
      else if seg = [46, 46] then fold_segments (butlast out) segs
      else fold_segments (out @ [seg]) segs)"

definition query_or_fragment :: "u8 \<Rightarrow> bool" where
  "query_or_fragment c \<longleftrightarrow> c = 63 \<or> c = 35"

definition split_tail :: "str \<Rightarrow> str \<times> str" where
  "split_tail path =
     (case position query_or_fragment path of
        Some i \<Rightarrow> (take i path, drop i path)
      | None \<Rightarrow> (path, []))"

definition normalize_dot_segments :: "str \<Rightarrow> str" where
  "normalize_dot_segments path =
     (let (path_part, tail) = split_tail path
      in if find_sub [46, 47] path_part = None \<and> \<not> ends_with [47, 46] path_part \<and> \<not> ends_with [47, 46, 46] path_part
         then path
         else let absolute = starts_with [47] path_part;
                  trailing_slash = ends_with [47] path_part;
                  out = fold_segments [] (split_on 47 path_part);
                  s = (if absolute then [47] else []) @ join [47] out;
                  s = (if (trailing_slash \<or> ends_with [47, 46] path_part \<or> ends_with [47, 46, 46] path_part)
                          \<and> \<not> ends_with [47] s
                       then s @ [47] else s)
              in s @ tail)"

definition starts_with_ascii_ci :: "str \<Rightarrow> str \<Rightarrow> bool" where
  "starts_with_ascii_ci s pre \<longleftrightarrow> length pre \<le> length s \<and> eq_ignore_ascii_case (take (length pre) s) pre"

definition is_http :: "str \<Rightarrow> bool" where
  "is_http s \<longleftrightarrow> starts_with_ascii_ci s (bs ''http://'') \<or> starts_with_ascii_ci s (bs ''https://'')"

definition resolve_against_base :: "str \<Rightarrow> str \<Rightarrow> str option" where
  "resolve_against_base rel base =
     (if \<not> is_http base then None
      else case find_sub (bs ''://'') base of
             None \<Rightarrow> None
           | Some i \<Rightarrow>
               let scheme_end = i + 3;
                   after_scheme = drop scheme_end base;
                   path_start = (case position (\<lambda>c. c = 47) after_scheme of
                                   Some k \<Rightarrow> scheme_end + k
                                 | None \<Rightarrow> length base);
                   org = take path_start base;
                   base_path_full = (if length base \<le> path_start then [47] else drop path_start base);
                   base_path = fst (split_tail base_path_full)
               in if starts_with [63] rel \<or> starts_with [35] rel then Some (org @ base_path @ rel)
                  else if starts_with [47] rel then Some (org @ normalize_dot_segments rel)
                  else let dir = (case position (\<lambda>c. c = 47) (rev base_path) of
                                    Some k \<Rightarrow> take (length base_path - k) base_path
                                  | None \<Rightarrow> [47])
                       in Some (org @ normalize_dot_segments (dir @ rel)))"

subsection \<open>Character references\<close>

definition char_from_u32 :: "nat \<Rightarrow> str option" where
  "char_from_u32 n =
     (if n < 0x80 then Some [word_of_nat n]
      else if n < 0x800 then Some [word_of_nat (0xC0 + n div 64), word_of_nat (0x80 + n mod 64)]
      else if 0xD800 \<le> n \<and> n \<le> 0xDFFF then None
      else if n < 0x10000 then
        Some [word_of_nat (0xE0 + n div 4096), word_of_nat (0x80 + n div 64 mod 64), word_of_nat (0x80 + n mod 64)]
      else if n < 0x110000 then
        Some [word_of_nat (0xF0 + n div 262144), word_of_nat (0x80 + n div 4096 mod 64),
              word_of_nat (0x80 + n div 64 mod 64), word_of_nat (0x80 + n mod 64)]
      else None)"

definition numeric_entity_char :: "str \<Rightarrow> str option" where
  "numeric_entity_char entity =
     (if \<not> starts_with (bs ''&#'') entity then None
      else let e = drop 2 entity
           in if \<not> ends_with [59] e then None
              else let body = butlast e
                   in if body = [] then None
                      else case (if hd body = 120 \<or> hd body = 88 then from_str_radix 32 16 (tl body)
                                 else from_str_radix 32 10 body) of
                             None \<Rightarrow> None
                           | Some n \<Rightarrow> char_from_u32 n)"

definition named_entities :: "(str \<times> str) list" where
  "named_entities =
     [(bs ''&amp;'', [38]), (bs ''&lt;'', [60]), (bs ''&gt;'', [62]), (bs ''&quot;'', [34]),
      (bs ''&apos;'', [39]), (bs ''&#39;'', [39]), (bs ''&#x27;'', [39]), (bs ''&nbsp;'', [0xC2, 0xA0]),
      (bs ''&sol;'', [47]), (bs ''&#47;'', [47]), (bs ''&#x2f;'', [47]), (bs ''&#x2F;'', [47])]"

definition entity_text :: "str \<Rightarrow> str option" where
  "entity_text entity =
     (case map_of named_entities entity of
        Some r \<Rightarrow> Some r
      | None \<Rightarrow> numeric_entity_char entity)"

text \<open>
  One turn of the loop at an ampersand: what it writes and how many bytes it consumes. The semicolon is
  looked for in the eight bytes after the ampersand.
\<close>

definition entity_at :: "str \<Rightarrow> str \<times> nat" where
  "entity_at tail =
     (case position (\<lambda>b. b = 59) (take 8 (tl tail)) of
        Some k \<Rightarrow> (case entity_text (take (k + 2) tail) of
                     Some r \<Rightarrow> (r, k + 2)
                   | None \<Rightarrow> ([38], 1))
      | None \<Rightarrow> ([38], 1))"

function decode_entities :: "str \<Rightarrow> str" where
  "decode_entities rest =
     (case position (\<lambda>b. b = 38) rest of
        None \<Rightarrow> rest
      | Some amp \<Rightarrow> take amp rest @ fst (entity_at (drop amp rest))
                    @ decode_entities (drop (snd (entity_at (drop amp rest))) (drop amp rest)))"
  by pat_completeness auto
termination
proof (relation "measure length")
  fix rest :: str and amp
  assume "position (\<lambda>b. b = 38) rest = Some amp"
  then have "amp < length rest" by (rule position_less)
  moreover have "0 < snd (entity_at (drop amp rest))"
    by (simp add: entity_at_def split: option.splits)
  ultimately show "(drop (snd (entity_at (drop amp rest))) (drop amp rest), rest) \<in> measure length"
    by simp
qed simp

declare decode_entities.simps [simp del]

definition decode_url_html_entities :: "str \<Rightarrow> str" where
  "decode_url_html_entities src = (if 38 \<notin> set src then src else decode_entities src)"

subsection \<open>Schemes, types and percent decoding\<close>

definition is_inert_scheme :: "str \<Rightarrow> bool" where
  "is_inert_scheme s \<longleftrightarrow>
     starts_with_ascii_ci s (bs ''data:'') \<or> starts_with_ascii_ci s (bs ''blob:'')
     \<or> starts_with_ascii_ci s (bs ''about:'') \<or> starts_with_ascii_ci s (bs ''mailto:'')
     \<or> starts_with_ascii_ci s (bs ''javascript:'') \<or> starts_with_ascii_ci s (bs ''vbscript:'')"

definition hex_val :: "u8 \<Rightarrow> u8 option" where
  "hex_val b =
     (if 48 \<le> b \<and> b \<le> 57 then Some (b - 48)
      else if 97 \<le> b \<and> b \<le> 102 then Some (b - 97 + 10)
      else if 65 \<le> b \<and> b \<le> 70 then Some (b - 65 + 10)
      else None)"

fun percent_decode_bytes :: "u8 list \<Rightarrow> u8 list" where
  "percent_decode_bytes [] = []"
| "percent_decode_bytes (b # s) =
     (case s of
        x # y # t \<Rightarrow>
          (case (if b = 37 then hex_val x else None, hex_val y) of
             (Some h, Some l) \<Rightarrow> (push_bit 4 h OR l) # percent_decode_bytes t
           | _ \<Rightarrow> b # percent_decode_bytes s)
      | _ \<Rightarrow> b # percent_decode_bytes s)"

definition percent_decode :: "str \<Rightarrow> str" where
  "percent_decode input =
     (let out = percent_decode_bytes input in if utf8_valid out then out else input)"

definition is_ascii_whitespace :: "u8 \<Rightarrow> bool" where
  "is_ascii_whitespace b \<longleftrightarrow> b = 32 \<or> b = 9 \<or> b = 10 \<or> b = 12 \<or> b = 13"

declare is_ascii_whitespace_def [byte_simps]

definition trim_ascii :: "str \<Rightarrow> str" where
  "trim_ascii s = rev (dropWhile is_ascii_whitespace (rev (dropWhile is_ascii_whitespace s)))"

definition is_module_type :: "str \<Rightarrow> bool" where
  "is_module_type t \<longleftrightarrow> eq_ignore_ascii_case (trim_ascii t) (bs ''module'')"

definition javascript_types :: "str list" where
  "javascript_types =
     [[], bs ''text/javascript'', bs ''application/javascript'', bs ''application/ecmascript'',
      bs ''text/ecmascript'', bs ''module'']"

definition is_javascript_type :: "str \<Rightarrow> bool" where
  "is_javascript_type t \<longleftrightarrow> trim (to_ascii_lowercase t) \<in> set javascript_types"

subsection \<open>Proxy routes\<close>

definition absolute_target_url :: "str \<Rightarrow> str \<Rightarrow> str option" where
  "absolute_target_url raw_url target_url =
     (let s = trim raw_url
      in if s = [] \<or> starts_with [35] s then None
         else if is_inert_scheme s then None
         else if is_http s then Some s
         else if starts_with [47, 47] s then Some (bs ''https:'' @ s)
         else resolve_against_base s target_url)"

definition proxied_subresource_url ::
    "((u8 \<Rightarrow> bool) \<Rightarrow> str \<Rightarrow> str) \<Rightarrow> str \<Rightarrow> str \<Rightarrow> str \<Rightarrow> str \<Rightarrow> str option" where
  "proxied_subresource_url enc raw_url proxy_origin control_prefix target_url =
     (let s = trim raw_url
      in if s = [] \<or> starts_with [35] s then None
         else if is_inert_scheme s then None
         else case (if is_http s then Some s
                    else if starts_with [47, 47] s then Some (bs ''https:'' @ s)
                    else resolve_against_base s target_url) of
                None \<Rightarrow> None
              | Some absolute \<Rightarrow>
                  if fst (split_fragment absolute) = [] then None
                  else Some (subresource_proxy_url enc absolute proxy_origin control_prefix None))"

definition proxied_navigation_url ::
    "((u8 \<Rightarrow> bool) \<Rightarrow> str \<Rightarrow> str) \<Rightarrow> str \<Rightarrow> str \<Rightarrow> str \<Rightarrow> str option" where
  "proxied_navigation_url enc absolute proxy_origin control_prefix =
     (if proxy_origin = [] then None
      else let out = trim_end_slashes proxy_origin @ control_prefix;
               out = (if ends_with [47] out then out else out @ [47])
           in Some (out @ bs ''?via='' @ enc URL_PARAM_ENCODE absolute))"

text \<open>
  The set of the crate: \<^verbatim>\<open>CONTROLS\<close> and the characters added to it. Bytes beyond ASCII are
  always encoded.
\<close>

definition QUERY_ENC :: "u8 \<Rightarrow> bool" where
  "QUERY_ENC b \<longleftrightarrow> b < 32 \<or> b = 127 \<or> b \<in> set (bs '' \"#<>&=+%?/:;`{}[]^|'') \<or> b = 39 \<or> b = 92"

definition script_route_url :: "((u8 \<Rightarrow> bool) \<Rightarrow> str \<Rightarrow> str) \<Rightarrow> str \<Rightarrow> str \<Rightarrow> str \<Rightarrow> str" where
  "script_route_url enc target proxy_origin knd =
     trim_end_slashes proxy_origin @ bs ''/zp/api/script?u='' @ enc QUERY_ENC target @ bs ''&kind='' @ knd"

definition proxied_module_script_url ::
    "((u8 \<Rightarrow> bool) \<Rightarrow> str \<Rightarrow> str) \<Rightarrow> str \<Rightarrow> str \<Rightarrow> str \<Rightarrow> str option" where
  "proxied_module_script_url enc raw_url target_url proxy_origin =
     (if proxy_origin = [] then None
      else map_option (\<lambda>target. script_route_url enc target proxy_origin (bs ''module''))
             (absolute_target_url raw_url target_url))"

definition proxied_data_script_url ::
    "((u8 \<Rightarrow> bool) \<Rightarrow> str \<Rightarrow> str) \<Rightarrow> str \<Rightarrow> str \<Rightarrow> bool \<Rightarrow> str option" where
  "proxied_data_script_url enc raw_url proxy_origin module =
     (if proxy_origin = [] then None
      else Some (script_route_url enc (trim raw_url) proxy_origin (if module then bs ''module'' else bs ''classic'')))"

definition proxied_meta_refresh ::
    "((u8 \<Rightarrow> bool) \<Rightarrow> str \<Rightarrow> str) \<Rightarrow> str \<Rightarrow> str \<Rightarrow> str \<Rightarrow> str \<Rightarrow> str option" where
  "proxied_meta_refresh enc content proxy_origin control_prefix target_url =
     (case find_sub (bs ''url='') (to_ascii_lowercase content) of
        None \<Rightarrow> None
      | Some at \<Rightarrow>
          let before = take at content;
              r = trim (drop (at + 4) content);
              r = (if (starts_with [34] r \<and> ends_with [34] r \<and> 2 \<le> length r)
                      \<or> (starts_with [39] r \<and> ends_with [39] r \<and> 2 \<le> length r)
                   then butlast (tl r) else r);
              r = trim r
          in if r = [] \<or> starts_with_ascii_ci r (bs ''javascript:'') then None
             else case absolute_target_url r target_url of
                    None \<Rightarrow> None
                  | Some absolute \<Rightarrow>
                      map_option (\<lambda>nxt. before @ bs ''url='' @ nxt)
                        (proxied_navigation_url enc absolute proxy_origin control_prefix))"

subsection \<open>Candidate lists and icon links\<close>

record srcset_candidate =
  lead :: str
  cand_url :: str
  desc :: str

definition separator :: "u8 \<Rightarrow> bool" where
  "separator b \<longleftrightarrow> is_ascii_whitespace b \<or> b = 44"

text \<open>One turn of the scanner on the text that is left: the separators, the token with its trailing
  commas cut off, and the descriptor up to the next comma.\<close>

definition srcset_token :: "str \<Rightarrow> str" where
  "srcset_token s = rev (dropWhile (\<lambda>b. b = 44) (rev (takeWhile (\<lambda>b. \<not> is_ascii_whitespace b) s)))"

lemma srcset_token_take: "\<exists>t. takeWhile (\<lambda>b. \<not> is_ascii_whitespace b) s = srcset_token s @ t \<and> (\<forall>b \<in> set t. b = 44)"
proof -
  let ?w = "takeWhile (\<lambda>b. \<not> is_ascii_whitespace b) s"
  have "?w = rev (takeWhile (\<lambda>b. b = 44) (rev ?w) @ dropWhile (\<lambda>b. b = 44) (rev ?w))"
    by (simp only: takeWhile_dropWhile_id rev_rev_ident)
  then have "?w = srcset_token s @ rev (takeWhile (\<lambda>b. b = 44) (rev ?w))"
    unfolding srcset_token_def rev_append .
  moreover have "\<forall>b \<in> set (rev (takeWhile (\<lambda>b. b = 44) (rev ?w))). b = 44"
    by (auto dest: set_takeWhileD)
  ultimately show ?thesis by blast
qed

lemma srcset_token_nonempty:
  assumes "s1 = dropWhile separator s" "s1 \<noteq> []"
  shows "srcset_token s1 \<noteq> []"
proof -
  obtain b t where s1: "s1 = b # t" using assms(2) by (cases s1) auto
  have "\<not> separator b" using assms(2) hd_dropWhile [of separator s] unfolding assms(1) [symmetric] by (simp add: s1)
  then have b: "\<not> is_ascii_whitespace b" "b \<noteq> 44" by (simp_all add: separator_def)
  from srcset_token_take [of s1] obtain u where u: "b # takeWhile (\<lambda>b. \<not> is_ascii_whitespace b) t = srcset_token s1 @ u"
      "\<forall>b \<in> set u. b = 44" by (auto simp: s1 b)
  show ?thesis
  proof
    assume "srcset_token s1 = []"
    with u have "b \<in> set u" by (metis append_Nil list.set_intros(1))
    with u(2) b(2) show False by blast
  qed
qed

lemma srcset_progress:
  assumes "s1 = dropWhile separator s" "s1 \<noteq> []"
  shows "length (dropWhile P (drop (length (srcset_token s1)) s1)) < length s"
proof -
  have "length (srcset_token s1) > 0" using srcset_token_nonempty [OF assms] by simp
  moreover have "length s1 \<le> length s" unfolding assms(1) by (rule length_dropWhile_le)
  moreover have "0 < length s1" using assms(2) by simp
  moreover have "length (dropWhile P (drop (length (srcset_token s1)) s1)) \<le> length s1 - length (srcset_token s1)"
    using length_dropWhile_le [of P "drop (length (srcset_token s1)) s1"] by simp
  ultimately show ?thesis by linarith
qed

function split_srcset_candidates :: "str \<Rightarrow> srcset_candidate list" where
  "split_srcset_candidates s =
     (if s = [] then []
      else let ld = takeWhile separator s; s1 = dropWhile separator s
           in if s1 = [] then [\<lparr>lead = ld, cand_url = [], desc = []\<rparr>]
              else let tok = srcset_token s1;
                       s2 = drop (length tok) s1;
                       d = takeWhile (\<lambda>b. b \<noteq> 44) s2
                   in \<lparr>lead = ld, cand_url = tok, desc = d\<rparr>
                      # split_srcset_candidates (dropWhile (\<lambda>b. b \<noteq> 44) s2))"
  by pat_completeness auto
termination
  by (relation "measure length") (auto intro: srcset_progress)

declare split_srcset_candidates.simps [simp del]

definition proxied_srcset :: "((u8 \<Rightarrow> bool) \<Rightarrow> str \<Rightarrow> str) \<Rightarrow> str \<Rightarrow> str \<Rightarrow> str \<Rightarrow> str \<Rightarrow> str option" where
  "proxied_srcset enc raw_url proxy_origin control_prefix target_url =
     (let cs = split_srcset_candidates raw_url;
          nxt = (\<lambda>c. proxied_subresource_url enc (cand_url c) proxy_origin control_prefix target_url)
      in if list_ex (\<lambda>c. nxt c \<noteq> None) cs
         then Some (concat (map (\<lambda>c. lead c @ (case nxt c of Some u \<Rightarrow> u | None \<Rightarrow> cand_url c) @ desc c) cs))
         else None)"

definition HIDDEN_ICON_HREF :: str where
  "HIDDEN_ICON_HREF = bs ''data:application/x-zeroproxy-icon,1''"

fun split_by :: "('a \<Rightarrow> bool) \<Rightarrow> 'a list \<Rightarrow> 'a list list" where
  "split_by P [] = [[]]"
| "split_by P (x # xs) =
     (if P x then [] # split_by P xs
      else (x # hd (split_by P xs)) # tl (split_by P xs))"

definition icon_rels :: "str list" where
  "icon_rels =
     [bs ''icon'', bs ''mask-icon'', bs ''apple-touch-icon'', bs ''apple-touch-icon-precomposed'',
      bs ''apple-touch-startup-image'', bs ''fluid-icon'']"

definition is_icon_link_rel :: "str \<Rightarrow> bool" where
  "is_icon_link_rel rel \<longleftrightarrow> list_ex (\<lambda>t. to_ascii_lowercase t \<in> set icon_rels) (split_by separator rel)"

subsection \<open>The script literal read back\<close>

text \<open>How a script engine reads a string literal with the escapes of JSON.\<close>

definition literal_escapes :: "(u8 \<times> u8) list" where
  "literal_escapes = [(92, 92), (34, 34), (110, 10), (114, 13), (116, 9), (98, 8), (102, 12)]"

fun read_chars :: "str \<Rightarrow> str option" where
  "read_chars [] = Some []"
| "read_chars (b # s) =
     (if b = 92 then
        (case s of
           [] \<Rightarrow> None
         | e # t \<Rightarrow>
             if e = 117 then
               (case t of
                  h1 # h2 # h3 # h4 # u \<Rightarrow>
                    (case digits_value 16 0 [h1, h2, h3, h4] of
                       None \<Rightarrow> None
                     | Some n \<Rightarrow> (case char_from_u32 n of None \<Rightarrow> None | Some c \<Rightarrow> map_option ((@) c) (read_chars u)))
                | _ \<Rightarrow> None)
             else (case map_of literal_escapes e of None \<Rightarrow> None | Some c \<Rightarrow> map_option ((#) c) (read_chars t)))
      else if b = 34 then None
      else map_option ((#) b) (read_chars s))"

definition read_literal :: "str \<Rightarrow> str option" where
  "read_literal l =
     (if starts_with [34] l \<and> ends_with [34] l \<and> 2 \<le> length l then read_chars (butlast (tl l)) else None)"

definition one_char :: "str \<Rightarrow> bool" where
  "one_char c \<longleftrightarrow> utf8_step c = Inr (length c)"

lemma one_char_take: "utf8_step s = Inr n \<Longrightarrow> one_char (take n s)"
  using utf8_step_take [of s n] utf8_step_Inr [of s n] by (simp add: one_char_def min_def)

lemma chars_valid: "utf8_valid s \<Longrightarrow> list_all one_char (chars s) \<and> concat (chars s) = s"
proof (induction s rule: chars.induct)
  case (1 s)
  show ?case
  proof (cases "s = []")
    case True
    then show ?thesis by (simp add: chars.simps)
  next
    case False
    with "1.prems" obtain n where n: "utf8_step s = Inr n"
      by (auto simp: utf8_valid.simps [of s] split: sum.splits)
    with "1.prems" have "utf8_valid (drop n s)" by (simp add: utf8_valid_step)
    with "1.IH"(2) False n have "list_all one_char (chars (drop n s)) \<and> concat (chars (drop n s)) = drop n s" by blast
    with False n show ?thesis by (simp add: chars.simps [of s] one_char_take)
  qed
qed

lemma conts_high: "conts k s = k \<Longrightarrow> length s = k \<Longrightarrow> \<forall>c \<in> set s. 128 \<le> c"
  by (induction k s rule: conts.induct) (auto simp: is_cont_def split: if_splits)

lemma second_high: "second_ok b c \<Longrightarrow> 128 \<le> c"
proof -
  have "x \<le> c \<Longrightarrow> 128 \<le> x \<Longrightarrow> 128 \<le> c" for x :: u8 by (rule order_trans)
  then show "second_ok b c \<Longrightarrow> 128 \<le> c"
    by (auto simp: second_ok_def is_cont_def split: if_splits)
qed

lemma one_char_cases:
  assumes "one_char c"
  obtains b where "c = [b]" "b < 128" | "2 \<le> length c" "\<forall>b \<in> set c. 128 \<le> b"
proof -
  obtain b s where c: "c = b # s" using assms by (cases c) (auto simp: one_char_def)
  show ?thesis
  proof (cases "lead_extra b")
    case None
    with assms show ?thesis by (simp add: one_char_def c)
  next
    case (Some k)
    show ?thesis
    proof (cases k)
      case 0
      with assms Some have "s = []" by (simp add: one_char_def c)
      moreover from Some 0 have "b < 128" by (auto simp: lead_extra_def split: if_splits)
      ultimately show ?thesis using that(1) c by simp
    next
      case (Suc j)
      with assms Some obtain d t where s: "s = d # t" "second_ok b d" "conts j t = j" "length t = j"
        by (auto simp: one_char_def c split: list.splits if_splits)
      have "\<not> b < 128" using Some Suc by (auto simp: lead_extra_def)
      then show ?thesis using that(2) conts_high [OF s(3,4)] second_high [OF s(2)] by (simp add: c s(1) not_less)
    qed
  qed
qed

lemma read_chars_plain: "b \<noteq> 92 \<Longrightarrow> b \<noteq> 34 \<Longrightarrow> read_chars (b # t) = map_option ((#) b) (read_chars t)"
  by simp

lemma read_chars_high: "\<forall>b \<in> set c. 128 \<le> b \<Longrightarrow> read_chars (c @ t) = map_option ((@) c) (read_chars t)"
proof (induction c)
  case Nil
  then show ?case by (simp add: option.map_ident)
next
  case (Cons b c)
  from Cons.prems have "b \<noteq> 92" "b \<noteq> 34" by auto
  with Cons show ?case
    by (simp add: read_chars_plain option.map_comp comp_def del: read_chars.simps)
qed

lemma control_escape:
  "n < 32 \<Longrightarrow> length (hex4 n) = 4 \<and> digits_value 16 0 (hex4 n) = Some n
     \<and> list_all (\<lambda>b. b \<noteq> 60 \<and> b \<noteq> 10 \<and> b \<noteq> 13) (hex4 n)"
proof -
  have "list_all (\<lambda>n. length (hex4 n) = 4 \<and> digits_value 16 0 (hex4 n) = Some n
     \<and> list_all (\<lambda>b. b \<noteq> 60 \<and> b \<noteq> 10 \<and> b \<noteq> 13) (hex4 n)) [0..<32]"
    by code_simp
  then show "n < 32 \<Longrightarrow> length (hex4 n) = 4 \<and> digits_value 16 0 (hex4 n) = Some n
     \<and> list_all (\<lambda>b. b \<noteq> 60 \<and> b \<noteq> 10 \<and> b \<noteq> 13) (hex4 n)"
    by (simp add: list_all_iff)
qed

lemma read_chars_unicode:
  assumes "length h = 4" "digits_value 16 0 h = Some n" "char_from_u32 n = Some c"
  shows "read_chars ([92] @ bs ''u'' @ h @ t) = map_option ((@) c) (read_chars t)"
proof -
  obtain h1 h2 h3 h4 where h: "h = [h1, h2, h3, h4]"
    using assms(1) by (auto simp: length_Suc_conv numeral_eq_Suc)
  show ?thesis using assms(2,3) by (simp add: h bs_def)
qed

lemma append_single: "(@) [b] = (#) b"
  by auto

lemma mod_offset: "a \<le> n \<Longrightarrow> n < a + m \<Longrightarrow> m dvd a \<Longrightarrow> n mod m = n - a" for n :: nat
proof -
  assume "a \<le> n" "n < a + m" "m dvd a"
  then obtain k r where "a = m * k" "n = m * k + r" "r < m" by (metis add_less_cancel_left dvdE le_Suc_ex)
  then show ?thesis by simp
qed

lemma code_point_multi:
  assumes "one_char c" "2 \<le> length c"
  shows "0x20 \<le> code_point c"
proof -
  obtain a s where c: "c = a # s" using assms(2) by (cases c) auto
  from assms obtain k where k: "lead_extra a = Some (Suc k)"
    by (auto simp: one_char_def c split: option.splits nat.splits)
  with assms obtain b t where s: "s = b # t" "second_ok a b" "length t = k"
    by (auto simp: one_char_def c split: list.splits if_splits)
  consider "k = 0" "0xC2 \<le> unat a" "unat a \<le> 0xDF"
    | "k = 1" "0xE0 \<le> unat a" "unat a \<le> 0xEF" | "k = 2" "0xF0 \<le> unat a" "unat a \<le> 0xF4"
    using k by (auto simp: lead_extra_def word_le_nat_alt word_less_nat_alt split: if_splits)
  then show ?thesis
  proof cases
    case 1
    then have "unat a mod 32 = unat a - 0xC0" by (intro mod_offset) simp_all
    with 1 s show ?thesis by (simp add: c)
  next
    case 2
    then obtain d where d: "t = [d]" using s by (auto simp: length_Suc_conv)
    have m: "unat a mod 16 = unat a - 0xE0" using 2 by (intro mod_offset) simp_all
    show ?thesis
    proof (cases "unat a = 0xE0")
      case True
      then have "a = 0xE0" by (simp add: word_unat_eq_iff)
      with s(2) have b: "0xA0 \<le> unat b" "unat b \<le> 0xBF" by (auto simp: second_ok_def word_le_nat_alt)
      then have "unat b mod 64 = unat b - 0x80" by (intro mod_offset) simp_all
      with b show ?thesis by (simp add: c s d)
    next
      case False
      with m 2 show ?thesis by (simp add: c s d)
    qed
  next
    case 3
    then obtain d e where d: "t = [d, e]" using s by (auto simp: length_Suc_conv numeral_eq_Suc)
    have m: "unat a mod 8 = unat a - 0xF0" using 3 by (intro mod_offset) simp_all
    show ?thesis
    proof (cases "unat a = 0xF0")
      case True
      then have "a = 0xF0" by (simp add: word_unat_eq_iff)
      with s(2) have b: "0x90 \<le> unat b" "unat b \<le> 0xBF" by (auto simp: second_ok_def word_le_nat_alt)
      then have "unat b mod 64 = unat b - 0x80" by (intro mod_offset) simp_all
      with b show ?thesis by (simp add: c s d)
    next
      case False
      with m 3 show ?thesis by (simp add: c s d)
    qed
  qed
qed

lemma payload_char_read:
  assumes "one_char c"
  shows "read_chars (payload_char c @ t) = map_option ((@) c) (read_chars t)"
  using assms
proof (cases rule: one_char_cases)
  case (1 b)
  show ?thesis
  proof (cases "b < 32")
    case True
    then have n: "unat b < 32" by (simp add: word_less_nat_alt)
    have "char_from_u32 (unat b) = Some c" using n by (simp add: char_from_u32_def 1(1))
    from read_chars_unicode [OF _ _ this, of "hex4 (unat b)" t] control_escape [OF n]
    have u: "read_chars ([92] @ bs ''u'' @ hex4 (unat b) @ t) = map_option ((@) c) (read_chars t)" by simp
    show ?thesis
    proof (cases "b \<in> {8, 9, 10, 12, 13}")
      case True
      then show ?thesis by (auto simp: 1(1) payload_char_def literal_escapes_def append_single)
    next
      case False
      with n True have "payload_char c = [92] @ bs ''u'' @ hex4 (unat b)"
        by (auto simp: 1(1) payload_char_def)
      with u show ?thesis by simp
    qed
  next
    case False
    then have n: "\<not> unat b < 32" by (simp add: word_less_nat_alt)
    show ?thesis
    proof (cases "b \<in> {92, 34, 60}")
      case True
      then show ?thesis
        by (auto simp: 1(1) payload_char_def literal_escapes_def append_single bs_def char_from_u32_def byte_simps digit_value_def)
    next
      case False
      with n have "payload_char c = [b]" by (auto simp: 1(1) payload_char_def)
      with False show ?thesis by (simp add: 1(1) read_chars_plain append_single)
    qed
  qed
next
  case 2
  then obtain a b d where c: "c = a # b # d" by (metis One_nat_def Suc_1 Suc_le_length_iff)
  show ?thesis
  proof (cases "c = [0xE2, 0x80, 0xA8] \<or> c = [0xE2, 0x80, 0xA9]")
    case True
    have "char_from_u32 0x2028 = Some [0xE2, 0x80, 0xA8]" "char_from_u32 0x2029 = Some [0xE2, 0x80, 0xA9]"
      by (simp_all add: char_from_u32_def)
    moreover have "digits_value 16 0 (bs ''2028'') = Some 0x2028" "digits_value 16 0 (bs ''2029'') = Some 0x2029"
      "length (bs ''2028'') = 4" "length (bs ''2029'') = 4"
      by (simp_all add: bs_def digit_value_def byte_simps)
    ultimately have "read_chars ([92] @ bs ''u'' @ bs ''2028'' @ t) = map_option ((@) [0xE2, 0x80, 0xA8]) (read_chars t)"
      "read_chars ([92] @ bs ''u'' @ bs ''2029'' @ t) = map_option ((@) [0xE2, 0x80, 0xA9]) (read_chars t)"
      using read_chars_unicode by blast+
    with True show ?thesis by (auto simp: payload_char_def bs_def)
  next
    case False
    have "\<not> code_point c < 0x20" using code_point_multi [OF assms 2(1)] by simp
    with False c have "payload_char c = c" by (auto simp: payload_char_def)
    with read_chars_high [OF 2(2)] show ?thesis by simp
  qed
qed

lemma payload_char_safe:
  assumes "one_char c"
  shows "60 \<notin> set (payload_char c) \<and> 10 \<notin> set (payload_char c) \<and> 13 \<notin> set (payload_char c)"
  using assms
proof (cases rule: one_char_cases)
  case (1 b)
  show ?thesis
  proof (cases "unat b < 32")
    case True
    from control_escape [OF this] have "60 \<notin> set (hex4 (unat b)) \<and> 10 \<notin> set (hex4 (unat b)) \<and> 13 \<notin> set (hex4 (unat b))"
      by (auto simp: list_all_iff)
    with 1(1) show ?thesis by (auto simp: payload_char_def bs_def)
  next
    case False
    with 1(1) show ?thesis by (auto simp: payload_char_def bs_def)
  qed
next
  case 2
  have "\<not> code_point c < 0x20" using code_point_multi [OF assms 2(1)] by simp
  moreover have "60 \<notin> set c" "10 \<notin> set c" "13 \<notin> set c" using 2(2) by auto
  ultimately show ?thesis by (auto simp: payload_char_def bs_def)
qed

lemma read_chars_concat:
  "list_all one_char cs \<Longrightarrow> read_chars (concat (map payload_char cs)) = Some (concat cs)"
  by (induction cs) (simp_all add: payload_char_read del: read_chars.simps(2))

text \<open>
  C31. The literal an inline script is wrapped in evaluates to exactly the author's text, and no byte of
  it can end the script element or the literal's line: it holds neither \<open><\<close> nor a line break.
\<close>

theorem inline_payload_roundtrip:
  assumes "utf8_valid src"
  shows "read_literal (inline_script_payload src) = Some src
    \<and> set (inline_script_payload src) \<inter> {60, 10, 13} = {}"
proof
  have cs: "list_all one_char (chars src)" "concat (chars src) = src" using chars_valid [OF assms] by simp_all
  show "read_literal (inline_script_payload src) = Some src"
    using read_chars_concat [OF cs(1)] cs(2)
    by (simp add: read_literal_def inline_script_payload_def starts_with_def ends_with_def)
  have "\<forall>c \<in> set (chars src). 60 \<notin> set (payload_char c) \<and> 10 \<notin> set (payload_char c) \<and> 13 \<notin> set (payload_char c)"
    using cs(1) payload_char_safe by (simp add: list_all_iff)
  then show "set (inline_script_payload src) \<inter> {60, 10, 13} = {}"
    by (auto simp: inline_script_payload_def)
qed

theorem inline_payload_roundtrip_witness:
  "utf8_valid (bs ''a</script>'' @ [10, 0xE2, 0x80, 0xA8])
   \<and> read_literal (inline_script_payload (bs ''a</script>'' @ [10, 0xE2, 0x80, 0xA8]))
     = Some (bs ''a</script>'' @ [10, 0xE2, 0x80, 0xA8])"
proof -
  have "utf8_valid ([0xE2, 0x80, 0xA8] :: str)"
    by (simp add: utf8_valid.simps lead_extra_def second_ok_def is_cont_def)
  moreover have "utf8_valid (bs ''a</script>'' @ [10])" by (rule utf8_valid_ascii) (simp add: bs_def)
  ultimately have v: "utf8_valid (bs ''a</script>'' @ [10, 0xE2, 0x80, 0xA8])"
    using utf8_valid_append by fastforce
  with inline_payload_roundtrip [OF v] show ?thesis by blast
qed

subsection \<open>Character references and percent escapes undone\<close>

lemma decode_entities_plain: "b \<noteq> 38 \<Longrightarrow> decode_entities (b # s) = b # decode_entities s"
  by (subst (1 2) decode_entities.simps) (auto split: option.splits)

lemma decode_entities_Nil [simp]: "decode_entities [] = []"
  by (simp add: decode_entities.simps)

lemma decode_entities_amp:
  "decode_entities (38 # s) = fst (entity_at (38 # s)) @ decode_entities (drop (snd (entity_at (38 # s))) (38 # s))"
  by (subst decode_entities.simps) simp

lemma decode_entities_none: "38 \<notin> set s \<Longrightarrow> decode_entities s = s"
  by (induction s) (simp_all add: decode_entities_plain)

lemma decode_url_html_entities_eq: "decode_url_html_entities s = decode_entities s"
  by (simp add: decode_url_html_entities_def decode_entities_none)

definition escape_html :: "str \<Rightarrow> str" where
  "escape_html s =
     concat (map (\<lambda>b. if b = 38 then bs ''&amp;'' else if b = 60 then bs ''&lt;'' else if b = 62 then bs ''&gt;''
                      else if b = 34 then bs ''&quot;'' else if b = 39 then bs ''&#39;'' else [b]) s)"

lemma decode_reference:
  "decode_entities (bs ''&amp;'' @ t) = 38 # decode_entities t"
  "decode_entities (bs ''&lt;'' @ t) = 60 # decode_entities t"
  "decode_entities (bs ''&gt;'' @ t) = 62 # decode_entities t"
  "decode_entities (bs ''&quot;'' @ t) = 34 # decode_entities t"
  "decode_entities (bs ''&#39;'' @ t) = 39 # decode_entities t"
  by (simp_all add: bs_def decode_entities_amp entity_at_def entity_text_def named_entities_def)

lemma decode_escape_html: "decode_url_html_entities (escape_html s) = s"
  unfolding decode_url_html_entities_eq
  by (induction s) (simp_all add: escape_html_def decode_reference decode_entities_plain)

lemma percent_decode_plain: "b \<noteq> 37 \<Longrightarrow> percent_decode_bytes (b # s) = b # percent_decode_bytes s"
  by (simp split: list.splits)

lemma hex_val_digit: "n < 16 \<Longrightarrow> hex_val (hex_digit n) = Some (word_of_nat n)"
proof -
  have "list_all (\<lambda>n. hex_val (hex_digit n) = Some (word_of_nat n)) [0..<16]" by code_simp
  then show "n < 16 \<Longrightarrow> hex_val (hex_digit n) = Some (word_of_nat n)" by (simp add: list_all_iff)
qed

lemma nibbles: "push_bit 4 (word_of_nat (unat b div 16)) OR word_of_nat (unat b mod 16) = (b :: u8)"
proof -
  have b: "unat b < 256" using unsigned_less [of b] by simp
  have d: "push_bit 4 (word_of_nat (unat b div 16) :: u8) = word_of_nat (unat b div 16 * 16)"
    by (simp add: push_bit_eq_mult)
  have "push_bit 4 (drop_bit 4 b) OR take_bit 4 b = b" by (rule bit_eqI) (auto simp: bit_simps)
  moreover have "word_of_nat (unat b div 16) = drop_bit 4 b"
    using b by (simp add: word_unat_eq_iff unat_of_nat unat_drop_bit_eq drop_bit_eq_div unat_div)
  moreover have "word_of_nat (unat b mod 16) = take_bit 4 b"
    using b by (simp add: word_unat_eq_iff unat_of_nat unsigned_take_bit_eq take_bit_eq_mod unat_mod)
  ultimately show ?thesis by simp
qed

lemma percent_decode_escape:
  "percent_decode_bytes (37 # hex_digit (unat b div 16) # hex_digit (unat b mod 16) # t) = b # percent_decode_bytes t"
proof -
  have "unat b < 256" using unsigned_less [of b] by simp
  then have "unat b div 16 < 16" "unat b mod 16 < 16" by (simp_all add: less_mult_imp_div_less)
  then show ?thesis using nibbles [of b] by (simp add: hex_val_digit)
qed

lemma percent_decode_encode:
  assumes "utf8_valid s" "esc 37"
  shows "percent_decode (pct_encode esc s) = s"
proof -
  have "percent_decode_bytes (pct_encode esc s) = s"
  proof (induction s)
    case (Cons b s)
    have "\<not> esc b \<Longrightarrow> b \<noteq> 37" using assms(2) by blast
    with Cons show ?case
      by (cases "esc b")
         (auto simp: pct_encode_def percent_decode_escape percent_decode_plain simp del: percent_decode_bytes.simps)
  qed (simp add: pct_encode_def)
  with assms(1) show ?thesis by (simp add: percent_decode_def)
qed

subsection \<open>Candidate lists against the grammar of HTML\<close>

text \<open>
  The algorithm of the HTML standard for the URLs of a \<^verbatim>\<open>srcset\<close> attribute: after the
  separators a token up to white space; one that ends in commas has no descriptors, otherwise the
  descriptors go up to the next comma outside parentheses.
\<close>

fun skip_descriptors :: "bool \<Rightarrow> str \<Rightarrow> str" where
  "skip_descriptors par [] = []"
| "skip_descriptors par (b # s) =
     (if par then skip_descriptors (b \<noteq> 41) s
      else if b = 44 then b # s
      else skip_descriptors (b = 40) s)"

lemma length_skip_descriptors: "length (skip_descriptors par s) \<le> length s"
  by (induction par s rule: skip_descriptors.induct) (auto simp: le_SucI)

definition html_space :: "u8 \<Rightarrow> bool" where
  "html_space b \<longleftrightarrow> b \<in> {0x09, 0x0A, 0x0C, 0x0D, 0x20}"

fun strip_commas :: "str \<Rightarrow> str" where
  "strip_commas w = (if w \<noteq> [] \<and> last w = 44 then strip_commas (butlast w) else w)"

declare strip_commas.simps [simp del]

function srcset_urls :: "str \<Rightarrow> str list" where
  "srcset_urls s =
     (let s1 = dropWhile (\<lambda>b. html_space b \<or> b = 44) s
      in if s1 = [] then []
         else let w = takeWhile (\<lambda>b. \<not> html_space b) s1;
                  r = dropWhile (\<lambda>b. \<not> html_space b) s1
              in if last w = 44 then strip_commas w # srcset_urls r
                 else w # srcset_urls (skip_descriptors False r))"
  by pat_completeness auto
termination
proof (relation "measure length")
  have less: "length (dropWhile (\<lambda>b. \<not> html_space b) (dropWhile (\<lambda>b. html_space b \<or> b = 44) s)) < length s"
    if ne: "dropWhile (\<lambda>b. html_space b \<or> b = 44) s \<noteq> []" for s
  proof -
    obtain b t where t: "dropWhile (\<lambda>b. html_space b \<or> b = 44) s = b # t" using ne by (cases "dropWhile (\<lambda>b. html_space b \<or> b = 44) s") auto
    have "\<not> html_space b" using hd_dropWhile [OF ne] by (simp add: t)
    then have "dropWhile (\<lambda>b. \<not> html_space b) (b # t) = dropWhile (\<lambda>b. \<not> html_space b) t"
      by simp
    moreover have "length (dropWhile (\<lambda>b. \<not> html_space b) t) \<le> length t" by (rule length_dropWhile_le)
    moreover have "length (b # t) \<le> length s" using length_dropWhile_le [of "\<lambda>b. html_space b \<or> b = 44" s] by (simp add: t)
    ultimately show ?thesis by (simp add: t)
  qed
  show "\<And>s x xa xb. x = dropWhile (\<lambda>b. html_space b \<or> b = 44) s \<Longrightarrow> x \<noteq> [] \<Longrightarrow> xa = takeWhile (\<lambda>b. \<not> html_space b) x
      \<Longrightarrow> xb = dropWhile (\<lambda>b. \<not> html_space b) x \<Longrightarrow> last xa = 44 \<Longrightarrow> (xb, s) \<in> measure length"
    using less by simp
  show "\<And>s x xa xb. x = dropWhile (\<lambda>b. html_space b \<or> b = 44) s \<Longrightarrow> x \<noteq> [] \<Longrightarrow> xa = takeWhile (\<lambda>b. \<not> html_space b) x
      \<Longrightarrow> xb = dropWhile (\<lambda>b. \<not> html_space b) x \<Longrightarrow> last xa \<noteq> 44
      \<Longrightarrow> (skip_descriptors False xb, s) \<in> measure length"
    using less length_skip_descriptors le_less_trans by (simp, blast)
qed simp

declare srcset_urls.simps [simp del]

lemma html_space: "html_space b = is_ascii_whitespace b"
  by (auto simp: html_space_def is_ascii_whitespace_def)

lemma strip_commas_rev: "strip_commas w = rev (dropWhile (\<lambda>b. b = 44) (rev w))"
  by (induction w rule: rev_induct) (simp_all add: strip_commas.simps)

lemma srcset_urls_step:
  "srcset_urls s =
     (let s1 = dropWhile separator s
      in if s1 = [] then []
         else let w = takeWhile (\<lambda>b. \<not> is_ascii_whitespace b) s1;
                  r = dropWhile (\<lambda>b. \<not> is_ascii_whitespace b) s1
              in if last w = 44 then srcset_token s1 # srcset_urls r
                 else w # srcset_urls (skip_descriptors False r))"
proof -
  have "(\<lambda>b. html_space b \<or> b = 44) = separator" by (auto simp: html_space separator_def)
  moreover have "(\<lambda>b. \<not> html_space b) = (\<lambda>b. \<not> is_ascii_whitespace b)" by (simp add: html_space)
  moreover have "strip_commas (takeWhile (\<lambda>b. \<not> is_ascii_whitespace b) s1) = srcset_token s1" for s1
    by (simp add: strip_commas_rev srcset_token_def)
  ultimately show ?thesis
    using srcset_urls.simps [of s] by (simp only: Let_def)
qed

lemma skip_descriptors_plain: "40 \<notin> set s \<Longrightarrow> skip_descriptors False s = dropWhile (\<lambda>b. b \<noteq> 44) s"
  by (induction s) auto

lemma srcset_urls_separators: "\<forall>b \<in> set t. separator b \<Longrightarrow> srcset_urls (t @ s) = srcset_urls s"
  by (subst (1 2) srcset_urls_step) (simp add: dropWhile_append2)

text \<open>The text of the candidates.\<close>

definition candidate_text :: "srcset_candidate \<Rightarrow> str" where
  "candidate_text c = lead c @ cand_url c @ desc c"

lemma candidate_text_simp [simp]: "candidate_text \<lparr>lead = a, cand_url = b, desc = c\<rparr> = a @ b @ c"
  by (simp add: candidate_text_def)

lemma split_srcset_text: "concat (map candidate_text (split_srcset_candidates s)) = s"
proof (induction s rule: split_srcset_candidates.induct)
  case (1 s)
  define s1 where "s1 = dropWhile separator s"
  have s: "takeWhile separator s @ s1 = s" by (simp add: s1_def)
  show ?case
  proof (cases "s = [] \<or> s1 = []")
    case True
    then show ?thesis
      using s by (subst split_srcset_candidates.simps) (auto simp: s1_def Let_def)
  next
    case False
    obtain t where "takeWhile (\<lambda>b. \<not> is_ascii_whitespace b) s1 = srcset_token s1 @ t"
      using srcset_token_take [of s1] by blast
    then have "s1 = srcset_token s1 @ t @ dropWhile (\<lambda>b. \<not> is_ascii_whitespace b) s1"
      by (metis append.assoc takeWhile_dropWhile_id)
    then have tok: "srcset_token s1 @ drop (length (srcset_token s1)) s1 = s1"
      by (metis append_eq_conv_conj)
    show ?thesis
      using False "1.IH" [OF _ refl s1_def _ refl refl refl] s tok
      by (subst split_srcset_candidates.simps) (simp add: s1_def [symmetric] Let_def)
  qed
qed

lemma srcset_token_word:
  assumes "w = takeWhile (\<lambda>b. \<not> is_ascii_whitespace b) s1" "w \<noteq> []" "last w \<noteq> 44"
  shows "srcset_token s1 = w"
proof -
  from srcset_token_take [of s1] obtain t where t: "w = srcset_token s1 @ t" "\<forall>b \<in> set t. b = 44"
    unfolding assms(1) by blast
  have "t = []"
  proof (rule ccontr)
    assume "t \<noteq> []"
    with t(1) have "last w \<in> set t" by simp
    with t(2) assms(3) show False by blast
  qed
  with t(1) show ?thesis by simp
qed

lemma split_srcset_urls:
  assumes "40 \<notin> set s"
  shows "filter (\<lambda>u. u \<noteq> []) (map cand_url (split_srcset_candidates s)) = srcset_urls s"
  using assms
proof (induction s rule: split_srcset_candidates.induct)
  case (1 s)
  define s1 where "s1 = dropWhile separator s"
  show ?case
  proof (cases "s = [] \<or> s1 = []")
    case True
    then show ?thesis
      by (subst split_srcset_candidates.simps, subst srcset_urls_step) (auto simp: s1_def Let_def)
  next
    case False
    define w where "w = takeWhile (\<lambda>b. \<not> is_ascii_whitespace b) s1"
    define r where "r = dropWhile (\<lambda>b. \<not> is_ascii_whitespace b) s1"
    define s2 where "s2 = drop (length (srcset_token s1)) s1"
    have s1: "s1 = w @ r" by (simp add: w_def r_def)
    have ne: "srcset_token s1 \<noteq> []" using False by (intro srcset_token_nonempty [OF s1_def]) simp
    obtain t where t: "w = srcset_token s1 @ t" "\<forall>b \<in> set t. b = 44"
      using srcset_token_take [of s1] unfolding w_def by blast
    then have s2: "s2 = t @ r" unfolding s2_def by (subst s1) simp
    have "set (dropWhile (\<lambda>b. b \<noteq> 44) s2) \<subseteq> set s"
      unfolding s2_def s1_def by (meson dual_order.trans set_drop_subset set_dropWhileD subsetI)
    with "1.prems" have "40 \<notin> set (dropWhile (\<lambda>b. b \<noteq> 44) s2)" by blast
    with "1.IH" [OF _ refl s1_def _ refl s2_def refl] False
    have ih: "filter (\<lambda>u. u \<noteq> []) (map cand_url (split_srcset_candidates (dropWhile (\<lambda>b. b \<noteq> 44) s2)))
        = srcset_urls (dropWhile (\<lambda>b. b \<noteq> 44) s2)" by blast
    have step: "filter (\<lambda>u. u \<noteq> []) (map cand_url (split_srcset_candidates s))
        = srcset_token s1 # srcset_urls (dropWhile (\<lambda>b. b \<noteq> 44) s2)"
      using False ne ih by (subst split_srcset_candidates.simps) (simp add: s1_def [symmetric] s2_def [symmetric] Let_def)
    have wne: "w \<noteq> []" using t(1) ne by auto
    have spec: "srcset_urls s = (if last w = 44 then srcset_token s1 # srcset_urls r
        else w # srcset_urls (skip_descriptors False r))"
      using False by (subst srcset_urls_step) (simp add: s1_def [symmetric] w_def [symmetric] r_def [symmetric] Let_def)
    show ?thesis
    proof (cases "t = []")
      case True
      have "40 \<notin> set r" using "1.prems" unfolding r_def s1_def by (meson set_dropWhileD)
      moreover have "last w \<noteq> 44"
      proof -
        have "hd (dropWhile (\<lambda>b. b = 44) (rev w)) \<noteq> 44"
          using hd_dropWhile [of "\<lambda>b. b = 44" "rev w"] ne unfolding srcset_token_def w_def [symmetric] by auto
        with True t(1) show ?thesis unfolding srcset_token_def w_def [symmetric] by (metis hd_rev rev_rev_ident append_Nil2)
      qed
      ultimately show ?thesis using step spec t(1) True by (simp add: skip_descriptors_plain s2)
    next
      case False
      then have "last w = 44" using t by simp
      moreover have "dropWhile (\<lambda>b. b \<noteq> 44) s2 = t @ r"
        using False t(2) by (cases t) (simp_all add: s2)
      moreover have "srcset_urls (t @ r) = srcset_urls r"
        using t(2) by (intro srcset_urls_separators) (simp add: separator_def)
      ultimately show ?thesis using step spec by simp
    qed
  qed
qed



subsection \<open>Resolution against RFC 3986\<close>

text \<open>
  Section 5.2.4 of the RFC, on an input and an output buffer; the output is kept as its segments, each
  with the slash before it.
\<close>

function dot_loop :: "str \<Rightarrow> str list \<Rightarrow> str list" where
  "dot_loop inp out =
     (if inp = [] then out
      else if starts_with [46, 46, 47] inp then dot_loop (drop 3 inp) out
      else if starts_with [46, 47] inp then dot_loop (drop 2 inp) out
      else if starts_with [47, 46, 47] inp then dot_loop (drop 2 inp) out
      else if inp = [47, 46] then dot_loop [47] out
      else if starts_with [47, 46, 46, 47] inp then dot_loop (drop 3 inp) (butlast out)
      else if inp = [47, 46, 46] then dot_loop [47] (butlast out)
      else if inp = [46] \<or> inp = [46, 46] then dot_loop [] out
      else dot_loop (dropWhile (\<lambda>c. c \<noteq> 47) (tl inp)) (out @ [hd inp # takeWhile (\<lambda>c. c \<noteq> 47) (tl inp)]))"
  by pat_completeness auto
termination
  by (relation "measure (length \<circ> fst)")
     (auto simp: starts_with_iff_prefix prefix_def neq_Nil_conv intro: le_less_trans [OF length_dropWhile_le])

declare dot_loop.simps [simp del]

definition remove_dot_segments :: "str \<Rightarrow> str" where
  "remove_dot_segments path = concat (dot_loop path [])"

fun seg_loop :: "str list \<Rightarrow> str list \<Rightarrow> str list" where
  "seg_loop out [] = out"
| "seg_loop out [s] =
     (if s = [46] then out @ [[47]] else if s = [46, 46] then butlast out @ [[47]] else out @ [47 # s])"
| "seg_loop out (s # t # ts) =
     (if s = [46] then seg_loop out (t # ts) else if s = [46, 46] then seg_loop (butlast out) (t # ts)
      else seg_loop (out @ [47 # s]) (t # ts))"

lemma dot_loop_slash [simp]: "dot_loop [47] out = out @ [[47]]"
  by (subst dot_loop.simps, subst dot_loop.simps) (simp add: starts_with_def)

lemma dot_loop_last:
  assumes "47 \<notin> set s"
  shows "dot_loop (47 # s) out = seg_loop out [s]"
proof -
  have sw: "\<not> starts_with [47, 46, 47] (47 # s)" "\<not> starts_with [47, 46, 46, 47] (47 # s)"
    using assms by (auto simp: starts_with_iff_prefix prefix_def)
  have tw: "takeWhile (\<lambda>c. c \<noteq> 47) s = s" "dropWhile (\<lambda>c. c \<noteq> 47) s = []"
    using assms by (auto simp: takeWhile_eq_all_conv dropWhile_eq_Nil_conv)
  show ?thesis
    by (subst dot_loop.simps) (simp add: sw tw dot_loop.simps [of "[]"], simp add: starts_with_def)
qed

lemma dot_loop_seg:
  assumes "47 \<notin> set s"
  shows "dot_loop (47 # s @ 47 # rest) out =
    (if s = [46] then dot_loop (47 # rest) out else if s = [46, 46] then dot_loop (47 # rest) (butlast out)
     else dot_loop (47 # rest) (out @ [47 # s]))"
proof -
  consider "s = []" | "s = [46]" | "s = [46, 46]" | a where "s = [a]" "a \<noteq> 46" | a b where "s = [a, b]" "s \<noteq> [46, 46]"
    | a b c t where "s = a # b # c # t"
    by (metis list.exhaust)
  then have sw: "starts_with [47, 46, 47] (47 # s @ 47 # rest) \<longleftrightarrow> s = [46]"
    "starts_with [47, 46, 46, 47] (47 # s @ 47 # rest) \<longleftrightarrow> s = [46, 46]"
    by (cases; use assms in \<open>auto simp: starts_with_def\<close>)+
  have tw: "takeWhile (\<lambda>c. c \<noteq> 47) (s @ 47 # rest) = s" "dropWhile (\<lambda>c. c \<noteq> 47) (s @ 47 # rest) = 47 # rest"
    using assms by (auto simp: takeWhile_append dropWhile_append takeWhile_eq_all_conv dropWhile_eq_Nil_conv)
  have ne: "s @ 47 # rest \<noteq> [46]" "s @ 47 # rest \<noteq> [46, 46]"
    using assms by (auto simp: Cons_eq_append_conv append_eq_Cons_conv)
  show ?thesis
    by (subst dot_loop.simps) (simp add: sw tw ne, simp add: starts_with_def)
qed

lemma dot_loop_segs:
  "ss \<noteq> [] \<Longrightarrow> \<forall>s \<in> set ss. 47 \<notin> set s \<Longrightarrow> dot_loop (47 # join [47] ss) out = seg_loop out ss"
  by (induction out ss rule: seg_loop.induct) (simp_all add: dot_loop_last dot_loop_seg del: seg_loop.simps(2))

text \<open>The same on the segments the code keeps, without their slashes.\<close>

definition dots :: "str set" where
  "dots = {[], [46], [46, 46]}"

lemma seg_loop_fold:
  "ss \<noteq> [] \<Longrightarrow> [] \<notin> set (butlast ss) \<Longrightarrow>
     concat (seg_loop (map ((#) 47) os) ss) =
       concat (map ((#) 47) (fold_segments os ss)) @ (if last ss \<in> dots then [47] else [])"
proof (induction ss arbitrary: os rule: induct_list012)
  case (2 s)
  then show ?case by (auto simp: dots_def map_butlast [symmetric])
next
  case (3 s t ts)
  have ne: "s \<noteq> []" using "3.prems"(2) by auto
  have tl: "t # ts \<noteq> []" "[] \<notin> set (butlast (t # ts))" using "3.prems"(2) by (auto split: if_splits)
  note ih = "3.IH"(2) [OF tl]
  have out: "butlast (map ((#) 47) os) = map ((#) 47) (butlast os)" "map ((#) 47) os @ [47 # s] = map ((#) 47) (os @ [s])"
    by (simp_all add: map_butlast)
  have l: "last (s # t # ts) = last (t # ts)" by simp
  consider "s = [46]" | "s = [46, 46]" | "s \<noteq> [46]" "s \<noteq> [46, 46]" by blast
  then show ?case
  proof cases
    case 1
    show ?thesis using ih [of os] unfolding seg_loop.simps(3) fold_segments.simps(2) [of os s] l 1 by simp
  next
    case 2
    show ?thesis using ih [of "butlast os"] unfolding seg_loop.simps(3) fold_segments.simps(2) [of os s] l out 2 by simp
  next
    case 3
    then have c: "(s = [46]) = False" "(s = [46, 46]) = False" "(s = []) = False" using ne by auto
    show ?thesis
      using ih [of "os @ [s]"]
      unfolding seg_loop.simps(3) fold_segments.simps(2) [of os s] l c if_False simp_thms out by blast
  qed
qed simp

lemma fold_segments_clean: "\<forall>s \<in> set os \<union> set ss. s \<notin> dots \<Longrightarrow> fold_segments os ss = os @ ss"
  by (induction os ss rule: fold_segments.induct) (auto simp: dots_def)

lemma set_fold_segments: "set (fold_segments os ss) \<subseteq> set os \<union> (set ss - dots)"
proof (induction os ss rule: fold_segments.induct)
  case (2 out seg segs)
  then show ?case by (auto simp: dots_def dest: in_set_butlastD split: if_splits)
qed simp

lemma slash_join: "os \<noteq> [] \<Longrightarrow> 47 # join [47] os = concat (map ((#) 47) os)"
  by (induction os rule: induct_list012) simp_all

lemma fold_nonempty: "ss \<noteq> [] \<Longrightarrow> last ss \<notin> dots \<Longrightarrow> fold_segments os ss \<noteq> [] \<and> last (fold_segments os ss) = last ss"
proof (induction os ss rule: fold_segments.induct)
  case (2 out seg segs)
  then show ?case by (cases "segs = []") (auto simp: dots_def)
qed simp

lemma fold_segments_append: "fold_segments os (xs @ ys) = fold_segments (fold_segments os xs) ys"
  by (induction os xs rule: fold_segments.induct) simp_all

lemma join_last: "ss \<noteq> [] \<Longrightarrow> \<exists>pre. 47 # join [47] ss = pre @ 47 # last ss" for ss :: "str list"
proof (induction ss rule: induct_list012)
  case (3 s t ts)
  then obtain pre where "47 # join [47] (t # ts) = pre @ 47 # last (t # ts)" by auto
  then have "47 # join [47] (s # t # ts) = (47 # s @ pre) @ 47 # last (s # t # ts)" by simp
  then show ?case by blast
qed (auto intro: exI [of _ "[]"])

lemma ends_with_last_segment:
  assumes "47 \<notin> set d" "47 \<notin> set l"
  shows "ends_with (47 # d) (pre @ 47 # l) \<longleftrightarrow> l = (d :: str)"
proof
  assume "ends_with (47 # d) (pre @ 47 # l)"
  then obtain u where u: "pre @ 47 # l = u @ 47 # d"
    unfolding ends_with_def by (metis append_take_drop_id)
  have tw: "takeWhile (\<lambda>c. c \<noteq> 47) (rev (x @ 47 # y)) = rev y" if "47 \<notin> set y" for x y :: str
    using that by (simp add: takeWhile_append takeWhile_eq_all_conv)
  from tw [OF assms(1), of u] tw [OF assms(2), of pre] u have "rev d = rev l" by metis
  then show "l = d" by simp
qed (simp add: ends_with_def)

lemma join_inner: "s \<in> set (butlast ss) \<Longrightarrow> \<exists>u v. join [47] ss = u @ s @ 47 # v" for ss :: "str list"
proof (induction ss rule: induct_list012)
  case (3 x y zs)
  show ?case
  proof (cases "s = x")
    case True
    then have "join [47] (x # y # zs) = [] @ s @ 47 # join [47] (y # zs)" by simp
    then show ?thesis by blast
  next
    case False
    with 3 obtain u v where "join [47] (y # zs) = u @ s @ 47 # v" by auto
    then have "join [47] (x # y # zs) = (x @ 47 # u) @ s @ 47 # v" by simp
    then show ?thesis by blast
  qed
qed auto

lemma no_dot_slash:
  fixes ss :: "str list"
  assumes "find_sub [46, 47] (47 # join [47] ss) = None" "s \<in> set (butlast ss)"
  shows "s \<noteq> [46] \<and> s \<noteq> [46, 46]"
proof (rule ccontr)
  assume "\<not> ?thesis"
  then obtain w where w: "s = w @ [46]" by (metis append_Nil append_butlast_last_id butlast.simps(2) last.simps list.distinct(1))
  obtain u v where "join [47] ss = u @ s @ 47 # v" using join_inner [OF assms(2)] by blast
  then have "47 # join [47] ss = (47 # u @ w) @ 46 # 47 # v" using w by simp
  then have "starts_with [46, 47] (drop (length (47 # u @ w)) (47 # join [47] ss))"
    by (simp add: starts_with_def)
  with assms(1) find_sub_None_iff [of "[46, 47]" "47 # join [47] ss"] show False by blast
qed

lemma split_tail_eq:
  assumes "\<forall>c \<in> set p. \<not> query_or_fragment c" "t = [] \<or> query_or_fragment (hd t)"
  shows "split_tail (p @ t) = (p, t)"
proof (cases t)
  case Nil
  with assms(1) show ?thesis by (simp add: split_tail_def iffD2 [OF position_None_iff])
next
  case (Cons c cs)
  have "position query_or_fragment p = None" using assms(1) by (simp add: position_None_iff)
  then have "position query_or_fragment (p @ t) = Some (length p)"
    using assms(2) Cons by (simp add: position_append)
  then show ?thesis by (simp add: split_tail_def)
qed

definition plain_segments :: "str list \<Rightarrow> bool" where
  "plain_segments ss \<longleftrightarrow>
     ss \<noteq> [] \<and> [] \<notin> set (butlast ss) \<and> (\<forall>s \<in> set ss. 47 \<notin> set s \<and> (\<forall>c \<in> set s. \<not> query_or_fragment c))"

lemma remove_dots_fold:
  assumes ss: "plain_segments ss" and path: "path = 47 # join [47] ss"
  shows "remove_dot_segments path = concat (map ((#) 47) (fold_segments [] ss)) @ (if last ss \<in> dots then [47] else [])"
proof -
  have ne: "ss \<noteq> []" and inner: "[] \<notin> set (butlast ss)" and no47: "\<forall>s \<in> set ss. 47 \<notin> set s"
    using ss by (simp_all add: plain_segments_def)
  show ?thesis
    using dot_loop_segs [OF ne no47, of "[]"] seg_loop_fold [OF ne inner, of "[]"]
    by (simp add: remove_dot_segments_def path)
qed

lemma remove_dots_join:
  assumes ss: "plain_segments ss" and path: "path = 47 # join [47] ss"
  shows "remove_dot_segments path =
    (let s = 47 # join [47] (fold_segments [] ss) in if last ss \<in> dots \<and> \<not> ends_with [47] s then s @ [47] else s)"
proof -
  define os where "os = fold_segments [] ss"
  have ne: "ss \<noteq> []" and no47: "\<forall>s \<in> set ss. 47 \<notin> set s" using ss by (simp_all add: plain_segments_def)
  note rem = remove_dots_fold [OF ss path, folded os_def]
  have set_os: "\<forall>s \<in> set os. s \<notin> dots \<and> 47 \<notin> set s"
    using set_fold_segments [of "[]" ss] no47 by (auto simp: os_def)
  show ?thesis
  proof (cases "os = []")
    case True
    then have "last ss \<in> dots" using fold_nonempty [OF ne, of "[]"] by (auto simp: os_def)
    with True show ?thesis by (simp add: rem os_def [symmetric] ends_with_def)
  next
    case os: False
    obtain p where "47 # join [47] os = p @ 47 # last os" using join_last [OF os] by blast
    moreover have "last os \<noteq> []" "47 \<notin> set (last os)" using set_os os by (auto simp: dots_def)
    ultimately have "\<not> ends_with [47] (47 # join [47] os)"
      using ends_with_last_segment [of "[]" "last os" p] by simp
    then show ?thesis using slash_join [OF os] by (simp add: rem os_def [symmetric] Let_def)
  qed
qed

lemma remove_dots_clean:
  assumes ss: "plain_segments ss" and path: "path = 47 # join [47] ss"
    and clean: "find_sub [46, 47] path = None" "last ss \<noteq> [46]" "last ss \<noteq> [46, 46]"
  shows "remove_dot_segments path = path"
proof -
  have ne: "ss \<noteq> []" and inner: "[] \<notin> set (butlast ss)" using ss by (simp_all add: plain_segments_def)
  have "\<forall>s \<in> set (butlast ss). s \<notin> dots" using no_dot_slash [of ss] inner clean(1) by (auto simp: dots_def path)
  moreover have app: "ss = butlast ss @ [last ss]" using ne by simp
  ultimately have "fold_segments [] ss = fold_segments (butlast ss) [last ss]"
    by (subst app, subst fold_segments_append) (simp add: fold_segments_clean)
  then have "concat (map ((#) 47) (fold_segments [] ss)) @ (if last ss \<in> dots then [47] else [])
      = concat (map ((#) 47) (butlast ss @ [last ss]))"
    using clean(2,3) by (simp add: dots_def)
  then show ?thesis using app slash_join [OF ne] path remove_dots_fold [OF ss path] by simp
qed

lemma plain_segments_ends:
  assumes ss: "plain_segments ss" and path: "path = 47 # join [47] ss"
  shows "ends_with [47] path \<longleftrightarrow> last ss = []" "ends_with [47, 46] path \<longleftrightarrow> last ss = [46]"
    "ends_with [47, 46, 46] path \<longleftrightarrow> last ss = [46, 46]"
proof -
  have ne: "ss \<noteq> []" using ss by (simp add: plain_segments_def)
  then have l47: "47 \<notin> set (last ss)" using ss by (simp add: plain_segments_def)
  obtain pre where pre: "path = pre @ 47 # last ss" using join_last [OF ne] path by blast
  show "ends_with [47] path \<longleftrightarrow> last ss = []" "ends_with [47, 46] path \<longleftrightarrow> last ss = [46]"
    "ends_with [47, 46, 46] path \<longleftrightarrow> last ss = [46, 46]"
    using ends_with_last_segment [OF _ l47, of "[]" pre] ends_with_last_segment [OF _ l47, of "[46]" pre]
      ends_with_last_segment [OF _ l47, of "[46, 46]" pre] by (simp_all add: pre)
qed

lemma normalize_segments:
  assumes ss: "plain_segments ss" and path: "path = 47 # join [47] ss"
    and tl: "t = [] \<or> query_or_fragment (hd t)"
  shows "normalize_dot_segments (path @ t) = remove_dot_segments path @ t"
proof -
  have ne: "ss \<noteq> []" and no47: "\<forall>s \<in> set ss. 47 \<notin> set s" using ss by (simp_all add: plain_segments_def)
  have "set path \<subseteq> {47} \<union> (\<Union>s \<in> set ss. set s)" using set_join [of "[47]" ss] by (auto simp: path)
  then have noq: "\<forall>c \<in> set path. \<not> query_or_fragment c"
    using ss by (fastforce simp: plain_segments_def query_or_fragment_def)
  have sp: "split_tail (path @ t) = (path, t)" by (rule split_tail_eq [OF noq tl])
  note ends = plain_segments_ends [OF ss path]
  show ?thesis
  proof (cases "find_sub [46, 47] path = None \<and> last ss \<noteq> [46] \<and> last ss \<noteq> [46, 46]")
    case True
    then show ?thesis using remove_dots_clean [OF ss path] by (simp add: normalize_dot_segments_def sp ends)
  next
    case False
    have "fold_segments [] (split_on 47 path) = fold_segments [] ss"
      using split_on_join [OF ne no47] by (simp add: path)
    moreover have "starts_with [47] path" by (simp add: path starts_with_def)
    ultimately show ?thesis
      using False remove_dots_join [OF ss path]
      by (auto simp: normalize_dot_segments_def sp ends dots_def Let_def)
  qed
qed

text \<open>
  Section 5.2.2, the target of a reference: of one with a scheme, of one with an authority, and of one with
  neither, from the base's path and query. A base without a path has the path \<open>/\<close> (section 6.2.3).
\<close>

definition merge_paths :: "str \<Rightarrow> str \<Rightarrow> str" where
  "merge_paths base_path p =
     (if base_path = [] then 47 # p else rev (dropWhile (\<lambda>c. c \<noteq> 47) (rev base_path)) @ p)"

definition scheme_char :: "u8 \<Rightarrow> bool" where
  "scheme_char b \<longleftrightarrow> is_ascii_alphanumeric b \<or> b = 43 \<or> b = 45 \<or> b = 46"

definition ref_scheme :: "str \<Rightarrow> str option" where
  "ref_scheme rel =
     (let s = takeWhile scheme_char rel
      in if s \<noteq> [] \<and> is_ascii_alphabetic (hd s) \<and> starts_with [58] (drop (length s) rel) then Some s else None)"

definition without_dots :: "str \<Rightarrow> str" where
  "without_dots r =
     (let a = (if starts_with [47, 47] r then [47, 47] @ takeWhile (\<lambda>c. c \<noteq> 47 \<and> \<not> query_or_fragment c) (drop 2 r) else []);
          (p, t) = split_tail (drop (length a) r)
      in a @ remove_dot_segments p @ t)"

definition rfc3986_target :: "str \<Rightarrow> str \<Rightarrow> str \<Rightarrow> str \<Rightarrow> str \<Rightarrow> str" where
  "rfc3986_target base_scheme base_authority base_path base_tail rel =
     (case ref_scheme rel of
        Some s \<Rightarrow> s @ [58] @ without_dots (drop (length s + 1) rel)
      | None \<Rightarrow>
          if starts_with [47, 47] rel then base_scheme @ [58] @ without_dots rel
          else base_scheme @ bs ''://'' @ base_authority @
            (let (p, t) = split_tail rel
             in if p = [] then (if base_path = [] then [47] else base_path)
                     @ (if starts_with [63] t then t else takeWhile (\<lambda>c. c \<noteq> 35) base_tail @ t)
                else if hd p = 47 then remove_dot_segments p @ t
                else remove_dot_segments (merge_paths base_path p) @ t))"

definition ref_path :: "str \<Rightarrow> str \<Rightarrow> str" where
  "ref_path base_path rel =
     (let p = fst (split_tail rel) in if starts_with [47] p then p else merge_paths base_path p)"

definition plain_path :: "str \<Rightarrow> bool" where
  "plain_path p \<longleftrightarrow> starts_with [47] p \<and> plain_segments (split_on 47 (tl p))"

lemma normalize_plain:
  "plain_path p \<Longrightarrow> t = [] \<or> query_or_fragment (hd t) \<Longrightarrow> normalize_dot_segments (p @ t) = remove_dot_segments p @ t"
  by (rule normalize_segments [of "split_on 47 (tl p)"])
     (auto simp: plain_path_def join_split_on starts_with_iff_prefix prefix_def)

lemma split_tail_snd: "split_tail rel = (p, t) \<Longrightarrow> rel = p @ t \<and> (t = [] \<or> query_or_fragment (hd t))
    \<and> (\<forall>c \<in> set p. \<not> query_or_fragment c)"
  by (auto simp: split_tail_def position_Some_iff position_None_iff hd_drop_conv_nth in_set_conv_nth split: option.splits)

lemma last_slash:
  fixes s d :: str
  assumes "47 \<in> set s"
  shows "(case position (\<lambda>c. c = 47) (rev s) of Some k \<Rightarrow> take (length s - k) s | None \<Rightarrow> d) = rev (dropWhile (\<lambda>c. c \<noteq> 47) (rev s))"
proof -
  define r where "r = rev s"
  have "position (\<lambda>c. c = 47) r = Some (length (takeWhile (\<lambda>c. c \<noteq> 47) r))" if "47 \<in> set r" for r :: str
    using that by (induction r) auto
  then have p: "position (\<lambda>c. c = 47) r = Some (length (takeWhile (\<lambda>c. c \<noteq> 47) r))" using assms by (simp add: r_def)
  have "take (length s - length (takeWhile (\<lambda>c. c \<noteq> 47) r)) s = rev (drop (length (takeWhile (\<lambda>c. c \<noteq> 47) r)) r)"
    by (simp add: r_def rev_drop)
  also have "\<dots> = rev (dropWhile (\<lambda>c. c \<noteq> 47) r)" by (simp add: dropWhile_eq_drop)
  finally show ?thesis using p by (simp add: r_def)
qed

definition http_origin :: "str \<Rightarrow> bool" where
  "http_origin org \<longleftrightarrow> is_http org \<and> (\<exists>sch auth. org = sch @ bs ''://'' @ auth \<and> 58 \<notin> set sch \<and> 47 \<notin> set auth)"

lemma starts_with_ascii_ci_append: "starts_with_ascii_ci s p \<Longrightarrow> starts_with_ascii_ci (s @ t) p"
  by (simp add: starts_with_ascii_ci_def)

lemma find_scheme:
  assumes "58 \<notin> set sch"
  shows "find_sub (bs ''://'') (sch @ bs ''://'' @ r) = Some (length sch)"
proof -
  have "\<not> starts_with (bs ''://'') (drop j (sch @ bs ''://'' @ r))" if "j < length sch" for j
  proof
    assume "starts_with (bs ''://'') (drop j (sch @ bs ''://'' @ r))"
    then have "sch ! j = 58"
      using that by (simp add: starts_with_def bs_def Cons_nth_drop_Suc [symmetric])
    with that assms show False by (metis nth_mem)
  qed
  then show ?thesis by (subst find_sub_Some_iff) (auto simp: bs_def starts_with_def)
qed

lemma resolve_split:
  assumes org: "http_origin org"
    and bp: "bp = [] \<and> bt = [] \<or> starts_with [47] bp" "\<forall>c \<in> set bp. \<not> query_or_fragment c"
    and bt: "bt = [] \<or> query_or_fragment (hd bt)"
  defines "path \<equiv> (if bp = [] then [47] else bp)"
  shows "resolve_against_base rel (org @ bp @ bt) =
    (if starts_with [63] rel \<or> starts_with [35] rel then Some (org @ path @ rel)
     else if starts_with [47] rel then Some (org @ normalize_dot_segments rel)
     else Some (org @ normalize_dot_segments (rev (dropWhile (\<lambda>c. c \<noteq> 47) (rev path)) @ rel)))"
proof -
  obtain sch auth where o: "org = sch @ bs ''://'' @ auth" "58 \<notin> set sch" "47 \<notin> set auth"
    using org by (auto simp: http_origin_def)
  have http: "is_http (org @ bp @ bt)"
    using org by (auto simp: http_origin_def is_http_def intro: starts_with_ascii_ci_append)
  have fs: "find_sub (bs ''://'') (org @ bp @ bt) = Some (length sch)"
    using find_scheme [OF o(2), of "auth @ bp @ bt"] by (simp add: o(1))
  have after: "drop (length sch + 3) (org @ bp @ bt) = auth @ bp @ bt" by (simp add: o(1) bs_def)
  have "position (\<lambda>c. c = 47) auth = None" using o(3) by (auto simp: position_None_iff)
  then have pos: "(case position (\<lambda>c. c = 47) (auth @ bp @ bt) of Some k \<Rightarrow> length sch + 3 + k | None \<Rightarrow> length (org @ bp @ bt)) = length org"
    using bp(1) by (auto simp: position_append o(1) bs_def starts_with_iff_prefix prefix_def)
  have full: "(if length (org @ bp @ bt) \<le> length org then [47] else drop (length org) (org @ bp @ bt)) = path @ bt"
    using bp(1) by (auto simp: path_def starts_with_iff_prefix prefix_def)
  have st: "split_tail (path @ bt) = (path, bt)"
    using bp(2) bt by (intro split_tail_eq) (auto simp: path_def query_or_fragment_def)
  have "47 \<in> set path" using bp(1) by (auto simp: path_def starts_with_iff_prefix prefix_def)
  note dir = last_slash [OF this]
  show ?thesis
    unfolding resolve_against_base_def fs option.case Let_def after pos full st fst_conv dir
    by (simp add: http)
qed



text \<open>Empty segments are dropped once the path has a dot segment, where the RFC keeps them.\<close>

lemma empty_segments_dropped:
  "normalize_dot_segments (bs ''/a//b/../c'') = bs ''/a/c'' \<and> remove_dot_segments (bs ''/a//b/../c'') = bs ''/a//c''"
proof
  show "normalize_dot_segments (bs ''/a//b/../c'') = bs ''/a/c''"
    by (simp add: normalize_dot_segments_def split_tail_def query_or_fragment_def bs_def starts_with_def ends_with_def)
  have "bs ''/a//b/../c'' = 47 # join [47] [bs ''a'', [], bs ''b'', bs ''..'', bs ''c'']" by (simp add: bs_def)
  then show "remove_dot_segments (bs ''/a//b/../c'') = bs ''/a//c''"
    unfolding remove_dot_segments_def by (simp only:) (subst dot_loop_segs; simp add: bs_def)
qed

text \<open>
  What the rewriting of a refresh misses: the equals sign behind white space, as the HTML standard
  allows, and a delay followed by the bare address.
\<close>

lemma meta_refresh_missed:
  "proxied_meta_refresh enc (bs ''0;url =https://t/'') p pre t = None"
  "proxied_meta_refresh enc (bs ''0;https://t/'') p pre t = None"
  "proxied_meta_refresh enc (bs ''0;url&#61;https://t/'') p pre t = None"
  by (simp_all add: proxied_meta_refresh_def to_ascii_lowercase_def byte_simps starts_with_def)

text \<open>Types that run as scripts in a browser but are not taken for scripts.\<close>

lemma legacy_types_missed:
  "\<not> is_javascript_type (bs ''text/x-javascript'')" "\<not> is_javascript_type (bs ''text/jscript'')"
  "\<not> is_javascript_type (bs ''text&#47;javascript'')"
proof -
  have t: "trim (to_ascii_lowercase s) = to_ascii_lowercase s" if "\<forall>b \<in> set (to_ascii_lowercase s). graphic b" for s
    using that by (rule trim_all_graphic)
  show "\<not> is_javascript_type (bs ''text/x-javascript'')" "\<not> is_javascript_type (bs ''text/jscript'')"
    "\<not> is_javascript_type (bs ''text&#47;javascript'')"
    unfolding is_javascript_type_def by (subst t, simp add: byte_simps graphic_def, simp add: byte_simps javascript_types_def)+
qed

text \<open>A telephone link is not inert, so it resolves like a path of the page's site.\<close>

lemma tel_link_resolved:
  "absolute_target_url (bs ''tel:1'') (bs ''https://t/a'') = Some (bs ''https://t/tel:1'')"
proof -
  have "trim (bs ''tel:1'') = bs ''tel:1''" by (rule trim_all_graphic) (simp add: bs_def graphic_def)
  then show ?thesis
    by (simp add: absolute_target_url_def is_inert_scheme_def is_http_def starts_with_ascii_ci_def resolve_against_base_def
        byte_simps starts_with_def split_tail_def query_or_fragment_def normalize_dot_segments_def ends_with_def)
qed

end
