(* ===== verification/Script_Rewrite.thy ===== *)
theory Script_Rewrite
  imports Reserved_Names Html_Urls
begin

text \<open>
  The entry points of the script rewriter (\<^verbatim>\<open>src/crates/zp-rewriter/src/lib.rs\<close>): the kinds of
  scripts, the module routes, and \<^verbatim>\<open>rewrite_script\<close> with its variants, which parse a script, collect the
  visitor's patches, refuse a script that binds a reserved name, apply the patches and strip the pragma.

  The parser is the crate \<^verbatim>\<open>oxc_parser\<close>; the walk of the rewriting visitor over its syntax tree is
  not modelled. Both are fields of a record: what parsing gives, and the patches of a program. The arena that \<^verbatim>\<open>RewriterInstance\<close> keeps between calls holds only the tree
  and is reset at the end of each, so its operations are those of the stateless functions.
\<close>

subsection \<open>Kinds and names\<close>

datatype script_kind = Classic | Module | EventHandler | Eval | FunctionKind | Worker | ClassicLocal

primrec kind_as_str :: "script_kind \<Rightarrow> str" where
  "kind_as_str Classic = bs ''classic''"
| "kind_as_str ClassicLocal = bs ''classic-local''"
| "kind_as_str Module = bs ''module''"
| "kind_as_str EventHandler = bs ''event-handler''"
| "kind_as_str Eval = bs ''eval''"
| "kind_as_str FunctionKind = bs ''function''"
| "kind_as_str Worker = bs ''worker''"

definition kind_from_str :: "str \<Rightarrow> str + script_kind" where
  "kind_from_str s =
     (if s = bs ''classic'' then Inr Classic
      else if s = bs ''classic-local'' then Inr ClassicLocal
      else if s = bs ''module'' then Inr Module
      else if s = bs ''event-handler'' then Inr EventHandler
      else if s = bs ''eval'' then Inr Eval
      else if s = bs ''function'' then Inr FunctionKind
      else if s = bs ''worker'' then Inr Worker
      else Inl s)"

definition DANGEROUS_GLOBALS :: "str list" where
  "DANGEROUS_GLOBALS =
     map bs [''location'', ''window'', ''document'', ''history'', ''top'', ''parent'', ''opener'', ''frames'',
       ''frameElement'', ''self'', ''globalThis'', ''navigation'', ''Function'', ''eval'']"

definition DANGEROUS_MEMBERS :: "str list" where
  "DANGEROUS_MEMBERS =
     map bs [''location'', ''document'', ''window'', ''self'', ''globalThis'', ''contentWindow'', ''contentDocument'',
       ''defaultView'', ''frameElement'', ''parent'', ''top'', ''opener'', ''frames'', ''href'', ''protocol'', ''host'',
       ''hostname'', ''port'', ''pathname'', ''search'', ''hash'', ''origin'', ''navigation'', ''prepareStackTrace'']"

definition DANGEROUS_METHODS :: "str list" where
  "DANGEROUS_METHODS =
     map bs [''assign'', ''replace'', ''open'', ''postMessage'', ''pushState'', ''replaceState'']"

definition is_dangerous_global :: "str \<Rightarrow> bool" where
  "is_dangerous_global name \<longleftrightarrow> name \<in> set DANGEROUS_GLOBALS"

definition is_dangerous_member :: "str \<Rightarrow> bool" where
  "is_dangerous_member name \<longleftrightarrow> name \<in> set DANGEROUS_MEMBERS"

definition is_dangerous_method :: "str \<Rightarrow> bool" where
  "is_dangerous_method name \<longleftrightarrow> name \<in> set DANGEROUS_METHODS"

subsection \<open>Module specifiers\<close>

definition printable :: "u8 \<Rightarrow> bool" where
  "printable b \<longleftrightarrow> 0x21 \<le> b \<and> b \<le> 0x7e"

definition authority_end :: "u8 \<Rightarrow> bool" where
  "authority_end c \<longleftrightarrow> c = 47 \<or> c = 63 \<or> c = 35"

definition resolve_module_base :: "str \<Rightarrow> str \<Rightarrow> str option" where
  "resolve_module_base raw_url base =
     (let r = trim raw_url
      in if starts_with (bs ''http://'') r \<or> starts_with (bs ''https://'') r
         then (if list_ex (\<lambda>b. \<not> printable b) r then None else Some r)
         else case find_sub (bs ''://'') base of
                None \<Rightarrow> None
              | Some scheme_end \<Rightarrow>
                  let sch = take scheme_end base
                  in if sch \<noteq> bs ''http'' \<and> sch \<noteq> bs ''https'' then None
                     else let rest = drop (scheme_end + 3) base;
                              auth_end = (case position authority_end rest of Some i \<Rightarrow> i | None \<Rightarrow> length rest);
                              authority = take auth_end rest
                          in if authority = [] then None
                             else let base_path_with_q = drop auth_end rest;
                                      path_end = (case position query_or_fragment base_path_with_q of
                                                    Some i \<Rightarrow> i | None \<Rightarrow> length base_path_with_q);
                                      base_path = (if path_end = 0 then [47] else take path_end base_path_with_q);
                                      site = sch @ bs ''://'' @ authority
                                  in if starts_with [47] r then Some (site @ [47] @ tl r)
                                     else let dir_end = (case position (\<lambda>c. c = 47) (rev base_path) of
                                                           Some k \<Rightarrow> length base_path - k | None \<Rightarrow> 0);
                                              combined = take dir_end base_path @ r;
                                              trailing_slash = ends_with [47] combined;
                                              out = [47] @ join [47] (fold_segments [] (split_on 47 combined));
                                              out = (if trailing_slash \<and> \<not> ends_with [47] out then out @ [47] else out)
                                          in Some (site @ out))"

definition js_quote_body :: "str \<Rightarrow> str" where
  "js_quote_body s =
     concat (map (\<lambda>c. if c = 34 then [92, 34] else [c]) (concat (map (\<lambda>c. if c = 92 then [92, 92] else [c]) s)))"

definition module_route_url :: "((u8 \<Rightarrow> bool) \<Rightarrow> str \<Rightarrow> str) \<Rightarrow> str \<Rightarrow> str \<Rightarrow> str" where
  "module_route_url enc target proxy_origin =
     trim_end_slashes proxy_origin @ bs ''/zp/api/script?u='' @ enc QUERY_ENC target @ bs ''&kind=module''"

definition proxied_module_url :: "((u8 \<Rightarrow> bool) \<Rightarrow> str \<Rightarrow> str) \<Rightarrow> str \<Rightarrow> str \<Rightarrow> str \<Rightarrow> str option" where
  "proxied_module_url enc raw_url target_url proxy_origin =
     (if target_url = [] then None
      else map_option (\<lambda>target. module_route_url enc target proxy_origin) (resolve_module_base raw_url target_url))"

definition NON_ALPHANUMERIC :: "u8 \<Rightarrow> bool" where
  "NON_ALPHANUMERIC b \<longleftrightarrow> \<not> is_ascii_alphanumeric b"

text \<open>The patch for a specifier at a span of the source, if it gets one.\<close>

definition rewrite_module_specifier ::
    "((u8 \<Rightarrow> bool) \<Rightarrow> str \<Rightarrow> str) \<Rightarrow> str \<Rightarrow> str \<Rightarrow> nat \<Rightarrow> nat \<Rightarrow> str \<Rightarrow> patch option" where
  "rewrite_module_specifier enc target_url proxy_origin a b raw_url =
     (let lower = to_ascii_lowercase (trim_start raw_url);
          quoted = (\<lambda>t. \<lparr>patch_start = a, patch_end = b, replacement = [39] @ t @ [39]\<rparr>)
      in if starts_with (bs ''data:'') lower then Some (quoted (module_route_url enc (trim_start raw_url) proxy_origin))
         else if starts_with (bs ''blob:'') lower then Some (quoted (bs ''zp-import:'' @ enc NON_ALPHANUMERIC (trim_start raw_url)))
         else if starts_with (bs ''javascript:'') lower \<or> starts_with (bs ''about:'') lower
                 \<or> (\<not> starts_with (bs ''./'') raw_url \<and> \<not> starts_with (bs ''../'') raw_url \<and> \<not> starts_with [47] raw_url
                    \<and> \<not> starts_with (bs ''http://'') lower \<and> \<not> starts_with (bs ''https://'') lower)
              then None
              else map_option quoted (proxied_module_url enc raw_url target_url proxy_origin))"

subsection \<open>Rewriting a script\<close>

datatype rewrite_error = Rewrite_ParseFailed str | RewriteFailed str | UnsupportedSyntax str

primrec rewrite_error_text :: "rewrite_error \<Rightarrow> str" where
  "rewrite_error_text (Rewrite_ParseFailed m) = bs ''parse failed: '' @ m"
| "rewrite_error_text (RewriteFailed m) = bs ''rewrite failed: '' @ m"
| "rewrite_error_text (UnsupportedSyntax m) = bs ''unsupported syntax: '' @ m"

record rewrite_opts =
  opt_kind :: script_kind
  opt_target_url :: str
  opt_proxy_origin :: str

record rewrite_result =
  result_code :: str
  patches :: "patch list"
  result_diags :: "str list"

record parsed =
  parse_errors :: "str list"
  has_module_syntax :: bool
  program :: ast

record analysis =
  parse_source :: "bool \<Rightarrow> str \<Rightarrow> parsed"
  visit_program :: "str \<Rightarrow> str \<Rightarrow> script_kind \<Rightarrow> bool \<Rightarrow> ast \<Rightarrow> patch list \<times> str list"

definition parse_for_kind :: "analysis \<Rightarrow> str \<Rightarrow> script_kind \<Rightarrow> parsed \<times> script_kind" where
  "parse_for_kind an source requested =
     (let req = (if requested = ClassicLocal then Classic else requested);
          ret = parse_source an (req = Module) source
      in if req = Classic \<and> has_module_syntax ret then (parse_source an True source, Module) else (ret, req))"

definition refuse_reserved_names ::
    "ast \<Rightarrow> nat \<Rightarrow> patch list \<times> str list \<Rightarrow> patch list \<times> str list" where
  "refuse_reserved_names prog slen pd =
     (case reserved_name_violation prog of
        Some name \<Rightarrow> ([reserved_name_patch slen name], snd pd @ [bs ''reserved identifier refused: '' @ name])
      | None \<Rightarrow> pd)"

definition rewrite_script_patches :: "analysis \<Rightarrow> str \<Rightarrow> rewrite_opts \<Rightarrow> rewrite_error + rewrite_result" where
  "rewrite_script_patches an source opts =
     (let (ret, knd) = parse_for_kind an source (opt_kind opts)
      in if parse_errors ret \<noteq> [] then Inl (Rewrite_ParseFailed (join (bs ''; '') (parse_errors ret)))
         else let (ps, ds) = refuse_reserved_names (program ret) (length source)
                               (visit_program an (opt_target_url opts) (opt_proxy_origin opts) knd
                                  (opt_kind opts = ClassicLocal) (program ret))
              in Inr \<lparr>result_code = [], patches = sort_key patch_start ps, result_diags = ds\<rparr>)"

definition rewrite_script ::
    "analysis \<Rightarrow> (str \<Rightarrow> bool) \<Rightarrow> str \<Rightarrow> rewrite_opts \<Rightarrow> (rewrite_error + rewrite_result) outcome" where
  "rewrite_script an pr source opts =
     (let (ret, knd) = parse_for_kind an source (opt_kind opts)
      in if parse_errors ret \<noteq> [] then Return (Inl (Rewrite_ParseFailed (join (bs ''; '') (parse_errors ret))))
         else let (ps, ds) = refuse_reserved_names (program ret) (length source)
                               (visit_program an (opt_target_url opts) (opt_proxy_origin opts) knd
                                  (opt_kind opts = ClassicLocal) (program ret));
                  ps = sort_key patch_start ps
              in and_then (apply_patches pr source ps) (\<lambda>patched.
                   Return (Inr \<lparr>result_code = strip_sourcemap_pragma patched, patches = ps, result_diags = ds\<rparr>)))"

definition source_map_of_script ::
    "analysis \<Rightarrow> (str \<Rightarrow> bool) \<Rightarrow> str \<Rightarrow> rewrite_opts \<Rightarrow> str \<Rightarrow> (rewrite_error + str) outcome" where
  "source_map_of_script an pr source opts source_url =
     (case rewrite_script_patches an source opts of
        Inl e \<Rightarrow> Return (Inl e)
      | Inr r \<Rightarrow> and_then (compose_source_map pr source (patches r) source_url) (\<lambda>m. Return (Inr m)))"

definition compose_source_map_chained ::
    "analysis \<Rightarrow> (str \<Rightarrow> bool) \<Rightarrow> (str \<Rightarrow> str \<Rightarrow> str \<Rightarrow> str) \<Rightarrow> str \<Rightarrow> rewrite_opts \<Rightarrow> str \<Rightarrow> str
      \<Rightarrow> (rewrite_error + str) outcome" where
  "compose_source_map_chained an pr chain source opts source_url original_map_json =
     and_then (source_map_of_script an pr source opts source_url) (\<lambda>r.
       Return (map_sum id (\<lambda>m. if original_map_json = [] then m else chain m original_map_json source_url) r))"

subsection \<open>Names\<close>

lemma kind_roundtrip: "kind_from_str (kind_as_str k) = Inr k"
  by (cases k) (simp_all add: kind_from_str_def bs_def)

lemma kind_from_str_Inr: "kind_from_str s = Inr k \<longleftrightarrow> s = kind_as_str k"
  using kind_roundtrip [of k] by (auto simp: kind_from_str_def split: if_splits)

subsection \<open>What a rewrite returns\<close>

text \<open>The text of a refused script; a name of the syntax tree is an identifier.\<close>

definition refusal :: "str \<Rightarrow> str" where
  "refusal name = replacement (reserved_name_patch 0 name)"

definition ident_name :: "str \<Rightarrow> bool" where
  "ident_name name \<longleftrightarrow> utf8_valid name \<and> 61 \<notin> set name \<and> 1 \<notin> set name"

lemma no_pragma: "61 \<notin> set s \<Longrightarrow> rfind_sub pragma_needle s = None"
proof (induction s)
  case (Cons b s)
  have "61 \<in> set pragma_needle" by (simp add: pragma_needle_def bs_def)
  then have "\<not> starts_with pragma_needle (b # s)"
    using Cons.prems unfolding starts_with_iff_prefix prefix_def by (metis UnI1 set_append)
  with Cons show ?case by simp
qed simp

lemma strip_no_pragma: "61 \<notin> set s \<Longrightarrow> strip_sourcemap_pragma s = s"
proof -
  assume "61 \<notin> set s"
  then have "61 \<notin> set (drop (snap_back s (length s - 4096)) s)" by (meson in_set_dropD)
  from no_pragma [OF this] show ?thesis by (simp add: strip_sourcemap_pragma_def Let_def)
qed

lemma set_strip: "set (strip_sourcemap_pragma s) \<subseteq> set s"
  using pragma_stripped [of s] by (metis order_refl set_append Un_upper1)

lemma refusal_applied:
  assumes "ident_name name"
  shows "apply_patches pr source [reserved_name_patch (length source) name] = Return (refusal name)
    \<and> strip_sourcemap_pragma (refusal name) = refusal name \<and> 1 \<notin> set (refusal name)"
proof -
  let ?p = "reserved_name_patch (length source) name"
  have no: "61 \<notin> set (refusal name)" "1 \<notin> set (refusal name)"
    using assms by (auto simp: ident_name_def refusal_def reserved_name_patch_def bs_def)
  have ends: "utf8_valid (bs ''throw new SyntaxError('' @ [34] @ bs ''Unexpected identifier '' @ [39])" "utf8_valid ([39, 34] @ bs '');'')"
    by (rule utf8_valid_ascii; simp add: bs_def)+
  have "utf8_valid name" using assms by (simp add: ident_name_def)
  from utf8_valid_append [OF ends(1) utf8_valid_append [OF this ends(2)]] have "utf8_valid ((bs ''throw new SyntaxError('' @ [34] @ bs ''Unexpected identifier '' @ [39]) @ name @ [39, 34] @ bs '');'')"
    by simp
  then have b: "patches_at_boundaries source [?p]"
    by (simp add: patches_at_boundaries_def reserved_name_patch_def is_char_boundary_def)
  have m: "list_all (\<lambda>p. \<not> is_marker p) [?p]" "disjoint_from 0 [?p]"
    by (simp_all add: is_marker_def reserved_name_patch_def bs_def starts_with_def)
  have "apply_patches pr source [?p] = Return (weave source 0 [?p] (map replacement [?p]))"
    by (rule apply_plain [OF m(2) b m(1)])
  then show ?thesis using no strip_no_pragma by (simp add: refusal_def reserved_name_patch_def)
qed


text \<open>
  With patches in the visitor's formats, a script that is not refused is rewritten without a panic, and no
  marker byte is left in it.
\<close>

lemma rewrite_script_rendered:
  assumes "parse_for_kind an source (opt_kind opts) = (ret, knd)" "parse_errors ret = []"
    and "visit_program an (opt_target_url opts) (opt_proxy_origin opts) knd (opt_kind opts = ClassicLocal) (program ret) = (ps, ds)"
    and "reserved_name_violation (program ret) = None"
    and "patches_ok source (sort_key patch_start ps)" "1 \<notin> set source" "length source < 2 ^ 32"
  shows "\<exists>r. rewrite_script an pr source opts = Return (Inr r) \<and> 1 \<notin> set (result_code r)"
proof -
  obtain out where "apply_patches pr source (sort_key patch_start ps) = Return out" "1 \<notin> set out"
    using apply_patches_yields [OF assms(5-)] by (auto simp: yields_def)
  with assms(2-4) set_strip [of out] show ?thesis
    by (auto simp: rewrite_script_def assms(1) refuse_reserved_names_def Let_def)
qed

definition sample_analysis :: analysis where
  "sample_analysis =
     \<lparr>parse_source = (\<lambda>_ s. \<lparr>parse_errors = [], has_module_syntax = False, program = Other []\<rparr>),
      visit_program = (\<lambda>_ _ _ _ _. ([sample_get, sample_member], []))\<rparr>"

text \<open>A parser that knows three scripts: one with an error, one that assigns a helper, and one that does neither.\<close>

definition sample_tree :: "str \<Rightarrow> ast" where
  "sample_tree s = (if s = bs ''[__zp_get]=[f]'' then Other [Other [TargetIdentifier (bs ''__zp_get'')], Other []] else Other [])"

definition three_scripts :: analysis where
  "three_scripts =
     \<lparr>parse_source = (\<lambda>_ s. \<lparr>parse_errors = (if s = bs ''('' then [bs ''unexpected end''] else []), has_module_syntax = False,
        program = sample_tree s\<rparr>),
      visit_program = (\<lambda>_ _ _ _ _. ([], []))\<rparr>"

lemma no_names: "\<not> bound_or_written (Other []) n"
  by (simp add: bound_or_written_node [of "Other []"] own_names_def)

lemma no_violation [simp]: "reserved_name_violation (Other []) = None"
  using reserved_name_violation_correct [of "Other []"] by (auto simp: no_names split: option.splits)

lemma one_name: "bound_or_written (Other [Other [TargetIdentifier m], Other []]) n \<longleftrightarrow> n = m"
proof -
  have h: "\<not> helper_prefix (Other cs)" "\<not> helper_prefix (TargetIdentifier m)" for cs
    by (auto dest: not_helper_prefix)
  show ?thesis
    by (simp add: bound_or_written_node [of "Other _"] bound_or_written_node [of "TargetIdentifier m"] own_names_def h)
qed


subsection \<open>Module addresses\<close>

text \<open>
  The address a script's import is routed to, and the one the HTML transformer gives a module script or an
  import map entry; the module map of a browser is keyed by them.
\<close>

lemma find_scheme_site:
  assumes "58 \<notin> set sch"
  shows "take (length sch) (sch @ bs ''://'' @ r) = sch" "drop (length sch + 3) (sch @ bs ''://'' @ r) = r"
  by (simp_all add: bs_def)

lemma relative_no_scheme:
  assumes "starts_with (bs ''./'') r \<or> starts_with (bs ''../'') r"
  shows "\<not> starts_with (bs ''http://'') r" "\<not> starts_with (bs ''https://'') r" "\<not> starts_with [47] r"
    "\<not> starts_with [35] r" "\<not> starts_with [47, 47] r" "\<not> is_inert_scheme r" "\<not> is_http r" "\<not> starts_with [63] r" "r \<noteq> []"
  using assms
  by (auto simp: starts_with_iff_prefix prefix_def is_inert_scheme_def is_http_def starts_with_ascii_ci_def byte_simps)

lemma resolve_module_relative:
  assumes sch: "sch = bs ''http'' \<or> sch = bs ''https''" and auth: "auth \<noteq> []" "\<forall>c \<in> set auth. \<not> authority_end c"
    and bp: "starts_with [47] bp" "\<forall>c \<in> set bp. \<not> query_or_fragment c" and bt: "bt = [] \<or> query_or_fragment (hd bt)"
    and r: "trim raw_url = r" "starts_with (bs ''./'') r \<or> starts_with (bs ''../'') r"
    and ss: "merge_paths bp r = 47 # join [47] ss" "plain_segments ss" "last ss \<noteq> [46]" "last ss \<noteq> [46, 46]"
  shows "resolve_module_base raw_url (sch @ bs ''://'' @ auth @ bp @ bt)
    = Some (sch @ bs ''://'' @ auth @ remove_dot_segments (merge_paths bp r))"
proof -
  have s58: "58 \<notin> set sch" using sch by (auto simp: bs_def)
  note sw = relative_no_scheme [OF r(2)]
  have pa: "position authority_end (auth @ bp @ bt) = Some (length auth)"
    using auth(2) bp(1) by (auto simp: position_append position_None_iff authority_end_def starts_with_iff_prefix prefix_def
        iffD2 [OF position_None_iff])
  have ne: "bp \<noteq> []" "47 \<in> set bp" using bp(1) by (auto simp: starts_with_iff_prefix prefix_def)
  have st: "split_tail (bp @ bt) = (bp, bt)" by (rule split_tail_eq [OF bp(2) bt])
  have path: "take (case position query_or_fragment (bp @ bt) of Some i \<Rightarrow> i | None \<Rightarrow> length (bp @ bt)) (bp @ bt) = bp"
    using st by (auto simp: split_tail_def split: option.splits)
  have path_end: "(case position query_or_fragment (bp @ bt) of Some i \<Rightarrow> i | None \<Rightarrow> length (bp @ bt)) \<noteq> 0"
    using path ne(1) by (metis take0 )
  have dir: "take (case position (\<lambda>c. c = 47) (rev bp) of Some k \<Rightarrow> length bp - k | None \<Rightarrow> 0) bp
      = rev (dropWhile (\<lambda>c. c \<noteq> 47) (rev bp))"
    using last_slash [OF ne(2), of "[]"] by (auto split: option.splits)
  have comb: "rev (dropWhile (\<lambda>c. c \<noteq> 47) (rev bp)) @ r = 47 # join [47] ss" using ss(1) ne(1) by (simp add: merge_paths_def)
  have no47: "ss \<noteq> []" "\<forall>s \<in> set ss. 47 \<notin> set s" using ss(2) by (simp_all add: plain_segments_def)
  have fold: "fold_segments [] (split_on 47 (47 # join [47] ss)) = fold_segments [] ss"
    using split_on_join [OF no47] by simp
  have tr: "ends_with [47] (47 # join [47] ss) \<longleftrightarrow> last ss \<in> dots"
    using plain_segments_ends(1) [OF ss(2) refl] ss(3,4) by (simp add: dots_def)
  have at: "take (length auth) (auth @ bp @ bt) = auth" "drop (length auth) (auth @ bp @ bt) = bp @ bt" by simp_all
  show ?thesis
    unfolding resolve_module_base_def r(1) Let_def find_scheme [OF s58] option.case find_scheme_site [OF s58] pa at path
      if_not_P [OF path_end] dir comb fold tr
    using sch auth(1) sw unfolding ss(1) remove_dots_join [OF ss(2) refl] Let_def by simp
qed

lemma starts_with_ascii_ci_self: "starts_with_ascii_ci (p @ t) p"
  by (simp add: starts_with_ascii_ci_def eq_ignore_ascii_case_def)

lemma http_origin_site:
  assumes "sch = bs ''http'' \<or> sch = bs ''https''" "\<forall>c \<in> set auth. \<not> authority_end c"
  shows "http_origin (sch @ bs ''://'' @ auth)"
proof -
  have "sch @ bs ''://'' @ auth = bs ''http://'' @ auth \<or> sch @ bs ''://'' @ auth = bs ''https://'' @ auth"
    using assms(1) by (elim disjE) (simp_all add: bs_def)
  then have "is_http (sch @ bs ''://'' @ auth)"
    unfolding is_http_def by (metis starts_with_ascii_ci_self)
  moreover have "58 \<notin> set sch" using assms(1) by (elim disjE) (simp_all add: bs_def)
  moreover have "47 \<notin> set auth" using assms(2) by (auto simp: authority_end_def)
  ultimately show ?thesis unfolding http_origin_def by blast
qed



text \<open>
  Where they do not agree: the script rewriter folds the slashes of a query and drops the slash of a trailing dot
  segment, and takes a host-absolute path and an address without a scheme as they are.
\<close>

lemma module_addresses_differ:
  "resolve_module_base (bs ''./m.js?u=a//b'') (bs ''https://a/b'') = Some (bs ''https://a/m.js?u=a/b'')"
  "absolute_target_url (bs ''./m.js?u=a//b'') (bs ''https://a/b'') = Some (bs ''https://a/m.js?u=a//b'')"
  "resolve_module_base (bs ''./x/..'') (bs ''https://a/c/b'') = Some (bs ''https://a/c'')"
  "absolute_target_url (bs ''./x/..'') (bs ''https://a/c/b'') = Some (bs ''https://a/c/'')"
  "resolve_module_base (bs ''/x/../m.js'') (bs ''https://a/b'') = Some (bs ''https://a/x/../m.js'')"
  "absolute_target_url (bs ''/x/../m.js'') (bs ''https://a/b'') = Some (bs ''https://a/m.js'')"
  "resolve_module_base (bs ''//cdn/m.js'') (bs ''https://a/b'') = Some (bs ''https://a//cdn/m.js'')"
  "absolute_target_url (bs ''//cdn/m.js'') (bs ''https://a/b'') = Some (bs ''https://cdn/m.js'')"
proof -
  have t: "trim (bs ''/x/../m.js'') = bs ''/x/../m.js''" "trim (bs ''//cdn/m.js'') = bs ''//cdn/m.js''"
      "trim (bs ''./m.js?u=a//b'') = bs ''./m.js?u=a//b''" "trim (bs ''./x/..'') = bs ''./x/..''"
    by (rule trim_all_graphic; simp add: bs_def graphic_def)+
  show "resolve_module_base (bs ''./m.js?u=a//b'') (bs ''https://a/b'') = Some (bs ''https://a/m.js?u=a/b'')"
    "resolve_module_base (bs ''./x/..'') (bs ''https://a/c/b'') = Some (bs ''https://a/c'')"
    unfolding resolve_module_base_def t
    by (simp_all add: bs_def starts_with_def ends_with_def authority_end_def query_or_fragment_def)
  show "absolute_target_url (bs ''./m.js?u=a//b'') (bs ''https://a/b'') = Some (bs ''https://a/m.js?u=a//b'')"
    "absolute_target_url (bs ''./x/..'') (bs ''https://a/c/b'') = Some (bs ''https://a/c/'')"
    unfolding absolute_target_url_def t
    by (simp_all add: is_inert_scheme_def is_http_def starts_with_ascii_ci_def resolve_against_base_def
        byte_simps starts_with_def split_tail_def query_or_fragment_def normalize_dot_segments_def ends_with_def)
  show "resolve_module_base (bs ''/x/../m.js'') (bs ''https://a/b'') = Some (bs ''https://a/x/../m.js'')"
    "resolve_module_base (bs ''//cdn/m.js'') (bs ''https://a/b'') = Some (bs ''https://a//cdn/m.js'')"
    unfolding resolve_module_base_def t by (simp_all add: bs_def starts_with_def authority_end_def query_or_fragment_def)
  show "absolute_target_url (bs ''/x/../m.js'') (bs ''https://a/b'') = Some (bs ''https://a/m.js'')"
    "absolute_target_url (bs ''//cdn/m.js'') (bs ''https://a/b'') = Some (bs ''https://cdn/m.js'')"
    unfolding absolute_target_url_def t
    by (simp_all add: is_inert_scheme_def is_http_def starts_with_ascii_ci_def resolve_against_base_def
        byte_simps starts_with_def split_tail_def query_or_fragment_def normalize_dot_segments_def ends_with_def)
qed

end
