(* ===== verification/Css.thy ===== *)
theory Css
  imports Shared_Urls Patches "HOL-Library.Multiset"
begin

text \<open>
  The stylesheet rewriter (\<^verbatim>\<open>src/crates/zp-css/src/lib.rs\<close>): it parses a stylesheet, a
  declaration list or a list of component values, collects the references in it (\<^verbatim>\<open>url(...)\<close>,
  \<^verbatim>\<open>@import\<close>, the strings of \<^verbatim>\<open>image-set\<close>), and replaces each by a quoted
  proxy URL.

  The parser is the crate \<^verbatim>\<open>swc_css_parser\<close>: a record of its three entry points, each giving a
  tree of the nodes the visitor acts on, the others being \<open>Other_Node\<close>s with their children. URL joining is
  the crate \<^verbatim>\<open>url\<close>: a record of the four operations used. A slice that cuts a character
  panics.
\<close>

subsection \<open>The crates\<close>

type_synonym css_span = "nat \<times> nat"

datatype url_value = Url_Str css_span str | Url_Raw css_span str

datatype css_node =
    Str_Node css_span str
  | Url_Node "url_value option"
  | Import_Str css_span str
  | Import_Url "url_value option"
  | Function_Node str "css_node list"
  | Other_Node "css_node list"

record css_parser =
  file_start :: nat
  parse_stylesheet :: "str \<Rightarrow> css_node option"
  parse_declarations :: "str \<Rightarrow> css_node list option"
  parse_values :: "str \<Rightarrow> css_node option"

record 'u url_crate =
  url_parse :: "str \<Rightarrow> 'u option"
  url_join :: "'u \<Rightarrow> str \<Rightarrow> 'u option"
  url_scheme :: "'u \<Rightarrow> str"
  url_text :: "'u \<Rightarrow> str"

subsection \<open>Rewriting one reference\<close>

datatype css_error = ParseFailed

record css_replacement =
  css_start :: nat
  css_end :: nat
  css_text :: str

record css_url_collector =
  css_base_url :: str
  css_prefix :: str
  css_origin :: str
  start_pos :: nat
  source_len :: nat
  replacements :: "css_replacement list"

definition proxied_css_url ::
    "((u8 \<Rightarrow> bool) \<Rightarrow> str \<Rightarrow> str) \<Rightarrow> 'u url_crate \<Rightarrow> str \<Rightarrow> str \<Rightarrow> str \<Rightarrow> str \<Rightarrow> str option" where
  "proxied_css_url enc U raw_url base_url control_prefix proxy_origin =
     (let s = trim raw_url
      in if s = [] \<or> starts_with [35] s \<or> starts_with (bs ''var('') s then None
         else let n = min (length s) 32;
                  lower = to_ascii_lowercase (if is_char_boundary s n then take n s else [])
              in if starts_with (bs ''data:'') lower \<or> starts_with (bs ''blob:'') lower
                    \<or> starts_with (bs ''about:'') lower \<or> starts_with (bs ''javascript:'') lower
                    \<or> starts_with (bs ''vbscript:'') lower
                 then None
                 else case url_parse U base_url of
                        None \<Rightarrow> None
                      | Some base \<Rightarrow>
                          (case url_join U base s of
                             None \<Rightarrow> None
                           | Some u \<Rightarrow>
                               if url_scheme U u \<noteq> bs ''http'' \<and> url_scheme U u \<noteq> bs ''https'' then None
                               else Some (subresource_proxy_url enc (url_text U u) proxy_origin control_prefix None)))"

text \<open>A quote or a backslash is one byte, so escaping character by character is escaping byte by byte.\<close>

definition css_escape_string :: "str \<Rightarrow> u8 \<Rightarrow> str" where
  "css_escape_string s quote = concat (map (\<lambda>ch. if ch = quote \<or> ch = 92 then [92, ch] else [ch]) s)"

definition css_quoted :: "str \<Rightarrow> str" where
  "css_quoted s = [34] @ css_escape_string s 34 @ [34]"

subsection \<open>Collecting\<close>

definition collector_new :: "str \<Rightarrow> str \<Rightarrow> str \<Rightarrow> nat \<Rightarrow> nat \<Rightarrow> css_url_collector" where
  "collector_new base_url control_prefix proxy_origin spos slen =
     \<lparr>css_base_url = base_url, css_prefix = control_prefix, css_origin = proxy_origin,
      start_pos = spos, source_len = slen, replacements = []\<rparr>"

definition span_offsets :: "css_url_collector \<Rightarrow> css_span \<Rightarrow> (nat \<times> nat) option" where
  "span_offsets c span =
     (if fst span < start_pos c then None
      else if snd span < start_pos c then None
      else let a = fst span - start_pos c; b = snd span - start_pos c
           in if a < b \<and> b \<le> source_len c then Some (a, b) else None)"

definition add_quoted_replacement ::
    "((u8 \<Rightarrow> bool) \<Rightarrow> str \<Rightarrow> str) \<Rightarrow> 'u url_crate \<Rightarrow> css_span \<Rightarrow> str \<Rightarrow> css_url_collector \<Rightarrow> css_url_collector" where
  "add_quoted_replacement enc U span raw_url c =
     (case proxied_css_url enc U raw_url (css_base_url c) (css_prefix c) (css_origin c) of
        None \<Rightarrow> c
      | Some nxt \<Rightarrow>
          (case span_offsets c span of
             None \<Rightarrow> c
           | Some (a, b) \<Rightarrow>
               c\<lparr>replacements := replacements c @ [\<lparr>css_start = a, css_end = b, css_text = css_quoted nxt\<rparr>]\<rparr>))"

definition visit_url ::
    "((u8 \<Rightarrow> bool) \<Rightarrow> str \<Rightarrow> str) \<Rightarrow> 'u url_crate \<Rightarrow> url_value option \<Rightarrow> css_url_collector \<Rightarrow> css_url_collector" where
  "visit_url enc U value c =
     (case value of
        None \<Rightarrow> c
      | Some (Url_Str span s) \<Rightarrow> add_quoted_replacement enc U span s c
      | Some (Url_Raw span s) \<Rightarrow> add_quoted_replacement enc U span s c)"

fun add_image_strings ::
    "((u8 \<Rightarrow> bool) \<Rightarrow> str \<Rightarrow> str) \<Rightarrow> 'u url_crate \<Rightarrow> css_node list \<Rightarrow> css_url_collector \<Rightarrow> css_url_collector" where
  "add_image_strings enc U [] c = c"
| "add_image_strings enc U (v # vs) c =
     add_image_strings enc U vs (case v of Str_Node span s \<Rightarrow> add_quoted_replacement enc U span s c | _ \<Rightarrow> c)"

definition is_image_set :: "str \<Rightarrow> bool" where
  "is_image_set name =
     (to_ascii_lowercase name = bs ''image-set'' \<or> to_ascii_lowercase name = bs ''-webkit-image-set'')"

fun visit_node ::
    "((u8 \<Rightarrow> bool) \<Rightarrow> str \<Rightarrow> str) \<Rightarrow> 'u url_crate \<Rightarrow> css_node \<Rightarrow> css_url_collector \<Rightarrow> css_url_collector"
  and visit_nodes ::
    "((u8 \<Rightarrow> bool) \<Rightarrow> str \<Rightarrow> str) \<Rightarrow> 'u url_crate \<Rightarrow> css_node list \<Rightarrow> css_url_collector \<Rightarrow> css_url_collector" where
  "visit_node enc U (Str_Node span s) c = c"
| "visit_node enc U (Url_Node v) c = visit_url enc U v c"
| "visit_node enc U (Import_Str span s) c = add_quoted_replacement enc U span s c"
| "visit_node enc U (Import_Url v) c = visit_url enc U v c"
| "visit_node enc U (Function_Node name vs) c =
     visit_nodes enc U vs (if is_image_set name then add_image_strings enc U vs c else c)"
| "visit_node enc U (Other_Node ns) c = visit_nodes enc U ns c"
| "visit_nodes enc U [] c = c"
| "visit_nodes enc U (n # ns) c = visit_nodes enc U ns (visit_node enc U n c)"

definition collect_css_replacements ::
    "((u8 \<Rightarrow> bool) \<Rightarrow> str \<Rightarrow> str) \<Rightarrow> 'u url_crate \<Rightarrow> css_parser \<Rightarrow> str \<Rightarrow> str \<Rightarrow> str \<Rightarrow> str
      \<Rightarrow> css_error + css_replacement list" where
  "collect_css_replacements enc U P source base_url control_prefix proxy_origin =
     (let c0 = collector_new base_url control_prefix proxy_origin (file_start P) (length source);
          first = map_option (\<lambda>sheet. replacements (visit_node enc U sheet c0)) (parse_stylesheet P source);
          second = map_option (\<lambda>ds. replacements (visit_nodes enc U ds c0)) (parse_declarations P source);
          third = map_option (\<lambda>vs. replacements (visit_node enc U vs c0)) (parse_values P source)
      in case first of
           Some rs \<Rightarrow>
             if rs \<noteq> [] \<or> 123 \<in> set source \<or> find_sub (bs ''@import'') source \<noteq> None then Inr rs
             else (case second of
                     Some rs \<Rightarrow> if rs \<noteq> [] then Inr rs else (case third of Some rs \<Rightarrow> Inr rs | None \<Rightarrow> Inl ParseFailed)
                   | None \<Rightarrow> (case third of Some rs \<Rightarrow> Inr rs | None \<Rightarrow> Inl ParseFailed))
         | None \<Rightarrow>
             (case second of
                Some rs \<Rightarrow> if rs \<noteq> [] then Inr rs else (case third of Some rs \<Rightarrow> Inr rs | None \<Rightarrow> Inl ParseFailed)
              | None \<Rightarrow> (case third of Some rs \<Rightarrow> Inr rs | None \<Rightarrow> Inl ParseFailed)))"

subsection \<open>Applying\<close>

definition sort_css :: "css_replacement list \<Rightarrow> css_replacement list" where
  "sort_css rs = sort_key (\<lambda>r. (css_start r, - int (css_end r))) rs"

fun emit_css :: "str \<Rightarrow> nat \<Rightarrow> css_replacement list \<Rightarrow> str outcome" where
  "emit_css source pos [] = str_slice source pos (length source)"
| "emit_css source pos (r # rs) =
     (if css_start r < pos \<or> css_end r < css_start r \<or> length source < css_end r then emit_css source pos rs
      else and_then (str_slice source pos (css_start r))
             (\<lambda>keep. and_then (emit_css source (css_end r) rs) (\<lambda>rest. Return (keep @ css_text r @ rest))))"

definition apply_css_replacements :: "str \<Rightarrow> css_replacement list \<Rightarrow> str outcome" where
  "apply_css_replacements source rs = emit_css source 0 (sort_css rs)"

definition rewrite_css ::
    "((u8 \<Rightarrow> bool) \<Rightarrow> str \<Rightarrow> str) \<Rightarrow> 'u url_crate \<Rightarrow> css_parser \<Rightarrow> str \<Rightarrow> str \<Rightarrow> str \<Rightarrow> str
      \<Rightarrow> (css_error + str) outcome" where
  "rewrite_css enc U P source base_url control_prefix proxy_origin =
     (let control_prefix = (if control_prefix = [] then bs ''/zp/'' else control_prefix)
      in case collect_css_replacements enc U P source base_url control_prefix proxy_origin of
           Inl e \<Rightarrow> Return (Inl e)
         | Inr rs \<Rightarrow> and_then (apply_css_replacements source rs) (\<lambda>c. Return (Inr c)))"

subsection \<open>The references of a stylesheet\<close>

fun url_ref :: "url_value option \<Rightarrow> (css_span \<times> str) list" where
  "url_ref None = []"
| "url_ref (Some (Url_Str span s)) = [(span, s)]"
| "url_ref (Some (Url_Raw span s)) = [(span, s)]"

fun string_ref :: "css_node \<Rightarrow> (css_span \<times> str) list" where
  "string_ref (Str_Node span s) = [(span, s)]"
| "string_ref _ = []"

fun css_refs :: "css_node \<Rightarrow> (css_span \<times> str) list" where
  "css_refs (Str_Node span s) = []"
| "css_refs (Url_Node v) = url_ref v"
| "css_refs (Import_Str span s) = [(span, s)]"
| "css_refs (Import_Url v) = url_ref v"
| "css_refs (Function_Node name vs) =
     (if to_ascii_lowercase name \<in> {bs ''image-set'', bs ''-webkit-image-set''} then concat (map string_ref vs) else [])
     @ concat (map css_refs vs)"
| "css_refs (Other_Node ns) = concat (map css_refs ns)"

definition add_ref ::
    "((u8 \<Rightarrow> bool) \<Rightarrow> str \<Rightarrow> str) \<Rightarrow> 'u url_crate \<Rightarrow> css_span \<times> str \<Rightarrow> css_url_collector \<Rightarrow> css_url_collector" where
  "add_ref enc U r c = add_quoted_replacement enc U (fst r) (snd r) c"

lemma visit_url_refs: "visit_url enc U v c = fold (add_ref enc U) (url_ref v) c"
  by (cases "(v)" rule: url_ref.cases) (simp_all add: visit_url_def add_ref_def)

lemma add_image_strings_refs: "add_image_strings enc U vs c = fold (add_ref enc U) (concat (map string_ref vs)) c"
  by (induction vs arbitrary: c) (auto simp: add_ref_def split: css_node.splits)

lemma add_quoted_ref: "add_quoted_replacement enc U span s c = add_ref enc U (span, s) c"
  by (simp add: add_ref_def)

lemma visit_refs:
  "visit_node enc U n c = fold (add_ref enc U) (css_refs n) c"
  "visit_nodes enc U ns c = fold (add_ref enc U) (concat (map css_refs ns)) c"
  by (induction enc U n c and enc U ns c rule: visit_node_visit_nodes.induct)
     (simp_all add: visit_url_refs add_image_strings_refs add_quoted_ref is_image_set_def)

text \<open>References with usable spans, and what the collector makes of them.\<close>

definition usable :: "nat \<Rightarrow> nat \<Rightarrow> css_span \<Rightarrow> bool" where
  "usable spos slen span \<longleftrightarrow> spos \<le> fst span \<and> fst span < snd span \<and> snd span - spos \<le> slen"

definition quoted_ref :: "nat \<Rightarrow> (str \<Rightarrow> str option) \<Rightarrow> css_span \<times> str \<Rightarrow> css_replacement" where
  "quoted_ref spos f r =
     \<lparr>css_start = fst (fst r) - spos, css_end = snd (fst r) - spos, css_text = css_quoted (the (f (snd r)))\<rparr>"

definition rewritten_refs :: "(str \<Rightarrow> str option) \<Rightarrow> (css_span \<times> str) list \<Rightarrow> (css_span \<times> str) list" where
  "rewritten_refs f rs = filter (\<lambda>r. f (snd r) \<noteq> None) rs"

lemma fold_add_ref:
  assumes "\<forall>r \<in> set rs. usable (start_pos c) (source_len c) (fst r)"
  shows "fold (add_ref enc U) rs c =
    c\<lparr>replacements := replacements c
       @ map (quoted_ref (start_pos c) (\<lambda>u. proxied_css_url enc U u (css_base_url c) (css_prefix c) (css_origin c)))
           (rewritten_refs (\<lambda>u. proxied_css_url enc U u (css_base_url c) (css_prefix c) (css_origin c)) rs)\<rparr>"
  using assms
proof (induction rs arbitrary: c)
  case Nil
  then show ?case by (simp add: rewritten_refs_def)
next
  case (Cons r rs)
  have "span_offsets c (fst r) = Some (fst (fst r) - start_pos c, snd (fst r) - start_pos c)"
    using Cons.prems by (auto simp: span_offsets_def usable_def Let_def)
  then have step: "add_ref enc U r c =
      (case proxied_css_url enc U (snd r) (css_base_url c) (css_prefix c) (css_origin c) of
         None \<Rightarrow> c
       | Some u \<Rightarrow> c\<lparr>replacements := replacements c
           @ [quoted_ref (start_pos c) (\<lambda>u. proxied_css_url enc U u (css_base_url c) (css_prefix c) (css_origin c)) r]\<rparr>)"
    by (simp add: add_ref_def add_quoted_replacement_def quoted_ref_def split: option.splits)
  show ?case
  proof (cases "proxied_css_url enc U (snd r) (css_base_url c) (css_prefix c) (css_origin c)")
    case None
    then show ?thesis using Cons by (simp add: step rewritten_refs_def)
  next
    case (Some u)
    show ?thesis
      using Cons.prems Some
      by (simp add: step Cons.IH rewritten_refs_def)
  qed
qed

subsection \<open>The text between and in place of the references\<close>

fun css_weave :: "(str \<Rightarrow> str option) \<Rightarrow> nat \<Rightarrow> str \<Rightarrow> nat \<Rightarrow> (css_span \<times> str) list \<Rightarrow> str" where
  "css_weave f spos source pos [] = drop pos source"
| "css_weave f spos source pos (((a, b), u) # rs) =
     (case f u of
        None \<Rightarrow> css_weave f spos source pos rs
      | Some q \<Rightarrow> take (a - spos - pos) (drop pos source) @ q @ css_weave f spos source (b - spos) rs)"

fun css_ordered :: "str \<Rightarrow> nat \<Rightarrow> nat \<Rightarrow> (css_span \<times> str) list \<Rightarrow> bool" where
  "css_ordered source spos pos [] \<longleftrightarrow> True"
| "css_ordered source spos pos (((a, b), u) # rs) \<longleftrightarrow>
     spos \<le> a \<and> pos \<le> a - spos \<and> a < b \<and> b - spos \<le> length source
     \<and> is_char_boundary source (a - spos) \<and> is_char_boundary source (b - spos) \<and> css_ordered source spos (b - spos) rs"

lemma css_ordered_mono: "css_ordered source spos pos rs \<Longrightarrow> p \<le> pos \<Longrightarrow> css_ordered source spos p rs"
  by (cases rs) auto

lemma css_ordered_starts: "css_ordered source spos pos rs \<Longrightarrow> r \<in> set rs \<Longrightarrow> usable spos (length source) (fst r) \<and> pos \<le> fst (fst r) - spos"
proof (induction source spos pos rs rule: css_ordered.induct)
  case (2 source spos pos a b u rs)
  then show ?case by (auto simp: usable_def)
qed simp

lemma emit_ordered:
  assumes "css_ordered source spos pos rs" "is_char_boundary source pos" "pos \<le> length source"
  shows "emit_css source pos (map (quoted_ref spos f) (rewritten_refs f rs))
    = Return (css_weave (\<lambda>u. map_option css_quoted (f u)) spos source pos rs)"
  using assms
proof (induction f spos source pos rs rule: css_weave.induct)
  case (1 f spos source pos)
  then show ?case by (simp add: rewritten_refs_def str_slice_def is_char_boundary_def)
next
  case (2 f spos source pos a b u rs)
  show ?case
  proof (cases "f u")
    case None
    have "css_ordered source spos pos rs" using "2.prems"(1) by (auto intro: css_ordered_mono)
    with None 2 show ?thesis by (simp add: rewritten_refs_def)
  next
    case (Some v)
    with 2 have "emit_css source (b - spos) (map (quoted_ref spos f) (rewritten_refs f rs)) 
        = Return (css_weave (\<lambda>u. map_option css_quoted (f u)) spos source (b - spos) rs)"
      by simp
    moreover have "a - spos \<le> b - spos" using "2.prems"(1) by (simp add: diff_le_mono)
    ultimately show ?thesis using Some "2.prems" by (simp add: rewritten_refs_def quoted_ref_def [of spos f "((a, b), u)"] str_slice_def)
  qed
qed

lemma ordered_sorted:
  "css_ordered source spos pos rs \<Longrightarrow>
     sorted (map (\<lambda>r. (fst (fst r) - spos, - int (snd (fst r) - spos))) rs) \<and> distinct (map (\<lambda>r. fst (fst r) - spos) rs)"
proof (induction source spos pos rs rule: css_ordered.induct)
  case (2 source spos pos a b u rs)
  then have o: "css_ordered source spos (b - spos) rs" "a - spos < b - spos" by auto
  have less: "a - spos < fst (fst r) - spos" if "r \<in> set rs" for r
    using css_ordered_starts [OF o(1) that] o(2) by simp
  then have "a - spos \<notin> (\<lambda>r. fst (fst r) - spos) ` set rs" by (intro notI, elim imageE) (drule less, simp)
  with 2 o(1) less show ?case by (simp add: less_imp_le)
qed simp

lemma distinct_filter_eq: "distinct xs \<Longrightarrow> k \<in> set xs \<Longrightarrow> filter (\<lambda>x. x = k) xs = [k]"
  by (induction xs) (auto simp: filter_empty_conv)

lemma sort_by_distinct_start:
  assumes "sorted (map (\<lambda>r. (css_start r, e r)) ys)" "distinct (map css_start ys)" "mset ys = mset xs"
  shows "sort_key (\<lambda>r. (css_start r, e r :: int)) xs = ys"
proof (rule properties_for_sort_key [OF assms(3) _ assms(1)])
  fix k
  assume k: "k \<in> set ys"
  have eq: "x = k" if "x \<in> set ys" "(css_start k, e k) = (css_start x, e x)" for x
    using assms(2) that k by (auto simp: distinct_map dest: inj_onD)
  have "distinct ys" using assms(2) by (simp add: distinct_map)
  moreover from this have "distinct xs" using mset_eq_imp_distinct_iff [OF assms(3)] by simp
  ultimately have "filter (\<lambda>x. x = k) ys = [k]" "filter (\<lambda>x. x = k) xs = [k]"
    using k mset_eq_setD [OF assms(3)] by (simp_all add: distinct_filter_eq)
  moreover have "filter (\<lambda>x. (css_start k, e k) = (css_start x, e x)) zs = filter (\<lambda>x. x = k) zs" if "set zs = set ys" for zs
    using eq that by (intro filter_cong) auto
  ultimately show "filter (\<lambda>x. (css_start k, e k) = (css_start x, e x)) ys = filter (\<lambda>x. (css_start k, e k) = (css_start x, e x)) xs"
    using mset_eq_setD [OF assms(3)] by simp
qed

lemma sort_css_ordered:
  assumes "css_ordered source spos 0 rs" "mset rs = mset refs"
  shows "sort_css (map (quoted_ref spos f) (rewritten_refs f refs)) = map (quoted_ref spos f) (rewritten_refs f rs)"
proof -
  let ?key = "\<lambda>r. (css_start r, - int (css_end r))"
  have key: "?key \<circ> quoted_ref spos f = (\<lambda>r. (fst (fst r) - spos, - int (snd (fst r) - spos)))"
    "css_start \<circ> quoted_ref spos f = (\<lambda>r. fst (fst r) - spos)"
    by (simp_all add: comp_def quoted_ref_def)
  note so = ordered_sorted [OF assms(1)]
  have "sorted (map ?key (map (quoted_ref spos f) (rewritten_refs f rs)))"
    unfolding map_map key rewritten_refs_def using so by (intro sorted_filter) simp
  moreover have "distinct (map css_start (map (quoted_ref spos f) (rewritten_refs f rs)))"
    unfolding map_map key rewritten_refs_def using so by (intro distinct_map_filter) simp
  moreover have "mset (map (quoted_ref spos f) (rewritten_refs f rs)) = mset (map (quoted_ref spos f) (rewritten_refs f refs))"
    using assms(2) by (simp add: rewritten_refs_def)
  ultimately show ?thesis
    unfolding sort_css_def by (rule sort_by_distinct_start)
qed

text \<open>
  How CSS reads a string token back. A line break ends a string, and an escape of a hexadecimal digit or a line
  break means something else; none of these occurs.
\<close>

definition line_break :: "u8 \<Rightarrow> bool" where
  "line_break b \<longleftrightarrow> b \<in> {0x0A, 0x0C, 0x0D}"

fun read_css_chars :: "str \<Rightarrow> str option" where
  "read_css_chars [] = None"
| "read_css_chars (b # s) =
     (if b = 34 then (if s = [] then Some [] else None)
      else if b = 92 then
        (case s of [] \<Rightarrow> None | c # t \<Rightarrow> if line_break c \<or> is_ascii_hexdigit c then None else map_option ((#) c) (read_css_chars t))
      else if line_break b then None
      else map_option ((#) b) (read_css_chars s))"

definition read_css_string :: "str \<Rightarrow> str option" where
  "read_css_string s = (if starts_with [34] s then read_css_chars (tl s) else None)"

lemma read_css_quoted: "list_all (\<lambda>b. \<not> line_break b) s \<Longrightarrow> read_css_string (css_quoted s) = Some s"
proof -
  assume "list_all (\<lambda>b. \<not> line_break b) s"
  moreover have "\<not> is_ascii_hexdigit 34" "\<not> is_ascii_hexdigit 92" "\<not> line_break 34" "\<not> line_break 92"
    by (simp_all add: line_break_def is_ascii_hexdigit_def is_ascii_digit_def)
  ultimately have "read_css_chars (css_escape_string s 34 @ [34]) = Some s"
    by (induction s) (simp_all add: css_escape_string_def)
  then show ?thesis by (simp add: read_css_string_def css_quoted_def starts_with_def)
qed

subsection \<open>Which references are replaced, and by what\<close>

text \<open>
  The address a reference means: the join with the sheet's address when that is an http(s) address. An empty
  reference, a fragment of the document and a variable are no references to fetch.
\<close>

definition css_target :: "'u url_crate \<Rightarrow> str \<Rightarrow> str \<Rightarrow> str option" where
  "css_target U base_url raw_url =
     (let s = trim raw_url
      in if s = [] \<or> starts_with [35] s \<or> starts_with (bs ''var('') s then None
         else case Option.bind (url_parse U base_url) (\<lambda>b. url_join U b s) of
                Some u \<Rightarrow> if url_scheme U u \<in> {bs ''http'', bs ''https''} then Some (url_text U u) else None
              | None \<Rightarrow> None)"

text \<open>
  What the crate \<^verbatim>\<open>url\<close> documents: a reference with a scheme of its own keeps it, and the text of a URL
  is printable ASCII.
\<close>

definition url_crate_ok :: "'u url_crate \<Rightarrow> bool" where
  "url_crate_ok U \<longleftrightarrow>
     (\<forall>b s u. \<forall>nm \<in> {bs ''data:'', bs ''blob:'', bs ''about:'', bs ''javascript:'', bs ''vbscript:''}.
        to_ascii_lowercase (take (length nm) s) = nm \<longrightarrow> url_join U b s = Some u \<longrightarrow> url_scheme U u \<notin> {bs ''http'', bs ''https''})
     \<and> (\<forall>u. \<forall>c \<in> set (url_text U u). 0x21 \<le> c \<and> c \<le> 0x7E)"

text \<open>
  A string token that routes a target through the proxy: it reads as an address of the proxy whose parameter
  \<open>url\<close> is the target up to its fragment, followed by the fragment.
\<close>

definition routes_to :: "(str \<Rightarrow> str) \<Rightarrow> str \<Rightarrow> str \<Rightarrow> str \<Rightarrow> bool" where
  "routes_to dec route token target \<longleftrightarrow>
     (\<exists>v h f. read_css_string token = Some v \<and> target = h @ f \<and> 35 \<notin> set h \<and> (f = [] \<or> hd f = 35)
        \<and> read_proxy_url dec v = Some (route, [(bs ''url'', h)], f))"

lemma split_fragment_parts:
  "split_fragment t = (h, f) \<Longrightarrow> t = h @ f \<and> 35 \<notin> set h \<and> (f = [] \<or> hd f = 35)"
  by (auto simp: split_fragment_def position_Some_iff position_None_iff hd_drop_conv_nth in_set_conv_nth split: option.splits)

lemma lower_prefix:
  assumes "starts_with p (to_ascii_lowercase (if c then take n s else []))" "p \<noteq> []"
  shows "to_ascii_lowercase (take (length p) s) = p"
proof -
  from assms obtain t where t: "to_ascii_lowercase (take n s) = p @ t" "c"
    by (auto simp: starts_with_iff_prefix prefix_def to_ascii_lowercase_def split: if_splits)
  then have "length p \<le> n" "take (length p) (to_ascii_lowercase (take n s)) = p"
    by (auto simp: to_ascii_lowercase_def dest!: arg_cong [of _ _ length])
  then show ?thesis by (simp add: to_ascii_lowercase_def take_map min_absorb1)
qed

lemma proxied_css_url_target:
  assumes "url_crate_ok U"
  shows "proxied_css_url enc U raw_url base_url pre org
    = map_option (\<lambda>t. subresource_proxy_url enc t org pre None) (css_target U base_url raw_url)"
proof -
  define s where "s = trim raw_url"
  define lower where "lower = to_ascii_lowercase (if is_char_boundary s (min (length s) 32) then take (min (length s) 32) s else [])"
  let ?inert = "starts_with (bs ''data:'') lower \<or> starts_with (bs ''blob:'') lower \<or> starts_with (bs ''about:'') lower
      \<or> starts_with (bs ''javascript:'') lower \<or> starts_with (bs ''vbscript:'') lower"
  have inert: "url_scheme U u \<notin> {bs ''http'', bs ''https''}" if "?inert" "url_join U b s = Some u" for b u
  proof -
    from that(1) have "\<exists>nm \<in> {bs ''data:'', bs ''blob:'', bs ''about:'', bs ''javascript:'', bs ''vbscript:''}. starts_with nm lower"
      by blast
    then obtain nm where nm: "nm \<in> {bs ''data:'', bs ''blob:'', bs ''about:'', bs ''javascript:'', bs ''vbscript:''}" "starts_with nm lower"
      by blast
    have "to_ascii_lowercase (take (length nm) s) = nm"
      by (rule lower_prefix [OF nm(2) [unfolded lower_def]]) (use nm(1) in \<open>auto simp: bs_def\<close>)
    with assms nm(1) that(2) show ?thesis unfolding url_crate_ok_def by blast
  qed
  show ?thesis
  proof (cases "s = [] \<or> starts_with [35] s \<or> starts_with (bs ''var('') s")
    case True
    then show ?thesis by (auto simp: proxied_css_url_def css_target_def s_def Let_def)
  next
    case False
    then have code: "proxied_css_url enc U raw_url base_url pre org =
        (if ?inert then None
         else case url_parse U base_url of None \<Rightarrow> None | Some base \<Rightarrow>
           (case url_join U base s of None \<Rightarrow> None | Some u \<Rightarrow>
              if url_scheme U u \<noteq> bs ''http'' \<and> url_scheme U u \<noteq> bs ''https'' then None
              else Some (subresource_proxy_url enc (url_text U u) org pre None)))"
      unfolding proxied_css_url_def s_def [symmetric] Let_def lower_def [symmetric] by simp
    have spec: "css_target U base_url raw_url = (case Option.bind (url_parse U base_url) (\<lambda>b. url_join U b s) of
        Some u \<Rightarrow> if url_scheme U u \<in> {bs ''http'', bs ''https''} then Some (url_text U u) else None | None \<Rightarrow> None)"
      using False by (simp add: css_target_def s_def Let_def)
    show ?thesis
      unfolding code spec using inert
      by (cases "?inert"; cases "url_parse U base_url") (auto split: option.splits)
  qed
qed

lemma css_target_printable: "url_crate_ok U \<Longrightarrow> css_target U base_url raw_url = Some t \<Longrightarrow> \<forall>c \<in> set t. 0x21 \<le> c \<and> c \<le> 0x7E"
  by (auto simp: css_target_def url_crate_ok_def Let_def split: if_splits option.splits)

lemma proxy_url_routes:
  assumes "percent_ok enc dec" "\<forall>c \<in> set org \<union> set pre. c \<noteq> 35 \<and> c \<noteq> 63 \<and> \<not> line_break c" "\<forall>c \<in> set t. 0x21 \<le> c"
  shows "routes_to dec (proxy_base org pre) (css_quoted (subresource_proxy_url enc t org pre None)) t"
proof -
  obtain h f where hf: "split_fragment t = (h, f)" by fastforce
  note parts = split_fragment_parts [OF hf]
  have "\<not> line_break c" if "c \<in> set (enc URL_PARAM_ENCODE h)" for c
  proof -
    have "c = 37 \<or> \<not> URL_PARAM_ENCODE c" using assms(1) that unfolding percent_ok_def by blast
    then show ?thesis by (auto simp: line_break_def URL_PARAM_ENCODE_def byte_simps is_ascii_alphanumeric_def)
  qed
  moreover have "\<not> line_break c" if "c \<in> set f" for c
  proof -
    have "0x21 \<le> c" using assms(3) parts that by auto
    then show ?thesis by (auto simp: line_break_def)
  qed
  moreover have "\<not> line_break c" if "c \<in> set (trim_end_slashes org @ pre)" for c
    using assms(2) set_trim_end_slashes [of org] that by auto
  moreover have "\<not> line_break c" if "c \<in> set (bs ''api/v2/fetch?url='') \<union> {47}" for c
    using that by (auto simp: line_break_def bs_def)
  ultimately have "list_all (\<lambda>b. \<not> line_break b) (subresource_proxy_url enc t org pre None)"
    by (auto simp: subresource_proxy_url_def hf Let_def list_all_iff)
  from read_css_quoted [OF this] show ?thesis
    using subresource_proxy_url_roundtrip [OF assms(1), of org pre t None] assms(2) parts
    unfolding routes_to_def hf by auto
qed

text \<open>
  C27. Rewriting a stylesheet that the parser accepts, whose references do not overlap, and that has a block, an
  \<^verbatim>\<open>@import\<close> or a reference to fetch, ends without a panic. It replaces exactly the references
  that mean an http(s) address, each by a string token that routes this address through the proxy, and leaves every
  other byte as it was. The percent encoder, the crate \<^verbatim>\<open>url\<close> and the proxy's own address are as
  documented.
\<close>

theorem css_rewritten:
  assumes "percent_ok enc dec" "url_crate_ok U" "\<forall>c \<in> set proxy_origin \<union> set pre. c \<noteq> 35 \<and> c \<noteq> 63 \<and> \<not> line_break c"
    and "pre = (if control_prefix = [] then bs ''/zp/'' else control_prefix)"
    and "parse_stylesheet P source = Some sheet"
    and "css_ordered source (file_start P) 0 rs" "mset rs = mset (css_refs sheet)"
    and "123 \<in> set source \<or> find_sub (bs ''@import'') source \<noteq> None \<or> (\<exists>r \<in> set rs. css_target U base_url (snd r) \<noteq> None)"
  shows "\<exists>token. rewrite_css enc U P source base_url control_prefix proxy_origin
      = Return (Inr (css_weave token (file_start P) source 0 rs))
    \<and> (\<forall>u. case css_target U base_url u of
             None \<Rightarrow> token u = None
           | Some target \<Rightarrow> \<exists>q. token u = Some q \<and> routes_to dec (proxy_base proxy_origin pre) q target)"
proof -
  define f where "f = (\<lambda>u. proxied_css_url enc U u base_url pre proxy_origin)"
  define c0 where "c0 = collector_new base_url pre proxy_origin (file_start P) (length source)"
  have target: "f u = map_option (\<lambda>t. subresource_proxy_url enc t proxy_origin pre None) (css_target U base_url u)" for u
    unfolding f_def by (rule proxied_css_url_target [OF assms(2)])
  have "\<forall>r \<in> set (css_refs sheet). usable (start_pos c0) (source_len c0) (fst r)"
    using css_ordered_starts [OF assms(6)] mset_eq_setD [OF assms(7)] by (simp add: c0_def collector_new_def)
  from fold_add_ref [OF this, of enc U]
  have visited: "replacements (visit_node enc U sheet c0) = map (quoted_ref (file_start P) f) (rewritten_refs f (css_refs sheet))"
    unfolding visit_refs f_def by (simp add: c0_def collector_new_def)
  have "rewritten_refs f (css_refs sheet) \<noteq> [] \<or> 123 \<in> set source \<or> find_sub (bs ''@import'') source \<noteq> None"
    using assms(8) mset_eq_setD [OF assms(7)] by (auto simp: rewritten_refs_def filter_empty_conv target)
  with visited assms(5) have "collect_css_replacements enc U P source base_url pre proxy_origin
      = Inr (map (quoted_ref (file_start P) f) (rewritten_refs f (css_refs sheet)))"
    by (auto simp: collect_css_replacements_def c0_def Let_def)
  moreover have "apply_css_replacements source (map (quoted_ref (file_start P) f) (rewritten_refs f (css_refs sheet)))
      = Return (css_weave (\<lambda>u. map_option css_quoted (f u)) (file_start P) source 0 rs)"
    unfolding apply_css_replacements_def sort_css_ordered [OF assms(6,7)]
    using assms(6) by (rule emit_ordered) (simp_all add: is_char_boundary_def)
  ultimately have "rewrite_css enc U P source base_url control_prefix proxy_origin
      = Return (Inr (css_weave (\<lambda>u. map_option css_quoted (f u)) (file_start P) source 0 rs))"
    by (simp add: rewrite_css_def Let_def assms(4))
  moreover have "case css_target U base_url u of None \<Rightarrow> map_option css_quoted (f u) = None
      | Some t \<Rightarrow> \<exists>q. map_option css_quoted (f u) = Some q \<and> routes_to dec (proxy_base proxy_origin pre) q t" for u
    using proxy_url_routes [OF assms(1,3)] css_target_printable [OF assms(2), of base_url u]
    by (auto simp: target split: option.splits)
  ultimately show ?thesis by blast
qed

text \<open>A sheet that only imports, and one reference of it.\<close>

definition sample_css :: str where
  "sample_css = bs ''@import url(x)''"

definition sample_parser :: css_parser where
  "sample_parser =
     \<lparr>file_start = 1, parse_stylesheet = (\<lambda>_. Some (Other_Node [Import_Url (Some (Url_Raw (13, 14) (bs ''x'')))])),
      parse_declarations = (\<lambda>_. None), parse_values = (\<lambda>_. None)\<rparr>"

definition sample_urls :: "str url_crate" where
  "sample_urls =
     \<lparr>url_parse = Some, url_join = (\<lambda>b r. if 58 \<in> set r then None else Some (b @ r)), url_scheme = (\<lambda>_. bs ''https''),
      url_text = filter (\<lambda>c. 0x21 \<le> c \<and> c \<le> 0x7E)\<rparr>"

lemma sample_urls_ok: "url_crate_ok sample_urls"
proof -
  have lower: "to_lower b = 58 \<Longrightarrow> b = 58" for b
    by (auto simp: to_lower_def is_ascii_uppercase_def split: if_splits)
  have colon: "58 \<in> set s" if "to_ascii_lowercase (take n s) = p" "58 \<in> set p" for n p s
    using that lower by (fastforce simp: to_ascii_lowercase_def dest: in_set_takeD)
  have "58 \<in> set nm" if "nm \<in> {bs ''data:'', bs ''blob:'', bs ''about:'', bs ''javascript:'', bs ''vbscript:''}" for nm
    using that by (auto simp: bs_def)
  with colon have "58 \<in> set s" if "nm \<in> {bs ''data:'', bs ''blob:'', bs ''about:'', bs ''javascript:'', bs ''vbscript:''}"
      "to_ascii_lowercase (take (length nm) s) = nm" for nm s
    using that by blast
  then show ?thesis unfolding url_crate_ok_def by (simp add: sample_urls_def)
qed

theorem css_rewritten_witness:
  "\<exists>q. rewrite_css pct_encode sample_urls sample_parser sample_css (bs ''https://t/'') (bs ''/zp/'') (bs ''https://p'')
     = Return (Inr (bs ''@import url('' @ q @ bs '')''))
   \<and> routes_to pct_decode (bs ''https://p/zp/api/v2/fetch'') q (bs ''https://t/x'')"
proof -
  have t: "trim (bs ''x'') = bs ''x''" by (rule trim_all_graphic) (simp add: bs_def graphic_def)
  have target: "css_target sample_urls (bs ''https://t/'') (bs ''x'') = Some (bs ''https://t/x'')"
    unfolding css_target_def t by (simp add: sample_urls_def starts_with_def bs_def)
  have o: "css_ordered sample_css (file_start sample_parser) 0 [((13, 14), bs ''x'')]"
    by (simp add: sample_css_def sample_parser_def is_char_boundary_def is_cont_def bs_def word_le_nat_alt)
  have b: "proxy_base (bs ''https://p'') (bs ''/zp/'') = bs ''https://p/zp/api/v2/fetch''"
    by (simp add: proxy_base_def trim_end_slashes_def ends_with_def bs_def)
  have clean: "\<forall>c \<in> set (bs ''https://p'') \<union> set (bs ''/zp/''). c \<noteq> 35 \<and> c \<noteq> 63 \<and> \<not> line_break c"
    by (simp add: bs_def line_break_def)
  have pre: "bs ''/zp/'' = (if bs ''/zp/'' = [] then bs ''/zp/'' else bs ''/zp/'')" by simp
  have sheet: "parse_stylesheet sample_parser sample_css = Some (Other_Node [Import_Url (Some (Url_Raw (13, 14) (bs ''x'')))])"
    by (simp add: sample_parser_def)
  have refs: "mset [((13, 14), bs ''x'')] = mset (css_refs (Other_Node [Import_Url (Some (Url_Raw (13, 14) (bs ''x'')))]))" by simp
  have one: "123 \<in> set sample_css \<or> find_sub (bs ''@import'') sample_css \<noteq> None
      \<or> (\<exists>r \<in> set [((13, 14), bs ''x'')]. css_target sample_urls (bs ''https://t/'') (snd r) \<noteq> None)"
    by (simp add: target)
  from css_rewritten [OF percent_ok_pct sample_urls_ok clean pre sheet o refs one] obtain token where
    token: "rewrite_css pct_encode sample_urls sample_parser sample_css (bs ''https://t/'') (bs ''/zp/'') (bs ''https://p'')
      = Return (Inr (css_weave token (file_start sample_parser) sample_css 0 [((13, 14), bs ''x'')]))"
      "\<forall>u. case css_target sample_urls (bs ''https://t/'') u of None \<Rightarrow> token u = None
        | Some t \<Rightarrow> \<exists>q. token u = Some q \<and> routes_to pct_decode (proxy_base (bs ''https://p'') (bs ''/zp/'')) q t"
    by blast
  from token(2) [rule_format, of "bs ''x''"] obtain q where
    q: "token (bs ''x'') = Some q" "routes_to pct_decode (bs ''https://p/zp/api/v2/fetch'') q (bs ''https://t/x'')"
    by (auto simp: target b)
  have "css_weave token (file_start sample_parser) sample_css 0 [((13, 14), bs ''x'')] = bs ''@import url('' @ q @ bs '')''"
    by (simp add: q(1)) (simp add: sample_parser_def sample_css_def bs_def)
  with token(1) q(2) show ?thesis by auto
qed

end
