(* ===== verification/Html_Attrs.thy ===== *)
theory Html_Attrs
  imports Script_Rewrite Css Csp
begin

text \<open>
  The attribute pass of the HTML transformer (\<^verbatim>\<open>attr_settings\<close> in
  \<^verbatim>\<open>src/crates/zp-htmltx/src/lib.rs\<close>): the handler that runs on every element of a document, in
  document order, and rewrites or removes the attributes that fetch, navigate or run code.

  Elements belong to the crate \<^verbatim>\<open>lol_html\<close>: the handler works on them through a record of
  operations. The results of setting and removing an attribute are ignored in the code, so these operations
  return the element only. The handler keeps the base address of the document and the diagnostics.
\<close>

subsection \<open>Elements and the environment\<close>

record 'e element_api =
  tag_name :: "'e \<Rightarrow> str"
  get_attribute :: "'e \<Rightarrow> str \<Rightarrow> str option"
  set_attribute :: "'e \<Rightarrow> str \<Rightarrow> str \<Rightarrow> 'e"
  remove_attribute :: "'e \<Rightarrow> str \<Rightarrow> 'e"
  attributes :: "'e \<Rightarrow> (str \<times> str) list"

record 'u html_env =
  h_enc :: "(u8 \<Rightarrow> bool) \<Rightarrow> str \<Rightarrow> str"
  h_urls :: "'u url_crate"
  h_css :: css_parser
  h_an :: "analysis"
  h_pr :: "str \<Rightarrow> bool"
  h_target :: str
  h_origin :: str

definition handler_opts :: "'u html_env \<Rightarrow> script_kind \<Rightarrow> rewrite_opts" where
  "handler_opts env knd = \<lparr>opt_kind = knd, opt_target_url = h_target env, opt_proxy_origin = h_origin env\<rparr>"

definition rewrite_code :: "'u html_env \<Rightarrow> script_kind \<Rightarrow> str \<Rightarrow> (rewrite_error + rewrite_result) outcome" where
  "rewrite_code env knd s = rewrite_script (h_an env) (h_pr env) s (handler_opts env knd)"

definition rewrite_style :: "'u html_env \<Rightarrow> str \<Rightarrow> str \<Rightarrow> (css_error + str) outcome" where
  "rewrite_style env css base = rewrite_css (h_enc env) (h_urls env) (h_css env) css base (bs ''/zp/'') (h_origin env)"

definition get_or_empty :: "'e element_api \<Rightarrow> 'e \<Rightarrow> str \<Rightarrow> str" where
  "get_or_empty A e n = (case get_attribute A e n of Some v \<Rightarrow> v | None \<Rightarrow> [])"

definition move_attribute :: "'e element_api \<Rightarrow> str \<Rightarrow> str \<Rightarrow> 'e \<Rightarrow> 'e" where
  "move_attribute A n m e =
     (case get_attribute A e n of
        Some v \<Rightarrow> remove_attribute A (set_attribute A e m v) n
      | None \<Rightarrow> e)"

subsection \<open>The steps before the attribute loop\<close>

definition record_base :: "'e element_api \<Rightarrow> 'u html_env \<Rightarrow> 'e \<Rightarrow> str \<Rightarrow> str" where
  "record_base A env e base =
     (if tag_name A e \<noteq> bs ''base'' then base
      else case get_attribute A e (bs ''href'') of
             None \<Rightarrow> base
           | Some href \<Rightarrow>
               let h = trim href
               in if h = [] then base
                  else case absolute_target_url h (h_target env) of Some u \<Rightarrow> u | None \<Rightarrow> base)"

definition strip_integrity :: "'e element_api \<Rightarrow> 'e \<Rightarrow> 'e" where
  "strip_integrity A e =
     (if tag_name A e = bs ''script'' \<or> tag_name A e = bs ''link''
      then move_attribute A (bs ''integrity'') (bs ''data-zp-integrity'') e else e)"

definition filter_meta :: "'e element_api \<Rightarrow> 'u html_env \<Rightarrow> 'e \<Rightarrow> 'e" where
  "filter_meta A env e =
     (if tag_name A e \<noteq> bs ''meta'' then e
      else let equiv = to_ascii_lowercase (trim (get_or_empty A e (bs ''http-equiv'')))
           in if equiv = bs ''content-security-policy'' \<or> equiv = bs ''content-security-policy-report-only''
              then let content = decode_url_html_entities (get_or_empty A e (bs ''content''));
                       e = set_attribute A e (bs ''data-zp-blocked-http-equiv'') equiv;
                       e = set_attribute A e (bs ''data-zp-blocked-content'') content;
                       filtered = filter_meta_csp_with content (site_frame_source (h_origin env))
                   in if filtered = []
                      then remove_attribute A (remove_attribute A e (bs ''http-equiv'')) (bs ''content'')
                      else set_attribute A e (bs ''content'') filtered
              else if equiv = bs ''origin-trial''
              then let content = get_or_empty A e (bs ''content'');
                       e = remove_attribute A e (bs ''http-equiv'');
                       e = set_attribute A e (bs ''data-zp-blocked-http-equiv'') equiv;
                       e = set_attribute A e (bs ''data-zp-blocked-content'') content
                   in remove_attribute A e (bs ''content'')
              else e)"

definition is_frame :: "'e element_api \<Rightarrow> 'e \<Rightarrow> bool" where
  "is_frame A e \<longleftrightarrow> tag_name A e = bs ''iframe'' \<or> tag_name A e = bs ''frame''"

definition move_srcdoc :: "'e element_api \<Rightarrow> 'e \<Rightarrow> 'e" where
  "move_srcdoc A e = (if is_frame A e then move_attribute A (bs ''srcdoc'') (bs ''data-zp-srcdoc'') e else e)"

definition move_frame_src :: "'e element_api \<Rightarrow> 'e \<Rightarrow> 'e" where
  "move_frame_src A e =
     (if \<not> is_frame A e then e
      else case get_attribute A e (bs ''src'') of
             None \<Rightarrow> e
           | Some src \<Rightarrow>
               let t = trim src
               in if t \<noteq> [] \<and> \<not> starts_with_ascii_ci t (bs ''about:'')
                  then remove_attribute A (set_attribute A e (bs ''data-zp-frame-src'') src) (bs ''src'') else e)"

definition rewrite_refresh :: "'e element_api \<Rightarrow> 'u html_env \<Rightarrow> str \<Rightarrow> 'e \<Rightarrow> 'e" where
  "rewrite_refresh A env base e =
     (if tag_name A e \<noteq> bs ''meta'' then e
      else if (case get_attribute A e (bs ''http-equiv'') of
                 Some v \<Rightarrow> eq_ignore_ascii_case (trim v) (bs ''refresh'') | None \<Rightarrow> False)
      then (case get_attribute A e (bs ''content'') of
              None \<Rightarrow> e
            | Some content \<Rightarrow>
                (case proxied_meta_refresh (h_enc env) content (h_origin env) (bs ''/zp/'') base of
                   None \<Rightarrow> e
                 | Some nxt \<Rightarrow> set_attribute A (set_attribute A e (bs ''data-zp-target-url'') content) (bs ''content'') nxt))
      else e)"

definition strip_ping :: "'e element_api \<Rightarrow> 'e \<Rightarrow> 'e" where
  "strip_ping A e =
     (if tag_name A e = bs ''a'' \<or> tag_name A e = bs ''area''
      then move_attribute A (bs ''ping'') (bs ''data-zp-blocked-ping'') e else e)"

subsection \<open>The attribute loop\<close>

definition url_attrs :: "str list" where
  "url_attrs =
     map bs [''href'', ''xlink:href'', ''src'', ''action'', ''formaction'', ''srcset'', ''imagesrcset'', ''poster'',
       ''background'', ''data'', ''style'']"

definition is_on_handler :: "str \<Rightarrow> bool" where
  "is_on_handler n \<longleftrightarrow> starts_with (bs ''on'') n \<and> 2 < length n"

definition attrs_snapshot :: "'e element_api \<Rightarrow> 'e \<Rightarrow> (str \<times> str) list" where
  "attrs_snapshot A e = filter (\<lambda>(n, v). n \<in> set url_attrs \<or> is_on_handler n) (attributes A e)"

definition subresource_attrs :: "(str \<times> str) list" where
  "subresource_attrs =
     map (map_prod bs bs)
       [(''link'', ''href''), (''script'', ''src''), (''img'', ''src''), (''source'', ''src''), (''video'', ''src''),
        (''audio'', ''src''), (''track'', ''src''), (''embed'', ''src''), (''object'', ''data''), (''input'', ''src''),
        (''image'', ''src''), (''image'', ''href''), (''image'', ''xlink:href''), (''use'', ''href''),
        (''use'', ''xlink:href''), (''script'', ''href''), (''script'', ''xlink:href''), (''feimage'', ''href''),
        (''feimage'', ''xlink:href''), (''video'', ''poster''), (''body'', ''background''), (''table'', ''background''),
        (''td'', ''background''), (''th'', ''background''), (''tr'', ''background'')]"

definition navigation_attrs :: "(str \<times> str) list" where
  "navigation_attrs =
     map (map_prod bs bs)
       [(''a'', ''href''), (''a'', ''xlink:href''), (''area'', ''href''), (''form'', ''action''), (''input'', ''formaction''),
        (''button'', ''formaction'')]"

definition srcset_attrs :: "(str \<times> str) list" where
  "srcset_attrs = map (map_prod bs bs) [(''img'', ''srcset''), (''source'', ''srcset''), (''link'', ''imagesrcset'')]"

definition lit_name :: "str \<Rightarrow> str" where
  "lit_name n = bs ''data-zp-lit-'' @ n"

definition style_step :: "'e element_api \<Rightarrow> 'u html_env \<Rightarrow> str \<Rightarrow> str \<Rightarrow> str \<Rightarrow> str \<Rightarrow> 'e \<Rightarrow> 'e outcome" where
  "style_step A env base name decoded trimmed e =
     and_then (rewrite_style env (bs ''a{'' @ trimmed @ bs ''}'') base) (\<lambda>res.
       case res of
         Inl _ \<Rightarrow> Return e
       | Inr c \<Rightarrow>
           if starts_with (bs ''a{'') c \<and> ends_with [125] (drop 2 c)
           then let inner = butlast (drop 2 c)
                in if inner \<noteq> trimmed
                   then Return (set_attribute A (set_attribute A e (lit_name name) decoded) name inner)
                   else Return e
           else Return e)"

definition srcset_step :: "'e element_api \<Rightarrow> 'u html_env \<Rightarrow> str \<Rightarrow> str \<Rightarrow> str \<Rightarrow> str \<Rightarrow> 'e \<Rightarrow> 'e" where
  "srcset_step A env base name decoded trimmed e =
     (case proxied_srcset (h_enc env) trimmed (h_origin env) (bs ''/zp/'') base of
        Some nxt \<Rightarrow> set_attribute A (set_attribute A e (lit_name name) decoded) name nxt
      | None \<Rightarrow> e)"

definition module_fetch :: "'e element_api \<Rightarrow> 'e \<Rightarrow> str \<Rightarrow> bool" where
  "module_fetch A e name =
     (if tag_name A e = bs ''script'' \<and> name = bs ''src''
      then (case get_attribute A e (bs ''type'') of Some t \<Rightarrow> is_module_type t | None \<Rightarrow> False)
      else if tag_name A e = bs ''link'' \<and> name = bs ''href''
      then (case get_attribute A e (bs ''rel'') of
              Some r \<Rightarrow> list_ex (\<lambda>t. eq_ignore_ascii_case t (bs ''modulepreload'')) (split_by is_ascii_whitespace r)
            | None \<Rightarrow> False)
      else False)"

definition subresource_target ::
    "'e element_api \<Rightarrow> 'u html_env \<Rightarrow> str \<Rightarrow> str \<Rightarrow> str \<Rightarrow> 'e \<Rightarrow> str option" where
  "subresource_target A env base name trimmed e =
     (if tag_name A e = bs ''script'' \<and> name = bs ''src'' \<and> starts_with_ascii_ci trimmed (bs ''data:'')
      then proxied_data_script_url (h_enc env) trimmed (h_origin env) (module_fetch A e name)
      else if module_fetch A e name then proxied_module_script_url (h_enc env) trimmed base (h_origin env)
      else proxied_subresource_url (h_enc env) trimmed (h_origin env) (bs ''/zp/'') base)"

definition is_icon_link :: "'e element_api \<Rightarrow> 'e \<Rightarrow> str \<Rightarrow> bool" where
  "is_icon_link A e name \<longleftrightarrow>
     tag_name A e = bs ''link'' \<and> name = bs ''href''
     \<and> (case get_attribute A e (bs ''rel'') of Some r \<Rightarrow> is_icon_link_rel r | None \<Rightarrow> False)"

definition subresource_step :: "'e element_api \<Rightarrow> 'u html_env \<Rightarrow> str \<Rightarrow> str \<Rightarrow> str \<Rightarrow> str \<Rightarrow> 'e \<Rightarrow> 'e" where
  "subresource_step A env base name decoded trimmed e =
     (case subresource_target A env base name trimmed e of
        None \<Rightarrow> e
      | Some nxt \<Rightarrow>
          let tag = tag_name A e;
              e = set_attribute A e name (if is_icon_link A e name then HIDDEN_ICON_HREF else nxt);
              e = set_attribute A e (lit_name name) decoded
          in if tag = bs ''script'' \<or> tag = bs ''link''
             then (case absolute_target_url trimmed base of
                     Some u \<Rightarrow> set_attribute A e (bs ''data-zp-target-url'') u
                   | None \<Rightarrow> e)
             else e)"

definition navigation_step :: "'e element_api \<Rightarrow> 'u html_env \<Rightarrow> str \<Rightarrow> str \<Rightarrow> str \<Rightarrow> str \<Rightarrow> 'e \<Rightarrow> 'e" where
  "navigation_step A env base name decoded trimmed e =
     (case absolute_target_url trimmed base of
        None \<Rightarrow> e
      | Some u \<Rightarrow>
          (case proxied_navigation_url (h_enc env) u (h_origin env) (bs ''/zp/'') of
             None \<Rightarrow> e
           | Some nxt \<Rightarrow>
               set_attribute A (set_attribute A (set_attribute A e name nxt) (bs ''data-zp-target-url'') u)
                 (lit_name name) decoded))"

definition VOID_URL :: str where
  "VOID_URL = bs ''javascript:void(0)''"

definition jsurl_kind :: "str \<Rightarrow> str" where
  "jsurl_kind name =
     (if name = bs ''href'' then bs ''anchor''
      else if name = bs ''action'' \<or> name = bs ''formaction'' then bs ''form''
      else if name = bs ''src'' then bs ''frame''
      else bs ''other'')"

definition jsurl_step ::
    "'e element_api \<Rightarrow> 'u html_env \<Rightarrow> str \<Rightarrow> str \<Rightarrow> str \<Rightarrow> 'e \<times> str list \<Rightarrow> ('e \<times> str list) outcome" where
  "jsurl_step A env name decoded trimmed ed =
     (let prefix_end = (case position (\<lambda>c. c = 58) trimmed of Some i \<Rightarrow> i + 1 | None \<Rightarrow> length trimmed);
          body = percent_decode (drop prefix_end trimmed)
      in and_then (rewrite_code env EventHandler body) (\<lambda>res.
           case res of
             Inr r \<Rightarrow>
               let e = set_attribute A (fst ed) name VOID_URL;
                   e = set_attribute A e (bs ''data-zp-jsurl'') (result_code r);
                   e = set_attribute A e (bs ''data-zp-jsurl-kind'') (jsurl_kind name)
               in Return (set_attribute A e (lit_name name) decoded, snd ed)
           | Inl err \<Rightarrow>
               Return (remove_attribute A (set_attribute A (fst ed) name VOID_URL) (bs ''data-zp-jsurl''),
                 snd ed @ [bs ''javascript: URL rewrite failed for '' @ name @ bs '': '' @ rewrite_error_text err])))"

definition on_handler_step ::
    "'e element_api \<Rightarrow> 'u html_env \<Rightarrow> str \<Rightarrow> str \<Rightarrow> 'e \<times> str list \<Rightarrow> ('e \<times> str list) outcome" where
  "on_handler_step A env name value ed =
     and_then (rewrite_code env EventHandler value) (\<lambda>res.
       case res of
         Inr r \<Rightarrow> Return (set_attribute A (fst ed) name (result_code r), snd ed)
       | Inl err \<Rightarrow>
           Return (remove_attribute A (fst ed) name,
             snd ed @ [bs ''event handler '' @ name @ bs '' rewrite failed: '' @ rewrite_error_text err]))"

definition attr_step ::
    "'e element_api \<Rightarrow> 'u html_env \<Rightarrow> str \<Rightarrow> str \<times> str \<Rightarrow> 'e \<times> str list \<Rightarrow> ('e \<times> str list) outcome" where
  "attr_step A env base nv ed =
     (let name = fst nv; value = snd nv; tag = tag_name A (fst ed)
      in if name \<in> set url_attrs
         then let decoded = decode_url_html_entities value; trimmed = trim_start decoded
              in if starts_with_ascii_ci trimmed (bs ''javascript:'') then jsurl_step A env name decoded trimmed ed
                 else if name = bs ''style''
                 then and_then (style_step A env base name decoded trimmed (fst ed)) (\<lambda>e. Return (e, snd ed))
                 else if (tag, name) \<in> set srcset_attrs
                 then Return (srcset_step A env base name decoded trimmed (fst ed), snd ed)
                 else if (tag, name) \<in> set subresource_attrs
                 then Return (subresource_step A env base name decoded trimmed (fst ed), snd ed)
                 else if (tag, name) \<in> set navigation_attrs
                 then Return (navigation_step A env base name decoded trimmed (fst ed), snd ed)
                 else Return ed
         else if is_on_handler name then on_handler_step A env name value ed
         else Return ed)"

fun attr_loop ::
    "'e element_api \<Rightarrow> 'u html_env \<Rightarrow> str \<Rightarrow> (str \<times> str) list \<Rightarrow> 'e \<times> str list \<Rightarrow> ('e \<times> str list) outcome" where
  "attr_loop A env base [] ed = Return ed"
| "attr_loop A env base (nv # nvs) ed = and_then (attr_step A env base nv ed) (attr_loop A env base nvs)"

definition before_loop :: "'e element_api \<Rightarrow> 'u html_env \<Rightarrow> str \<Rightarrow> 'e \<Rightarrow> 'e" where
  "before_loop A env base e =
     strip_ping A (rewrite_refresh A env base (move_frame_src A (move_srcdoc A (filter_meta A env (strip_integrity A e)))))"

definition attr_handler ::
    "'e element_api \<Rightarrow> 'u html_env \<Rightarrow> 'e \<Rightarrow> str \<times> str list \<Rightarrow> ('e \<times> str \<times> str list) outcome" where
  "attr_handler A env e st =
     (let base = record_base A env e (fst st);
          e = before_loop A env base e
      in and_then (attr_loop A env base (attrs_snapshot A e) (e, snd st)) (\<lambda>ed. Return (fst ed, base, snd ed)))"

fun attr_pass ::
    "'e element_api \<Rightarrow> 'u html_env \<Rightarrow> 'e list \<Rightarrow> str \<times> str list \<Rightarrow> ('e list \<times> str \<times> str list) outcome" where
  "attr_pass A env [] st = Return ([], st)"
| "attr_pass A env (e # es) st =
     and_then (attr_handler A env e st) (\<lambda>(e', st'). and_then (attr_pass A env es st') (\<lambda>(es', st''). Return (e' # es', st'')))"

subsection \<open>What the code relies on of elements\<close>

text \<open>
  The documented behaviour of an element whose attributes have distinct names: reading gives the value of the
  attribute of that name, setting and removing change that attribute only. A name can be set when it is not
  empty and has no white space, slash, equals sign or greater-than sign; the tokenizer's names are like that but for a leading
  equals sign.
\<close>

definition attr_name_ok :: "str \<Rightarrow> bool" where
  "attr_name_ok n \<longleftrightarrow> n \<noteq> [] \<and> (\<forall>c \<in> set n. \<not> is_ascii_whitespace c \<and> c \<noteq> 47 \<and> c \<noteq> 61 \<and> c \<noteq> 62)"

definition distinct_attrs :: "'e element_api \<Rightarrow> 'e \<Rightarrow> bool" where
  "distinct_attrs A e \<longleftrightarrow> distinct (map fst (attributes A e))"

definition element_laws :: "'e element_api \<Rightarrow> bool" where
  "element_laws A \<longleftrightarrow>
     (\<forall>e n v. distinct_attrs A e \<longrightarrow>
        get_attribute A e = map_of (attributes A e)
        \<and> (\<forall>m \<in> fst ` set (attributes A e). attr_name_ok m \<or> starts_with [61] m)
        \<and> distinct_attrs A (remove_attribute A e n) \<and> tag_name A (remove_attribute A e n) = tag_name A e
        \<and> get_attribute A (remove_attribute A e n) = (get_attribute A e)(n := None)
        \<and> (attr_name_ok n \<longrightarrow> distinct_attrs A (set_attribute A e n v) \<and> tag_name A (set_attribute A e n v) = tag_name A e
             \<and> get_attribute A (set_attribute A e n v) = (get_attribute A e)(n := Some v)))"

text \<open>An element that differs from another in the attributes of a set at most.\<close>

definition changes :: "'e element_api \<Rightarrow> str set \<Rightarrow> 'e \<Rightarrow> 'e \<Rightarrow> bool" where
  "changes A N e e' \<longleftrightarrow>
     distinct_attrs A e' \<and> tag_name A e' = tag_name A e \<and> (\<forall>m. m \<notin> N \<longrightarrow> get_attribute A e' m = get_attribute A e m)"

lemma changes_refl: "distinct_attrs A e \<Longrightarrow> changes A N e e"
  by (simp add: changes_def)

lemma changes_trans: "changes A N e e' \<Longrightarrow> changes A N e' e'' \<Longrightarrow> changes A N e e''"
  by (simp add: changes_def)

lemma changes_mono: "changes A N e e' \<Longrightarrow> N \<subseteq> M \<Longrightarrow> changes A M e e'"
  by (auto simp: changes_def)

lemma changes_distinct: "changes A N e e' \<Longrightarrow> distinct_attrs A e'"
  by (simp add: changes_def)

lemma changes_get: "changes A N e e' \<Longrightarrow> m \<notin> N \<Longrightarrow> get_attribute A e' m = get_attribute A e m"
  by (simp add: changes_def)

lemma changes_tag: "changes A N e e' \<Longrightarrow> tag_name A e' = tag_name A e"
  by (simp add: changes_def)

lemma changes_set:
  assumes "element_laws A" "changes A N e e'" "attr_name_ok n" "n \<in> N"
  shows "changes A N e (set_attribute A e' n v)"
proof -
  have "distinct_attrs A e'" using assms(2) by (rule changes_distinct)
  with assms show ?thesis unfolding element_laws_def changes_def by (metis fun_upd_other)
qed

lemma changes_remove:
  assumes "element_laws A" "changes A N e e'" "n \<in> N"
  shows "changes A N e (remove_attribute A e' n)"
proof -
  have "distinct_attrs A e'" using assms(2) by (rule changes_distinct)
  with assms show ?thesis unfolding element_laws_def changes_def by (metis fun_upd_other)
qed

lemma get_set:
  "element_laws A \<Longrightarrow> distinct_attrs A e \<Longrightarrow> attr_name_ok n \<Longrightarrow>
     get_attribute A (set_attribute A e n v) = (get_attribute A e)(n := Some v)"
  unfolding element_laws_def by blast

lemma get_remove:
  "element_laws A \<Longrightarrow> distinct_attrs A e \<Longrightarrow> get_attribute A (remove_attribute A e n) = (get_attribute A e)(n := None)"
  unfolding element_laws_def by blast

text \<open>The attributes the handler adds for the page's runtime.\<close>

definition zp_attrs :: "str set" where
  "zp_attrs = {n. starts_with (bs ''data-zp-'') n}"

lemma lit_name_zp [simp]: "lit_name n \<in> zp_attrs"
  by (simp add: zp_attrs_def lit_name_def starts_with_def bs_def)

lemma lit_name_ok: "attr_name_ok n \<Longrightarrow> attr_name_ok (lit_name n)"
  by (auto simp: attr_name_ok_def lit_name_def bs_def byte_simps)

lemma zp_names [simp]:
  "bs ''data-zp-integrity'' \<in> zp_attrs" "bs ''data-zp-blocked-http-equiv'' \<in> zp_attrs" "bs ''data-zp-blocked-content'' \<in> zp_attrs"
  "bs ''data-zp-srcdoc'' \<in> zp_attrs" "bs ''data-zp-frame-src'' \<in> zp_attrs" "bs ''data-zp-target-url'' \<in> zp_attrs"
  "bs ''data-zp-blocked-ping'' \<in> zp_attrs" "bs ''data-zp-jsurl'' \<in> zp_attrs" "bs ''data-zp-jsurl-kind'' \<in> zp_attrs"
  by (simp_all add: zp_attrs_def starts_with_def bs_def)

lemma zp_names_ok [simp]:
  "attr_name_ok (bs ''data-zp-integrity'')" "attr_name_ok (bs ''data-zp-blocked-http-equiv'')"
  "attr_name_ok (bs ''data-zp-blocked-content'')" "attr_name_ok (bs ''data-zp-srcdoc'')" "attr_name_ok (bs ''data-zp-frame-src'')"
  "attr_name_ok (bs ''data-zp-target-url'')" "attr_name_ok (bs ''data-zp-blocked-ping'')" "attr_name_ok (bs ''data-zp-jsurl'')"
  "attr_name_ok (bs ''data-zp-jsurl-kind'')" "attr_name_ok (bs ''content'')" "attr_name_ok (bs ''http-equiv'')"
  by (simp_all add: attr_name_ok_def byte_simps)

lemma loop_names:
  assumes "n \<in> set url_attrs \<or> is_on_handler n"
  shows "n \<notin> zp_attrs" "n \<noteq> bs ''rel''" "n \<noteq> bs ''type''" "\<not> starts_with [61] n" "n \<noteq> bs ''integrity''" "n \<noteq> bs ''ping''"
    "n \<noteq> bs ''srcdoc''" "n \<noteq> bs ''http-equiv''" "n \<noteq> bs ''content''"
proof -
  have "is_on_handler n \<Longrightarrow> \<exists>t. n = 111 # 110 # t" by (auto simp: is_on_handler_def starts_with_iff_prefix prefix_def bs_def)
  then consider "n \<in> set url_attrs" | t where "n = 111 # 110 # t" using assms by blast
  then show "n \<notin> zp_attrs" "n \<noteq> bs ''rel''" "n \<noteq> bs ''type''" "\<not> starts_with [61] n" "n \<noteq> bs ''integrity''" "n \<noteq> bs ''ping''"
    "n \<noteq> bs ''srcdoc''" "n \<noteq> bs ''http-equiv''" "n \<noteq> bs ''content''"
    by (cases; auto simp: url_attrs_def zp_attrs_def starts_with_def bs_def)+
qed

subsection \<open>The steps change what they name\<close>

lemma changes_sets:
  assumes "element_laws A" "attr_name_ok n" "n \<in> N" "zp_attrs \<subseteq> N" "changes A N e e'"
  shows "changes A N e (set_attribute A (set_attribute A e' (lit_name n) u) n v)"
  using assms by (auto intro!: changes_set simp: lit_name_ok)

lemma style_step_changes:
  assumes "element_laws A" "distinct_attrs A e" "attr_name_ok n" "style_step A env base n dec tr e = Return e'"
  shows "changes A (insert n zp_attrs) e e'"
proof (cases "rewrite_style env (bs ''a{'' @ tr @ bs ''}'') base")
  case (Return res)
  then show ?thesis using assms
    by (cases res) (auto simp: style_step_def Let_def changes_refl lit_name_ok intro!: changes_set split: if_splits)
next
  case Panic
  then show ?thesis using assms(4) by (simp add: style_step_def)
qed

lemma srcset_step_changes:
  assumes "element_laws A" "distinct_attrs A e" "attr_name_ok n"
  shows "changes A (insert n zp_attrs) e (srcset_step A env base n dec tr e)"
  using assms by (auto simp: srcset_step_def changes_refl lit_name_ok intro!: changes_set split: option.splits)

lemma subresource_step_changes:
  assumes "element_laws A" "distinct_attrs A e" "attr_name_ok n"
  shows "changes A (insert n zp_attrs) e (subresource_step A env base n dec tr e)"
  using assms
  by (auto simp: subresource_step_def Let_def changes_refl lit_name_ok intro!: changes_set split: option.splits)

lemma navigation_step_changes:
  assumes "element_laws A" "distinct_attrs A e" "attr_name_ok n"
  shows "changes A (insert n zp_attrs) e (navigation_step A env base n dec tr e)"
  using assms by (auto simp: navigation_step_def changes_refl lit_name_ok intro!: changes_set split: option.splits)

lemma jsurl_step_changes:
  assumes "element_laws A" "distinct_attrs A (fst ed)" "attr_name_ok n" "jsurl_step A env n dec tr ed = Return ed'"
  shows "changes A (insert n zp_attrs) (fst ed) (fst ed')"
proof (cases "rewrite_code env EventHandler (percent_decode (drop (case position (\<lambda>c. c = 58) tr of Some i \<Rightarrow> i + 1 | None \<Rightarrow> length tr) tr))")
  case (Return res)
  then show ?thesis using assms
    by (cases res) (auto simp: jsurl_step_def Let_def changes_refl lit_name_ok intro!: changes_set changes_remove)
next
  case Panic
  then show ?thesis using assms(4) by (simp add: jsurl_step_def)
qed

lemma on_handler_step_changes:
  assumes "element_laws A" "distinct_attrs A (fst ed)" "attr_name_ok n" "on_handler_step A env n v ed = Return ed'"
  shows "changes A (insert n zp_attrs) (fst ed) (fst ed')"
proof (cases "rewrite_code env EventHandler v")
  case (Return res)
  then show ?thesis using assms
    by (cases res) (auto simp: on_handler_step_def changes_refl intro!: changes_set changes_remove)
next
  case Panic
  then show ?thesis using assms(4) by (simp add: on_handler_step_def)
qed

lemmas step_changes = style_step_changes srcset_step_changes subresource_step_changes navigation_step_changes
  jsurl_step_changes on_handler_step_changes

lemma attr_step_changes:
  assumes "element_laws A" "distinct_attrs A (fst ed)" "attr_name_ok (fst nv)" "attr_step A env base nv ed = Return ed'"
  shows "changes A (insert (fst nv) zp_attrs) (fst ed) (fst ed')"
  using assms
  by (auto simp: attr_step_def Let_def and_then_Return changes_refl intro: step_changes split: if_splits)

lemma attr_loop_post:
  assumes laws: "element_laws A"
    and step: "\<And>ed ed' nv. nv \<in> set nvs \<Longrightarrow> distinct_attrs A (fst ed) \<Longrightarrow> tag_name A (fst ed) = tag \<Longrightarrow>
      get_attribute A (fst ed) (fst nv) = Some (snd nv) \<Longrightarrow> attr_step A env base nv ed = Return ed' \<Longrightarrow>
      P nv (get_attribute A (fst ed') (fst nv))"
    and names: "\<forall>nv \<in> set nvs. attr_name_ok (fst nv) \<and> fst nv \<notin> zp_attrs" "distinct (map fst nvs)"
    and start: "distinct_attrs A (fst ed)" "tag_name A (fst ed) = tag" "\<forall>nv \<in> set nvs. get_attribute A (fst ed) (fst nv) = Some (snd nv)"
    and run: "attr_loop A env base nvs ed = Return ed'"
  shows "changes A (fst ` set nvs \<union> zp_attrs) (fst ed) (fst ed') \<and> (\<forall>nv \<in> set nvs. P nv (get_attribute A (fst ed') (fst nv)))"
  using step names start run
proof (induction nvs arbitrary: ed)
  case Nil
  then show ?case by (simp add: changes_refl)
next
  case (Cons nv nvs)
  from Cons.prems(7) obtain ed1 where s: "attr_step A env base nv ed = Return ed1" and r: "attr_loop A env base nvs ed1 = Return ed'"
    by (auto simp: and_then_Return)
  have c: "changes A (insert (fst nv) zp_attrs) (fst ed) (fst ed1)"
    using attr_step_changes [OF laws Cons.prems(4) _ s] Cons.prems(2) by simp
  have post: "P nv (get_attribute A (fst ed1) (fst nv))"
    using Cons.prems(1) [of nv ed ed1] Cons.prems(4,5,6) s by simp
  have rest: "get_attribute A (fst ed1) (fst x) = Some (snd x)" if "x \<in> set nvs" for x
  proof -
    have "fst x \<in> fst ` set nvs" using that by simp
    then have "fst x \<noteq> fst nv" using Cons.prems(3) by (metis distinct.simps(2) list.map(2) set_map)
    then have "fst x \<notin> insert (fst nv) zp_attrs" using that Cons.prems(2) by simp
    from changes_get [OF c this] show ?thesis using that Cons.prems(6) by simp
  qed
  have ih: "changes A (fst ` set nvs \<union> zp_attrs) (fst ed1) (fst ed') \<and> (\<forall>nv \<in> set nvs. P nv (get_attribute A (fst ed') (fst nv)))"
  proof (rule Cons.IH)
    show "\<And>ed ed' nv. nv \<in> set nvs \<Longrightarrow> distinct_attrs A (fst ed) \<Longrightarrow> tag_name A (fst ed) = tag \<Longrightarrow>
      get_attribute A (fst ed) (fst nv) = Some (snd nv) \<Longrightarrow> attr_step A env base nv ed = Return ed' \<Longrightarrow>
      P nv (get_attribute A (fst ed') (fst nv))" using Cons.prems(1) by simp
    show "\<forall>nv \<in> set nvs. attr_name_ok (fst nv) \<and> fst nv \<notin> zp_attrs" "distinct (map fst nvs)" using Cons.prems(2,3) by simp_all
    show "distinct_attrs A (fst ed1)" using c by (rule changes_distinct)
    show "tag_name A (fst ed1) = tag" using changes_tag [OF c] Cons.prems(5) by simp
    show "\<forall>nv \<in> set nvs. get_attribute A (fst ed1) (fst nv) = Some (snd nv)" using rest by blast
    show "attr_loop A env base nvs ed1 = Return ed'" by (rule r)
  qed
  have "fst nv \<notin> fst ` set nvs \<union> zp_attrs" using Cons.prems(2,3) by auto
  from changes_get [OF conjunct1 [OF ih] this] have "P nv (get_attribute A (fst ed') (fst nv))" using post by simp
  moreover have "changes A (fst ` set (nv # nvs) \<union> zp_attrs) (fst ed) (fst ed')"
    using changes_mono [OF c, of "fst ` set (nv # nvs) \<union> zp_attrs"]
      changes_mono [OF conjunct1 [OF ih], of "fst ` set (nv # nvs) \<union> zp_attrs"]
    by (auto intro: changes_trans)
  ultimately show ?case using ih by simp
qed

subsection \<open>What a step leaves\<close>

definition routed :: "'u html_env \<Rightarrow> str \<Rightarrow> bool" where
  "routed env v \<longleftrightarrow>
     starts_with (trim_end_slashes (h_origin env) @ bs ''/zp/'') v \<or> v = VOID_URL \<or> v = HIDDEN_ICON_HREF"

lemma trim_start_idem: "trim_start (trim_start s) = trim_start s"
  using trim_start_no_ws [of s] by (subst trim_start.simps) simp

lemma trim_trim_start: "trim (trim_start s) = trim s"
  by (simp add: trim_def trim_start_idem)

lemma absolute_trim_start: "absolute_target_url (trim_start s) base = absolute_target_url s base"
  by (simp add: absolute_target_url_def trim_trim_start)

lemma is_http_hd: "is_http s \<Longrightarrow> s \<noteq> [] \<and> hd s \<noteq> 35"
  by (cases s) (auto simp: is_http_def starts_with_ascii_ci_def byte_simps split: if_splits)

lemma resolve_hd:
  assumes "resolve_against_base rel base = Some u"
  shows "u \<noteq> [] \<and> hd u \<noteq> 35"
proof -
  have http: "is_http base" using assms by (auto simp: resolve_against_base_def split: if_splits)
  then obtain b t where base: "base = b # t" "b \<noteq> 35" using is_http_hd [OF http] by (cases base) auto
  from assms http obtain i r where i: "find_sub (bs ''://'') base = Some i"
    and u: "u = take (case position (\<lambda>c. c = 47) (drop (i + 3) base) of Some k \<Rightarrow> i + 3 + k | None \<Rightarrow> length base) base @ r"
    unfolding resolve_against_base_def Let_def by (auto split: option.splits if_splits)
  have "0 < (case position (\<lambda>c. c = 47) (drop (i + 3) base) of Some k \<Rightarrow> i + 3 + k | None \<Rightarrow> length base)"
    using base by (simp split: option.splits)
  then obtain k where "(case position (\<lambda>c. c = 47) (drop (i + 3) base) of Some k \<Rightarrow> i + 3 + k | None \<Rightarrow> length base) = Suc k"
    by (cases "(case position (\<lambda>c. c = 47) (drop (i + 3) base) of Some k \<Rightarrow> i + 3 + k | None \<Rightarrow> length base)") auto
  with u base show ?thesis by simp
qed

lemma absolute_hd: "absolute_target_url s base = Some u \<Longrightarrow> u \<noteq> [] \<and> hd u \<noteq> 35"
  using is_http_hd [of "trim s"] resolve_hd [of "trim s" base u]
  by (auto simp: absolute_target_url_def Let_def bs_def split: if_splits)

lemma split_fragment_hd: "u \<noteq> [] \<Longrightarrow> hd u \<noteq> 35 \<Longrightarrow> fst (split_fragment u) \<noteq> []"
  by (cases u) (auto simp: split_fragment_def split: option.splits)

lemma proxied_subresource_absolute:
  "absolute_target_url s base = Some u \<Longrightarrow>
     proxied_subresource_url enc s org pre base = Some (subresource_proxy_url enc u org pre None)"
  using absolute_hd [of s base u] split_fragment_hd [of u]
  by (auto simp: absolute_target_url_def proxied_subresource_url_def Let_def split: if_splits)

lemma ends_zp: "ends_with [47] (x @ bs ''/zp/'')"
  by (simp add: ends_with_def bs_def)

lemma subresource_routed: "starts_with (trim_end_slashes org @ bs ''/zp/'') (subresource_proxy_url enc u org (bs ''/zp/'') None)"
  using ends_zp [of "trim_end_slashes org"]
  by (auto simp: subresource_proxy_url_def Let_def starts_with_iff_prefix prefix_def split: prod.splits)

lemma navigation_routed:
  "proxied_navigation_url enc u org (bs ''/zp/'') = Some v \<Longrightarrow> starts_with (trim_end_slashes org @ bs ''/zp/'') v"
  using ends_zp [of "trim_end_slashes org"]
  by (auto simp: proxied_navigation_url_def Let_def starts_with_iff_prefix prefix_def split: if_splits)

lemma script_routed: "starts_with (trim_end_slashes org @ bs ''/zp/'') (script_route_url enc u org k)"
proof -
  have "script_route_url enc u org k = (trim_end_slashes org @ bs ''/zp/'') @ bs ''api/script?u='' @ enc QUERY_ENC u @ bs ''&kind='' @ k"
    by (simp add: script_route_url_def bs_def)
  then show ?thesis by (metis starts_with_append)
qed

lemma subresource_target_routed:
  assumes "h_origin env \<noteq> []" "subresource_target A env base n s e = Some v"
  shows "starts_with (trim_end_slashes (h_origin env) @ bs ''/zp/'') v"
  using assms script_routed subresource_routed
  by (auto simp: subresource_target_def proxied_data_script_url_def proxied_module_script_url_def proxied_subresource_url_def Let_def
      split: if_splits option.splits)

lemma subresource_target_None:
  assumes "h_origin env \<noteq> []" "subresource_target A env base n s e = None"
  shows "absolute_target_url s base = None"
proof (cases "absolute_target_url s base")
  case (Some u)
  from proxied_subresource_absolute [OF Some] assms Some show ?thesis
    by (auto simp: subresource_target_def proxied_data_script_url_def proxied_module_script_url_def split: if_splits)
qed simp

lemma routed_pairs:
  assumes "(t, n) \<in> set subresource_attrs \<union> set navigation_attrs"
  shows "n \<in> set url_attrs" "n \<noteq> bs ''style''" "(t, n) \<notin> set srcset_attrs"
proof -
  have "\<forall>p \<in> set subresource_attrs \<union> set navigation_attrs. snd p \<in> set url_attrs \<and> snd p \<noteq> bs ''style'' \<and> p \<notin> set srcset_attrs"
    by (simp add: subresource_attrs_def navigation_attrs_def url_attrs_def srcset_attrs_def bs_def)
  from bspec [OF this assms] show "n \<in> set url_attrs" "n \<noteq> bs ''style''" "(t, n) \<notin> set srcset_attrs" by simp_all
qed

lemma set_then_zp:
  assumes "element_laws A" "distinct_attrs A e" "attr_name_ok n" "n \<notin> zp_attrs" "changes A zp_attrs (set_attribute A e n v) e'"
  shows "get_attribute A e' n = Some v"
  using changes_get [OF assms(5,4)] get_set [OF assms(1-3)] by simp

lemma set_distinct: "element_laws A \<Longrightarrow> distinct_attrs A e \<Longrightarrow> attr_name_ok n \<Longrightarrow> distinct_attrs A (set_attribute A e n v)"
  unfolding element_laws_def by blast

lemma jsurl_step_value:
  assumes "element_laws A" "distinct_attrs A (fst ed)" "attr_name_ok n" "n \<notin> zp_attrs" "jsurl_step A env n dec tr ed = Return ed'"
  shows "get_attribute A (fst ed') n = Some VOID_URL"
proof (rule set_then_zp [OF assms(1-4)])
  obtain E where E: "set_attribute A (fst ed) n VOID_URL = E" by blast
  have d: "distinct_attrs A E" using set_distinct [OF assms(1-3), of VOID_URL] by (simp add: E)
  show "changes A zp_attrs (set_attribute A (fst ed) n VOID_URL) (fst ed')"
  proof (cases "rewrite_code env EventHandler (percent_decode (drop (case position (\<lambda>c. c = 58) tr of Some i \<Rightarrow> i + 1 | None \<Rightarrow> length tr) tr))")
    case (Return res)
    then show ?thesis using assms d
      by (cases res) (auto simp: E jsurl_step_def Let_def changes_refl lit_name_ok intro!: changes_set changes_remove)
  next
    case Panic
    then show ?thesis using assms(5) by (simp add: jsurl_step_def)
  qed
qed

lemma subresource_step_value:
  assumes "element_laws A" "distinct_attrs A e" "attr_name_ok n" "n \<notin> zp_attrs"
    and "subresource_target A env base n tr e = Some nxt"
  shows "get_attribute A (subresource_step A env base n dec tr e) n = Some (if is_icon_link A e n then HIDDEN_ICON_HREF else nxt)"
proof (rule set_then_zp [OF assms(1-4)])
  let ?v = "if is_icon_link A e n then HIDDEN_ICON_HREF else nxt"
  obtain E where E: "set_attribute A e n ?v = E" by blast
  have d: "distinct_attrs A E" using set_distinct [OF assms(1-3), of ?v] by (simp add: E)
  show "changes A zp_attrs (set_attribute A e n ?v) (subresource_step A env base n dec tr e)"
    unfolding subresource_step_def assms(5) option.case Let_def E
    using assms(1,3) d by (auto simp: changes_refl lit_name_ok intro!: changes_set split: option.splits)
qed

lemma navigation_step_value:
  assumes "element_laws A" "distinct_attrs A e" "attr_name_ok n" "n \<notin> zp_attrs"
    and "absolute_target_url tr base = Some u" "proxied_navigation_url (h_enc env) u (h_origin env) (bs ''/zp/'') = Some nxt"
  shows "get_attribute A (navigation_step A env base n dec tr e) n = Some nxt"
proof (rule set_then_zp [OF assms(1-4)])
  obtain E where E: "set_attribute A e n nxt = E" by blast
  have d: "distinct_attrs A E" using set_distinct [OF assms(1-3), of nxt] by (simp add: E)
  show "changes A zp_attrs (set_attribute A e n nxt) (navigation_step A env base n dec tr e)"
    unfolding navigation_step_def assms(5,6) option.case E
    using assms(1,3) d by (auto simp: changes_refl lit_name_ok intro!: changes_set)
qed

text \<open>What an attribute may hold after its step, given what it held before.\<close>

definition attr_post :: "'u html_env \<Rightarrow> str \<Rightarrow> str \<Rightarrow> str \<times> str \<Rightarrow> str option \<Rightarrow> bool" where
  "attr_post env base tag nv res \<longleftrightarrow>
     (is_on_handler (fst nv) \<and> fst nv \<notin> set url_attrs \<longrightarrow>
        (\<forall>v. res = Some v \<longrightarrow> (\<exists>r. rewrite_code env EventHandler (snd nv) = Return (Inr r) \<and> v = result_code r)))
     \<and> (fst nv \<in> set url_attrs \<longrightarrow> starts_with_ascii_ci (trim_start (decode_url_html_entities (snd nv))) (bs ''javascript:'') \<longrightarrow>
          res = Some VOID_URL)
     \<and> ((tag, fst nv) \<in> set subresource_attrs \<union> set navigation_attrs \<longrightarrow>
          (\<exists>v. res = Some v \<and> (routed env v
             \<or> v = snd nv \<and> absolute_target_url (decode_url_html_entities (snd nv)) base = None)))
     \<and> ((tag, fst nv) \<notin> set subresource_attrs \<union> set navigation_attrs \<union> set srcset_attrs \<longrightarrow> fst nv \<in> set url_attrs \<longrightarrow> fst nv \<noteq> bs ''style'' \<longrightarrow>
          \<not> starts_with_ascii_ci (trim_start (decode_url_html_entities (snd nv))) (bs ''javascript:'') \<longrightarrow> res = Some (snd nv))"

lemma on_handler_step_value:
  assumes "element_laws A" "distinct_attrs A (fst ed)" "attr_name_ok n" "on_handler_step A env n v ed = Return ed'"
    and "get_attribute A (fst ed') n = Some w"
  shows "\<exists>r. rewrite_code env EventHandler v = Return (Inr r) \<and> w = result_code r"
proof (cases "rewrite_code env EventHandler v")
  case (Return res)
  then show ?thesis using assms
    by (cases res) (auto simp: on_handler_step_def get_set get_remove)
next
  case Panic
  then show ?thesis using assms(4) by (simp add: on_handler_step_def)
qed

lemma attr_step_post:
  assumes laws: "element_laws A" and ne: "h_origin env \<noteq> []" and ok: "attr_name_ok (fst nv)" "fst nv \<notin> zp_attrs"
    and d: "distinct_attrs A (fst ed)" and tag: "tag_name A (fst ed) = tag" and val: "get_attribute A (fst ed) (fst nv) = Some (snd nv)"
    and run: "attr_step A env base nv ed = Return ed'"
  shows "attr_post env base tag nv (get_attribute A (fst ed') (fst nv))"
proof -
  let ?n = "fst nv" and ?dec = "decode_url_html_entities (snd nv)"
  let ?tr = "trim_start ?dec"
  consider (js) "?n \<in> set url_attrs" "starts_with_ascii_ci ?tr (bs ''javascript:'')"
    | (sub) "(tag, ?n) \<in> set subresource_attrs" "\<not> starts_with_ascii_ci ?tr (bs ''javascript:'')"
    | (nav) "(tag, ?n) \<in> set navigation_attrs" "(tag, ?n) \<notin> set subresource_attrs" "\<not> starts_with_ascii_ci ?tr (bs ''javascript:'')"
    | (on) "?n \<notin> set url_attrs" "is_on_handler ?n"
    | (other) "(tag, ?n) \<notin> set subresource_attrs \<union> set navigation_attrs" "\<not> starts_with_ascii_ci ?tr (bs ''javascript:'')" "?n \<in> set url_attrs"
    | (none) "?n \<notin> set url_attrs" "\<not> is_on_handler ?n"
    by blast
  then show ?thesis
  proof cases
    case js
    then have "jsurl_step A env ?n ?dec ?tr ed = Return ed'" using run by (simp add: attr_step_def Let_def)
    from jsurl_step_value [OF laws d ok this] js show ?thesis by (auto simp: attr_post_def routed_def)
  next
    case sub
    note pr = routed_pairs [OF UnI1 [OF sub(1)]]
    have e': "fst ed' = subresource_step A env base ?n ?dec ?tr (fst ed)"
      using run sub pr tag by (auto simp: attr_step_def Let_def)
    show ?thesis
    proof (cases "subresource_target A env base ?n ?tr (fst ed)")
      case None
      from subresource_target_None [OF ne None] have "absolute_target_url ?dec base = None" by (simp add: absolute_trim_start)
      moreover have "fst ed' = fst ed" by (simp add: e' subresource_step_def None)
      ultimately show ?thesis using sub pr val by (simp add: attr_post_def)
    next
      case (Some nxt)
      have "routed env (if is_icon_link A (fst ed) ?n then HIDDEN_ICON_HREF else nxt)"
        using subresource_target_routed [OF ne Some] by (simp add: routed_def)
      with subresource_step_value [OF laws d ok Some] sub pr show ?thesis by (auto simp: attr_post_def e')
    qed
  next
    case nav
    note pr = routed_pairs [OF UnI2 [OF nav(1)]]
    have e': "fst ed' = navigation_step A env base ?n ?dec ?tr (fst ed)"
      using run nav pr tag by (auto simp: attr_step_def Let_def)
    show ?thesis
    proof (cases "absolute_target_url ?tr base")
      case None
      moreover from None have "absolute_target_url ?dec base = None" by (simp add: absolute_trim_start)
      moreover have "fst ed' = fst ed" by (simp add: e' navigation_step_def None)
      ultimately show ?thesis using nav pr val by (simp add: attr_post_def)
    next
      case (Some u)
      obtain nxt where nxt: "proxied_navigation_url (h_enc env) u (h_origin env) (bs ''/zp/'') = Some nxt"
        using ne by (auto simp: proxied_navigation_url_def Let_def)
      have "routed env nxt" using navigation_routed [OF nxt] by (simp add: routed_def)
      with navigation_step_value [OF laws d ok Some nxt] nav pr show ?thesis by (auto simp: attr_post_def e')
    qed
  next
    case on
    then have s: "on_handler_step A env ?n (snd nv) ed = Return ed'" using run by (simp add: attr_step_def Let_def)
    have "(tag, ?n) \<notin> set subresource_attrs \<union> set navigation_attrs" using routed_pairs(1) on(1) by blast
    with on_handler_step_value [OF laws d ok(1) s] on show ?thesis by (auto simp: attr_post_def)
  next
    case other
    show ?thesis
    proof (cases "?n = bs ''style'' \<or> (tag, ?n) \<in> set srcset_attrs")
      case True
      with other show ?thesis by (auto simp: attr_post_def)
    next
      case False
      with other run tag val have "ed' = ed" by (simp add: attr_step_def Let_def)
      with other val show ?thesis by (auto simp: attr_post_def)
    qed
  next
    case none
    moreover have "(tag, ?n) \<notin> set subresource_attrs \<union> set navigation_attrs" using routed_pairs(1) none(1) by blast
    ultimately show ?thesis by (auto simp: attr_post_def)
  qed
qed

subsection \<open>The steps before the loop\<close>

lemma move_attribute_changes:
  assumes "element_laws A" "distinct_attrs A e" "attr_name_ok m"
  shows "changes A {n, m} e (move_attribute A n m e)"
  using assms by (auto simp: move_attribute_def changes_refl intro!: changes_remove changes_set split: option.splits)

lemma move_attribute_gone:
  assumes "element_laws A" "distinct_attrs A e" "attr_name_ok m"
  shows "get_attribute A (move_attribute A n m e) n = None"
proof (cases "get_attribute A e n")
  case (Some v)
  have "distinct_attrs A (set_attribute A e m v)" by (rule set_distinct [OF assms])
  then show ?thesis using Some assms(1) by (simp add: move_attribute_def get_remove)
qed (simp add: move_attribute_def)

definition meta_equiv :: "'e element_api \<Rightarrow> 'e \<Rightarrow> str" where
  "meta_equiv A e = to_ascii_lowercase (trim (get_or_empty A e (bs ''http-equiv'')))"

lemma remove_distinct: "element_laws A \<Longrightarrow> distinct_attrs A e \<Longrightarrow> distinct_attrs A (remove_attribute A e n)"
  unfolding element_laws_def by blast

lemma filter_meta_origin_trial:
  assumes laws: "element_laws A" and d: "distinct_attrs A e" and "tag_name A e = bs ''meta''" "meta_equiv A e = bs ''origin-trial''"
  shows "get_attribute A (filter_meta A env e) (bs ''http-equiv'') = None"
    "get_attribute A (filter_meta A env e) (bs ''content'') = None"
proof -
  define r where "r = remove_attribute A e (bs ''http-equiv'')"
  define s where "s = set_attribute A (set_attribute A r (bs ''data-zp-blocked-http-equiv'') (bs ''origin-trial''))
    (bs ''data-zp-blocked-content'') (get_or_empty A e (bs ''content''))"
  have dr: "distinct_attrs A r" unfolding r_def by (rule remove_distinct [OF laws d])
  have c: "changes A zp_attrs r s" unfolding s_def using dr laws by (auto intro!: changes_set changes_refl)
  have f: "filter_meta A env e = remove_attribute A s (bs ''content'')"
    using assms(3,4) unfolding filter_meta_def meta_equiv_def [symmetric] assms(4) by (simp add: Let_def s_def r_def bs_def)
  have "get_attribute A s (bs ''http-equiv'') = None"
    using changes_get [OF c, of "bs ''http-equiv''"] get_remove [OF laws d] by (simp add: r_def zp_attrs_def starts_with_def bs_def)
  then show "get_attribute A (filter_meta A env e) (bs ''http-equiv'') = None"
    "get_attribute A (filter_meta A env e) (bs ''content'') = None"
    using get_remove [OF laws changes_distinct [OF c]] by (simp_all add: f)
qed

lemma strip_integrity_changes:
  "element_laws A \<Longrightarrow> distinct_attrs A e \<Longrightarrow> changes A (insert (bs ''integrity'') zp_attrs) e (strip_integrity A e)"
  using changes_mono [OF move_attribute_changes [of A e "bs ''data-zp-integrity''" "bs ''integrity''"]]
  by (simp add: strip_integrity_def changes_refl)

lemma filter_meta_changes:
  "element_laws A \<Longrightarrow> distinct_attrs A e \<Longrightarrow>
     changes A ({bs ''http-equiv'', bs ''content''} \<union> zp_attrs) e (filter_meta A env e)"
  by (auto simp: filter_meta_def Let_def changes_refl intro!: changes_remove changes_set)

lemma move_srcdoc_changes:
  "element_laws A \<Longrightarrow> distinct_attrs A e \<Longrightarrow> changes A (insert (bs ''srcdoc'') zp_attrs) e (move_srcdoc A e)"
  using changes_mono [OF move_attribute_changes [of A e "bs ''data-zp-srcdoc''" "bs ''srcdoc''"]]
  by (simp add: move_srcdoc_def changes_refl)

lemma move_frame_src_changes:
  "element_laws A \<Longrightarrow> distinct_attrs A e \<Longrightarrow>
     changes A ((if is_frame A e then {bs ''src''} else {}) \<union> zp_attrs) e (move_frame_src A e)"
  by (auto simp: move_frame_src_def Let_def changes_refl intro!: changes_remove changes_set split: option.splits)

lemma rewrite_refresh_changes:
  "element_laws A \<Longrightarrow> distinct_attrs A e \<Longrightarrow>
     changes A (insert (bs ''content'') zp_attrs) e (rewrite_refresh A env base e)"
  by (auto simp: rewrite_refresh_def changes_refl intro!: changes_set split: option.splits)

lemma strip_ping_changes:
  "element_laws A \<Longrightarrow> distinct_attrs A e \<Longrightarrow> changes A (insert (bs ''ping'') zp_attrs) e (strip_ping A e)"
  using changes_mono [OF move_attribute_changes [of A e "bs ''data-zp-blocked-ping''" "bs ''ping''"]]
  by (simp add: strip_ping_def changes_refl)

definition frame_src_kept :: "str \<Rightarrow> bool" where
  "frame_src_kept v \<longleftrightarrow> trim v = [] \<or> starts_with_ascii_ci (trim v) (bs ''about:'')"

lemma before_loop_facts:
  fixes A :: "'e element_api" and env :: "'u html_env" and base :: str and e :: 'e
  assumes laws: "element_laws A" and d: "distinct_attrs A e"
  defines "e' \<equiv> before_loop A env base e" and "tag \<equiv> tag_name A e"
  shows "changes A ({bs ''integrity'', bs ''http-equiv'', bs ''content'', bs ''srcdoc'', bs ''ping''}
           \<union> (if is_frame A e then {bs ''src''} else {}) \<union> zp_attrs) e e'"
    and "tag = bs ''script'' \<or> tag = bs ''link'' \<Longrightarrow> get_attribute A e' (bs ''integrity'') = None"
    and "tag = bs ''a'' \<or> tag = bs ''area'' \<Longrightarrow> get_attribute A e' (bs ''ping'') = None"
    and "is_frame A e \<Longrightarrow> get_attribute A e' (bs ''srcdoc'') = None"
    and "is_frame A e \<Longrightarrow> get_attribute A e' (bs ''src'') = Some v \<Longrightarrow> frame_src_kept v \<and> get_attribute A e (bs ''src'') = Some v"
    and "tag = bs ''meta'' \<Longrightarrow> meta_equiv A e = bs ''origin-trial'' \<Longrightarrow>
      get_attribute A e' (bs ''http-equiv'') = None \<and> get_attribute A e' (bs ''content'') = None"
proof -
  define e1 where "e1 = strip_integrity A e"
  define e2 where "e2 = filter_meta A env e1"
  define e3 where "e3 = move_srcdoc A e2"
  define e4 where "e4 = move_frame_src A e3"
  define e5 where "e5 = rewrite_refresh A env base e4"
  have e': "e' = strip_ping A e5" by (simp add: e'_def before_loop_def e1_def e2_def e3_def e4_def e5_def)
  have c1: "changes A (insert (bs ''integrity'') zp_attrs) e e1" unfolding e1_def by (rule strip_integrity_changes [OF laws d])
  have c2: "changes A ({bs ''http-equiv'', bs ''content''} \<union> zp_attrs) e1 e2"
    unfolding e2_def by (rule filter_meta_changes [OF laws changes_distinct [OF c1]])
  have c3: "changes A (insert (bs ''srcdoc'') zp_attrs) e2 e3"
    unfolding e3_def by (rule move_srcdoc_changes [OF laws changes_distinct [OF c2]])
  have c4: "changes A ((if is_frame A e3 then {bs ''src''} else {}) \<union> zp_attrs) e3 e4"
    unfolding e4_def by (rule move_frame_src_changes [OF laws changes_distinct [OF c3]])
  have c5: "changes A (insert (bs ''content'') zp_attrs) e4 e5"
    unfolding e5_def by (rule rewrite_refresh_changes [OF laws changes_distinct [OF c4]])
  have c6: "changes A (insert (bs ''ping'') zp_attrs) e5 e'"
    unfolding e' by (rule strip_ping_changes [OF laws changes_distinct [OF c5]])
  have tags: "tag_name A e1 = tag" "tag_name A e2 = tag" "tag_name A e3 = tag" "tag_name A e4 = tag" "tag_name A e5 = tag"
    using changes_tag [OF c1] changes_tag [OF c2] changes_tag [OF c3] changes_tag [OF c4] changes_tag [OF c5]
    by (simp_all add: tag_def)
  have frames: "is_frame A e2 = is_frame A e" "is_frame A e3 = is_frame A e"
    by (simp_all add: is_frame_def tags tag_def [symmetric])
  let ?N = "{bs ''integrity'', bs ''http-equiv'', bs ''content'', bs ''srcdoc'', bs ''ping''}
           \<union> (if is_frame A e then {bs ''src''} else {}) \<union> zp_attrs"
  show "changes A ?N e e'"
  proof -
    have "changes A ?N e e1" "changes A ?N e1 e2" "changes A ?N e2 e3" "changes A ?N e3 e4" "changes A ?N e4 e5" "changes A ?N e5 e'"
      by (rule changes_mono [OF c1] changes_mono [OF c2] changes_mono [OF c3] changes_mono [OF c4] changes_mono [OF c5] changes_mono [OF c6];
          auto simp: frames)+
    then show ?thesis by (meson changes_trans)
  qed
  show "get_attribute A e' (bs ''integrity'') = None" if "tag = bs ''script'' \<or> tag = bs ''link''"
  proof -
    have "get_attribute A e1 (bs ''integrity'') = None"
      using that move_attribute_gone [OF laws d] by (simp add: e1_def strip_integrity_def tag_def)
    then show ?thesis
      using changes_get [OF c2, of "bs ''integrity''"] changes_get [OF c3, of "bs ''integrity''"] changes_get [OF c4, of "bs ''integrity''"]
        changes_get [OF c5, of "bs ''integrity''"] changes_get [OF c6, of "bs ''integrity''"]
      by (simp add: zp_attrs_def starts_with_def bs_def)
  qed
  show "get_attribute A e' (bs ''ping'') = None" if "tag = bs ''a'' \<or> tag = bs ''area''"
    using that move_attribute_gone [OF laws changes_distinct [OF c5]] tags(5) by (simp add: e' strip_ping_def)
  show "get_attribute A e' (bs ''srcdoc'') = None" if "is_frame A e"
  proof -
    have "get_attribute A e3 (bs ''srcdoc'') = None"
      using that move_attribute_gone [OF laws changes_distinct [OF c2]] by (simp add: e3_def move_srcdoc_def frames)
    then show ?thesis
      using changes_get [OF c4, of "bs ''srcdoc''"] changes_get [OF c5, of "bs ''srcdoc''"] changes_get [OF c6, of "bs ''srcdoc''"]
      by (simp add: zp_attrs_def starts_with_def bs_def)
  qed
  show "frame_src_kept v \<and> get_attribute A e (bs ''src'') = Some v"
    if fr: "is_frame A e" and v: "get_attribute A e' (bs ''src'') = Some v"
  proof -
    have v4: "get_attribute A e4 (bs ''src'') = Some v"
      using v changes_get [OF c5, of "bs ''src''"] changes_get [OF c6, of "bs ''src''"] by (simp add: zp_attrs_def starts_with_def bs_def)
    have v3: "get_attribute A e3 (bs ''src'') = get_attribute A e (bs ''src'')"
      using changes_get [OF c1, of "bs ''src''"] changes_get [OF c2, of "bs ''src''"] changes_get [OF c3, of "bs ''src''"]
      by (simp add: zp_attrs_def starts_with_def bs_def)
    show ?thesis
    proof (cases "get_attribute A e3 (bs ''src'')")
      case None
      then show ?thesis using v4 fr by (simp add: e4_def move_frame_src_def frames)
    next
      case (Some w)
      have "frame_src_kept w"
      proof (rule ccontr)
        assume "\<not> frame_src_kept w"
        moreover have "distinct_attrs A (set_attribute A e3 (bs ''data-zp-frame-src'') w)"
          by (rule set_distinct [OF laws changes_distinct [OF c3]]) simp
        ultimately have "get_attribute A e4 (bs ''src'') = None"
          using Some fr laws by (simp add: e4_def move_frame_src_def frames frame_src_kept_def get_remove Let_def)
        with v4 show False by simp
      qed
      moreover from this have "e4 = e3" using Some by (auto simp: e4_def move_frame_src_def frame_src_kept_def Let_def)
      ultimately show ?thesis using v4 Some v3 by simp
    qed
  qed
  show "get_attribute A e' (bs ''http-equiv'') = None \<and> get_attribute A e' (bs ''content'') = None"
    if m: "tag = bs ''meta''" and o: "meta_equiv A e = bs ''origin-trial''"
  proof -
    have "e1 = e" using m by (simp add: e1_def strip_integrity_def tag_def [symmetric] bs_def)
    then have g2: "get_attribute A e2 (bs ''http-equiv'') = None" "get_attribute A e2 (bs ''content'') = None"
      using filter_meta_origin_trial [OF laws d _ o] m by (simp_all add: e2_def tag_def)
    have g4: "get_attribute A e4 n = get_attribute A e2 n" if "n = bs ''http-equiv'' \<or> n = bs ''content''" for n
      using that changes_get [OF c3, of n] changes_get [OF c4, of n] by (auto simp: zp_attrs_def starts_with_def bs_def)
    then have "e5 = e4" using g2 by (simp add: e5_def rewrite_refresh_def)
    then show ?thesis
      using g2 g4 changes_get [OF c6, of "bs ''http-equiv''"] changes_get [OF c6, of "bs ''content''"]
      by (simp add: zp_attrs_def starts_with_def bs_def)
  qed
qed

subsection \<open>An element after the handler\<close>

lemma snapshot_names:
  assumes "element_laws A" "distinct_attrs A e"
  shows "\<forall>nv \<in> set (attrs_snapshot A e). attr_name_ok (fst nv) \<and> fst nv \<notin> zp_attrs"
    "distinct (map fst (attrs_snapshot A e))"
    "\<forall>nv \<in> set (attrs_snapshot A e). get_attribute A e (fst nv) = Some (snd nv)"
    "n \<in> set url_attrs \<or> is_on_handler n \<Longrightarrow> get_attribute A e n = Some v \<Longrightarrow> (n, v) \<in> set (attrs_snapshot A e)"
proof -
  have m: "get_attribute A e = map_of (attributes A e)"
    and ok: "\<forall>m \<in> fst ` set (attributes A e). attr_name_ok m \<or> starts_with [61] m"
    using assms unfolding element_laws_def by blast+
  have in_attrs: "nv \<in> set (attributes A e) \<and> (fst nv \<in> set url_attrs \<or> is_on_handler (fst nv))" if "nv \<in> set (attrs_snapshot A e)" for nv
    using that by (auto simp: attrs_snapshot_def)
  show "\<forall>nv \<in> set (attrs_snapshot A e). attr_name_ok (fst nv) \<and> fst nv \<notin> zp_attrs"
    using in_attrs ok loop_names(1,4) by blast
  show "distinct (map fst (attrs_snapshot A e))"
    using assms(2) unfolding attrs_snapshot_def distinct_attrs_def by (rule distinct_map_filter)
  show "\<forall>nv \<in> set (attrs_snapshot A e). get_attribute A e (fst nv) = Some (snd nv)"
    using in_attrs assms(2) by (auto simp: m distinct_attrs_def)
  show "n \<in> set url_attrs \<or> is_on_handler n \<Longrightarrow> get_attribute A e n = Some v \<Longrightarrow> (n, v) \<in> set (attrs_snapshot A e)"
    by (auto simp: m attrs_snapshot_def dest: map_of_SomeD)
qed

lemma on_handler_not_url: "is_on_handler n \<Longrightarrow> n \<notin> set url_attrs"
  by (auto simp: url_attrs_def is_on_handler_def starts_with_def bs_def)

lemma handler_attribute:
  assumes laws: "element_laws A" and d: "distinct_attrs A e" and ne: "h_origin env \<noteq> []"
    and run: "attr_loop A env base (attrs_snapshot A e) (e, ds) = Return ed'"
    and n: "n \<in> set url_attrs \<or> is_on_handler n" and v: "get_attribute A (fst ed') n = Some v"
  shows "\<exists>w. get_attribute A e n = Some w \<and> attr_post env base (tag_name A e) (n, w) (Some v)"
proof -
  note names = snapshot_names [OF laws d]
  have post: "changes A (fst ` set (attrs_snapshot A e) \<union> zp_attrs) e (fst ed')
      \<and> (\<forall>nv \<in> set (attrs_snapshot A e). attr_post env base (tag_name A e) nv (get_attribute A (fst ed') (fst nv)))"
  proof -
    have "attr_post env base (tag_name A e) nv (get_attribute A (fst x') (fst nv))"
      if "nv \<in> set (attrs_snapshot A e)" "distinct_attrs A (fst x)" "tag_name A (fst x) = tag_name A e"
        "get_attribute A (fst x) (fst nv) = Some (snd nv)" "attr_step A env base nv x = Return x'" for x x' nv
      using that names(1) attr_step_post [OF laws ne _ _ that(2,3,4,5)] by blast
    from attr_loop_post [where P = "attr_post env base (tag_name A e)" and ed = "(e, ds)" and tag = "tag_name A e",
        OF laws this names(1,2) _ _ _ run] d names(3) show ?thesis by simp
  qed
  show ?thesis
  proof (cases "get_attribute A e n")
    case None
    then have "n \<notin> fst ` set (attrs_snapshot A e) \<union> zp_attrs" using names(3) loop_names(1) [OF n] by force
    with changes_get [OF conjunct1 [OF post]] None v show ?thesis by simp
  next
    case (Some w)
    from names(4) [OF n Some] post v show ?thesis using Some by force
  qed
qed

lemma loop_keeps:
  assumes "element_laws A" "distinct_attrs A e" "attr_loop A env base (attrs_snapshot A e) (e, ds) = Return ed'"
    and "n \<notin> set url_attrs" "\<not> is_on_handler n" "n \<notin> zp_attrs"
  shows "get_attribute A (fst ed') n = get_attribute A e n" "tag_name A (fst ed') = tag_name A e"
proof -
  note names = snapshot_names [OF assms(1,2)]
  have c: "changes A (fst ` set (attrs_snapshot A e) \<union> zp_attrs) e (fst ed')"
    using attr_loop_post [OF assms(1) _ names(1,2), where ed = "(e, ds)" and tag = "tag_name A e" and P = "\<lambda>_ _. True"] names(3) assms(2,3)
    by simp
  have "n \<notin> fst ` set (attrs_snapshot A e)" using assms(4,5) by (auto simp: attrs_snapshot_def)
  with changes_get [OF c] assms(6) show "get_attribute A (fst ed') n = get_attribute A e n" by simp
  show "tag_name A (fst ed') = tag_name A e" by (rule changes_tag [OF c])
qed

lemma handled_element:
  assumes "attr_handler A env e st = Return (e', base, ds)"
  obtains ed' where "attr_loop A env base (attrs_snapshot A (before_loop A env base e)) (before_loop A env base e, snd st) = Return ed'"
    "e' = fst ed'"
  using assms by (auto simp: attr_handler_def Let_def and_then_Return)

lemma handled_attribute:
  assumes laws: "element_laws A" and d: "distinct_attrs A e" and ne: "h_origin env \<noteq> []"
    and run: "attr_handler A env e st = Return (e', base, ds)"
    and n: "n \<in> set url_attrs \<or> is_on_handler n" and v: "get_attribute A e' n = Some v"
  shows "\<exists>w. get_attribute A e n = Some w \<and> attr_post env base (tag_name A e) (n, w) (Some v)
    \<and> (n = bs ''src'' \<and> is_frame A e \<longrightarrow> frame_src_kept w)"
proof -
  let ?e1 = "before_loop A env base e"
  obtain ed' where loop: "attr_loop A env base (attrs_snapshot A ?e1) (?e1, snd st) = Return ed'" and e': "e' = fst ed'"
    using handled_element [OF run] .
  note bl = before_loop_facts [OF laws d, of env base]
  from handler_attribute [OF laws changes_distinct [OF bl(1)] ne loop n] v
  obtain w where w: "get_attribute A ?e1 n = Some w" "attr_post env base (tag_name A e) (n, w) (Some v)"
    using changes_tag [OF bl(1)] by (auto simp: e')
  show ?thesis
  proof (cases "n = bs ''src'' \<and> is_frame A e")
    case True
    then show ?thesis using bl(5) w by blast
  next
    case False
    then have "n \<notin> {bs ''integrity'', bs ''http-equiv'', bs ''content'', bs ''srcdoc'', bs ''ping''}
        \<union> (if is_frame A e then {bs ''src''} else {}) \<union> zp_attrs"
      using loop_names [OF n] by auto
    from changes_get [OF bl(1) this] w(1) have "get_attribute A e n = Some w" by simp
    then show ?thesis using w(2) False by blast
  qed
qed

lemma handled_other:
  assumes laws: "element_laws A" and d: "distinct_attrs A e" and run: "attr_handler A env e st = Return (e', base, ds)"
    and n: "n \<in> {bs ''integrity'', bs ''ping'', bs ''srcdoc'', bs ''http-equiv''}"
  shows "get_attribute A e' n = get_attribute A (before_loop A env base e) n" "tag_name A e' = tag_name A e"
proof -
  let ?e1 = "before_loop A env base e"
  obtain ed' where loop: "attr_loop A env base (attrs_snapshot A ?e1) (?e1, snd st) = Return ed'" and e': "e' = fst ed'"
    using handled_element [OF run] .
  have c: "changes A ({bs ''integrity'', bs ''http-equiv'', bs ''content'', bs ''srcdoc'', bs ''ping''}
           \<union> (if is_frame A e then {bs ''src''} else {}) \<union> zp_attrs) e ?e1" by (rule before_loop_facts(1) [OF laws d])
  have "n \<notin> set url_attrs" "\<not> is_on_handler n" "n \<notin> zp_attrs"
    using n by (auto simp: url_attrs_def is_on_handler_def zp_attrs_def starts_with_def bs_def)
  from loop_keeps [OF laws changes_distinct [OF c] loop this] changes_tag [OF c]
  show "get_attribute A e' n = get_attribute A ?e1 n" "tag_name A e' = tag_name A e" by (simp_all add: e')
qed

lemma frame_src_pairs:
  assumes "is_frame A e"
  shows "(tag_name A e, bs ''src'') \<notin> set subresource_attrs \<union> set navigation_attrs \<union> set srcset_attrs"
  using assms by (auto simp: is_frame_def subresource_attrs_def navigation_attrs_def srcset_attrs_def bs_def)


text \<open>A plain element, a tag with its attributes, and a link that runs a \<^verbatim>\<open>javascript:\<close> URL and sends a ping.\<close>

definition plain_element :: "(str \<times> (str \<times> str) list) element_api" where
  "plain_element =
     \<lparr>tag_name = fst,
      get_attribute = (\<lambda>e. map_of (filter (\<lambda>p. attr_name_ok (fst p)) (snd e))),
      set_attribute = (\<lambda>e n v. (fst e, filter (\<lambda>p. fst p \<noteq> n) (snd e) @ [(n, v)])),
      remove_attribute = (\<lambda>e n. (fst e, filter (\<lambda>p. fst p \<noteq> n) (snd e))),
      attributes = (\<lambda>e. filter (\<lambda>p. attr_name_ok (fst p)) (snd e))\<rparr>"

lemma map_of_filter_name: "map_of (filter (\<lambda>p. fst p \<noteq> n \<and> P p) xs) = (map_of (filter P xs))(n := None)"
  by (induction xs) (auto simp: fun_eq_iff)

lemma distinct_filter_name:
  assumes "distinct (map fst (filter P xs))"
  shows "distinct (map fst (filter (\<lambda>p. fst p \<noteq> n \<and> P p) xs))"
proof -
  have "filter (\<lambda>p. fst p \<noteq> n \<and> P p) xs = filter (\<lambda>p. fst p \<noteq> n) (filter P xs)" by (simp add: conj_commute)
  then show ?thesis using assms by (simp only: distinct_map_filter)
qed

lemma plain_element_laws: "element_laws plain_element"
  by (auto simp: element_laws_def plain_element_def distinct_attrs_def map_of_filter_name distinct_filter_name
      map_add_def fun_eq_iff split: option.splits)

definition sample_env :: "str html_env" where
  "sample_env =
     \<lparr>h_enc = pct_encode, h_urls = sample_urls, h_css = sample_parser,
      h_an = sample_analysis\<lparr>parse_source := (\<lambda>_ s. \<lparr>parse_errors = [bs ''unexpected token''], has_module_syntax = False, program = Other []\<rparr>)\<rparr>,
      h_pr = (\<lambda>_. False), h_target = bs ''https://t/'', h_origin = bs ''https://p''\<rparr>"

definition sample_link :: "str \<times> (str \<times> str) list" where
  "sample_link = (bs ''a'', [(bs ''ping'', bs ''/p''), (bs ''href'', bs ''javascript:)'')])"


end
