(* ===== verification/Html_Script.thy ===== *)
theory Html_Script
  imports Html_Attrs
begin

text \<open>
  The second pass of the HTML transformer and the transaction that chains the two passes
  (\<^verbatim>\<open>script_settings\<close>, \<^verbatim>\<open>HtmlTxn\<close> and \<^verbatim>\<open>transform\<close> in
  \<^verbatim>\<open>src/crates/zp-htmltx/src/lib.rs\<close>): inline scripts and style sheets are collected and replaced,
  import maps and speculation rules are routed, and the prelude is placed before anything that runs.

  The crate \<^verbatim>\<open>lol_html\<close> gives the handlers the start tags and the text of a document, the text of one
  node in one or more chunks; handlers run in the order they were registered, those of the document first.
  JSON text is read and written by the crate \<^verbatim>\<open>serde_json\<close>.
\<close>

subsection \<open>Import maps and speculation rules\<close>

datatype json =
  JNull
| JBool bool
| JNumber str
| JString str
| JArray "json list"
| JObject "(str \<times> json) list"

record json_crate =
  json_from_str :: "str \<Rightarrow> json option"
  json_to_string :: "json \<Rightarrow> str option"

text \<open>Rewriting below a value: the new value and whether it changed.\<close>

definition each :: "('a \<Rightarrow> 'a \<times> bool) \<Rightarrow> 'a list \<Rightarrow> 'a list \<times> bool" where
  "each f xs = (map (\<lambda>x. fst (f x)) xs, list_ex (\<lambda>x. snd (f x)) xs)"

definition on_value :: "(json \<Rightarrow> json \<times> bool) \<Rightarrow> str \<times> json \<Rightarrow> (str \<times> json) \<times> bool" where
  "on_value f kv = ((fst kv, fst (f (snd kv))), snd (f (snd kv)))"

definition on_object :: "((str \<times> json) list \<Rightarrow> (str \<times> json) list \<times> bool) \<Rightarrow> json \<Rightarrow> json \<times> bool" where
  "on_object f v = (case v of JObject m \<Rightarrow> (JObject (fst (f m)), snd (f m)) | _ \<Rightarrow> (v, False))"

definition on_array :: "(json list \<Rightarrow> json list \<times> bool) \<Rightarrow> json \<Rightarrow> json \<times> bool" where
  "on_array f v = (case v of JArray xs \<Rightarrow> (JArray (fst (f xs)), snd (f xs)) | _ \<Rightarrow> (v, False))"

definition on_field :: "str \<Rightarrow> (json \<Rightarrow> json \<times> bool) \<Rightarrow> json \<Rightarrow> json \<times> bool" where
  "on_field k f = on_object (each (\<lambda>kv. if fst kv = k then on_value f kv else (kv, False)))"

definition fix_target :: "((u8 \<Rightarrow> bool) \<Rightarrow> str \<Rightarrow> str) \<Rightarrow> str \<Rightarrow> str \<Rightarrow> json \<Rightarrow> json \<times> bool" where
  "fix_target enc target_url proxy_origin v =
     (case v of
        JString s \<Rightarrow>
          (case proxied_module_script_url enc s target_url proxy_origin of
             Some nxt \<Rightarrow> (JString nxt, True)
           | None \<Rightarrow> (v, False))
      | _ \<Rightarrow> (v, False))"

definition fix_map :: "((u8 \<Rightarrow> bool) \<Rightarrow> str \<Rightarrow> str) \<Rightarrow> str \<Rightarrow> str \<Rightarrow> json \<Rightarrow> json \<times> bool" where
  "fix_map enc target_url proxy_origin = on_object (each (on_value (fix_target enc target_url proxy_origin)))"

definition importmap_doc :: "((u8 \<Rightarrow> bool) \<Rightarrow> str \<Rightarrow> str) \<Rightarrow> str \<Rightarrow> str \<Rightarrow> json \<Rightarrow> json \<times> bool" where
  "importmap_doc enc target_url proxy_origin doc =
     (let (doc, c1) = on_field (bs ''imports'') (fix_map enc target_url proxy_origin) doc;
          (doc, c2) = on_field (bs ''scopes'') (on_object (each (on_value (fix_map enc target_url proxy_origin)))) doc
      in (doc, c1 \<or> c2))"

definition rewrite_importmap_json ::
    "json_crate \<Rightarrow> ((u8 \<Rightarrow> bool) \<Rightarrow> str \<Rightarrow> str) \<Rightarrow> str \<Rightarrow> str \<Rightarrow> str \<Rightarrow> str option" where
  "rewrite_importmap_json J enc raw_json target_url proxy_origin =
     (case json_from_str J raw_json of
        None \<Rightarrow> None
      | Some doc \<Rightarrow>
          let (doc, changed) = importmap_doc enc target_url proxy_origin doc
          in if changed then json_to_string J doc else None)"

definition fix_rule_url :: "((u8 \<Rightarrow> bool) \<Rightarrow> str \<Rightarrow> str) \<Rightarrow> bool \<Rightarrow> str \<Rightarrow> str \<Rightarrow> json \<Rightarrow> json \<times> bool" where
  "fix_rule_url enc nav target_url proxy_origin u =
     (case u of
        JString s \<Rightarrow>
          (case absolute_target_url s target_url of
             None \<Rightarrow> (u, False)
           | Some a \<Rightarrow>
               (case (if nav then proxied_navigation_url enc a proxy_origin (bs ''/zp/'')
                      else Some (subresource_proxy_url enc a proxy_origin (bs ''/zp/'') None)) of
                  Some n \<Rightarrow> (JString n, True)
                | None \<Rightarrow> (u, False)))
      | _ \<Rightarrow> (u, False))"

definition fix_rules :: "((u8 \<Rightarrow> bool) \<Rightarrow> str \<Rightarrow> str) \<Rightarrow> bool \<Rightarrow> str \<Rightarrow> str \<Rightarrow> json \<Rightarrow> json \<times> bool" where
  "fix_rules enc nav target_url proxy_origin =
     on_array (each (on_field (bs ''urls'') (on_array (each (fix_rule_url enc nav target_url proxy_origin)))))"

definition speculation_doc :: "((u8 \<Rightarrow> bool) \<Rightarrow> str \<Rightarrow> str) \<Rightarrow> str \<Rightarrow> str \<Rightarrow> json \<Rightarrow> json \<times> bool" where
  "speculation_doc enc target_url proxy_origin doc =
     (let (doc, c1) = on_field (bs ''prefetch'') (fix_rules enc False target_url proxy_origin) doc;
          (doc, c2) = on_field (bs ''prerender'') (fix_rules enc True target_url proxy_origin) doc
      in (doc, c1 \<or> c2))"

definition rewrite_speculationrules_json ::
    "json_crate \<Rightarrow> ((u8 \<Rightarrow> bool) \<Rightarrow> str \<Rightarrow> str) \<Rightarrow> str \<Rightarrow> str \<Rightarrow> str \<Rightarrow> str option" where
  "rewrite_speculationrules_json J enc raw_json target_url proxy_origin =
     (case json_from_str J raw_json of
        None \<Rightarrow> None
      | Some doc \<Rightarrow>
          let (doc, changed) = speculation_doc enc target_url proxy_origin doc
          in if changed then json_to_string J doc else None)"

subsection \<open>Inline scripts and style sheets\<close>

datatype inline_kind = Inline_Script script_kind | Importmap | Speculationrules

datatype 'e doc_token =
  Start_Tag 'e
| Text_Chunk str str bool
| Other_Token str

text \<open>A chunk of text comes with the name of the element it is the text of, and whether it is the last of its node.\<close>

datatype 'e out_piece = Out_Token "'e doc_token" | Out_Html str

record script_state =
  cur_kind :: "inline_kind option"
  cur_buffer :: str
  style_buffer :: str
  injected :: bool
  script_diags :: "str list"

definition BLOCKED_SCRIPT :: str where
  "BLOCKED_SCRIPT = bs ''throw new DOMException('' @ [39] @ bs ''Blocked by ZeroProxy rewrite policy'' @ [39, 44, 39]
     @ bs ''NotSupportedError'' @ [39] @ bs '');''"

definition inline_kind_of :: "'e element_api \<Rightarrow> 'e \<Rightarrow> inline_kind option" where
  "inline_kind_of A e =
     (if get_attribute A e (bs ''src'') \<noteq> None then None
      else case get_attribute A e (bs ''type'') of
             None \<Rightarrow> Some (Inline_Script Classic)
           | Some t \<Rightarrow>
               if is_module_type t then Some (Inline_Script Module)
               else if eq_ignore_ascii_case (trim t) (bs ''importmap'') then Some Importmap
               else if eq_ignore_ascii_case (trim t) (bs ''speculationrules'') then Some Speculationrules
               else if t \<noteq> [] \<and> \<not> is_javascript_type t then None
               else Some (Inline_Script Classic))"

definition wrap_call :: "str \<Rightarrow> str \<Rightarrow> str" where
  "wrap_call name code = name @ bs ''('' @ inline_script_payload code @ bs '');''"

definition raw_wrapper :: "script_kind \<Rightarrow> str" where
  "raw_wrapper knd = (if knd = Module then bs ''__ZP_EXEC_INLINE_MODULE'' else bs ''__ZP_EXEC_INLINE_SCRIPT'')"

definition rewritten_wrapper :: "script_kind \<Rightarrow> str" where
  "rewritten_wrapper knd =
     (if knd = Module then bs ''__ZP_EXEC_INLINE_REWRITTEN_MODULE'' else bs ''__ZP_EXEC_INLINE_REWRITTEN'')"

definition script_replacement :: "'u html_env \<Rightarrow> script_kind \<Rightarrow> str \<Rightarrow> (str \<times> str list) outcome" where
  "script_replacement env knd src =
     (if length src \<le> MAX_PAGE_REWRITE_INLINE_BYTES then Return (wrap_call (raw_wrapper knd) src, [])
      else and_then (rewrite_code env knd src) (\<lambda>res.
             case res of
               Inr r \<Rightarrow> Return (wrap_call (rewritten_wrapper knd) (result_code r), [])
             | Inl err \<Rightarrow> Return (BLOCKED_SCRIPT, [bs ''inline script rewrite failed: '' @ rewrite_error_text err])))"

definition json_replacement :: "json_crate \<Rightarrow> 'u html_env \<Rightarrow> inline_kind \<Rightarrow> str \<Rightarrow> str" where
  "json_replacement J env ik src =
     (case (if ik = Importmap then rewrite_importmap_json J (h_enc env) src (h_target env) (h_origin env)
            else rewrite_speculationrules_json J (h_enc env) src (h_target env) (h_origin env)) of
        Some json \<Rightarrow> json
      | None \<Rightarrow> src)"

definition inline_replacement ::
    "json_crate \<Rightarrow> 'u html_env \<Rightarrow> inline_kind \<Rightarrow> str \<Rightarrow> (str \<times> str list) outcome" where
  "inline_replacement J env ik src =
     (case ik of
        Inline_Script knd \<Rightarrow> script_replacement env knd src
      | _ \<Rightarrow> Return (json_replacement J env ik src, []))"

definition style_replacement :: "'u html_env \<Rightarrow> str \<Rightarrow> str outcome" where
  "style_replacement env css =
     and_then (rewrite_style env css (h_target env)) (\<lambda>res. Return (case res of Inr c \<Rightarrow> c | Inl _ \<Rightarrow> css))"

text \<open>
  What a handler does to a chunk of text: the markup it puts in its place, when it removes the chunk, and the new
  state.
\<close>

definition style_text :: "'u html_env \<Rightarrow> str \<Rightarrow> bool \<Rightarrow> script_state \<Rightarrow> (str option \<times> script_state) outcome" where
  "style_text env chunk lst st =
     (let st = st\<lparr>style_buffer := style_buffer st @ chunk\<rparr>
      in if lst
         then and_then (style_replacement env (style_buffer st)) (\<lambda>c. Return (Some c, st\<lparr>style_buffer := []\<rparr>))
         else Return (Some [], st))"

definition script_text ::
    "json_crate \<Rightarrow> 'u html_env \<Rightarrow> str \<Rightarrow> bool \<Rightarrow> script_state \<Rightarrow> (str option \<times> script_state) outcome" where
  "script_text J env chunk lst st =
     (case cur_kind st of
        None \<Rightarrow> Return (None, st)
      | Some ik \<Rightarrow>
          let st = st\<lparr>cur_buffer := cur_buffer st @ chunk\<rparr>
          in if lst
             then and_then (inline_replacement J env ik (cur_buffer st)) (\<lambda>(c, ds).
                    Return (Some c, st\<lparr>cur_buffer := [], script_diags := script_diags st @ ds\<rparr>))
             else Return (Some [], st))"

subsection \<open>The prelude\<close>

definition anchors :: "(str \<times> bool) list" where
  "anchors = [(bs ''html'', False), (bs ''head'', False), (bs ''body'', False), (bs ''script'', True), (bs ''*'', True)]"

text \<open>The anchor that inserts at an element: before it, or as its first content.\<close>

fun run_anchors :: "(str \<times> bool) list \<Rightarrow> str \<Rightarrow> bool \<Rightarrow> bool option \<times> bool" where
  "run_anchors [] tag ij = (None, ij)"
| "run_anchors ((sel, before_element) # as) tag ij =
     (if sel = bs ''*'' \<or> sel = tag
      then (if ij then run_anchors as tag True
            else (Some before_element, snd (run_anchors as tag True)))
      else run_anchors as tag ij)"

definition start_tag :: "'e element_api \<Rightarrow> str \<Rightarrow> 'e \<Rightarrow> script_state \<Rightarrow> 'e out_piece list \<times> script_state" where
  "start_tag A prelude e st =
     (let st = (if tag_name A e = bs ''script'' then st\<lparr>cur_kind := inline_kind_of A e\<rparr> else st)
      in if prelude = [] then ([Out_Token (Start_Tag e)], st)
         else let (place, ij) = run_anchors anchors (tag_name A e) (injected st)
              in (case place of
                    None \<Rightarrow> [Out_Token (Start_Tag e)]
                  | Some True \<Rightarrow> [Out_Html prelude, Out_Token (Start_Tag e)]
                  | Some False \<Rightarrow> [Out_Token (Start_Tag e), Out_Html prelude],
                  st\<lparr>injected := ij\<rparr>))"

definition doc_text :: "str \<Rightarrow> str \<Rightarrow> script_state \<Rightarrow> 'e out_piece list \<times> script_state" where
  "doc_text prelude chunk st =
     (if prelude = [] then ([], st)
      else if trim chunk = [] then ([], st)
      else if injected st then ([], st)
      else ([Out_Html prelude], st\<lparr>injected := True\<rparr>))"

definition text_chunk ::
    "json_crate \<Rightarrow> 'u html_env \<Rightarrow> str \<Rightarrow> str \<Rightarrow> str \<Rightarrow> bool \<Rightarrow> script_state \<Rightarrow> ('e out_piece list \<times> script_state) outcome" where
  "text_chunk J env prelude ctx chunk lst st =
     (let (pre, st) = doc_text prelude chunk st
      in and_then (if ctx = bs ''style'' then style_text env chunk lst st
                   else if ctx = bs ''script'' then script_text J env chunk lst st
                   else Return (None, st)) (\<lambda>(r, st).
           Return (pre @ (case r of
                            None \<Rightarrow> [Out_Token (Text_Chunk ctx chunk lst)]
                          | Some c \<Rightarrow> if c = [] then [] else [Out_Html c]), st)))"

fun script_token ::
    "'e element_api \<Rightarrow> json_crate \<Rightarrow> 'u html_env \<Rightarrow> str \<Rightarrow> 'e doc_token \<Rightarrow> script_state
      \<Rightarrow> ('e out_piece list \<times> script_state) outcome" where
  "script_token A J env prelude (Start_Tag e) st = Return (start_tag A prelude e st)"
| "script_token A J env prelude (Text_Chunk ctx chunk lst) st = text_chunk J env prelude ctx chunk lst st"
| "script_token A J env prelude (Other_Token s) st = Return ([Out_Token (Other_Token s)], st)"

definition doc_end :: "str \<Rightarrow> script_state \<Rightarrow> 'e out_piece list" where
  "doc_end prelude st = (if prelude \<noteq> [] \<and> \<not> injected st then [Out_Html prelude] else [])"

fun script_tokens ::
    "'e element_api \<Rightarrow> json_crate \<Rightarrow> 'u html_env \<Rightarrow> str \<Rightarrow> 'e doc_token list \<Rightarrow> script_state
      \<Rightarrow> ('e out_piece list \<times> script_state) outcome" where
  "script_tokens A J env prelude [] st = Return ([], st)"
| "script_tokens A J env prelude (t # ts) st =
     and_then (script_token A J env prelude t st) (\<lambda>(o1, st).
       and_then (script_tokens A J env prelude ts st) (\<lambda>(o2, st). Return (o1 @ o2, st)))"

definition script_init :: script_state where
  "script_init = \<lparr>cur_kind = None, cur_buffer = [], style_buffer = [], injected = False, script_diags = []\<rparr>"

definition script_pass ::
    "'e element_api \<Rightarrow> json_crate \<Rightarrow> 'u html_env \<Rightarrow> str \<Rightarrow> 'e doc_token list
      \<Rightarrow> ('e out_piece list \<times> str list) outcome" where
  "script_pass A J env prelude ts =
     and_then (script_tokens A J env prelude ts script_init) (\<lambda>(ps, st).
       Return (ps @ doc_end prelude st, script_diags st))"

subsection \<open>Text nodes come as a whole\<close>

text \<open>A document as a list of start tags, text nodes with the chunks they arrive in, and other markup.\<close>

datatype 'e doc_node =
  Element_Node 'e
| Text_Node str "str list" str
| Markup_Node str

fun node_tokens :: "'e doc_node \<Rightarrow> 'e doc_token list" where
  "node_tokens (Element_Node e) = [Start_Tag e]"
| "node_tokens (Text_Node ctx cs c) = map (\<lambda>c. Text_Chunk ctx c False) cs @ [Text_Chunk ctx c True]"
| "node_tokens (Markup_Node s) = [Other_Token s]"

definition html_piece :: "str \<Rightarrow> 'e out_piece list" where
  "html_piece c = (if c = [] then [] else [Out_Html c])"

text \<open>The pass on whole nodes: the text of a node is replaced at once.\<close>

fun node_output ::
    "'e element_api \<Rightarrow> json_crate \<Rightarrow> 'u html_env \<Rightarrow> inline_kind option \<Rightarrow> 'e doc_node
      \<Rightarrow> ('e out_piece list \<times> inline_kind option \<times> str list) outcome" where
  "node_output A J env knd (Element_Node e) =
     Return ([Out_Token (Start_Tag e)], if tag_name A e = bs ''script'' then inline_kind_of A e else knd, [])"
| "node_output A J env knd (Text_Node ctx cs c) =
     (let src = concat cs @ c
      in if ctx = bs ''style'' then and_then (style_replacement env src) (\<lambda>css. Return (html_piece css, knd, []))
         else case (if ctx = bs ''script'' then knd else None) of
                None \<Rightarrow> Return (map Out_Token (node_tokens (Text_Node ctx cs c)), knd, [])
              | Some ik \<Rightarrow> and_then (inline_replacement J env ik src) (\<lambda>(code, ds). Return (html_piece code, knd, ds)))"
| "node_output A J env knd (Markup_Node s) = Return ([Out_Token (Other_Token s)], knd, [])"

fun node_pass ::
    "'e element_api \<Rightarrow> json_crate \<Rightarrow> 'u html_env \<Rightarrow> inline_kind option \<Rightarrow> 'e doc_node list
      \<Rightarrow> ('e out_piece list \<times> inline_kind option \<times> str list) outcome" where
  "node_pass A J env knd [] = Return ([], knd, [])"
| "node_pass A J env knd (n # ns) =
     and_then (node_output A J env knd n) (\<lambda>(o1, knd, d1).
       and_then (node_pass A J env knd ns) (\<lambda>(o2, knd, d2). Return (o1 @ o2, knd, d1 @ d2)))"

lemma and_then_assoc: "and_then (and_then x f) g = and_then x (\<lambda>v. and_then (f v) g)"
  by (cases x) simp_all

lemma and_then_Return_right [simp]: "and_then x Return = x"
  by (cases x) simp_all

lemma script_tokens_append:
  "script_tokens A J env prelude (ts @ us) st =
     and_then (script_tokens A J env prelude ts st) (\<lambda>(o1, st).
       and_then (script_tokens A J env prelude us st) (\<lambda>(o2, st). Return (o1 @ o2, st)))"
  by (induction ts arbitrary: st) (simp_all add: and_then_assoc case_prod_beta')

text \<open>The chunks before the last of a style sheet or an inline script are collected and removed.\<close>

lemma style_chunks:
  "script_tokens A J env [] (map (\<lambda>c. Text_Chunk (bs ''style'') c False) cs) st
   = Return ([], st\<lparr>style_buffer := style_buffer st @ concat cs\<rparr>)"
  by (induction cs arbitrary: st) (simp_all add: text_chunk_def doc_text_def style_text_def)

lemma script_not_style: "bs ''script'' \<noteq> bs ''style''"
  by (simp add: bs_def)

lemma script_chunks:
  "cur_kind st = Some ik \<Longrightarrow>
   script_tokens A J env [] (map (\<lambda>c. Text_Chunk (bs ''script'') c False) cs) st
   = Return ([], st\<lparr>cur_buffer := cur_buffer st @ concat cs\<rparr>)"
  by (induction cs arbitrary: st) (simp_all add: text_chunk_def doc_text_def script_text_def script_not_style)

lemma other_chunk:
  assumes "ctx \<noteq> bs ''style''" "ctx = bs ''script'' \<longrightarrow> cur_kind st = None"
  shows "script_token A J env [] (Text_Chunk ctx c lst) st = Return ([Out_Token (Text_Chunk ctx c lst)], st)"
  using assms by (simp add: text_chunk_def doc_text_def script_text_def)

lemma other_chunks:
  assumes "ctx \<noteq> bs ''style''" "ctx = bs ''script'' \<longrightarrow> cur_kind st = None"
  shows "script_tokens A J env [] (map (\<lambda>c. Text_Chunk ctx c False) cs) st
    = Return (map (\<lambda>c. Out_Token (Text_Chunk ctx c False)) cs, st)"
  by (induction cs) (simp_all add: other_chunk [OF assms] del: script_token.simps)

lemma text_node_tokens:
  assumes "cur_buffer st = []" "style_buffer st = []"
  shows "script_tokens A J env [] (node_tokens (Text_Node ctx cs c)) st
    = and_then (node_output A J env (cur_kind st) (Text_Node ctx cs c))
        (\<lambda>(ps, knd, ds). Return (ps, st\<lparr>cur_kind := knd, script_diags := script_diags st @ ds\<rparr>))"
proof -
  consider (style) "ctx = bs ''style''"
    | (script) ik where "ctx = bs ''script''" "cur_kind st = Some ik"
    | (other) "ctx \<noteq> bs ''style''" "ctx = bs ''script'' \<longrightarrow> cur_kind st = None" by (cases "cur_kind st") auto
  then show ?thesis
  proof cases
    case style
    then show ?thesis using assms
      by (cases st) (simp add: script_tokens_append style_chunks text_chunk_def doc_text_def style_text_def and_then_assoc html_piece_def)
  next
    case script
    then show ?thesis using assms
      by (cases st) (simp add: script_tokens_append script_chunks text_chunk_def doc_text_def script_text_def and_then_assoc
          case_prod_beta' html_piece_def script_not_style)
  next
    case other
    then show ?thesis
      by (simp add: script_tokens_append other_chunks other_chunk del: script_token.simps)
  qed
qed

lemma node_tokens_output:
  assumes "cur_buffer st = []" "style_buffer st = []"
  shows "script_tokens A J env [] (node_tokens n) st
    = and_then (node_output A J env (cur_kind st) n)
        (\<lambda>(ps, knd, ds). Return (ps, st\<lparr>cur_kind := knd, script_diags := script_diags st @ ds\<rparr>))"
proof (cases n)
  case (Text_Node ctx cs c)
  show ?thesis unfolding Text_Node using assms by (rule text_node_tokens)
qed (simp_all add: start_tag_def)

lemma script_tokens_nodes:
  assumes "cur_buffer st = []" "style_buffer st = []"
  shows "script_tokens A J env [] (concat (map node_tokens ns)) st
    = and_then (node_pass A J env (cur_kind st) ns)
        (\<lambda>(ps, knd, ds). Return (ps, st\<lparr>cur_kind := knd, script_diags := script_diags st @ ds\<rparr>))"
  using assms
  by (induction ns arbitrary: st)
    (simp_all add: script_tokens_append node_tokens_output and_then_assoc case_prod_beta' del: node_output.simps node_tokens.simps)


subsection \<open>The prelude comes first\<close>

lemma run_anchors_injected: "run_anchors as tag True = (None, True)"
  by (induction as tag True rule: run_anchors.induct) auto

definition anchor_tags :: "str list" where
  "anchor_tags = [bs ''html'', bs ''head'', bs ''body'']"

lemma run_anchors_first: "run_anchors anchors tag False = (Some (tag \<notin> set anchor_tags), True)"
  by (auto simp: anchors_def anchor_tags_def run_anchors_injected)

lemma script_token_injected:
  "script_token A J env prelude t (st\<lparr>injected := True\<rparr>)
   = and_then (script_token A J env [] t st) (\<lambda>(ps, st). Return (ps, st\<lparr>injected := True\<rparr>))"
  by (cases t; cases st)
    (auto simp: start_tag_def run_anchors_injected text_chunk_def doc_text_def style_text_def script_text_def and_then_assoc
      case_prod_beta' Let_def split: option.splits)

lemma script_tokens_injected:
  "script_tokens A J env prelude ts (st\<lparr>injected := True\<rparr>)
   = and_then (script_tokens A J env [] ts st) (\<lambda>(ps, st). Return (ps, st\<lparr>injected := True\<rparr>))"
  by (induction ts arbitrary: st) (simp_all add: script_token_injected and_then_assoc case_prod_beta' del: script_token.simps)

text \<open>
  The text before the first element is no script and no style sheet; what may come before the prelude is white space,
  comments and document types, and one of the tags the prelude goes into.
\<close>

fun outside :: "'e doc_token list \<Rightarrow> bool" where
  "outside [] \<longleftrightarrow> True"
| "outside (Start_Tag e # ts) \<longleftrightarrow> True"
| "outside (Text_Chunk ctx s lst # ts) \<longleftrightarrow> ctx \<noteq> bs ''style'' \<and> ctx \<noteq> bs ''script'' \<and> outside ts"
| "outside (Other_Token s # ts) \<longleftrightarrow> outside ts"

fun quiet_piece :: "'e out_piece \<Rightarrow> bool" where
  "quiet_piece (Out_Token (Start_Tag e)) \<longleftrightarrow> False"
| "quiet_piece (Out_Token (Text_Chunk ctx s lst)) \<longleftrightarrow> trim s = []"
| "quiet_piece (Out_Token (Other_Token s)) \<longleftrightarrow> True"
| "quiet_piece (Out_Html s) \<longleftrightarrow> False"

definition quiet_start :: "'e element_api \<Rightarrow> 'e out_piece list \<Rightarrow> bool" where
  "quiet_start A pre \<longleftrightarrow>
     (\<exists>qs rest. pre = qs @ rest \<and> list_all quiet_piece qs
        \<and> (rest = [] \<or> (\<exists>e. rest = [Out_Token (Start_Tag e)] \<and> tag_name A e \<in> set anchor_tags)))"

lemma quiet_start_Nil [simp]: "quiet_start A []"
  by (auto simp: quiet_start_def)

lemma quiet_start_Cons:
  assumes "quiet_piece p" "quiet_start A pre"
  shows "quiet_start A (p # pre)"
proof -
  from assms(2) obtain qs rest where "pre = qs @ rest" "list_all quiet_piece qs"
    "rest = [] \<or> (\<exists>e. rest = [Out_Token (Start_Tag e)] \<and> tag_name A e \<in> set anchor_tags)"
    unfolding quiet_start_def by blast
  with assms(1) have "p # pre = (p # qs) @ rest \<and> list_all quiet_piece (p # qs)
      \<and> (rest = [] \<or> (\<exists>e. rest = [Out_Token (Start_Tag e)] \<and> tag_name A e \<in> set anchor_tags))" by simp
  then show ?thesis unfolding quiet_start_def by blast
qed

lemma quiet_start_anchor:
  assumes "tag_name A e \<in> set anchor_tags"
  shows "quiet_start A [Out_Token (Start_Tag e)]"
proof -
  have "[Out_Token (Start_Tag e)] = [] @ [Out_Token (Start_Tag e)] \<and> list_all quiet_piece ([] :: 'a out_piece list)" by simp
  with assms show ?thesis unfolding quiet_start_def by blast
qed

lemma quiet_start_quiet: "list_all quiet_piece pre \<Longrightarrow> quiet_start A pre"
  by (auto simp: quiet_start_def)

definition placed ::
    "'e element_api \<Rightarrow> json_crate \<Rightarrow> 'u html_env \<Rightarrow> str \<Rightarrow> 'e doc_token list \<Rightarrow> script_state
      \<Rightarrow> 'e out_piece list \<Rightarrow> script_state \<Rightarrow> bool" where
  "placed A J env prelude ts st out st' \<longleftrightarrow>
     (\<exists>st''. script_diags st'' = script_diags st'
        \<and> (if injected st'
           then \<exists>pre post. out = pre @ [Out_Html prelude] @ post \<and> quiet_start A pre
                  \<and> script_tokens A J env [] ts st = Return (pre @ post, st'')
           else list_all quiet_piece out \<and> script_tokens A J env [] ts st = Return (out, st'')))"

lemma placed_injectedI:
  assumes "injected st'" "script_diags st'' = script_diags st'" "quiet_start A pre"
    "script_tokens A J env [] ts st = Return (pre @ post, st'')" "out = pre @ [Out_Html prelude] @ post"
  shows "placed A J env prelude ts st out st'"
  using assms unfolding placed_def by auto

lemma placed_quietI:
  assumes "\<not> injected st'" "script_diags st'' = script_diags st'" "list_all quiet_piece out"
    "script_tokens A J env [] ts st = Return (out, st'')"
  shows "placed A J env prelude ts st out st'"
  using assms unfolding placed_def by auto

lemma placed_cases:
  assumes "placed A J env prelude ts st out st'"
  obtains (here) pre post st'' where "injected st'" "script_diags st'' = script_diags st'" "quiet_start A pre"
      "script_tokens A J env [] ts st = Return (pre @ post, st'')" "out = pre @ [Out_Html prelude] @ post"
    | (quiet) st'' where "\<not> injected st'" "script_diags st'' = script_diags st'" "list_all quiet_piece out"
      "script_tokens A J env [] ts st = Return (out, st'')"
  using assms unfolding placed_def by (cases "injected st'") auto

lemma placed_Cons:
  assumes "script_token A J env [] t st = Return ([p], st)" "quiet_piece p" "placed A J env prelude ts st out st'"
  shows "placed A J env prelude (t # ts) st (p # out) st'"
  using assms(3)
proof (cases rule: placed_cases)
  case (here pre post st'')
  then show ?thesis using assms(1,2) by (intro placed_injectedI [of _ st'' A "p # pre"]) (simp_all add: quiet_start_Cons)
next
  case (quiet st'')
  then show ?thesis using assms(1,2) by (intro placed_quietI [of _ st'']) simp_all
qed

lemma placed_rest:
  assumes "script_token A J env [] t st = Return (qs @ rs, st1)" "quiet_start A qs"
    "script_tokens A J env prelude ts (st1\<lparr>injected := True\<rparr>) = Return (out, st')"
  shows "placed A J env prelude (t # ts) st (qs @ Out_Html prelude # rs @ out) st'"
proof -
  from assms(3) obtain st2 where "script_tokens A J env [] ts st1 = Return (out, st2)" "st' = st2\<lparr>injected := True\<rparr>"
    by (auto simp: script_tokens_injected and_then_Return)
  with assms(1,2) show ?thesis by (intro placed_injectedI [of _ st2 A qs _ _ _ _ "rs @ out"]) simp_all
qed

lemma prelude_placed:
  assumes "prelude \<noteq> []" "outside ts" "\<not> injected st" "script_tokens A J env prelude ts st = Return (out, st')"
  shows "placed A J env prelude ts st out st'"
  using assms(2-)
proof (induction ts arbitrary: out)
  case Nil
  then show ?case by (auto simp: placed_def)
next
  case (Cons t ts)
  show ?case
  proof (cases t)
    case (Start_Tag e)
    let ?st1 = "if tag_name A e = bs ''script'' then st\<lparr>cur_kind := inline_kind_of A e\<rparr> else st"
    have w: "script_token A J env [] t st = Return ([Out_Token t], ?st1)" by (simp add: Start_Tag start_tag_def)
    have inj: "injected ?st1 = False" using Cons.prems(2) by simp
    show ?thesis
    proof (cases "tag_name A e \<in> set anchor_tags")
      case True
      from Cons.prems(3) assms(1) inj True obtain rest where
        r: "script_tokens A J env prelude ts (?st1\<lparr>injected := True\<rparr>) = Return (rest, st')"
        "out = Out_Token t # Out_Html prelude # rest"
        by (auto simp: Start_Tag start_tag_def Let_def run_anchors_first and_then_Return)
      from placed_rest [of A J env t st "[Out_Token t]" "[]", OF _ _ r(1)] w True r(2) show ?thesis
        by (simp add: Start_Tag quiet_start_anchor)
    next
      case False
      from Cons.prems(3) assms(1) inj False obtain rest where
        r: "script_tokens A J env prelude ts (?st1\<lparr>injected := True\<rparr>) = Return (rest, st')"
        "out = Out_Html prelude # Out_Token t # rest"
        by (auto simp: Start_Tag start_tag_def Let_def run_anchors_first and_then_Return)
      from placed_rest [of A J env t st "[]" "[Out_Token t]", OF _ _ r(1)] w r(2) show ?thesis by simp
    qed
  next
    case (Text_Chunk ctx s lst)
    with Cons.prems(1) have o: "ctx \<noteq> bs ''style''" "ctx \<noteq> bs ''script''" "outside ts" by auto
    have w: "script_token A J env [] t st = Return ([Out_Token t], st)" unfolding Text_Chunk by (rule other_chunk) (use o in auto)
    show ?thesis
    proof (cases "trim s = []")
      case True
      with Cons.prems(3) o obtain rest where r: "script_tokens A J env prelude ts st = Return (rest, st')" "out = Out_Token t # rest"
        by (cases "prelude = []") (auto simp: Text_Chunk text_chunk_def doc_text_def and_then_Return)
      from placed_Cons [OF w _ Cons.IH [OF o(3) Cons.prems(2) r(1)]] True r(2) show ?thesis by (simp add: Text_Chunk)
    next
      case False
      with Cons.prems(2,3) o assms(1) obtain rest where
        r: "script_tokens A J env prelude ts (st\<lparr>injected := True\<rparr>) = Return (rest, st')" "out = Out_Html prelude # Out_Token t # rest"
        by (auto simp: Text_Chunk text_chunk_def doc_text_def and_then_Return)
      from placed_rest [of A J env t st "[]" "[Out_Token t]", OF _ _ r(1)] w r(2) show ?thesis by simp
    qed
  next
    case (Other_Token s)
    have w: "script_token A J env [] t st = Return ([Out_Token t], st)" by (simp add: Other_Token)
    from Cons.prems(3) obtain rest where r: "script_tokens A J env prelude ts st = Return (rest, st')" "out = Out_Token t # rest"
      by (auto simp: Other_Token and_then_Return)
    from Cons.prems(1) have "outside ts" by (simp add: Other_Token)
    from placed_Cons [OF w _ Cons.IH [OF this Cons.prems(2) r(1)]] r(2) show ?thesis by (simp add: Other_Token)
  qed
qed

text \<open>
  C14. The prelude is inserted exactly once, and nothing of the page can run before it: what precedes it is white space,
  comments and the tag of the document, its head or its body. The rest of the document is what it is without a prelude.
\<close>

theorem prelude_first:
  assumes "prelude \<noteq> []" "outside ts" "script_pass A J env prelude ts = Return (out, ds)"
  shows "\<exists>pre post. out = pre @ [Out_Html prelude] @ post \<and> quiet_start A pre
    \<and> script_pass A J env [] ts = Return (pre @ post, ds)"
proof -
  from assms(3) obtain ps st' where run: "script_tokens A J env prelude ts script_init = Return (ps, st')"
    and out: "out = ps @ doc_end prelude st'" and ds: "ds = script_diags st'"
    by (auto simp: script_pass_def and_then_Return)
  have "placed A J env prelude ts script_init ps st'"
    by (rule prelude_placed [OF assms(1,2) _ run]) (simp add: script_init_def)
  then show ?thesis
  proof (cases rule: placed_cases)
    case (here pre post st'')
    then have "out = pre @ [Out_Html prelude] @ post" "script_pass A J env [] ts = Return (pre @ post, ds)"
      by (simp_all add: out ds script_pass_def doc_end_def)
    with here(3) show ?thesis by blast
  next
    case (quiet st'')
    then have "out = ps @ [Out_Html prelude] @ []" "script_pass A J env [] ts = Return (ps @ [], ds)"
      using assms(1) by (simp_all add: out ds script_pass_def doc_end_def)
    with quiet_start_quiet [OF quiet(3)] show ?thesis by blast
  qed
qed

definition sample_json :: json_crate where
  "sample_json = \<lparr>json_from_str = (\<lambda>_. None), json_to_string = (\<lambda>_. None)\<rparr>"

definition sample_tokens :: "(str \<times> (str \<times> str) list) doc_token list" where
  "sample_tokens = [Other_Token (bs ''<!doctype html>''), Start_Tag (bs ''html'', []), Start_Tag (bs ''script'', []),
     Text_Chunk (bs ''script'') (bs ''go'') False, Text_Chunk (bs ''script'') (bs ''()'') True]"

theorem prelude_first_witness:
  "\<exists>pre post. script_pass plain_element sample_json sample_env (bs ''P'') sample_tokens
       = Return (pre @ [Out_Html (bs ''P'')] @ post, [])
     \<and> quiet_start plain_element pre
     \<and> script_pass plain_element sample_json sample_env [] sample_tokens = Return (pre @ post, [])"
proof -
  have t: "bs ''html'' \<noteq> bs ''script''" "bs ''html'' \<in> set anchor_tags" "bs ''P'' \<noteq> []" by (simp_all add: anchor_tags_def bs_def)
  have l: "length (bs ''go'' @ bs ''()'') \<le> MAX_PAGE_REWRITE_INLINE_BYTES" by (simp add: MAX_PAGE_REWRITE_INLINE_BYTES_def bs_def)
  have k: "inline_kind_of plain_element (bs ''script'', []) = Some (Inline_Script Classic)"
    by (simp add: inline_kind_of_def plain_element_def)
  have n: "tag_name plain_element = fst" by (simp add: plain_element_def)
  have "\<exists>out. script_pass plain_element sample_json sample_env (bs ''P'') sample_tokens = Return (out, [])"
    using l by (simp add: script_pass_def sample_tokens_def start_tag_def n k t run_anchors_first run_anchors_injected
        script_init_def text_chunk_def doc_text_def script_text_def script_not_style inline_replacement_def script_replacement_def doc_end_def)
  then obtain out where run: "script_pass plain_element sample_json sample_env (bs ''P'') sample_tokens = Return (out, [])" ..
  have "outside sample_tokens" by (simp add: sample_tokens_def)
  from prelude_first [OF t(3) this run] run show ?thesis by auto
qed

subsection \<open>What replaces a script stays in its element\<close>

lemma payload_safe:
  assumes "utf8_valid src"
  shows "60 \<notin> set (inline_script_payload src)"
proof -
  have "\<forall>c \<in> set (chars src). 60 \<notin> set (payload_char c)"
    using chars_valid [OF assms] payload_char_safe by (auto simp: list_all_iff)
  then show ?thesis by (auto simp: inline_script_payload_def)
qed

text \<open>
  What takes the place of an inline script is a call of the runtime with the script, or its rewriting, as a literal, or
  a throw; it cannot end the script element.
\<close>

lemma script_replacement_contained:
  assumes "utf8_valid src" "\<forall>r. rewrite_code env knd src = Return (Inr r) \<longrightarrow> utf8_valid (result_code r)"
    "script_replacement env knd src = Return (c, ds)"
  shows "60 \<notin> set c
    \<and> (c = BLOCKED_SCRIPT \<or> c = wrap_call (raw_wrapper knd) src
       \<or> (\<exists>r. rewrite_code env knd src = Return (Inr r) \<and> c = wrap_call (rewritten_wrapper knd) (result_code r)))"
proof -
  have "60 \<notin> set (raw_wrapper knd)" "60 \<notin> set (rewritten_wrapper knd)" "60 \<notin> set BLOCKED_SCRIPT"
    by (simp_all add: raw_wrapper_def rewritten_wrapper_def BLOCKED_SCRIPT_def bs_def)
  then have w: "utf8_valid code \<Longrightarrow> 60 \<notin> set (wrap_call (raw_wrapper knd) code) \<and> 60 \<notin> set (wrap_call (rewritten_wrapper knd) code)" for code
    by (auto simp: wrap_call_def dest: payload_safe) (auto simp: bs_def)
  show ?thesis
  proof (cases "length src \<le> MAX_PAGE_REWRITE_INLINE_BYTES")
    case True
    then show ?thesis using assms w by (auto simp: script_replacement_def)
  next
    case False
    with assms(3) obtain res where res: "rewrite_code env knd src = Return res" by (auto simp: script_replacement_def and_then_Return)
    show ?thesis using False assms w \<open>60 \<notin> set BLOCKED_SCRIPT\<close> by (cases res) (auto simp: script_replacement_def res)
  qed
qed

text \<open>
  Import maps keep their keys as they are, and the crate that prints them escapes quotes, backslashes and control
  characters only: a key that spells out an end tag with JSON escapes ends the script element in the output, and the
  markup after it has been through neither pass.
\<close>

definition break_out_key :: str where
  "break_out_key = bs ''</script><script>go()</script>''"

definition import_map_text :: "str \<Rightarrow> str \<Rightarrow> str" where
  "import_map_text k v = bs ''{'' @ [34] @ bs ''imports'' @ [34] @ bs '':{'' @ [34] @ k @ [34, 58, 34] @ v @ [34] @ bs ''}}''"

lemma importmap_breaks_out:
  assumes "json_from_str J src = Some (JObject [(bs ''imports'', JObject [(break_out_key, JString (bs ''https://t/x''))])])"
    and "\<And>v. set v \<inter> {34, 92} = {} \<Longrightarrow> \<forall>c \<in> set v. 32 \<le> c \<Longrightarrow>
      json_to_string J (JObject [(bs ''imports'', JObject [(break_out_key, JString v)])]) = Some (import_map_text break_out_key v)"
    and "h_origin env = bs ''https://p''" "h_enc env = pct_encode"
  shows "\<exists>pre post. json_replacement J env Importmap src = pre @ break_out_key @ post"
proof -
  let ?v = "bs ''https://p/zp/api/script?u='' @ pct_encode QUERY_ENC (bs ''https://t/x'') @ bs ''&kind=module''"
  have t: "trim (bs ''https://t/x'') = bs ''https://t/x''" by (rule trim_all_graphic) (simp add: bs_def graphic_def)
  have a: "absolute_target_url (bs ''https://t/x'') (h_target env) = Some (bs ''https://t/x'')"
    unfolding absolute_target_url_def t
    by (simp add: starts_with_def is_inert_scheme_def is_http_def starts_with_ascii_ci_def byte_simps)
  have e: "pct_encode QUERY_ENC (bs ''https://t/x'') = bs ''https%3A%2F%2Ft%2Fx''"
    by (simp add: pct_encode_def QUERY_ENC_def byte_simps hex_digit_def)
  have p: "proxied_module_script_url (h_enc env) (bs ''https://t/x'') (h_target env) (h_origin env) = Some ?v"
    unfolding proxied_module_script_url_def a
    by (simp add: assms script_route_url_def trim_end_slashes_def) (simp add: bs_def)
  have v: "set ?v \<inter> {34, 92} = {}" "\<forall>c \<in> set ?v. 32 \<le> c" unfolding e by (simp_all add: bs_def word_le_nat_alt)
  have "json_replacement J env Importmap src = import_map_text break_out_key ?v"
    using assms(2) [OF v] p
    by (simp add: json_replacement_def rewrite_importmap_json_def assms(1) importmap_doc_def on_field_def on_object_def each_def
        on_value_def fix_map_def fix_target_def)
  then show ?thesis unfolding import_map_text_def by (metis append.assoc)
qed

subsection \<open>The two passes chained\<close>

text \<open>
  A streaming rewriter of \<^verbatim>\<open>lol_html\<close>: writing a chunk gives what it puts in its sink and the
  diagnostics its handlers add, or its error; so does ending it.
\<close>

record 'r rewriter_crate =
  rw_write :: "'r \<Rightarrow> str \<Rightarrow> (str + 'r \<times> str \<times> str list) outcome"
  rw_end :: "'r \<Rightarrow> (str + str \<times> str list) outcome"

datatype transform_error = Tokenizer str | ScriptRewrite script_kind str

record ('a, 'b) html_txn =
  txn_r1 :: 'a
  txn_r2 :: 'b
  txn_mid :: str
  txn_out :: str
  txn_diags :: "str list"

definition txn_new :: "'a \<Rightarrow> 'b \<Rightarrow> ('a, 'b) html_txn" where
  "txn_new r1 r2 = \<lparr>txn_r1 = r1, txn_r2 = r2, txn_mid = [], txn_out = [], txn_diags = []\<rparr>"

text \<open>The question mark operator, without and with the conversion of a rewriter's error.\<close>

definition and_ok :: "('e + 'a) outcome \<Rightarrow> ('a \<Rightarrow> ('e + 'b) outcome) \<Rightarrow> ('e + 'b) outcome" where
  "and_ok x f = and_then x (\<lambda>res. case res of Inl e \<Rightarrow> Return (Inl e) | Inr v \<Rightarrow> f v)"

definition tokenizer_err :: "(str + 'a) outcome \<Rightarrow> (transform_error + 'a) outcome" where
  "tokenizer_err x = and_then x (\<lambda>res. Return (map_sum Tokenizer (\<lambda>v. v) res))"

definition write_mid ::
    "'b rewriter_crate \<Rightarrow> ('a, 'b) html_txn \<Rightarrow> (transform_error + ('a, 'b) html_txn) outcome" where
  "write_mid R2 t =
     (let mid_bytes = txn_mid t; t = t\<lparr>txn_mid := []\<rparr>
      in if mid_bytes = [] then Return (Inr t)
         else and_ok (tokenizer_err (rw_write R2 (txn_r2 t) mid_bytes)) (\<lambda>(r2, out, ds).
                Return (Inr (t\<lparr>txn_r2 := r2, txn_out := txn_out t @ out, txn_diags := txn_diags t @ ds\<rparr>))))"

definition txn_write ::
    "'a rewriter_crate \<Rightarrow> 'b rewriter_crate \<Rightarrow> ('a, 'b) html_txn \<Rightarrow> str
      \<Rightarrow> (transform_error + str \<times> ('a, 'b) html_txn) outcome" where
  "txn_write R1 R2 t chunk =
     and_ok (tokenizer_err (rw_write R1 (txn_r1 t) chunk)) (\<lambda>(r1, mid, ds).
       and_ok (write_mid R2 (t\<lparr>txn_r1 := r1, txn_mid := txn_mid t @ mid, txn_diags := txn_diags t @ ds\<rparr>)) (\<lambda>t.
         Return (Inr (txn_out t, t\<lparr>txn_out := []\<rparr>))))"

definition txn_end ::
    "'a rewriter_crate \<Rightarrow> 'b rewriter_crate \<Rightarrow> ('a, 'b) html_txn \<Rightarrow> (transform_error + str \<times> str list) outcome" where
  "txn_end R1 R2 t =
     and_ok (tokenizer_err (rw_end R1 (txn_r1 t))) (\<lambda>(mid, ds).
       and_ok (write_mid R2 (t\<lparr>txn_mid := txn_mid t @ mid, txn_diags := txn_diags t @ ds\<rparr>)) (\<lambda>t.
         and_ok (tokenizer_err (rw_end R2 (txn_r2 t))) (\<lambda>(out, ds). Return (Inr (txn_out t @ out, txn_diags t @ ds)))))"

record transform_result =
  html_out :: str
  html_diags :: "str list"

definition transform ::
    "'a rewriter_crate \<Rightarrow> 'b rewriter_crate \<Rightarrow> (str \<Rightarrow> str) \<Rightarrow> 'a \<Rightarrow> 'b \<Rightarrow> str \<Rightarrow> (transform_error + transform_result) outcome" where
  "transform R1 R2 utf8_error r1 r2 html =
     and_ok (txn_write R1 R2 (txn_new r1 r2) html) (\<lambda>(out, t).
       and_ok (txn_end R1 R2 t) (\<lambda>(tail, ds).
         case from_utf8 (out @ tail) of
           Some s \<Rightarrow> Return (Inr \<lparr>html_out = s, html_diags = ds\<rparr>)
         | None \<Rightarrow> Return (Inl (Tokenizer (utf8_error (out @ tail))))))"

text \<open>A whole document through one rewriter, and through the transaction, in the chunks it arrives in.\<close>

fun rw_run :: "'r rewriter_crate \<Rightarrow> 'r \<Rightarrow> str list \<Rightarrow> (str + str \<times> str list) outcome" where
  "rw_run R r [] = rw_end R r"
| "rw_run R r (c # cs) =
     and_ok (rw_write R r c) (\<lambda>(r, out, ds). and_ok (rw_run R r cs) (\<lambda>(out', ds'). Return (Inr (out @ out', ds @ ds'))))"

fun txn_run ::
    "'a rewriter_crate \<Rightarrow> 'b rewriter_crate \<Rightarrow> ('a, 'b) html_txn \<Rightarrow> str list \<Rightarrow> (transform_error + str \<times> str list) outcome" where
  "txn_run R1 R2 t [] = txn_end R1 R2 t"
| "txn_run R1 R2 t (c # cs) =
     and_ok (txn_write R1 R2 t c) (\<lambda>(out, t). and_ok (txn_run R1 R2 t cs) (\<lambda>(out', ds). Return (Inr (out @ out', ds))))"

text \<open>
  The streaming guarantee of the crate: what a rewriter makes of a document is a function of the document, however it
  is cut into chunks.
\<close>

definition streams :: "'r rewriter_crate \<Rightarrow> 'r \<Rightarrow> (str \<Rightarrow> (str + str \<times> str list) outcome) \<Rightarrow> bool" where
  "streams R r pass \<longleftrightarrow> (\<forall>cs. rw_run R r cs = pass (concat cs))"

lemma and_ok_Inr: "and_ok x f = Return (Inr v) \<longleftrightarrow> (\<exists>w. x = Return (Inr w) \<and> f w = Return (Inr v))"
  by (cases x) (auto simp: and_ok_def split: sum.splits)

lemma and_ok_Return [simp]: "and_ok (Return (Inr w)) f = f w"
  by (simp add: and_ok_def)

lemma tokenizer_err_Inr: "tokenizer_err x = Return (Inr v) \<longleftrightarrow> x = Return (Inr v)"
  by (cases x) (auto simp: tokenizer_err_def map_sum_def split: sum.splits)

lemma tokenizer_err_Return [simp]: "tokenizer_err (Return (Inr v)) = Return (Inr v)"
  by (simp add: tokenizer_err_def)

lemma txn_success:
  assumes "txn_mid t = []" "txn_out t = []" "rw_run R1 (txn_r1 t) cs = Return (Inr (mid, d1))"
    "\<forall>ps. concat ps = mid \<longrightarrow> rw_run R2 (txn_r2 t) ps = Return (Inr (out, d2))"
  shows "\<exists>ds. txn_run R1 R2 t cs = Return (Inr (out, txn_diags t @ ds)) \<and> mset ds = mset d1 + mset d2"
  using assms
proof (induction cs arbitrary: t mid d1 out d2)
  case Nil
  then have "rw_end R1 (txn_r1 t) = Return (Inr (mid, d1))" by simp
  moreover have "rw_run R2 (txn_r2 t) (if mid = [] then [] else [mid]) = Return (Inr (out, d2))"
    using Nil.prems(4) by simp
  ultimately show ?case using Nil.prems(1,2)
    by (cases "mid = []") (auto simp: txn_end_def write_mid_def and_ok_Inr)
next
  case (Cons c cs)
  from Cons.prems(3) obtain r1 m dd mid' d' where w: "rw_write R1 (txn_r1 t) c = Return (Inr (r1, m, dd))"
    and r: "rw_run R1 r1 cs = Return (Inr (mid', d'))" and e: "mid = m @ mid'" "d1 = dd @ d'"
    by (auto simp: and_ok_Inr)
  show ?case
  proof (cases "m = []")
    case True
    let ?t = "t\<lparr>txn_r1 := r1, txn_diags := txn_diags t @ dd\<rparr>"
    have s: "txn_write R1 R2 t c = Return (Inr ([], ?t))"
      using Cons.prems(1,2) True w by (cases t) (simp add: txn_write_def write_mid_def)
    have "\<exists>ds. txn_run R1 R2 ?t cs = Return (Inr (out, txn_diags ?t @ ds)) \<and> mset ds = mset d' + mset d2"
      by (rule Cons.IH) (use Cons.prems r e True in simp_all)
    then show ?thesis using s e by auto
  next
    case False
    have run2: "rw_run R2 (txn_r2 t) (m # ps) = Return (Inr (out, d2))" if "concat ps = mid'" for ps
      using Cons.prems(4) [rule_format, of "m # ps"] that e by (simp del: rw_run.simps)
    from run2 [of "[mid']"] obtain r2 o1 dd2 out' d2' where w2: "rw_write R2 (txn_r2 t) m = Return (Inr (r2, o1, dd2))"
      and o: "out = o1 @ out'" "d2 = dd2 @ d2'" by (auto simp: and_ok_Inr)
    have rest: "\<forall>ps. concat ps = mid' \<longrightarrow> rw_run R2 r2 ps = Return (Inr (out', d2'))"
      using run2 o by (auto simp: w2 and_ok_Inr)
    let ?t = "t\<lparr>txn_r1 := r1, txn_r2 := r2, txn_diags := txn_diags t @ dd @ dd2\<rparr>"
    have s: "txn_write R1 R2 t c = Return (Inr (o1, ?t))"
      using Cons.prems(1,2) False w w2 by (cases t) (simp add: txn_write_def write_mid_def)
    have "\<exists>ds. txn_run R1 R2 ?t cs = Return (Inr (out', txn_diags ?t @ ds)) \<and> mset ds = mset d' + mset d2'"
      by (rule Cons.IH) (use Cons.prems r rest in simp_all)
    then show ?thesis using s e o by auto
  qed
qed

lemma txn_success_only:
  assumes "txn_mid t = []" "txn_out t = []" "txn_run R1 R2 t cs = Return (Inr (out, ds))"
  shows "\<exists>mid d1 ps d2. rw_run R1 (txn_r1 t) cs = Return (Inr (mid, d1)) \<and> concat ps = mid
    \<and> rw_run R2 (txn_r2 t) ps = Return (Inr (out, d2))"
  using assms
proof (induction cs arbitrary: t out)
  case Nil
  then obtain mid d1 where m: "rw_end R1 (txn_r1 t) = Return (Inr (mid, d1))" by (auto simp: txn_end_def and_ok_Inr tokenizer_err_Inr)
  with Nil have "\<exists>d2. rw_run R2 (txn_r2 t) (if mid = [] then [] else [mid]) = Return (Inr (out, d2))"
    by (auto simp: txn_end_def write_mid_def and_ok_Inr tokenizer_err_Inr)
  moreover have "concat (if mid = [] then [] else [mid]) = mid" by simp
  ultimately show ?case using m by (auto simp del: concat.simps)
next
  case (Cons c cs)
  then obtain r1 m dd where w: "rw_write R1 (txn_r1 t) c = Return (Inr (r1, m, dd))"
    by (auto simp: txn_write_def and_ok_Inr tokenizer_err_Inr)
  show ?case
  proof (cases "m = []")
    case True
    let ?t = "t\<lparr>txn_r1 := r1, txn_diags := txn_diags t @ dd\<rparr>"
    have s: "txn_write R1 R2 t c = Return (Inr ([], ?t))"
      using Cons.prems(1,2) True w by (cases t) (simp add: txn_write_def write_mid_def)
    from Cons.prems(3) s have "txn_run R1 R2 ?t cs = Return (Inr (out, ds))" by (auto simp: and_ok_Inr)
    from Cons.IH [OF _ _ this] Cons.prems(1,2) True w show ?thesis by (auto simp: and_ok_Inr)
  next
    case False
    from Cons.prems w False obtain r2 o1 dd2 where w2: "rw_write R2 (txn_r2 t) m = Return (Inr (r2, o1, dd2))"
      by (auto simp: txn_write_def write_mid_def and_ok_Inr tokenizer_err_Inr)
    let ?t = "t\<lparr>txn_r1 := r1, txn_r2 := r2, txn_diags := txn_diags t @ dd @ dd2\<rparr>"
    have s: "txn_write R1 R2 t c = Return (Inr (o1, ?t))"
      using Cons.prems(1,2) False w w2 by (cases t) (simp add: txn_write_def write_mid_def)
    from Cons.prems(3) s obtain out' where r: "txn_run R1 R2 ?t cs = Return (Inr (out', ds))" "out = o1 @ out'" by (auto simp: and_ok_Inr)
    from Cons.IH [OF _ _ r(1)] Cons.prems(1,2) obtain mid d1 ps d2 where
      "rw_run R1 r1 cs = Return (Inr (mid, d1))" "concat ps = mid" "rw_run R2 r2 ps = Return (Inr (out', d2))" by auto
    then have "rw_run R1 (txn_r1 t) (c # cs) = Return (Inr (m @ mid, dd @ d1))" "concat (m # ps) = m @ mid"
      "rw_run R2 (txn_r2 t) (m # ps) = Return (Inr (out, dd2 @ d2))"
      using w w2 r(2) by simp_all
    then show ?thesis by blast
  qed
qed


text \<open>A rewriter that holds the document back to its end, and one that passes every chunk on.\<close>

definition holding :: "str rewriter_crate" where
  "holding = \<lparr>rw_write = (\<lambda>r c. Return (Inr (r @ c, [], []))), rw_end = (\<lambda>r. Return (Inr (r, [bs ''held''])))\<rparr>"

definition passing :: "unit rewriter_crate" where
  "passing = \<lparr>rw_write = (\<lambda>r c. Return (Inr (r, c, []))), rw_end = (\<lambda>r. Return (Inr ([], [])))\<rparr>"

lemma holding_run: "rw_run holding r cs = Return (Inr (r @ concat cs, [bs ''held'']))"
  by (induction cs arbitrary: r) (simp_all add: holding_def)

lemma passing_run: "rw_run passing r cs = Return (Inr (concat cs, []))"
  by (induction cs arbitrary: r) (simp_all add: passing_def)


text \<open>The buffered transform is the transaction on one chunk.\<close>

lemma transform_is_run:
  "transform R1 R2 utf8_error r1 r2 html
   = and_ok (txn_run R1 R2 (txn_new r1 r2) [html]) (\<lambda>(out, ds).
       case from_utf8 out of
         Some s \<Rightarrow> Return (Inr \<lparr>html_out = s, html_diags = ds\<rparr>)
       | None \<Rightarrow> Return (Inl (Tokenizer (utf8_error out))))"
proof -
  have assoc: "and_ok (and_ok x f) g = and_ok x (\<lambda>v. and_ok (f v) g)" for x :: "('e + 'f) outcome" and f :: "'f \<Rightarrow> ('e + 'g) outcome" and g :: "'g \<Rightarrow> ('e + 'h) outcome"
    by (cases x) (auto simp: and_ok_def split: sum.splits)
  show ?thesis by (simp add: transform_def assoc case_prod_beta' cong: option.case_cong)
qed

end
