(* ===== verification/Engine.thy ===== *)
theory Engine
  imports Html_Script
begin

text \<open>
  The document engine (\<^verbatim>\<open>src/crates/zp-engine/src/lib.rs\<close>), the facade over the script, style sheet and HTML
  rewriters, and the calls the Service Worker bundle (\<^verbatim>\<open>src/crates/zp-bundle/src/lib.rs\<close>) and the page bundle
  (\<^verbatim>\<open>src/crates/zp-page-bundle/src/lib.rs\<close>) export. The bundles keep one engine in a cell that a call borrows;
  a panic aborts the call without returning the borrow, and the instance lives on.

  The engine's own state is an allocation arena that every call resets, so its operations are functions of their
  arguments. The rewriters of \<^verbatim>\<open>lol_html\<close> and the chaining of source maps are parameters.
\<close>

subsection \<open>Contexts and errors\<close>

record doc_ctx =
  ctx_target_url :: str
  ctx_proxy_origin :: str
  ctx_control_prefix :: str

definition doc_ctx_new :: "str \<Rightarrow> str \<Rightarrow> doc_ctx" where
  "doc_ctx_new target_url proxy_origin =
     \<lparr>ctx_target_url = target_url, ctx_proxy_origin = proxy_origin, ctx_control_prefix = bs ''/zp/''\<rparr>"

definition with_control_prefix :: "doc_ctx \<Rightarrow> str \<Rightarrow> doc_ctx" where
  "with_control_prefix ctx control_prefix = ctx\<lparr>ctx_control_prefix := control_prefix\<rparr>"

definition ctx_rewrite_opts :: "doc_ctx \<Rightarrow> script_kind \<Rightarrow> rewrite_opts" where
  "ctx_rewrite_opts ctx knd =
     \<lparr>opt_kind = knd, opt_target_url = ctx_target_url ctx, opt_proxy_origin = ctx_proxy_origin ctx\<rparr>"

record transform_options =
  tx_target_url :: str
  tx_proxy_origin :: str

definition ctx_transform_options :: "doc_ctx \<Rightarrow> transform_options" where
  "ctx_transform_options ctx = \<lparr>tx_target_url = ctx_target_url ctx, tx_proxy_origin = ctx_proxy_origin ctx\<rparr>"

datatype engine_error =
  UnknownScriptKind str
| Engine_Rewrite rewrite_error
| Engine_Html transform_error
| Engine_Css css_error

primrec kind_debug :: "script_kind \<Rightarrow> str" where
  "kind_debug Classic = bs ''Classic''"
| "kind_debug ClassicLocal = bs ''ClassicLocal''"
| "kind_debug Module = bs ''Module''"
| "kind_debug EventHandler = bs ''EventHandler''"
| "kind_debug Eval = bs ''Eval''"
| "kind_debug FunctionKind = bs ''Function''"
| "kind_debug Worker = bs ''Worker''"

primrec transform_error_text :: "transform_error \<Rightarrow> str" where
  "transform_error_text (Tokenizer m) = bs ''tokenizer error: '' @ m"
| "transform_error_text (ScriptRewrite knd reason) =
     bs ''rewrite failed for script kind '' @ kind_debug knd @ bs '': '' @ reason"

primrec css_error_text :: "css_error \<Rightarrow> str" where
  "css_error_text ParseFailed = bs ''CSS_PARSE_FAILED''"

primrec engine_error_text :: "engine_error \<Rightarrow> str" where
  "engine_error_text (UnknownScriptKind k) = bs ''unknown script kind: '' @ k"
| "engine_error_text (Engine_Rewrite e) = rewrite_error_text e"
| "engine_error_text (Engine_Html e) = transform_error_text e"
| "engine_error_text (Engine_Css e) = css_error_text e"

definition parse_script_kind :: "str \<Rightarrow> engine_error + script_kind" where
  "parse_script_kind knd = map_sum UnknownScriptKind id (kind_from_str knd)"

subsection \<open>Patch lists as JSON\<close>

definition json_escape_into :: "str \<Rightarrow> str \<Rightarrow> str" where
  "json_escape_into s out = out @ [34] @ concat (map json_escape_byte s) @ [34]"

definition json_key :: "string \<Rightarrow> str" where
  "json_key k = [34] @ bs k @ [34, 58]"

definition patch_json :: "patch \<Rightarrow> str \<Rightarrow> str" where
  "patch_json p out =
     json_escape_into (replacement p)
       (out @ bs ''{'' @ json_key ''start'' @ to_string (patch_start p) @ bs '','' @ json_key ''end'' @ to_string (patch_end p)
         @ bs '','' @ json_key ''replacement'') @ bs ''}''"

fun patches_json :: "nat \<Rightarrow> patch list \<Rightarrow> str \<Rightarrow> str" where
  "patches_json i [] out = out"
| "patches_json i (p # ps) out = patches_json (Suc i) ps (patch_json p (if 0 < i then out @ bs '','' else out))"

definition patches_to_json :: "nat \<Rightarrow> patch list \<Rightarrow> str" where
  "patches_to_json total_len ps =
     patches_json 0 ps (bs ''{'' @ json_key ''len'' @ to_string total_len @ bs '','' @ json_key ''patches'' @ bs ''['') @ bs '']}''"

subsection \<open>The engine\<close>

record ('a, 'b) lol_html =
  lol_r1 :: "'a rewriter_crate"
  lol_r2 :: "'b rewriter_crate"
  lol_new :: "str \<Rightarrow> str \<Rightarrow> str \<Rightarrow> 'a \<times> 'b"
  lol_utf8_error :: "str \<Rightarrow> str"

record ('u, 'a, 'b) engine_env =
  e_html :: "'u html_env"
  e_chain :: "str \<Rightarrow> str \<Rightarrow> str \<Rightarrow> str"
  e_lol :: "('a, 'b) lol_html"

definition instance_rewrite ::
    "('u, 'a, 'b) engine_env \<Rightarrow> str \<Rightarrow> rewrite_opts \<Rightarrow> (rewrite_error + rewrite_result) outcome" where
  "instance_rewrite E source opts = rewrite_script (h_an (e_html E)) (h_pr (e_html E)) source opts"

definition instance_rewrite_patches ::
    "('u, 'a, 'b) engine_env \<Rightarrow> str \<Rightarrow> rewrite_opts \<Rightarrow> rewrite_error + rewrite_result" where
  "instance_rewrite_patches E source opts = rewrite_script_patches (h_an (e_html E)) source opts"

definition engine_rewrite_script ::
    "('u, 'a, 'b) engine_env \<Rightarrow> str \<Rightarrow> script_kind \<Rightarrow> doc_ctx \<Rightarrow> (engine_error + str) outcome" where
  "engine_rewrite_script E source knd ctx =
     and_then (instance_rewrite E source (ctx_rewrite_opts ctx knd)) (\<lambda>r. Return (map_sum Engine_Rewrite result_code r))"

definition engine_rewrite_script_patches_json ::
    "('u, 'a, 'b) engine_env \<Rightarrow> str \<Rightarrow> script_kind \<Rightarrow> doc_ctx \<Rightarrow> engine_error + str" where
  "engine_rewrite_script_patches_json E source knd ctx =
     map_sum Engine_Rewrite (\<lambda>r. patches_to_json (length source) (patches r))
       (instance_rewrite_patches E source (ctx_rewrite_opts ctx knd))"

definition engine_compose_source_map ::
    "('u, 'a, 'b) engine_env \<Rightarrow> str \<Rightarrow> script_kind \<Rightarrow> doc_ctx \<Rightarrow> str \<Rightarrow> (engine_error + str) outcome" where
  "engine_compose_source_map E source knd ctx source_url =
     and_then (source_map_of_script (h_an (e_html E)) (h_pr (e_html E)) source (ctx_rewrite_opts ctx knd) source_url)
       (\<lambda>r. Return (map_sum Engine_Rewrite id r))"

definition engine_compose_source_map_chained ::
    "('u, 'a, 'b) engine_env \<Rightarrow> str \<Rightarrow> script_kind \<Rightarrow> doc_ctx \<Rightarrow> str \<Rightarrow> str \<Rightarrow> (engine_error + str) outcome" where
  "engine_compose_source_map_chained E source knd ctx source_url original_map_json =
     and_then (compose_source_map_chained (h_an (e_html E)) (h_pr (e_html E)) (e_chain E) source (ctx_rewrite_opts ctx knd)
                 source_url original_map_json)
       (\<lambda>r. Return (map_sum Engine_Rewrite id r))"

definition engine_transform_html :: "('u, 'a, 'b) engine_env \<Rightarrow> str \<Rightarrow> doc_ctx \<Rightarrow> (engine_error + str) outcome" where
  "engine_transform_html E html ctx =
     (let opts = ctx_transform_options ctx; L = e_lol E;
          (r1, r2) = lol_new L (tx_target_url opts) (tx_proxy_origin opts) []
      in and_then (transform (lol_r1 L) (lol_r2 L) (lol_utf8_error L) r1 r2 html)
           (\<lambda>r. Return (map_sum Engine_Html html_out r)))"

definition engine_html_txn :: "('u, 'a, 'b) engine_env \<Rightarrow> doc_ctx \<Rightarrow> str \<Rightarrow> ('a, 'b) html_txn" where
  "engine_html_txn E ctx prelude_html =
     (let opts = ctx_transform_options ctx;
          (r1, r2) = lol_new (e_lol E) (tx_target_url opts) (tx_proxy_origin opts) prelude_html
      in txn_new r1 r2)"

definition engine_rewrite_css ::
    "('u, 'a, 'b) engine_env \<Rightarrow> str \<Rightarrow> str \<Rightarrow> str \<Rightarrow> doc_ctx \<Rightarrow> (engine_error + str) outcome" where
  "engine_rewrite_css E source base_url control_prefix ctx =
     and_then (rewrite_css (h_enc (e_html E)) (h_urls (e_html E)) (h_css (e_html E)) source base_url control_prefix
                 (ctx_proxy_origin ctx))
       (\<lambda>r. Return (map_sum Engine_Css id r))"

definition engine_rewrite_css_with_ctx ::
    "('u, 'a, 'b) engine_env \<Rightarrow> str \<Rightarrow> str \<Rightarrow> doc_ctx \<Rightarrow> (engine_error + str) outcome" where
  "engine_rewrite_css_with_ctx E source base_url ctx = engine_rewrite_css E source base_url (ctx_control_prefix ctx) ctx"

subsection \<open>The calls of the bundles\<close>

text \<open>
  Running a call on the engine in its cell: the flag is that of the cell, set while the engine is borrowed. A borrow of
  a borrowed cell panics, and a call that panics does not return its borrow.
\<close>

definition with_engine :: "(engine_error + 'r) outcome \<Rightarrow> bool \<Rightarrow> (str + 'r) outcome \<times> bool" where
  "with_engine f borrowed =
     (if borrowed then (Panic, True)
      else case f of
             Panic \<Rightarrow> (Panic, True)
           | Return res \<Rightarrow> (Return (map_sum engine_error_text id res), False))"

definition with_kind :: "str \<Rightarrow> (script_kind \<Rightarrow> (engine_error + str) outcome) \<Rightarrow> (engine_error + str) outcome" where
  "with_kind knd f = (case parse_script_kind knd of Inl e \<Rightarrow> Return (Inl e) | Inr k \<Rightarrow> f k)"

datatype js_value = JsText str | JsBool bool

datatype bundle_call =
  RewriteScriptCall str str str str
| RewriteScriptPatchesCall str str str str
| ComposeSourceMapCall str str str str
| ComposeSourceMapChainedCall str str str str str
| TransformHtmlCall str str str
| RewriteCSSCall str str str str
| BuildCSPCall str
| BuildCSPWithCall str bool
| IsChallengeDocumentCall str str str

definition js_text :: "(str + str) outcome \<times> bool \<Rightarrow> (str + js_value) outcome \<times> bool" where
  "js_text rb = (and_then (fst rb) (\<lambda>r. Return (map_sum id JsText r)), snd rb)"

definition with_engine_ref :: "js_value \<Rightarrow> bool \<Rightarrow> (str + js_value) outcome \<times> bool" where
  "with_engine_ref v borrowed = (if borrowed then (Panic, True) else (Return (Inr v), False))"

fun bundle_step :: "('u, 'a, 'b) engine_env \<Rightarrow> bundle_call \<Rightarrow> bool \<Rightarrow> (str + js_value) outcome \<times> bool" where
  "bundle_step E (RewriteScriptCall source knd target_url proxy_origin) borrowed =
     (let ctx = doc_ctx_new target_url proxy_origin
      in js_text (with_engine (with_kind knd (\<lambda>k. engine_rewrite_script E source k ctx)) borrowed))"
| "bundle_step E (RewriteScriptPatchesCall source knd target_url proxy_origin) borrowed =
     (let ctx = doc_ctx_new target_url proxy_origin
      in js_text (with_engine (with_kind knd (\<lambda>k. Return (engine_rewrite_script_patches_json E source k ctx))) borrowed))"
| "bundle_step E (ComposeSourceMapCall source knd target_url proxy_origin) borrowed =
     (let ctx = doc_ctx_new target_url proxy_origin
      in js_text (with_engine (with_kind knd (\<lambda>k. engine_compose_source_map E source k ctx target_url)) borrowed))"
| "bundle_step E (ComposeSourceMapChainedCall source knd target_url original_map_json proxy_origin) borrowed =
     (let ctx = doc_ctx_new target_url proxy_origin
      in js_text (with_engine (with_kind knd
           (\<lambda>k. engine_compose_source_map_chained E source k ctx target_url original_map_json)) borrowed))"
| "bundle_step E (TransformHtmlCall html target_url proxy_origin) borrowed =
     (let ctx = doc_ctx_new target_url proxy_origin
      in js_text (with_engine (engine_transform_html E html ctx) borrowed))"
| "bundle_step E (RewriteCSSCall source base_url control_prefix proxy_origin) borrowed =
     (let ctx = doc_ctx_new [] proxy_origin
      in js_text (with_engine (engine_rewrite_css E source base_url control_prefix ctx) borrowed))"
| "bundle_step E (BuildCSPCall ws_origin) borrowed = with_engine_ref (JsText (build_csp ws_origin)) borrowed"
| "bundle_step E (BuildCSPWithCall ws_origin armed) borrowed =
     with_engine_ref (JsText (build_csp_with ws_origin \<lparr>challenge_compat = armed\<rparr>)) borrowed"
| "bundle_step E (IsChallengeDocumentCall cf_mitigated h path) borrowed =
     with_engine_ref (JsBool (is_challenge_document cf_mitigated h path)) borrowed"

fun bundle_run :: "('u, 'a, 'b) engine_env \<Rightarrow> bundle_call list \<Rightarrow> bool \<Rightarrow> (str + js_value) outcome list" where
  "bundle_run E [] borrowed = []"
| "bundle_run E (c # cs) borrowed = (let (r, borrowed) = bundle_step E c borrowed in r # bundle_run E cs borrowed)"

text \<open>The page bundle has one call, on a rewriter of its own.\<close>

definition page_rewrite_script ::
    "('u, 'a, 'b) engine_env \<Rightarrow> str \<Rightarrow> str \<Rightarrow> str \<Rightarrow> str \<Rightarrow> bool \<Rightarrow> (str + str) outcome \<times> bool" where
  "page_rewrite_script E source knd target_url proxy_origin borrowed =
     (case kind_from_str knd of
        Inl other \<Rightarrow> (Return (Inl (bs ''unknown script kind: '' @ other)), borrowed)
      | Inr k \<Rightarrow>
          if borrowed then (Panic, True)
          else case instance_rewrite E source \<lparr>opt_kind = k, opt_target_url = target_url, opt_proxy_origin = proxy_origin\<rparr> of
                 Panic \<Rightarrow> (Panic, True)
               | Return res \<Rightarrow> (Return (map_sum rewrite_error_text result_code res), False))"

text \<open>The transaction object: ending it takes the transaction out.\<close>

definition js_txn_new ::
    "('u, 'a, 'b) engine_env \<Rightarrow> str \<Rightarrow> str \<Rightarrow> str \<Rightarrow> ('a, 'b) html_txn option" where
  "js_txn_new E target_url proxy_origin prelude_html =
     Some (engine_html_txn E (doc_ctx_new target_url proxy_origin) prelude_html)"

definition js_txn_write ::
    "('u, 'a, 'b) engine_env \<Rightarrow> ('a, 'b) html_txn option \<Rightarrow> str \<Rightarrow> (str + str \<times> ('a, 'b) html_txn option) outcome" where
  "js_txn_write E obj chunk =
     (case obj of
        None \<Rightarrow> Return (Inl (bs ''HtmlTxn: write after end''))
      | Some t \<Rightarrow>
          and_then (txn_write (lol_r1 (e_lol E)) (lol_r2 (e_lol E)) t chunk) (\<lambda>r.
            Return (map_sum transform_error_text (\<lambda>(out, t). (out, Some t)) r)))"

definition js_txn_end ::
    "('u, 'a, 'b) engine_env \<Rightarrow> ('a, 'b) html_txn option \<Rightarrow> (str + str) outcome \<times> ('a, 'b) html_txn option" where
  "js_txn_end E obj =
     (case obj of
        None \<Rightarrow> (Return (Inl (bs ''HtmlTxn: end after end'')), None)
      | Some t \<Rightarrow>
          (and_then (txn_end (lol_r1 (e_lol E)) (lol_r2 (e_lol E)) t) (\<lambda>r.
             Return (map_sum transform_error_text fst r)), None))"

subsection \<open>A panic stays\<close>

lemma bundle_step_borrowed: "bundle_step E c True = (Panic, True)"
  by (cases c) (simp_all add: with_engine_def with_engine_ref_def js_text_def)

lemma bundle_step_Panic: "fst (bundle_step E c borrowed) = Panic \<Longrightarrow> snd (bundle_step E c borrowed)"
  by (cases c) (auto simp: with_engine_def with_engine_ref_def js_text_def Let_def split: outcome.splits if_splits)

lemma bundle_run_borrowed: "bundle_run E cs True = replicate (length cs) Panic"
  by (induction cs) (simp_all add: bundle_step_borrowed)

lemma bundle_run_Panic:
  assumes "fst (bundle_step E c borrowed) = Panic"
  shows "bundle_run E (c # cs) borrowed = replicate (Suc (length cs)) Panic"
  using assms bundle_step_Panic [OF assms] by (auto simp: bundle_run_borrowed split: prod.splits)


definition sample_engine :: "(str, str, unit) engine_env" where
  "sample_engine =
     \<lparr>e_html = sample_env\<lparr>h_an := sample_analysis\<rparr>, e_chain = (\<lambda>m _ _. m),
      e_lol = \<lparr>lol_r1 = holding, lol_r2 = passing, lol_new = (\<lambda>_ _ _. ([], ())), lol_utf8_error = (\<lambda>s. s)\<rparr>\<rparr>"

lemma sample_engine_patches:
  "instance_rewrite_patches sample_engine sample_source (ctx_rewrite_opts ctx Classic)
   = Inr \<lparr>result_code = [], patches = [] @ sample_get # sample_member # [], result_diags = []\<rparr>"
proof -
  have "sort_key patch_start [sample_get, sample_member] = [] @ sample_get # sample_member # []"
    by (simp add: sample_get_def sample_member_def)
  then show ?thesis
    by (simp add: instance_rewrite_patches_def rewrite_script_patches_def parse_for_kind_def sample_analysis_def sample_env_def
        sample_engine_def ctx_rewrite_opts_def refuse_reserved_names_def)
qed


subsection \<open>Patch lists read back\<close>

definition expect :: "str \<Rightarrow> str \<Rightarrow> str option" where
  "expect k s = (if starts_with k s then Some (drop (length k) s) else None)"

definition read_num :: "str \<Rightarrow> (nat \<times> str) option" where
  "read_num s =
     (let ds = takeWhile is_ascii_digit s
      in if ds = [] then None else map_option (\<lambda>n. (n, drop (length ds) s)) (digits_value 10 0 ds))"

definition read_patch :: "str \<Rightarrow> (patch \<times> str) option" where
  "read_patch s =
     (case expect (bs ''{'' @ json_key ''start'') s of None \<Rightarrow> None | Some s \<Rightarrow>
      case read_num s of None \<Rightarrow> None | Some (a, s) \<Rightarrow>
      case expect (bs '','' @ json_key ''end'') s of None \<Rightarrow> None | Some s \<Rightarrow>
      case read_num s of None \<Rightarrow> None | Some (b, s) \<Rightarrow>
      case expect (bs '','' @ json_key ''replacement'') s of None \<Rightarrow> None | Some s \<Rightarrow>
      case json_string s of None \<Rightarrow> None | Some (t, s) \<Rightarrow>
      map_option (\<lambda>s. (\<lparr>patch_start = a, patch_end = b, replacement = t\<rparr>, s)) (expect (bs ''}'') s))"

fun read_patch_list :: "nat \<Rightarrow> str \<Rightarrow> (patch list \<times> str) option" where
  "read_patch_list 0 s = None"
| "read_patch_list (Suc n) s =
     (case read_patch s of
        None \<Rightarrow> None
      | Some (p, s) \<Rightarrow>
          (case expect (bs '','') s of
             None \<Rightarrow> Some ([p], s)
           | Some s \<Rightarrow> map_option (\<lambda>(ps, r). (p # ps, r)) (read_patch_list n s)))"

definition read_patches :: "str \<Rightarrow> (nat \<times> patch list) option" where
  "read_patches s =
     (case expect (bs ''{'' @ json_key ''len'') s of None \<Rightarrow> None | Some s \<Rightarrow>
      case read_num s of None \<Rightarrow> None | Some (n, s) \<Rightarrow>
      case expect (bs '','' @ json_key ''patches'' @ bs ''['') s of None \<Rightarrow> None | Some s \<Rightarrow>
      case (if s = bs '']}'' then Some ([], s) else read_patch_list (length s) s) of None \<Rightarrow> None | Some (ps, s) \<Rightarrow>
      if s = bs '']}'' then Some (n, ps) else None)"

lemma expect_append [simp]: "expect k (k @ s) = Some s"
  by (simp add: expect_def)

lemma read_num_to_string: "s = [] \<or> \<not> is_ascii_digit (hd s) \<Longrightarrow> read_num (to_string n @ s) = Some (n, s)"
proof -
  assume "s = [] \<or> \<not> is_ascii_digit (hd s)"
  then have "takeWhile is_ascii_digit (to_string n @ s) = to_string n"
    using to_string_digits [of n] by (cases s) (simp_all add: takeWhile_append2)
  then show ?thesis using digits_value_to_string by (simp add: read_num_def)
qed

definition patch_text :: "patch \<Rightarrow> str" where
  "patch_text p = patch_json p []"

lemma patch_json_text: "patch_json p out = out @ patch_text p"
  by (simp add: patch_text_def patch_json_def json_escape_into_def)

lemma patches_json_text: "0 < i \<Longrightarrow> patches_json i ps out = out @ concat (map (\<lambda>p. bs '','' @ patch_text p) ps)"
  by (induction ps arbitrary: i out) (simp_all add: patch_json_text)

lemma read_patch_text: "read_patch (patch_text p @ s) = Some (p, s)"
proof -
  have t: "patch_text p @ s = (bs ''{'' @ json_key ''start'') @ to_string (patch_start p) @ (bs '','' @ json_key ''end'')
      @ to_string (patch_end p) @ (bs '','' @ json_key ''replacement'') @ json_escape (replacement p) @ bs ''}'' @ s"
    by (simp add: patch_text_def patch_json_def json_escape_into_def json_escape_def)
  have n: "read_num (to_string n @ (bs '','' @ json_key k) @ u) = Some (n, (bs '','' @ json_key k) @ u)" for n k u
    by (rule read_num_to_string) (simp add: bs_def is_ascii_digit_def)
  show ?thesis unfolding t read_patch_def
    by (simp only: expect_append n json_string_escape option.case prod.case option.map) simp
qed

lemma read_patch_list_text:
  assumes "length ps < n" "expect (bs '','') s = None"
  shows "read_patch_list n (patch_text p @ concat (map (\<lambda>p. bs '','' @ patch_text p) ps) @ s) = Some (p # ps, s)"
  using assms(1)
proof (induction ps arbitrary: p n)
  case Nil
  then show ?case using assms(2) by (cases n) (simp_all add: read_patch_text)
next
  case (Cons q ps)
  then obtain m where m: "n = Suc m" "length ps < m" by (cases n) auto
  have "patch_text p @ concat (map (\<lambda>p. bs '','' @ patch_text p) (q # ps)) @ s
      = patch_text p @ bs '','' @ patch_text q @ concat (map (\<lambda>p. bs '','' @ patch_text p) ps) @ s" by simp
  then show ?case using Cons.IH [OF m(2), of q] by (simp only: m(1) read_patch_list.simps read_patch_text expect_append option.case prod.case) simp
qed

lemma patches_json_read: "read_patches (patches_to_json n ps) = Some (n, ps)"
proof -
  let ?k = "bs '','' @ json_key ''patches'' @ bs ''[''"
  define body where "body = patches_json 0 ps [] @ bs '']}''"
  have out: "patches_json 0 ps out = out @ patches_json 0 ps []" for out
    by (cases ps) (simp_all add: patch_json_text patches_json_text)
  have t: "patches_to_json n ps = (bs ''{'' @ json_key ''len'') @ to_string n @ ?k @ body"
    by (subst patches_to_json_def, subst out) (simp add: body_def)
  have num: "read_num (to_string n @ ?k @ body) = Some (n, ?k @ body)"
    by (rule read_num_to_string) (simp add: bs_def is_ascii_digit_def)
  have "(if body = bs '']}'' then Some ([], body) else read_patch_list (length body) body) = Some (ps, bs '']}'')"
  proof (cases ps)
    case Nil
    then show ?thesis by (simp add: body_def)
  next
    case (Cons p qs)
    have b: "body = patch_text p @ concat (map (\<lambda>p. bs '','' @ patch_text p) qs) @ bs '']}''"
      by (simp add: body_def Cons patches_json_text patch_json_text)
    have "length qs \<le> length (concat (map (\<lambda>p. bs '','' @ patch_text p) qs))"
      by (induction qs) (simp_all add: bs_def)
    then have l: "length qs < length body" by (simp add: b bs_def)
    have "body \<noteq> bs '']}''" by (simp add: b patch_text_def patch_json_def json_escape_into_def bs_def)
    moreover have "expect (bs '','') (bs '']}'') = None" by (simp add: expect_def starts_with_def bs_def)
    ultimately show ?thesis using read_patch_list_text [OF l] b Cons by (metis (no_types))
  qed
  then show ?thesis unfolding t read_patches_def
    by (simp only: expect_append num option.case prod.case) simp
qed



subsection \<open>The transaction object\<close>

fun js_txn_run :: "('u, 'a, 'b) engine_env \<Rightarrow> ('a, 'b) html_txn option \<Rightarrow> str list \<Rightarrow> (str + str) outcome" where
  "js_txn_run E obj [] = fst (js_txn_end E obj)"
| "js_txn_run E obj (c # cs) =
     and_ok (js_txn_write E obj c) (\<lambda>(out, obj). and_ok (js_txn_run E obj cs) (\<lambda>out'. Return (Inr (out @ out'))))"

text \<open>Fed chunk by chunk and ended, the object gives the bytes of the transaction, or the text of its error.\<close>

lemma js_txn_run_bytes:
  "js_txn_run E (Some t) cs
   = and_then (txn_run (lol_r1 (e_lol E)) (lol_r2 (e_lol E)) t cs) (\<lambda>r. Return (map_sum transform_error_text fst r))"
proof (induction cs arbitrary: t)
  case Nil
  then show ?case by (simp add: js_txn_end_def)
next
  case (Cons c cs)
  show ?case
  proof (cases "txn_write (lol_r1 (e_lol E)) (lol_r2 (e_lol E)) t c")
    case (Return res)
    then show ?thesis
    proof (cases res)
      case (Inr v)
      with Return show ?thesis
        by (cases "txn_run (lol_r1 (e_lol E)) (lol_r2 (e_lol E)) (snd v) cs")
          (auto simp: js_txn_write_def Cons.IH and_ok_def map_sum_def case_prod_beta' split: sum.splits)
    qed (simp add: js_txn_write_def and_ok_def)
  qed (simp add: js_txn_write_def and_ok_def)
qed

text \<open>An ended object refuses every call.\<close>

lemma js_txn_ended:
  "snd (js_txn_end E obj) = None"
  "js_txn_write E None chunk = Return (Inl (bs ''HtmlTxn: write after end''))"
  "fst (js_txn_end E None) = Return (Inl (bs ''HtmlTxn: end after end''))"
  by (simp_all add: js_txn_end_def js_txn_write_def split: option.split)

end
