(* ===== verification/Spec2Isabelle.thy ===== *)
theory Spec2Isabelle
  imports Page_Abi Csp Ws_Stream Kernel Source_Map Engine
begin

text \<open>
  A verification development for the Rust part of ZeroProxy, a web proxy that runs in the user's browser.
  A service worker intercepts the page's requests and gives them to a WebAssembly kernel
  (\<^verbatim>\<open>crates/zp-kernel-bundle\<close>), which speaks SOCKS5, TLS and HTTP through a relay that only sees
  ciphertext. Strings are lists of bytes, machine integers are words of their width, and an
  \<^verbatim>\<open>io::Error\<close> is its kind and message.

  \<^bold>\<open>Shared vocabulary.\<close>
  \<^item> \<^verbatim>\<open>Prelude\<close>: byte strings, errors, and the parts of Rust's standard library that the sources call.
  \<^item> \<^verbatim>\<open>Utf8\<close>: validation, lossy decoding and Unicode white space.
  \<^item> \<^verbatim>\<open>Byte_Stream\<close>: asynchronous streams as what the peer delivers, in any segmentation, with the
    locale \<^verbatim>\<open>phase\<close> for a step of a protocol.

  \<^bold>\<open>The page runtime\<close> (\<^verbatim>\<open>crates/zp-page-rt\<close>).
  \<^item> \<^verbatim>\<open>Url_Pool\<close> (\<^verbatim>\<open>pool.rs\<close>): the URL classifier and the intern pool. The hash chains refine a
    list of distinct URLs, handles stay valid, and the classifier finds every script scheme.
  \<^item> \<^verbatim>\<open>Page_Abi\<close> (\<^verbatim>\<open>abi.rs\<close>): the exported calls over linear memory, out-of-bounds accesses included.

  \<^bold>\<open>The transport codecs\<close> (\<^verbatim>\<open>crates/zp-transport-codec\<close>).
  \<^item> \<^verbatim>\<open>Socks5\<close> (\<^verbatim>\<open>socks5.rs\<close> and the client in \<^verbatim>\<open>kernel/transport/socks5.rs\<close>): the handshake
    succeeds exactly on the replies RFC 1928 allows and consumes just those; requests are read back.
  \<^item> \<^verbatim>\<open>Http1_Codec\<close>, \<^verbatim>\<open>Chunked\<close> (\<^verbatim>\<open>http1.rs\<close>): request heads cannot be injected into; the
    incremental chunked decoder accepts exactly the chunked bodies, however they are cut, within its cap.
  \<^item> \<^verbatim>\<open>Header_Order\<close> (\<^verbatim>\<open>header_order.rs\<close>): the order is a stable permutation.

  \<^bold>\<open>Shared policy\<close> (\<^verbatim>\<open>crates/zp-shared\<close>).
  \<^item> \<^verbatim>\<open>Shared_Urls\<close> (\<^verbatim>\<open>errors.rs\<close>, \<^verbatim>\<open>shareurl.rs\<close>, \<^verbatim>\<open>proxyurl.rs\<close>,
    \<^verbatim>\<open>challenge.rs\<close>): error codes, share and proxy URLs, the challenge classifier.
  \<^item> \<^verbatim>\<open>Csp\<close> (\<^verbatim>\<open>csp.rs\<close>): the policy builders, read back by a CSP parser, and the filter for
    target policies.

  \<^bold>\<open>The kernel\<close> (\<^verbatim>\<open>crates/zp-kernel-bundle/src\<close>).
  \<^item> \<^verbatim>\<open>Ws_Stream\<close> (\<^verbatim>\<open>ws_stream.rs\<close>): the relay's WebSocket as a byte stream; bytes in order, no
    lost wake-up.
  \<^item> \<^verbatim>\<open>Mux\<close> (\<^verbatim>\<open>dial.rs\<close>, \<^verbatim>\<open>yamux.rs\<close>, \<^verbatim>\<open>dialer.rs\<close>): the multiplexer's driver task, the
    session cache as a step relation, and the relay dialer.
  \<^item> \<^verbatim>\<open>Tls\<close> (\<^verbatim>\<open>tls.rs\<close>): the pump between a stream and the TLS state machine.
  \<^item> \<^verbatim>\<open>Conn_Pool\<close> (\<^verbatim>\<open>pool.rs\<close>): idle connections by scheme, host, port and isolation key.
  \<^item> \<^verbatim>\<open>Http1_Client\<close>, \<^verbatim>\<open>Response\<close> (\<^verbatim>\<open>http1.rs\<close>, \<^verbatim>\<open>http2.rs\<close>, \<^verbatim>\<open>decode.rs\<close>): an
    exchange on a connection, the body reader, content decoding, buffered and streamed responses.
  \<^item> \<^verbatim>\<open>Fetch\<close> (\<^verbatim>\<open>fetch.rs\<close>): how a request finds a connection and becomes a response. The layers
    below are the fields of the record \<open>net\<close>.
  \<^item> \<^verbatim>\<open>Ws_Frame\<close>, \<^verbatim>\<open>Ws_Client\<close> (\<^verbatim>\<open>ws_client.rs\<close>): the page's WebSockets; the handshake and
    frame codec, then the client object as a step relation of page calls, reader and writer.
  \<^item> \<^verbatim>\<open>Kernel\<close> (\<^verbatim>\<open>kernel/mod.rs\<close>): the exported calls and the request headers.

  This theory puts the HTTP/1.1 exchange together: request, response head, body, decoding and pool.

  \<^bold>\<open>Bounds and termination.\<close> The caps are those of the sources (32 MiB of decoded body or message,
  64 KiB of response head, 512 trace entries and so on). There is no fuel: loops that always end are
  \<^verbatim>\<open>function\<close>s with a termination proof, and those that depend on a parameter are
  \<^verbatim>\<open>partial_function (option)\<close>, with theorems that they return when the parameter keeps its contract.

  \<^bold>\<open>Not modelled.\<close> Third-party code is a parameter: \<^verbatim>\<open>httparse\<close>, \<^verbatim>\<open>rustls\<close>, \<^verbatim>\<open>h2\<close>,
  \<^verbatim>\<open>yamux\<close>, the decompressors, SHA-1, base64, random bytes and the browser's objects; so are the
  vendored forks under \<^verbatim>\<open>third_party-*\<close>. Trace messages and timings are left out. The HTML, CSS and
  JavaScript rewriters (\<^verbatim>\<open>zp-htmltx\<close>, \<^verbatim>\<open>zp-css\<close>, \<^verbatim>\<open>zp-rewriter\<close>, \<^verbatim>\<open>zp-engine\<close>,
  \<^verbatim>\<open>zp-bundle\<close>), the timer, the hybrid key exchange, the Go relay and the JavaScript of
  \<^verbatim>\<open>web/\<close> are not modelled.
\<close>

section \<open>The HTTP/1.1 exchange, from the request to the pool\<close>

text \<open>
  The whole of \<^verbatim>\<open>http1::send_request\<close>: the request, the response head, the body through content
  decoding, and the connection back into the pool. \<^const>\<open>None\<close> is a run that never ends.
\<close>

definition http1_exchange ::
    "(u8 list \<Rightarrow> nat \<Rightarrow> string + parsed_response) \<Rightarrow> decoders \<Rightarrow> (str \<Rightarrow> str option) \<Rightarrow> (pool_key list \<Rightarrow> nat)
      \<Rightarrow> str \<Rightarrow> str \<Rightarrow> str \<Rightarrow> header list \<Rightarrow> u8 list \<Rightarrow> stream \<Rightarrow> pool_key \<Rightarrow> stream idle_pool
      \<Rightarrow> (h2_response io_result \<times> stream idle_pool) outcome option" where
  "http1_exchange httparse ds js pick verb hh pth hs content c key p =
     (case send_request httparse verb hh pth hs content c of
        None \<Rightarrow> None
      | Some (Inl e) \<Rightarrow> Some (Return (Inl e, p))
      | Some (Inr x) \<Rightarrow> Some (http1_respond ds js pick key p x))"

lemma http1_respond_parks:
  assumes "reader_inv keep f w [] r" "carries t r"
    and "http1_respond ds js pick key p (head, nb, r) = Return (res, p')" "p' \<noteq> p"
  obtains resp v content c' where "res = Inr (Buffered resp)" "p' = pool_put pick key c' p" "w = v @ incoming c'"
    "tx c' = t" "framed f v content" "keep" "resp_status resp = status head"
    "null_body resp = (nb \<or> is_null_body_status (status head))"
    "null_body resp \<Longrightarrow> content = [] \<and> resp_body resp = []"
    "\<not> null_body resp \<Longrightarrow> decode_body ds (content_encoding_of (headers head)) content = Inr (resp_body resp)"
proof -
  from body_stream_sound [OF assms(1)] obtain cs r' where b: "body_stream r = Return (cs, r')"
      "completed r' = None \<or> (\<exists>parts. cs = map Inr parts \<and> reader_done keep f w (concat parts) r')"
    by auto
  obtain called where fin: "finish_response ds js (status head) (reason head) (headers head) nb cs = (res, called)"
      "p' = (if called then park pick key (completed r') p else p)"
    using assms(3) b(1) by (auto simp: http1_respond_def split: prod.splits)
  with assms(4) obtain c' where c: "called" "completed r' = Some c'" "p' = pool_put pick key c' p"
    by (cases "completed r'") (auto simp: park_def split: if_splits)
  then obtain resp where resp: "res = Inr (Buffered resp)"
    using finish_response_called [OF fin(1)] by blast
  from finish_response_Buffered [OF fin(1) [unfolded resp]] obtain parts where parts: "cs = map Inr parts"
      "null_body resp \<Longrightarrow> concat parts = [] \<and> resp_body resp = []"
      "\<not> null_body resp \<Longrightarrow> decode_body ds (content_encoding_of (headers head)) (concat parts) = Inr (resp_body resp)"
      "null_body resp = (nb \<or> is_null_body_status (status head))" "resp_status resp = status head"
    by metis
  have inj: "map Inr xs = (map Inr ys :: chunks) \<Longrightarrow> xs = ys" for xs ys
    by (simp add: inj_map_eq_map [OF inj_onI])
  from b(2) c(2) parts(1) have d: "reader_done keep f w (concat parts) r'"
    using inj by fastforce
  then obtain v where "w = v @ incoming c'" "framed f v (concat parts)" "keep"
    using c(2) by (auto simp: reader_done_def split: if_splits)
  moreover have "tx c' = t"
    using body_stream_sent [OF assms(2) b(1)] c(2) by (simp add: carries_def)
  ultimately show thesis
    using resp c(3) parts(2-) by (intro that) auto
qed

text \<open>
  C3. An HTTP/1.1 exchange always ends, without a panic, and either leaves the pool alone or has parked
  the connection after a buffered response. In that case the connection carries exactly the request; the
  response head is the one at the front of the bytes received, past interim responses; the head's own
  framing delimits the bytes after it, and the parked connection stands exactly behind them; the head
  and the request allow the connection to be kept; and the body handed out is the framed content, decoded.
\<close>

theorem http1_exchange_parks_clean:
  assumes "parser_progress httparse"
  shows "\<exists>res p'. http1_exchange httparse ds js pick verb hh pth hs content c key p = Some (Return (res, p'))
    \<and> (p' = p \<or> (\<exists>resp sent head nb http11 f v body c'. res = Inr (Buffered resp) \<and> p' = pool_put pick key c' p
         \<and> build_request_head verb hh pth hs (length content) = Inr sent \<and> tx c' = tx c @ sent @ content
         \<and> response_head_on httparse (incoming c) head http11 (v @ incoming c')
         \<and> nb = (eq_ignore_ascii_case verb (bs ''HEAD'') \<or> no_body_status (status head))
         \<and> choose_framing nb (headers head) = Inr f \<and> framed f v body \<and> f \<noteq> Eof
         \<and> reusable f nb http11 head hs
         \<and> resp_status resp = status head \<and> null_body resp = (nb \<or> is_null_body_status (status head))
         \<and> (if null_body resp then body = [] \<and> resp_body resp = []
            else decode_body ds (content_encoding_of (headers head)) body = Inr (resp_body resp))))"
proof -
  from send_request_post [OF assms, of verb hh pth hs content c] obtain out where
    out: "send_request httparse verb hh pth hs content c = Some out"
      "\<forall>head nb r. out = Inr (head, nb, r) \<longrightarrow>
        (\<exists>sent heads c1. build_request_head verb hh pth hs (length content) = Inr sent \<and> conn r = Some c1
           \<and> tx c1 = tx c @ sent @ content \<and> choose_framing nb (headers head) = Inr (framing r)
           \<and> reader_inv (keepalive r) (framing r) (rinput r @ incoming c1) [] r)"
    by blast
  show ?thesis
  proof (cases out)
    case (Inl e)
    with out(1) show ?thesis by (simp add: http1_exchange_def)
  next
    case (Inr x)
    then obtain head nb r where x: "out = Inr (head, nb, r)"
      by (cases x) auto
    with out(2) obtain sent c1 where r: "build_request_head verb hh pth hs (length content) = Inr sent" "conn r = Some c1"
        "tx c1 = tx c @ sent @ content" "choose_framing nb (headers head) = Inr (framing r)"
        "reader_inv (keepalive r) (framing r) (rinput r @ incoming c1) [] r"
      by blast
    from send_request_head [OF assms out(1) [unfolded x]] r(2) obtain http11 where
      h: "response_head_on httparse (incoming c) head http11 (rinput r @ incoming c1)"
        "nb = (eq_ignore_ascii_case verb (bs ''HEAD'') \<or> no_body_status (status head))"
        "keepalive r = reusable (framing r) nb http11 head hs" "completed r = None"
      by auto
    from body_stream_sound [OF r(5)] obtain res p' where resp: "http1_respond ds js pick key p (head, nb, r) = Return (res, p')"
      by (fastforce simp: http1_respond_def split: prod.splits)
    have ret: "http1_exchange httparse ds js pick verb hh pth hs content c key p = Some (Return (res, p'))"
      using out(1) x resp by (simp add: http1_exchange_def)
    have s: "carries (tx c @ sent @ content) r"
      using r(2,3) h(4) by (simp add: carries_def)
    show ?thesis
    proof (cases "p' = p")
      case True
      with ret show ?thesis by blast
    next
      case False
      from http1_respond_parks [OF r(5) s resp False] obtain resp v body c' where
        "res = Inr (Buffered resp)" "p' = pool_put pick key c' p" "rinput r @ incoming c1 = v @ incoming c'"
        "tx c' = tx c @ sent @ content" "framed (framing r) v body" "keepalive r" "resp_status resp = status head"
        "null_body resp = (nb \<or> is_null_body_status (status head))"
        "if null_body resp then body = [] \<and> resp_body resp = []
         else decode_body ds (content_encoding_of (headers head)) body = Inr (resp_body resp)"
        by (metis (full_types))
      moreover from this(6) h(3) have "framing r \<noteq> Eof"
        by (auto simp: reusable_def)
      moreover have "response_head_on httparse (incoming c) head http11 (v @ incoming c')"
        using h(1) calculation(3) by simp
      ultimately have "\<exists>resp sent head nb http11 f v body c'. res = Inr (Buffered resp) \<and> p' = pool_put pick key c' p
         \<and> build_request_head verb hh pth hs (length content) = Inr sent \<and> tx c' = tx c @ sent @ content
         \<and> response_head_on httparse (incoming c) head http11 (v @ incoming c')
         \<and> nb = (eq_ignore_ascii_case verb (bs ''HEAD'') \<or> no_body_status (status head))
         \<and> choose_framing nb (headers head) = Inr f \<and> framed f v body \<and> f \<noteq> Eof
         \<and> reusable f nb http11 head hs
         \<and> resp_status resp = status head \<and> null_body resp = (nb \<or> is_null_body_status (status head))
         \<and> (if null_body resp then body = [] \<and> resp_body resp = []
            else decode_body ds (content_encoding_of (headers head)) body = Inr (resp_body resp))"
        using r(1,4) h(2,3) by blast
      with ret show ?thesis by blast
    qed
  qed
qed

text \<open>A style sheet of three bytes, sent with its length on a connection that stays open.\<close>

definition sheet_httparse :: "u8 list \<Rightarrow> nat \<Rightarrow> string + parsed_response" where
  "sheet_httparse inp m =
     (if starts_with sample_head inp
      then Inr \<lparr>parse_status = Complete (length sample_head), code = Some 200, reason_phrase = None,
                raw_headers = [(bs ''Content-Type'', bs ''text/css''), (bs ''Content-Length'', bs ''3'')]\<rparr>
      else Inl ''Token'')"

definition sheet_server :: stream where
  "sheet_server = \<lparr>rx = [Data (sample_head @ bs ''a''), Data (bs ''{}'')], tx = [], wr = []\<rparr>"

lemma sheet_parser: "parser_progress sheet_httparse"
  by (auto simp: parser_progress_def sheet_httparse_def sample_head_def dest: starts_with_length)

definition sheet_headers :: "header list" where
  "sheet_headers = [(bs ''Content-Type'', bs ''text/css''), (bs ''Content-Length'', bs ''3'')]"

lemma sheet_response:
  "parse_response_head sheet_httparse (sample_head @ xs)
   = Inr \<lparr>status = 200, reason = [], headers = sheet_headers, head_len = length sample_head\<rparr>"
  by (simp add: parse_response_head_def sheet_httparse_def sheet_headers_def from_utf8_def from_utf8_lossy_ascii byte_simps)

lemma sheet_framing: "choose_framing False sheet_headers = Inr (Fixed 3)"
proof -
  have "trim [51] = [51]"
    by (simp add: trim_all_graphic graphic_def)
  moreover have "from_str_radix 64 10 [51] = Some 3"
    by (simp add: from_str_radix_def digit_value_def byte_simps)
  ultimately show ?thesis
    by (simp add: choose_framing_def transfer_codings_def sheet_headers_def header_content_length_def byte_simps cong: option.case_cong)
qed

lemma sheet_reusable:
  "reusable (Fixed 3) False True \<lparr>status = 200, reason = [], headers = sheet_headers, head_len = length sample_head\<rparr> []"
  by (simp add: reusable_def response_keepalive_def connection_close_def sheet_headers_def has_token_def byte_simps)

lemma sheet_send:
  assumes "build_request_head (bs ''GET'') (bs ''a'') (bs ''/'') [] 0 = Inr rq"
  shows "send_request sheet_httparse (bs ''GET'') (bs ''a'') (bs ''/'') [] [] sheet_server
    = Some (Inr (\<lparr>status = 200, reason = [], headers = sheet_headers, head_len = length sample_head\<rparr>, False,
        \<lparr>conn = Some \<lparr>rx = [Data (bs ''{}'')], tx = rq, wr = []\<rparr>, framing = Fixed 3, rinput = bs ''a'',
         completed = None, keepalive = True\<rparr>))"
proof -
  let ?c = "\<lparr>rx = [Data (bs ''{}'')], tx = rq, wr = []\<rparr>"
  have len: "length sample_head = 17" "length (bs ''a'') = 1"
    by (simp_all add: sample_head_def byte_simps)
  have "find_crlf2 [] = None"
    by (simp add: find_crlf2_def)
  then have "read_head_loop sheet_httparse [] (sheet_server\<lparr>tx := rq\<rparr>)
      = read_head_loop sheet_httparse (sample_head @ bs ''a'') ?c"
    using len by (auto simp: read_head_loop.simps [of _ "[]"] sheet_server_def read_def)
  moreover have "read_head_loop sheet_httparse (sample_head @ bs ''a'') ?c
      = Some (Inr (\<lparr>status = 200, reason = [], headers = sheet_headers, head_len = length sample_head\<rparr>, True, bs ''a''), ?c)"
    using len by (simp add: read_head_loop.simps [of _ "sample_head @ bs ''a''"] sample_end sheet_response MAX_HEAD_BYTES_def)
       (simp add: sample_head_def starts_with_def byte_simps)
  moreover have "then_io (write_all rq) (then_io (write_all []) flush) sheet_server = (Inr (), sheet_server\<lparr>tx := rq\<rparr>)"
    by (simp add: io_simps write_all_def flush_def sheet_server_def)
  moreover have "\<not> (eq_ignore_ascii_case (bs ''GET'') (bs ''HEAD'') \<or> no_body_status 200)"
    by (simp add: no_body_status_def byte_simps)
  ultimately show ?thesis
    using assms sheet_framing sheet_reusable by (simp add: send_request_def)
qed

lemma sheet_body:
  "body_stream \<lparr>conn = Some \<lparr>rx = [Data (bs ''{}'')], tx = rq, wr = []\<rparr>, framing = Fixed 3, rinput = bs ''a'',
     completed = None, keepalive = True\<rparr>
   = Return ([Inr (bs ''a''), Inr (bs ''{}'')], \<lparr>conn = None, framing = Fixed 0, rinput = [],
       completed = Some \<lparr>rx = [], tx = rq, wr = []\<rparr>, keepalive = True\<rparr>)"
  by (simp add: body_stream.simps next_chunk.simps next_ready_def read_limit_def read_def finish_def byte_simps)

lemma sheet_finish:
  "finish_response sample_decoders js 200 [] sheet_headers False [Inr (bs ''a''), Inr (bs ''{}'')]
   = (Inr (Buffered \<lparr>resp_status = 200, resp_reason = [],
        resp_headers = filter decoded_header sheet_headers @ [(bs ''Content-Length'', to_string 3)],
        resp_body = bs ''a{}'', null_body = False\<rparr>), True)"
proof -
  have "trim (bs ''text/css'') = bs ''text/css''"
    by (simp add: trim_all_graphic graphic_def byte_simps)
  then have "executable (content_type_of sheet_headers)"
    by (simp add: executable_def content_type_of_def sheet_headers_def byte_simps)
  moreover have "content_encoding_of sheet_headers = []"
    by (simp add: content_encoding_of_def sheet_headers_def byte_simps)
  moreover have "trim [] = []"
    by (simp add: trim_all_graphic)
  ultimately show ?thesis
    by (simp add: finish_response_def is_null_body_status_def MAX_DECODED_BYTES_def decode_body_def decode_one_def byte_simps numeral_3_eq_3)
qed

theorem http1_exchange_parks_clean_witness:
  "\<exists>resp sent c'. http1_exchange sheet_httparse sample_decoders (\<lambda>_. None) (\<lambda>_. 0) (bs ''GET'') (bs ''a'') (bs ''/'') [] []
       sheet_server (pool_key_of sample_url None) []
     = Some (Return (Inr (Buffered resp), [(pool_key_of sample_url None, [c'])]))
     \<and> build_request_head (bs ''GET'') (bs ''a'') (bs ''/'') [] 0 = Inr sent \<and> tx c' = sent
     \<and> resp_body resp = bs ''a{}'' \<and> incoming c' = []"
proof -
  let ?k = "pool_key_of sample_url None"
  obtain sent where sent: "build_request_head (bs ''GET'') (bs ''a'') (bs ''/'') [] 0 = Inr sent"
    using sample_request by blast
  let ?c = "\<lparr>rx = [], tx = sent, wr = []\<rparr>"
  have put: "pool_put (\<lambda>_. 0) ?k c [] = [(?k, [c])]" for c :: stream
    by (simp add: pool_put_def evict_def)
  obtain resp where run: "http1_exchange sheet_httparse sample_decoders (\<lambda>_. None) (\<lambda>_. 0) (bs ''GET'') (bs ''a'') (bs ''/'') [] []
      sheet_server ?k [] = Some (Return (Inr (Buffered resp), [(?k, [?c])]))" and "resp_body resp = bs ''a{}''"
    using sheet_send [OF sent] by (simp add: http1_exchange_def http1_respond_def sheet_body sheet_finish park_def put)
  with http1_exchange_parks_clean [OF sheet_parser, of sample_decoders "\<lambda>_. None" "\<lambda>_. 0" "bs ''GET''" "bs ''a''" "bs ''/''" "[]" "[]"
      sheet_server ?k "[]"] sent put
  show ?thesis
    by (auto simp: incoming_def)
qed

end
